(* ===== verification/Prelude.thy ===== *)
theory Prelude
  imports Complex_Main "HOL-Library.Word" "HOL-Library.Multiset"
begin

text \<open>
  The vocabulary every component of the development shares.

  \<^item> Machine integers: \<open>u64\<close> is \<open>std::uint64_t\<close> and \<open>std::size_t\<close>, \<open>u32\<close> is
    \<open>std::uint32_t\<close>; \<open>+\<close>, \<open>-\<close>, \<open>*\<close> wrap as in C++.
  \<^item> Errors: \<open>takt_error\<close> has one constructor per exception type the library throws,
    and \<open>Library_error\<close> for those of OpenCV and ONNX Runtime, each with the message; a throwing
    function returns \<open>takt_error + 'a\<close>.
  \<^item> \<open>bit_width\<close> and \<open>bit_ceil\<close> of the header \<open><bit>\<close>, with the facts the ring buffer,
    the histogram and the pool sizing need.
  \<^item> Generic lemmas about lists and sorted lists.
\<close>

unbundle bit_operations_syntax

type_synonym u8 = "8 word"
type_synonym u32 = "32 word"
type_synonym u64 = "64 word"

datatype takt_error =
    Invalid_argument string
  | Logic_error string
  | Runtime_error string
  | Out_of_range string
  | Library_error string

named_theorems unat_simps "transfer of word arithmetic to nat"

section \<open>Error results\<close>

definition bind_result :: "'e + 'a \<Rightarrow> ('a \<Rightarrow> 'e + 'b) \<Rightarrow> 'e + 'b" where
  "bind_result m f = (case m of Inl e \<Rightarrow> Inl e | Inr x \<Rightarrow> f x)"

lemma bind_result_simps [simp]:
  "bind_result (Inl e) f = Inl e"
  "bind_result (Inr x) f = f x"
  by (simp_all add: bind_result_def)

lemma bind_result_Inr_iff:
  "bind_result m f = Inr y \<longleftrightarrow> (\<exists>x. m = Inr x \<and> f x = Inr y)"
  by (cases m) auto

lemma bind_result_Inl_iff:
  "bind_result m f = Inl e \<longleftrightarrow> m = Inl e \<or> (\<exists>x. m = Inr x \<and> f x = Inl e)"
  by (cases m) auto

text \<open>A computation that may not return (\<open>None\<close>) or throw (\<open>Inl\<close>), followed by the rest.\<close>

definition then_run :: "('e + 'a) option \<Rightarrow> ('a \<Rightarrow> ('e + 'b) option) \<Rightarrow> ('e + 'b) option" where
  "then_run m f = (case m of None \<Rightarrow> None | Some (Inl e) \<Rightarrow> Some (Inl e) | Some (Inr x) \<Rightarrow> f x)"

lemma then_run_simps [simp]:
  "then_run None f = None"
  "then_run (Some (Inl e)) f = Some (Inl e)"
  "then_run (Some (Inr x)) f = f x"
  by (simp_all add: then_run_def)

section \<open>Decimal numbers\<close>

text \<open>\<open>std::isdigit\<close>; \<open>std::to_string\<close> and \<open>operator<<\<close> on integers.\<close>

definition is_digit :: "char \<Rightarrow> bool" where
  "is_digit c \<longleftrightarrow> 48 \<le> (of_char c :: nat) \<and> (of_char c :: nat) \<le> 57"

definition digit_char :: "nat \<Rightarrow> char" where
  "digit_char d = char_of (48 + d)"

fun show_nat :: "nat \<Rightarrow> string" where
  "show_nat n = (if n < 10 then [digit_char n] else show_nat (n div 10) @ [digit_char (n mod 10)])"

declare show_nat.simps [simp del]

definition show_int :: "int \<Rightarrow> string" where
  "show_int i = (if i < 0 then CHR ''-'' # show_nat (nat (- i)) else show_nat (nat i))"

definition read_nat :: "string \<Rightarrow> nat" where
  "read_nat = foldl (\<lambda>n c. 10 * n + (of_char c - 48)) 0"

lemma of_digit_char: "d < 10 \<Longrightarrow> of_char (digit_char d) = 48 + d"
  by (simp add: digit_char_def of_char_of)

lemma read_show_nat: "read_nat (show_nat n) = n"
proof (induction n rule: show_nat.induct)
  case (1 n)
  show ?case
  proof (cases "n < 10")
    case True
    then show ?thesis by (simp add: show_nat.simps [of n] read_nat_def of_digit_char)
  next
    case False
    have "of_char (digit_char (n mod 10)) - 48 = n mod 10" by (simp add: of_digit_char)
    with 1 False show ?thesis by (simp add: show_nat.simps [of n] read_nat_def)
  qed
qed

lemma show_nat_not_Nil [simp]: "show_nat n \<noteq> []"
  by (simp add: show_nat.simps [of n])

lemma is_digit_char [simp]: "d < 10 \<Longrightarrow> is_digit (digit_char d)"
  by (simp add: is_digit_def of_digit_char)

lemma show_nat_digits: "list_all is_digit (show_nat n)"
  by (induction n rule: show_nat.induct) (subst show_nat.simps, simp)

lemma show_nat_chars: "c \<in> set (show_nat n) \<Longrightarrow> 48 \<le> (of_char c :: nat) \<and> (of_char c :: nat) \<le> 57"
  using show_nat_digits [of n] by (auto simp: list_all_iff is_digit_def)

section \<open>Bit counting of the standard library\<close>

text \<open>\<open>std::bit_width\<close>: the number of bits needed to represent a value.\<close>

fun bit_width :: "nat \<Rightarrow> nat" where
  "bit_width n = (if n = 0 then 0 else Suc (bit_width (n div 2)))"

declare bit_width.simps [simp del]

lemma bit_width_0 [simp]: "bit_width 0 = 0"
  by (simp add: bit_width.simps)

lemma bit_width_pos: "0 < n \<Longrightarrow> bit_width n = Suc (bit_width (n div 2))"
  by (simp add: bit_width.simps)

lemma bit_width_upper: "n < 2 ^ bit_width n"
proof (induction n rule: bit_width.induct)
  case (1 n)
  show ?case
  proof (cases "n = 0")
    case False
    with 1 have "n div 2 < 2 ^ bit_width (n div 2)" by simp
    then have "n < 2 * 2 ^ bit_width (n div 2)" by linarith
    with False show ?thesis by (simp add: bit_width_pos)
  qed simp
qed

lemma bit_width_lower: "0 < n \<Longrightarrow> 2 ^ (bit_width n - 1) \<le> n"
proof (induction n rule: bit_width.induct)
  case (1 n)
  show ?case
  proof (cases "n div 2 = 0")
    case True
    with 1(2) show ?thesis by (simp add: bit_width_pos)
  next
    case False
    then have IH: "2 ^ (bit_width (n div 2) - 1) \<le> n div 2" using 1 by simp
    have "bit_width (n div 2) \<noteq> 0" using False by (simp add: bit_width_pos)
    then have "2 ^ bit_width (n div 2) = 2 * (2::nat) ^ (bit_width (n div 2) - 1)"
      by (metis Suc_diff_1 not_gr_zero power_Suc)
    with IH have "2 ^ bit_width (n div 2) \<le> n" by linarith
    with 1(2) show ?thesis by (simp add: bit_width_pos)
  qed
qed

lemma bit_width_unique:
  assumes "2 ^ k \<le> n" and "n < 2 ^ Suc k"
  shows "bit_width n = Suc k"
proof -
  have n: "0 < n" using assms(1) by (metis less_le_trans pos2 zero_less_power)
  have w: "bit_width n \<noteq> 0" using n by (simp add: bit_width_pos)
  have "(2::nat) ^ (bit_width n - 1) < 2 ^ Suc k"
    using bit_width_lower [OF n] assms(2) by linarith
  then have "bit_width n - 1 < Suc k" by (rule power_less_imp_less_exp [rotated]) simp
  moreover have "(2::nat) ^ k < 2 ^ bit_width n"
    using bit_width_upper [of n] assms(1) by linarith
  then have "k < bit_width n" by (rule power_less_imp_less_exp [rotated]) simp
  ultimately show ?thesis using w by linarith
qed

text \<open>\<open>std::bit_ceil\<close>: the smallest power of two that is not smaller than the value.\<close>

definition bit_ceil :: "nat \<Rightarrow> nat" where
  "bit_ceil n = (if n \<le> 1 then 1 else 2 ^ bit_width (n - 1))"

lemma bit_ceil_ge: "n \<le> bit_ceil n"
  using bit_width_upper [of "n - 1"] by (auto simp: bit_ceil_def)

lemma bit_ceil_power: "\<exists>k. bit_ceil n = 2 ^ k"
  by (auto simp: bit_ceil_def intro: exI [of _ 0])

lemma bit_ceil_pos [simp]: "0 < bit_ceil n"
  by (simp add: bit_ceil_def)

lemma bit_ceil_least:
  assumes "n \<le> 2 ^ k" shows "bit_ceil n \<le> 2 ^ k"
proof (cases "n \<le> 1")
  case False
  then have "2 ^ (bit_width (n - 1) - 1) \<le> n - 1" by (intro bit_width_lower) simp
  with assms False have "(2::nat) ^ (bit_width (n - 1) - 1) < 2 ^ k" by linarith
  then have "bit_width (n - 1) - 1 < k" by (rule power_less_imp_less_exp [rotated]) simp
  then have "bit_width (n - 1) \<le> k" by linarith
  with False show ?thesis by (simp add: bit_ceil_def)
qed (simp add: bit_ceil_def)

section \<open>Machine words\<close>

lemma unat_of_nat_u64: "n < 2 ^ 64 \<Longrightarrow> unat (of_nat n :: u64) = n"
  by (simp add: unat_of_nat take_bit_nat_eq_self)

lemma unat_of_nat_u32: "n < 2 ^ 32 \<Longrightarrow> unat (of_nat n :: u32) = n"
  by (simp add: unat_of_nat take_bit_nat_eq_self)

lemma of_nat_unat_u64 [simp]: "of_nat (unat a) = (a :: u64)"
  by simp

lemma u64_eqI: "unat a = unat b \<Longrightarrow> a = (b :: u64)"
  by (simp add: unsigned_word_eqI)

lemma unat_plus_u64: "unat a + unat b < 2 ^ 64 \<Longrightarrow> unat (a + b :: u64) = unat a + unat b"
  by (simp add: unat_word_ariths)

lemma unat_minus_u64: "b \<le> a \<Longrightarrow> unat (a - b :: u64) = unat a - unat b"
  by (simp add: unat_sub)

lemma unat_mult_u64: "unat a * unat b < 2 ^ 64 \<Longrightarrow> unat (a * b :: u64) = unat a * unat b"
  by (simp add: unat_word_ariths)

lemma u64_le_unat: "a \<le> b \<longleftrightarrow> unat (a :: u64) \<le> unat b"
  by (rule word_le_nat_alt)

lemma u64_less_unat: "a < b \<longleftrightarrow> unat (a :: u64) < unat b"
  by (rule word_less_nat_alt)

lemma unat_min_u64: "unat (min a b :: u64) = min (unat a) (unat b)"
  by (simp add: min_def u64_le_unat)

lemma unat_max_u64: "unat (max a b :: u64) = max (unat a) (unat b)"
  by (simp add: max_def u64_le_unat)

lemma unat_u64_less: "unat (a :: u64) < 2 ^ 64"
  using unsigned_less [of a] by simp

lemma unat_drop_bit_u64: "unat (drop_bit n a :: u64) = unat a div 2 ^ n"
  by (metis drop_bit_eq_div unat_drop_bit_eq)

section \<open>Lists\<close>

lemma nth_list_update_if:
  "i < length xs \<Longrightarrow> xs[i := v] ! j = (if i = j then v else xs ! j)"
  by (cases "i = j") auto

lemma update_nth: "(xs[t := v]) ! i = (if i = t \<and> t < length xs then v else xs ! i)"
  by (cases "t < length xs") (auto simp: list_update_beyond)

lemma index_eq_iff: "c < C \<Longrightarrow> c' < C \<Longrightarrow> r * C + c = r' * C + (c' :: nat) \<longleftrightarrow> r = r' \<and> c = c'"
  by (metis div_mult_self3 div_less add_cancel_right_right mult.commute less_nat_zero_code
      add_left_cancel gr_zeroI)

lemma index_less: "r < R \<Longrightarrow> c < C \<Longrightarrow> r * C + c < R * (C :: nat)"
proof -
  assume "r < R" "c < C"
  then have "r * C + c < Suc r * C" by simp
  also have "\<dots> \<le> R * C" using \<open>r < R\<close> by (intro mult_le_mono1) simp
  finally show ?thesis .
qed

lemma concat_map_if: "concat (map (\<lambda>a. if P a then [h a] else []) xs) = map h (filter P xs)"
  by (induction xs) auto

lemma sorted_wrt_map_gen:
  "sorted_wrt P (map f xs) \<longleftrightarrow> sorted_wrt (\<lambda>x y. P (f x) (f y)) xs"
  by (rule sorted_wrt_map)

text \<open>
  In a sorted list the element at position \<open>k\<close> is the least value below or at which more
  than \<open>k\<close> elements lie.
\<close>

lemma sorted_nth_le_count:
  assumes "sorted xs" and "k < length xs" and "xs ! k \<le> b"
  shows "k < length (filter (\<lambda>x. x \<le> b) xs)"
proof -
  have "\<forall>i \<le> k. xs ! i \<le> b"
    using assms by (meson order_trans sorted_nth_mono)
  then have "\<forall>x \<in> set (take (Suc k) xs). x \<le> b"
    using assms(2) by (auto simp: in_set_conv_nth)
  then have "filter (\<lambda>x. x \<le> b) (take (Suc k) xs) = take (Suc k) xs" by (simp add: filter_id_conv)
  then have "Suc k = length (filter (\<lambda>x. x \<le> b) (take (Suc k) xs))" using assms(2) by simp
  also have "\<dots> \<le> length (filter (\<lambda>x. x \<le> b) (take (Suc k) xs @ drop (Suc k) xs))"
    unfolding filter_append by simp
  finally show ?thesis by simp
qed

lemma sorted_count_nth_le:
  assumes "sorted xs" and "k < length (filter (\<lambda>x. x \<le> b) xs)"
  shows "xs ! k \<le> b"
proof (rule ccontr)
  assume neg: "\<not> xs ! k \<le> b"
  have k: "k < length xs" using assms(2) length_filter_le le_trans less_le_trans by blast
  have "\<forall>x \<in> set (drop k xs). \<not> x \<le> b"
  proof
    fix x assume "x \<in> set (drop k xs)"
    then obtain i where "i < length xs - k" "x = xs ! (k + i)" by (auto simp: in_set_conv_nth)
    then have "xs ! k \<le> x" using assms(1) k by (simp add: sorted_nth_mono)
    with neg show "\<not> x \<le> b" by auto
  qed
  then have "filter (\<lambda>x. x \<le> b) (drop k xs) = []" by (simp add: filter_empty_conv)
  then have "length (filter (\<lambda>x. x \<le> b) (take k xs @ drop k xs)) \<le> k"
    unfolding filter_append by (simp add: le_trans [OF length_filter_le])
  with assms(2) show False by simp
qed

lemma length_filter_mono_strong:
  "(\<And>x. x \<in> set xs \<Longrightarrow> P x \<Longrightarrow> Q x) \<Longrightarrow> length (filter P xs) \<le> length (filter Q xs)"
  by (induction xs) auto

lemma length_filter_sort: "length (filter P (sort xs)) = length (filter P xs)"
  by (metis filter_sort length_sort)

lemma replicate_numeral: "replicate (numeral n) x = x # replicate (pred_numeral n) x"
  by (simp add: numeral_eq_Suc)

section \<open>Reachability\<close>

lemma rtranclp_invariant:
  assumes "R\<^sup>*\<^sup>* a b" and "P a" and "\<And>x y. R x y \<Longrightarrow> P x \<Longrightarrow> P y"
  shows "P b"
  using assms(1,2) by (induction rule: rtranclp_induct) (auto intro: assms(3))

end
