(* ===== verification/FloatModel.thy ===== *)
theory FloatModel
  imports Prelude
begin

text \<open>
  Floating-point arithmetic. A \<open>float\<close> or a \<open>double\<close> of the source is modelled by the real
  number it denotes, and every arithmetic operation of the source by the real operation followed
  by a rounding function: \<open>a - b\<close> on \<open>float\<close>s is \<open>fsub r a b = r (a - b)\<close>. The rounding
  function is an argument of every definition that computes with floats (\<open>r\<close> for
  \<open>float\<close>, \<open>d\<close> for \<open>double\<close>).

  Two kinds of instances are used. \<open>round32\<close> and \<open>round64\<close> are IEEE-754 round-to-nearest-even
  with 24 and 53 bits of precision and gradual underflow, the arithmetic the code runs on.
  \<open>exact_rounding\<close> is the identity: exact arithmetic, for the properties that speak about the
  algorithm and not about its rounding errors.

  The interfaces \<open>float_rounding\<close> and \<open>precise_rounding\<close> list the laws of IEEE rounding the
  components rely on; both concrete formats are shown to satisfy them. Not modelled: infinities
  and NaN (a result above the largest finite number stays finite here), and the sign of zero.
\<close>

type_synonym rounding = "real \<Rightarrow> real"

section \<open>The operations\<close>

definition fadd :: "rounding \<Rightarrow> real \<Rightarrow> real \<Rightarrow> real" where "fadd r a b = r (a + b)"
definition fsub :: "rounding \<Rightarrow> real \<Rightarrow> real \<Rightarrow> real" where "fsub r a b = r (a - b)"
definition fmul :: "rounding \<Rightarrow> real \<Rightarrow> real \<Rightarrow> real" where "fmul r a b = r (a * b)"
definition fdiv :: "rounding \<Rightarrow> real \<Rightarrow> real \<Rightarrow> real" where "fdiv r a b = r (a / b)"
definition fsqrt :: "rounding \<Rightarrow> real \<Rightarrow> real" where "fsqrt r a = r (sqrt a)"

lemmas fops = fadd_def fsub_def fmul_def fdiv_def fsqrt_def

definition exact_rounding :: rounding where "exact_rounding x = x"

lemma exact_rounding_apply [simp]: "exact_rounding x = x"
  by (simp add: exact_rounding_def)

section \<open>The laws of rounding\<close>

locale float_rounding =
  fixes r :: "real \<Rightarrow> real"
  assumes mono: "x \<le> y \<Longrightarrow> r x \<le> r y"
    and idem: "r (r x) = r x"
    and neg: "r (- x) = - r x"
    and one: "r 1 = 1"
    and double: "r (2 * r x) = 2 * r x"
begin

lemma zero: "r 0 = 0"
  using neg [of 0] by simp

lemma nonneg: "0 \<le> x \<Longrightarrow> 0 \<le> r x"
  using mono [of 0 x] zero by simp

lemma le_one: "x \<le> 1 \<Longrightarrow> r x \<le> 1"
  using mono [of x 1] one by simp

lemma le_rounded: "x \<le> y \<Longrightarrow> r y = y \<Longrightarrow> r x \<le> y"
  using mono [of x y] by simp

lemma ge_rounded: "x \<le> y \<Longrightarrow> r x = x \<Longrightarrow> x \<le> r y"
  using mono [of x y] by simp

lemma quotient_unit: "0 \<le> a \<Longrightarrow> a \<le> b \<Longrightarrow> 0 \<le> r (a / b) \<and> r (a / b) \<le> 1"
  by (cases "b = 0") (auto simp: zero intro!: nonneg le_one)

text \<open>
  Rounding a sum of two rounded nonnegative numbers and subtracting a common lower bound never
  undershoots that bound: what keeps the union area of two boxes above their intersection.
\<close>

lemma sum_minus_common:
  assumes "r c = c" and "c \<le> a" and "c \<le> b"
  shows "c \<le> r (r (a + b) - c)"
proof -
  have "2 * c \<le> r (a + b)"
    using assms double [of c] mono [of "2 * c" "a + b"] by simp
  then have "r c \<le> r (r (a + b) - c)" by (intro mono) simp
  with assms(1) show ?thesis by simp
qed

end

locale precise_rounding = float_rounding r for r :: "real \<Rightarrow> real" +
  fixes p K :: nat
  assumes exact_int: "\<bar>i\<bar> \<le> 2 ^ p \<Longrightarrow> r (of_int i) = of_int i"
    and rel_error: "1 / 2 ^ K \<le> \<bar>x\<bar> \<Longrightarrow> \<bar>r x - x\<bar> \<le> \<bar>x\<bar> / 2 ^ p"
begin

lemma exact_nat: "n \<le> 2 ^ p \<Longrightarrow> r (real n) = real n"
proof -
  assume n: "n \<le> 2 ^ p"
  then have "int n \<le> 2 ^ p" by (metis of_nat_le_iff of_nat_numeral of_nat_power)
  then have "r (of_int (int n)) = of_int (int n)" by (intro exact_int) simp
  then show ?thesis by simp
qed

lemma upper: "1 / 2 ^ K \<le> x \<Longrightarrow> r x \<le> x * (1 + 1 / 2 ^ p)"
proof -
  assume x: "1 / 2 ^ K \<le> x"
  have "0 < (1::real) / 2 ^ K" by simp
  with x have "0 < x" by linarith
  with x have "r x - x \<le> x / 2 ^ p" using rel_error [of x] by simp
  then show ?thesis by (simp add: distrib_left)
qed

lemma abs_error: "\<bar>r x - x\<bar> \<le> \<bar>x\<bar> / 2 ^ p + 2 / 2 ^ K"
proof (cases "1 / 2 ^ K \<le> \<bar>x\<bar>")
  case True
  have "0 \<le> 2 / (2::real) ^ K" by simp
  with rel_error [OF True] show ?thesis by linarith
next
  case False
  have unit: "r (1 / 2 ^ K) \<le> 2 / 2 ^ K"
  proof -
    have "r (1 / 2 ^ K) \<le> 1 / 2 ^ K * (1 + 1 / 2 ^ p)" by (rule upper) simp
    also have "\<dots> \<le> 1 / 2 ^ K * 2" by (intro mult_left_mono) auto
    finally show ?thesis by simp
  qed
  have small: "0 \<le> y \<Longrightarrow> y < 1 / 2 ^ K \<Longrightarrow> \<bar>r y - y\<bar> \<le> 2 / 2 ^ K" for y
    using unit mono [of y "1 / 2 ^ K"] nonneg [of y] by (simp add: abs_le_iff)
  have "\<bar>r x - x\<bar> \<le> 2 / 2 ^ K"
  proof (cases "0 \<le> x")
    case True
    with False small [of x] show ?thesis by simp
  next
    case n: False
    have "r (- x) - (- x) = - (r x - x)" by (simp add: neg)
    with False small [of "- x"] n show ?thesis by simp
  qed
  moreover have "0 \<le> \<bar>x\<bar> / 2 ^ p" by simp
  ultimately show ?thesis by linarith
qed

end

text \<open>The two formats of the code: \<open>float\<close> and \<open>double\<close>.\<close>

locale single_rounding = precise_rounding r 24 126 for r :: "real \<Rightarrow> real"

locale double_rounding = precise_rounding d 53 1022 for d :: "real \<Rightarrow> real"

section \<open>Round to nearest, ties to even\<close>

definition round_even :: "real \<Rightarrow> int" where
  "round_even x =
     (let f = \<lfloor>x\<rfloor>; t = x - of_int f
      in if t < 1 / 2 then f else if 1 / 2 < t then f + 1 else if even f then f else f + 1)"

lemma round_even_of_int [simp]: "round_even (of_int i) = i"
  by (simp add: round_even_def)

lemma round_even_cases:
  obtains "round_even x = \<lfloor>x\<rfloor>" "x - of_int \<lfloor>x\<rfloor> \<le> 1 / 2"
  | "round_even x = \<lfloor>x\<rfloor> + 1" "1 / 2 \<le> x - of_int \<lfloor>x\<rfloor>"
  unfolding round_even_def Let_def by (metis linorder_not_less order_less_imp_le)

lemma round_even_err: "\<bar>of_int (round_even x) - x\<bar> \<le> 1 / 2"
  by (rule round_even_cases [of x]) linarith+

lemma round_even_mono: "x \<le> y \<Longrightarrow> round_even x \<le> round_even y"
proof -
  assume le: "x \<le> y"
  then consider "\<lfloor>x\<rfloor> = \<lfloor>y\<rfloor>" | "\<lfloor>x\<rfloor> + 1 \<le> \<lfloor>y\<rfloor>" using floor_mono [OF le] by linarith
  then show ?thesis
  proof cases
    case 1
    with le show ?thesis by (auto simp: round_even_def Let_def)
  next
    case 2
    have "round_even x \<le> \<lfloor>x\<rfloor> + 1" by (simp add: round_even_def Let_def)
    also note 2
    also have "\<lfloor>y\<rfloor> \<le> round_even y" by (simp add: round_even_def Let_def)
    finally show ?thesis .
  qed
qed

lemma round_even_minus: "round_even (- x) = - round_even x"
proof (cases "x = of_int \<lfloor>x\<rfloor>")
  case True
  then show ?thesis by (metis of_int_minus round_even_of_int)
next
  case False
  then have "\<lfloor>- x\<rfloor> = - \<lfloor>x\<rfloor> - 1" by linarith
  then show ?thesis by (auto simp: round_even_def Let_def)
qed

text \<open>
  \<open>ulp_exp P y\<close> is the exponent of the unit in the last place of a number \<open>y\<close> given in units of
  the smallest subnormal, with \<open>P + 1\<close> bits of precision; \<open>rne_int\<close> rounds to that unit.
\<close>

definition ulp_exp :: "nat \<Rightarrow> real \<Rightarrow> nat" where
  "ulp_exp P y = bit_width (nat \<lfloor>\<bar>y\<bar> / 2 ^ P\<rfloor>) - 1"

definition rne_int :: "nat \<Rightarrow> real \<Rightarrow> real" where
  "rne_int P y = (let e = ulp_exp P y in of_int (round_even (y / 2 ^ e)) * 2 ^ e)"

definition rne :: "nat \<Rightarrow> nat \<Rightarrow> rounding" where
  "rne P K x = rne_int P (x * 2 ^ (K + P)) / 2 ^ (K + P)"

definition round32 :: rounding where "round32 = rne 23 126"
definition round64 :: rounding where "round64 = rne 52 1022"

lemma ulp_exp_upper: "\<bar>y\<bar> < 2 ^ (ulp_exp P y + P + 1)"
proof -
  let ?n = "nat \<lfloor>\<bar>y\<bar> / 2 ^ P\<rfloor>"
  have "?n < 2 ^ bit_width ?n" by (rule bit_width_upper)
  also have "\<dots> \<le> 2 ^ (ulp_exp P y + 1)"
    by (intro power_increasing) (simp_all add: ulp_exp_def)
  finally have "?n + 1 \<le> 2 ^ (ulp_exp P y + 1)" by simp
  then have "real (?n + 1) \<le> 2 ^ (ulp_exp P y + 1)"
    by (metis of_nat_le_iff of_nat_numeral of_nat_power)
  moreover have "\<bar>y\<bar> / 2 ^ P < real (?n + 1)" by simp linarith
  ultimately have "\<bar>y\<bar> / 2 ^ P < 2 ^ (ulp_exp P y + 1)" by linarith
  then have "\<bar>y\<bar> < 2 ^ (ulp_exp P y + 1) * 2 ^ P" by (simp add: divide_less_eq)
  then show ?thesis by (simp add: power_add mult_ac)
qed

lemma ulp_exp_lower:
  assumes "0 < ulp_exp P y \<or> 2 ^ P \<le> \<bar>y\<bar>"
  shows "2 ^ (ulp_exp P y + P) \<le> \<bar>y\<bar>"
proof -
  let ?n = "nat \<lfloor>\<bar>y\<bar> / 2 ^ P\<rfloor>"
  have pos: "0 < ?n"
  proof (cases "0 < ulp_exp P y")
    case True
    then show ?thesis unfolding ulp_exp_def by (metis bit_width_0 diff_0_eq_0 not_gr_zero)
  next
    case False
    with assms have "1 \<le> \<bar>y\<bar> / 2 ^ P" by simp
    then show ?thesis by linarith
  qed
  have "2 ^ ulp_exp P y \<le> ?n" unfolding ulp_exp_def by (rule bit_width_lower [OF pos])
  then have "real (2 ^ ulp_exp P y) \<le> real ?n" by (simp only: of_nat_le_iff)
  also have "\<dots> \<le> \<bar>y\<bar> / 2 ^ P" by simp
  finally have "2 ^ ulp_exp P y * 2 ^ P \<le> \<bar>y\<bar>" by (simp add: le_divide_eq)
  then show ?thesis by (simp add: power_add)
qed

lemma bit_width_mono: "a \<le> b \<Longrightarrow> bit_width a \<le> bit_width b"
proof (cases "a = 0")
  case False
  assume "a \<le> b"
  then have "2 ^ (bit_width a - 1) < (2::nat) ^ bit_width b"
    using bit_width_lower [of a] bit_width_upper [of b] False by linarith
  then have "bit_width a - 1 < bit_width b" by (rule power_less_imp_less_exp [rotated]) simp
  then show ?thesis by linarith
qed simp

lemma ulp_exp_mono: "\<bar>y\<bar> \<le> \<bar>z\<bar> \<Longrightarrow> ulp_exp P y \<le> ulp_exp P z"
  unfolding ulp_exp_def
  by (intro diff_le_mono bit_width_mono nat_mono floor_mono divide_right_mono) auto

lemma rne_int_minus: "rne_int P (- y) = - rne_int P y"
  by (simp add: rne_int_def Let_def ulp_exp_def round_even_minus)

text \<open>Numbers with at most \<open>P + 1\<close> significant bits are representable: rounding fixes them.\<close>

lemma rne_int_repr:
  assumes m: "\<bar>m\<bar> \<le> 2 ^ (P + 1)" and y: "y = of_int m * 2 ^ k"
  shows "rne_int P y = y"
proof -
  let ?e = "ulp_exp P y"
  have "\<exists>j::int. y = of_int j * 2 ^ ?e"
  proof (cases "?e \<le> k")
    case True
    then have "y = of_int (m * 2 ^ (k - ?e)) * 2 ^ ?e"
      by (simp add: y flip: power_add)
    then show ?thesis by blast
  next
    case False
    then obtain i where e: "?e = Suc (k + i)" using less_imp_Suc_add [of k ?e] by auto
    have "2 ^ (?e + P) \<le> \<bar>y\<bar>" using False by (intro ulp_exp_lower) simp
    also have "\<bar>y\<bar> = of_int \<bar>m\<bar> * 2 ^ k" by (simp add: y abs_mult)
    finally have "2 ^ (i + P + 1) * 2 ^ k \<le> (of_int \<bar>m\<bar> * 2 ^ k :: real)"
      by (simp add: e power_add mult_ac)
    then have "of_int (2 ^ (i + P + 1)) \<le> (of_int \<bar>m\<bar> :: real)" by simp
    then have ge: "2 ^ (i + P + 1) \<le> \<bar>m\<bar>" by (simp only: of_int_le_iff)
    with m have "(2::int) ^ (i + P + 1) \<le> 2 ^ (P + 1)" by linarith
    then have "i = 0" by (simp add: power_increasing_iff)
    with ge m have "\<bar>m\<bar> = 2 ^ (P + 1)" by simp
    then have "m = 2 ^ (P + 1) \<or> m = - (2 ^ (P + 1))" by linarith
    then have "of_int m = of_int (2 ^ P) * (2 :: real) \<or> of_int m = of_int (- (2 ^ P)) * (2 :: real)"
      by (elim disjE) (simp_all only: of_int_power of_int_minus of_int_mult of_int_numeral power_add power_one_right
        mult_minus_left simp_thms)
    then have "y = of_int (2 ^ P) * 2 ^ Suc k \<or> y = of_int (- (2 ^ P)) * 2 ^ Suc k"
      by (simp only: y power_Suc mult.assoc) (elim disjE, simp_all only: simp_thms mult.assoc)
    moreover have "?e = Suc k" using e \<open>i = 0\<close> by simp
    ultimately have "y = of_int (2 ^ P) * 2 ^ ?e \<or> y = of_int (- (2 ^ P)) * 2 ^ ?e"
      by (simp only:)
    then show ?thesis by (elim disjE) (rule exI, assumption)+
  qed
  then obtain j :: int where j: "y = of_int j * 2 ^ ?e" ..
  have "y / 2 ^ ?e = of_int j"
    by (subst nonzero_divide_eq_eq) (simp, rule j)
  then have "rne_int P y = of_int j * 2 ^ ?e" by (simp add: rne_int_def Let_def)
  also have "\<dots> = y" by (rule j [symmetric])
  finally show ?thesis .
qed

lemma rne_int_form:
  obtains m :: int where "rne_int P y = of_int m * 2 ^ ulp_exp P y" "\<bar>m\<bar> \<le> 2 ^ (P + 1)"
proof
  let ?e = "ulp_exp P y" and ?m = "round_even (y / 2 ^ ulp_exp P y)"
  show "rne_int P y = of_int ?m * 2 ^ ?e" by (simp add: rne_int_def Let_def)
  have "\<bar>y\<bar> \<le> 2 ^ (P + 1) * 2 ^ ?e"
    using ulp_exp_upper [of y P] by (simp add: power_add mult_ac)
  then have "\<bar>y / 2 ^ ?e\<bar> \<le> of_int (2 ^ (P + 1))" by (simp add: divide_le_eq)
  then have "y / 2 ^ ?e \<le> of_int (2 ^ (P + 1))" "of_int (- (2 ^ (P + 1))) \<le> y / 2 ^ ?e"
    unfolding abs_le_iff by simp_all
  then have "?m \<le> 2 ^ (P + 1)" "- (2 ^ (P + 1)) \<le> ?m"
    using round_even_mono round_even_of_int by metis+
  then show "\<bar>?m\<bar> \<le> 2 ^ (P + 1)" by linarith
qed

lemma rne_int_mono_nonneg:
  assumes "0 \<le> y" and "y \<le> z" shows "rne_int P y \<le> rne_int P z"
proof (cases "ulp_exp P y = ulp_exp P z")
  case True
  have "round_even (y / 2 ^ ulp_exp P z) \<le> round_even (z / 2 ^ ulp_exp P z)"
    using assms by (intro round_even_mono divide_right_mono) auto
  with True show ?thesis by (simp add: rne_int_def Let_def)
next
  case False
  with assms ulp_exp_mono [of y z P] have lt: "ulp_exp P y < ulp_exp P z" by simp
  obtain m where m: "rne_int P y = of_int m * 2 ^ ulp_exp P y" "\<bar>m\<bar> \<le> 2 ^ (P + 1)"
    by (rule rne_int_form)
  have "of_int m \<le> (2 ^ (P + 1) :: real)"
    using m(2) by (metis abs_le_D1 of_int_le_iff of_int_numeral of_int_power)
  then have "rne_int P y \<le> 2 ^ (P + 1) * 2 ^ ulp_exp P y"
    unfolding m(1) by (intro mult_right_mono) auto
  also have "\<dots> = 2 ^ (P + (ulp_exp P y + 1))" by (simp add: power_add)
  also have "\<dots> \<le> (2 ^ (P + ulp_exp P z) :: real)" using lt by (intro power_increasing) auto
  also have "\<dots> = of_int (2 ^ P) * 2 ^ ulp_exp P z" by (simp add: power_add)
  also have "\<dots> \<le> of_int (round_even (z / 2 ^ ulp_exp P z)) * 2 ^ ulp_exp P z"
  proof (intro mult_right_mono)
    have "2 ^ (ulp_exp P z + P) \<le> z"
      using ulp_exp_lower [of P z] lt assms by simp
    then have "of_int (2 ^ P) \<le> z / 2 ^ ulp_exp P z"
      by (simp add: le_divide_eq power_add mult_ac)
    then have "2 ^ P \<le> round_even (z / 2 ^ ulp_exp P z)"
      by (metis round_even_mono round_even_of_int)
    then show "of_int (2 ^ P) \<le> (of_int (round_even (z / 2 ^ ulp_exp P z)) :: real)"
      by (simp only: of_int_le_iff)
  qed simp
  finally show ?thesis by (simp add: rne_int_def Let_def)
qed

lemma rne_int_0 [simp]: "rne_int P 0 = 0"
  using rne_int_repr [of 0 P 0 0] by simp

lemma rne_int_mono: "y \<le> z \<Longrightarrow> rne_int P y \<le> rne_int P z"
proof -
  assume le: "y \<le> z"
  consider "0 \<le> y" | "y < 0" "0 \<le> z" | "z < 0" by linarith
  then show ?thesis
  proof cases
    case 1
    with le show ?thesis by (intro rne_int_mono_nonneg)
  next
    case 2
    then show ?thesis
      using rne_int_mono_nonneg [of 0 "- y" P] rne_int_mono_nonneg [of 0 z P]
      by (simp add: rne_int_minus)
  next
    case 3
    with le show ?thesis
      using rne_int_mono_nonneg [of "- z" "- y" P] by (simp add: rne_int_minus)
  qed
qed

lemma rne_repr:
  assumes "\<bar>m\<bar> \<le> 2 ^ (P + 1)" and "x * 2 ^ (K + P) = of_int m * 2 ^ k"
  shows "rne P K x = x"
  using rne_int_repr [OF assms] by (simp add: rne_def)

lemma rne_rel_error:
  assumes "1 / 2 ^ K \<le> \<bar>x\<bar>"
  shows "\<bar>rne P K x - x\<bar> \<le> \<bar>x\<bar> / 2 ^ (P + 1)"
proof -
  let ?y = "x * 2 ^ (K + P)"
  let ?e = "ulp_exp P ?y"
  have "2 ^ P \<le> \<bar>?y\<bar>"
    using assms by (simp add: abs_mult power_add divide_le_eq mult_ac)
  then have low: "2 ^ (?e + P) \<le> \<bar>?y\<bar>" by (intro ulp_exp_lower) simp
  have "\<bar>rne_int P ?y - ?y\<bar> = \<bar>of_int (round_even (?y / 2 ^ ?e)) - ?y / 2 ^ ?e\<bar> * 2 ^ ?e"
  proof -
    have "rne_int P ?y - ?y = (of_int (round_even (?y / 2 ^ ?e)) - ?y / 2 ^ ?e) * 2 ^ ?e"
      by (simp add: rne_int_def Let_def left_diff_distrib)
    then show ?thesis by (simp only: abs_mult) simp
  qed
  also have "\<dots> \<le> 1 / 2 * 2 ^ ?e" by (intro mult_right_mono round_even_err) simp
  also have "\<dots> \<le> \<bar>?y\<bar> / 2 ^ (P + 1)"
    using low by (simp add: le_divide_eq power_add mult_ac)
  finally have "\<bar>rne_int P ?y - ?y\<bar> \<le> \<bar>?y\<bar> / 2 ^ (P + 1)" .
  then have "\<bar>rne_int P ?y - ?y\<bar> / 2 ^ (K + P) \<le> \<bar>?y\<bar> / 2 ^ (P + 1) / 2 ^ (K + P)"
    by (intro divide_right_mono) auto
  moreover have "\<bar>rne P K x - x\<bar> = \<bar>rne_int P ?y - ?y\<bar> / 2 ^ (K + P)"
    by (simp add: rne_def diff_divide_distrib [symmetric] flip: abs_divide)
      (simp add: field_simps)
  moreover have "\<bar>?y\<bar> / 2 ^ (P + 1) / 2 ^ (K + P) = \<bar>x\<bar> / 2 ^ (P + 1)"
    by (simp add: abs_mult)
  ultimately show ?thesis by simp
qed

lemma rne_precise: "precise_rounding (rne P K) (P + 1) K"
proof
  fix x y :: real assume "x \<le> y"
  then show "rne P K x \<le> rne P K y"
    unfolding rne_def by (intro divide_right_mono rne_int_mono mult_right_mono) auto
next
  fix x
  obtain m where m: "rne_int P (x * 2 ^ (K + P)) = of_int m * 2 ^ ulp_exp P (x * 2 ^ (K + P))"
    "\<bar>m\<bar> \<le> 2 ^ (P + 1)" by (rule rne_int_form)
  show "rne P K (rne P K x) = rne P K x"
    by (rule rne_repr [OF m(2), where k = "ulp_exp P (x * 2 ^ (K + P))"])
      (unfold rne_def m(1), simp)
  show "rne P K (2 * rne P K x) = 2 * rne P K x"
    by (rule rne_repr [OF m(2), where k = "Suc (ulp_exp P (x * 2 ^ (K + P)))"])
      (unfold rne_def m(1), simp)
  show "rne P K (- x) = - rne P K x"
    using rne_int_minus [of P "x * 2 ^ (K + P)"] by (simp add: rne_def)
next
  show "rne P K 1 = 1"
    by (rule rne_repr [of 1 _ _ _ "K + P"]) (simp_all del: power_Suc)
next
  fix i :: int assume "\<bar>i\<bar> \<le> 2 ^ (P + 1)"
  then show "rne P K (of_int i) = of_int i"
    by (rule rne_repr [where k = "K + P"]) simp
next
  fix x :: real assume "1 / 2 ^ K \<le> \<bar>x\<bar>"
  then show "\<bar>rne P K x - x\<bar> \<le> \<bar>x\<bar> / 2 ^ (P + 1)" by (rule rne_rel_error)
qed

interpretation f32: single_rounding round32
  using rne_precise [of 23 126] by (simp add: single_rounding_def round32_def)

interpretation f64: double_rounding round64
  using rne_precise [of 52 1022] by (simp add: double_rounding_def round64_def)

interpretation exact32: single_rounding exact_rounding
  by unfold_locales simp_all

interpretation exact64: double_rounding exact_rounding
  by unfold_locales simp_all

end
