(* ===== verification/LatencyHistogram.thy ===== *)
theory LatencyHistogram
  imports FloatModel
begin

text \<open>
  \<open>core/latency_histogram.hpp\<close> and \<open>src/core/latency_histogram.cpp\<close>: the log-linear latency
  histogram. The bucket arithmetic is on \<open>64 word\<close>, as in the code; the histogram is a record
  with the array of buckets as a list of \<open>kBucketCount\<close> counters. The specification state is the
  list of values recorded so far (\<open>represents\<close>).
\<close>

section \<open>Constants and state\<close>

definition kSubBucketBits :: nat where "kSubBucketBits = 7"
definition kSubBucketCount :: u64 where "kSubBucketCount = push_bit kSubBucketBits 1"
definition kHalfSubBucketCount :: u64 where "kHalfSubBucketCount = kSubBucketCount div 2"
definition kMaxValueUs :: u64 where "kMaxValueUs = push_bit 40 1 - 1"
definition kBucketCount :: nat where "kBucketCount = 2240"
definition kUsPerMs :: real where "kUsPerMs = 1000"

record latency_histogram =
  hist_buckets :: "u64 list"
  hist_count :: u64
  hist_sum_us :: u64
  hist_min_us :: u64
  hist_max_us :: u64

record latency_summary =
  sum_count :: u64
  mean_ms :: real
  min_ms :: real
  p50_ms :: real
  p90_ms :: real
  p95_ms :: real
  p99_ms :: real
  p999_ms :: real
  max_ms :: real

definition empty_summary :: latency_summary where
  "empty_summary = \<lparr>sum_count = 0, mean_ms = 0, min_ms = 0, p50_ms = 0, p90_ms = 0, p95_ms = 0,
     p99_ms = 0, p999_ms = 0, max_ms = 0\<rparr>"

definition empty_histogram :: latency_histogram where
  "empty_histogram = \<lparr>hist_buckets = replicate kBucketCount 0, hist_count = 0, hist_sum_us = 0,
     hist_min_us = -1, hist_max_us = 0\<rparr>"

section \<open>Operations\<close>

definition bucket_index :: "u64 \<Rightarrow> u64" where
  "bucket_index value0 =
     (let value_us = min value0 kMaxValueUs
      in if value_us < kSubBucketCount then value_us
         else let msb = of_nat (bit_width (unat value_us)) - 1;
                  shift = msb - of_nat (kSubBucketBits - 1);
                  top = drop_bit (unat shift) value_us
              in kSubBucketCount + (shift - 1) * kHalfSubBucketCount + (top - kHalfSubBucketCount))"

definition bucket_upper_bound :: "u64 \<Rightarrow> u64" where
  "bucket_upper_bound index =
     (if index < kSubBucketCount then index
      else let offset = index - kSubBucketCount;
               shift = offset div kHalfSubBucketCount + 1;
               top = offset mod kHalfSubBucketCount + kHalfSubBucketCount
           in push_bit (unat shift) (top + 1) - 1)"

text \<open>
  The compare-and-swap loops. Each attempt of \<open>compare_exchange_weak\<close> either stores, when the
  atomic still holds the value read before and the attempt does not fail spuriously, or re-reads
  the atomic. \<open>attempts\<close> lists, per attempt, the value the atomic holds at that moment and
  whether the attempt fails spuriously; \<open>None\<close> means the list ended before the loop did. The
  result is the value the atomic holds when the loop ends.
\<close>

fun update_min_loop :: "u64 \<Rightarrow> u64 \<Rightarrow> (u64 \<times> bool) list \<Rightarrow> u64 option" where
  "update_min_loop value current attempts =
     (if value < current
      then (case attempts of
              [] \<Rightarrow> None
            | (held, spurious) # rest \<Rightarrow>
                if held = current \<and> \<not> spurious then Some value
                else update_min_loop value held rest)
      else Some current)"

fun update_max_loop :: "u64 \<Rightarrow> u64 \<Rightarrow> (u64 \<times> bool) list \<Rightarrow> u64 option" where
  "update_max_loop value current attempts =
     (if current < value
      then (case attempts of
              [] \<Rightarrow> None
            | (held, spurious) # rest \<Rightarrow>
                if held = current \<and> \<not> spurious then Some value
                else update_max_loop value held rest)
      else Some current)"

declare update_min_loop.simps [simp del] update_max_loop.simps [simp del]

text \<open>Without contention the first attempt succeeds.\<close>

definition update_min :: "u64 \<Rightarrow> u64 \<Rightarrow> u64" where
  "update_min target value = (if value < target then value else target)"

definition update_max :: "u64 \<Rightarrow> u64 \<Rightarrow> u64" where
  "update_max target value = (if target < value then value else target)"

definition record_us :: "latency_histogram \<Rightarrow> u64 \<Rightarrow> latency_histogram" where
  "record_us h microseconds =
     (let i = unat (bucket_index microseconds)
      in h\<lparr>hist_buckets := (hist_buckets h)[i := hist_buckets h ! i + 1],
           hist_count := hist_count h + 1,
           hist_sum_us := hist_sum_us h + microseconds,
           hist_min_us := update_min (hist_min_us h) microseconds,
           hist_max_us := update_max (hist_max_us h) microseconds\<rparr>)"

text \<open>
  \<open>record\<close> takes nanoseconds; \<open>duration_cast\<close> truncates towards zero, and a negative latency
  counts as 0.
\<close>

definition duration_cast_us :: "int \<Rightarrow> int" where
  "duration_cast_us ns = sgn ns * (\<bar>ns\<bar> div 1000)"

definition record_latency :: "latency_histogram \<Rightarrow> int \<Rightarrow> latency_histogram" where
  "record_latency h latency =
     (let us = duration_cast_us latency in record_us h (if us < 0 then 0 else of_int us))"

definition reset_histogram :: "latency_histogram \<Rightarrow> latency_histogram" where
  "reset_histogram h =
     h\<lparr>hist_buckets := map (\<lambda>_. 0) (hist_buckets h), hist_count := 0, hist_sum_us := 0,
       hist_min_us := -1, hist_max_us := 0\<rparr>"

definition clamp :: "real \<Rightarrow> real \<Rightarrow> real \<Rightarrow> real" where
  "clamp v lo hi = (if v < lo then lo else if hi < v then hi else v)"

definition percentile_rank :: "rounding \<Rightarrow> real \<Rightarrow> u64 \<Rightarrow> u64" where
  "percentile_rank d q total_count =
     max 1 (of_int \<lceil>fmul d (clamp q 0 1) (d (real (unat total_count)))\<rceil>)"

text \<open>The scan over the buckets: index and count of the first bucket that reaches the rank.\<close>

fun percentile_scan :: "u64 list \<Rightarrow> nat \<Rightarrow> u64 \<Rightarrow> u64 \<Rightarrow> nat option" where
  "percentile_scan [] i cumulative rank = None"
| "percentile_scan (b # bs) i cumulative rank =
     (if rank \<le> cumulative + b then Some i
      else percentile_scan bs (Suc i) (cumulative + b) rank)"

definition percentile_us :: "rounding \<Rightarrow> latency_histogram \<Rightarrow> real \<Rightarrow> u64" where
  "percentile_us d h q =
     (case percentile_scan (hist_buckets h) 0 0 (percentile_rank d q (hist_count h)) of
        Some i \<Rightarrow> min (bucket_upper_bound (of_nat i)) (hist_max_us h)
      | None \<Rightarrow> hist_max_us h)"

definition percentile_ms :: "rounding \<Rightarrow> latency_histogram \<Rightarrow> real \<Rightarrow> real" where
  "percentile_ms d h q =
     (if hist_count h = 0 then 0 else fdiv d (d (real (unat (percentile_us d h q)))) kUsPerMs)"

definition summarize :: "rounding \<Rightarrow> latency_histogram \<Rightarrow> latency_summary" where
  "summarize d h =
     (if hist_count h = 0 then empty_summary
      else \<lparr>sum_count = hist_count h,
            mean_ms = fdiv d (fdiv d (d (real (unat (hist_sum_us h)))) (d (real (unat (hist_count h))))) kUsPerMs,
            min_ms = fdiv d (d (real (unat (hist_min_us h)))) kUsPerMs,
            p50_ms = percentile_ms d h (d (1 / 2)),
            p90_ms = percentile_ms d h (d (9 / 10)),
            p95_ms = percentile_ms d h (d (95 / 100)),
            p99_ms = percentile_ms d h (d (99 / 100)),
            p999_ms = percentile_ms d h (d (999 / 1000)),
            max_ms = fdiv d (d (real (unat (hist_max_us h)))) kUsPerMs\<rparr>)"

section \<open>Bucket arithmetic over the naturals\<close>

lemma hist_const_simps:
  "kSubBucketCount = 128" "kHalfSubBucketCount = 64" "kMaxValueUs = 1099511627775"
  "kSubBucketBits = 7" "kBucketCount = 2240"
  by (simp_all add: kSubBucketCount_def kSubBucketBits_def kHalfSubBucketCount_def kMaxValueUs_def
      kBucketCount_def push_bit_eq_mult)

text \<open>The decomposition of a value above 127: \<open>top\<close> has seven significant bits.\<close>

lemma bucket_split:
  assumes "128 \<le> n" and "n < 2 ^ 40"
  obtains s where "bit_width n = s + 7" "1 \<le> s" "s \<le> 33"
    "64 \<le> n div 2 ^ s" "n div 2 ^ s < 128"
proof -
  define s where "s = bit_width n - 7"
  have lo: "2 ^ (bit_width n - 1) \<le> n" and hi: "n < 2 ^ bit_width n"
    using assms bit_width_lower [of n] bit_width_upper [of n] by simp_all
  have "(2::nat) ^ 7 < 2 ^ bit_width n" using hi assms by simp
  then have b7: "7 < bit_width n" by (rule power_less_imp_less_exp [rotated]) simp
  have "(2::nat) ^ (bit_width n - 1) < 2 ^ 40" using lo assms by linarith
  then have "bit_width n - 1 < 40" by (rule power_less_imp_less_exp [rotated]) simp
  then have "s \<le> 33" by (simp add: s_def)
  have w: "bit_width n = s + 7" using b7 by (simp add: s_def)
  have "64 * 2 ^ s = (2::nat) ^ (bit_width n - 1)" by (simp add: w power_add)
  with lo have "64 * 2 ^ s \<le> n" by simp
  then have t1: "64 \<le> n div 2 ^ s" by (simp add: less_eq_div_iff_mult_less_eq)
  have "n < 128 * 2 ^ s" using hi by (simp add: w power_add)
  then have "n div 2 ^ s < 128" by (simp add: less_mult_imp_div_less)
  then show ?thesis using that [OF w _ \<open>s \<le> 33\<close> t1] b7 by (simp add: s_def)
qed

lemma bucket_index_small: "value < 128 \<Longrightarrow> bucket_index value = value"
  unfolding bucket_index_def Let_def hist_const_simps
  by (subst if_P) (simp_all add: min_def u64_less_unat u64_le_unat)

lemma bucket_index_large:
  assumes v: "128 \<le> unat v" "unat v < 2 ^ 40" and w: "bit_width (unat v) = s + 7"
    and s: "1 \<le> s" "s \<le> 33" and t: "64 \<le> unat v div 2 ^ s" "unat v div 2 ^ s < 128"
  shows "unat (bucket_index v) = 64 * s + unat v div 2 ^ s"
proof -
  have min: "min v kMaxValueUs = v" using v(2)
    by (simp add: min_def u64_le_unat hist_const_simps)
  have shift: "of_nat (bit_width (unat v)) - 1 - of_nat (kSubBucketBits - 1) = (of_nat s :: u64)"
    by (simp add: w kSubBucketBits_def)
  have us: "unat (of_nat s :: u64) = s" using s by (intro unat_of_nat_u64) simp
  have top: "unat (drop_bit s v) = unat v div 2 ^ s" by (rule unat_drop_bit_u64)
  have "bucket_index v = 128 + (of_nat s - 1) * 64 + (drop_bit s v - 64)"
    using v(1) unfolding bucket_index_def min Let_def shift
    by (simp add: us hist_const_simps u64_less_unat)
  also have "\<dots> = of_nat (64 * s + unat v div 2 ^ s)"
  proof -
    have "drop_bit s v = of_nat (unat v div 2 ^ s)" by (metis top of_nat_unat_u64)
    then show ?thesis by (simp add: algebra_simps)
  qed
  finally have "bucket_index v = of_nat (64 * s + unat v div 2 ^ s)" .
  then show ?thesis using s t by (simp only:) (rule unat_of_nat_u64, simp)
qed

lemma bucket_index_clamp:
  assumes "2 ^ 40 \<le> unat v" shows "bucket_index v = bucket_index kMaxValueUs"
proof -
  have "kMaxValueUs \<le> v" using assms by (simp add: u64_le_unat hist_const_simps)
  then show ?thesis by (simp add: bucket_index_def min_def)
qed

lemma bucket_cases:
  assumes "unat v < 2 ^ 40"
  obtains (small) "unat v < 128" "unat (bucket_index v) = unat v"
  | (large) s where "1 \<le> s" "s \<le> 33" "64 \<le> unat v div 2 ^ s" "unat v div 2 ^ s < 128"
      "unat (bucket_index v) = 64 * s + unat v div 2 ^ s"
proof (cases "unat v < 128")
  case True
  then have "v < 128" by (simp add: u64_less_unat)
  with True show ?thesis by (intro small) (simp_all add: bucket_index_small)
next
  case False
  then have v: "128 \<le> unat v" by simp
  obtain s where s: "bit_width (unat v) = s + 7" "1 \<le> s" "s \<le> 33"
    "64 \<le> unat v div 2 ^ s" "unat v div 2 ^ s < 128"
    using bucket_split [OF v assms] by blast
  then show ?thesis using large [OF s(2-5) bucket_index_large [OF v assms s]] by simp
qed

lemma upper_bound_small: "i < 128 \<Longrightarrow> unat (bucket_upper_bound (of_nat i)) = i"
  by (simp add: bucket_upper_bound_def hist_const_simps u64_less_unat unat_of_nat_u64)

lemma upper_bound_large:
  assumes s: "1 \<le> s" "s \<le> 33" and t: "64 \<le> t" "t < 128" and i: "i = 64 * s + t"
  shows "unat (bucket_upper_bound (of_nat i)) = (t + 1) * 2 ^ s - 1"
proof -
  have i_ge: "128 \<le> i" and i_less: "i < 2 ^ 64" using s t i by simp_all
  have big: "\<not> (of_nat i :: u64) < kSubBucketCount"
    using i_ge by (simp add: hist_const_simps u64_less_unat unat_of_nat_u64 [OF i_less])
  have off: "(of_nat i :: u64) - kSubBucketCount = of_nat (i - 128)"
    using i_ge by (simp add: hist_const_simps of_nat_diff)
  have div: "(i - 128) div 64 = s - 1" "(i - 128) mod 64 = t - 64"
  proof -
    have "i - 128 = (t - 64) + 64 * (s - 1)" using s t i by simp
    with t show "(i - 128) div 64 = s - 1" "(i - 128) mod 64 = t - 64"
      by (simp_all only: div_mult_self2 mod_mult_self2, simp_all)
  qed
  have sh: "of_nat (i - 128) div kHalfSubBucketCount + 1 = (of_nat s :: u64)"
  proof (rule u64_eqI)
    have "unat (of_nat (i - 128) div 64 :: u64) = s - 1"
      using i_less by (simp add: unat_div_distrib unat_of_nat_u64 div)
    then show "unat (of_nat (i - 128) div kHalfSubBucketCount + 1 :: u64) = unat (of_nat s :: u64)"
      using s by (simp add: hist_const_simps unat_plus_u64 unat_of_nat_u64)
  qed
  have tp: "of_nat (i - 128) mod kHalfSubBucketCount + kHalfSubBucketCount = (of_nat t :: u64)"
  proof (rule u64_eqI)
    have "unat (of_nat (i - 128) mod 64 :: u64) = t - 64"
      using i_less by (simp add: unat_mod_distrib unat_of_nat_u64 div)
    then show "unat (of_nat (i - 128) mod kHalfSubBucketCount + kHalfSubBucketCount :: u64) =
        unat (of_nat t :: u64)"
      using t by (simp add: hist_const_simps unat_plus_u64 unat_of_nat_u64)
  qed
  have us: "unat (of_nat s :: u64) = s" using s by (simp add: unat_of_nat_u64)
  have "bucket_upper_bound (of_nat i) = push_bit s (of_nat t + 1) - 1"
    unfolding bucket_upper_bound_def using big by (simp only: if_False Let_def off sh tp us)
  also have "\<dots> = of_nat ((t + 1) * 2 ^ s - 1)"
  proof -
    have "0 < (t + 1) * 2 ^ s" by (intro mult_pos_pos) simp_all
    then have "1 \<le> (t + 1) * 2 ^ s" by (simp only: One_nat_def Suc_le_eq)
    then show ?thesis by (simp only: of_nat_diff push_bit_eq_mult) (simp add: algebra_simps)
  qed
  finally have eq: "bucket_upper_bound (of_nat i) = of_nat ((t + 1) * 2 ^ s - 1)" .
  have "(t + 1) * 2 ^ s \<le> 128 * 2 ^ 33"
    using s t by (intro mult_le_mono power_increasing) auto
  then have "(t + 1) * 2 ^ s - 1 < 2 ^ 64" by simp
  then show ?thesis unfolding eq by (rule unat_of_nat_u64)
qed

section \<open>Correctness of the bucket arithmetic\<close>

lemma bucket_index_less: "unat (bucket_index v) < 2240"
proof (cases "unat v < 2 ^ 40")
  case True
  then show ?thesis by (cases rule: bucket_cases) linarith+
next
  case False
  have "unat kMaxValueUs < 2 ^ 40" by (simp add: hist_const_simps)
  then have "unat (bucket_index kMaxValueUs) < 2240" by (cases rule: bucket_cases) linarith+
  with False show ?thesis by (simp add: bucket_index_clamp)
qed

lemma bucket_width_arith:
  "v = A + m \<Longrightarrow> m < B \<Longrightarrow> 64 * B \<le> A \<Longrightarrow> v \<le> A + B - 1 \<and> 64 * (A + B - 1 - v) \<le> (v :: nat)"
  by linarith

lemma bucket_upper_bound_ge:
  assumes "unat v < 2 ^ 40"
  shows "unat v \<le> unat (bucket_upper_bound (bucket_index v))"
    and "64 * (unat (bucket_upper_bound (bucket_index v)) - unat v) \<le> unat v"
proof -
  let ?i = "unat (bucket_index v)" and ?u = "unat (bucket_upper_bound (bucket_index v))"
  have "unat v \<le> ?u \<and> 64 * (?u - unat v) \<le> unat v"
    using assms
  proof (cases rule: bucket_cases)
    case small
    then have "unat (bucket_upper_bound (of_nat ?i)) = ?i" by (intro upper_bound_small) simp
    then have "?u = ?i" by simp
    with small show ?thesis by simp
  next
    case (large s)
    let ?t = "unat v div 2 ^ s"
    have u: "?u = (?t + 1) * 2 ^ s - 1"
      using upper_bound_large [OF large(1-4) large(5)] by simp
    have "unat v = ?t * 2 ^ s + unat v mod 2 ^ s" by (simp only: div_mult_mod_eq)
    moreover have "unat v mod 2 ^ s < 2 ^ s" by simp
    moreover have "64 * 2 ^ s \<le> ?t * 2 ^ s" using large(3) by simp
    ultimately show ?thesis unfolding u Suc_eq_plus1 [symmetric] mult_Suc
      by (subst (1 2) add.commute) (rule bucket_width_arith)
  qed
  then show "unat v \<le> ?u" and "64 * (?u - unat v) \<le> unat v" by simp_all
qed

lemma bucket_index_mono:
  assumes "v \<le> w" shows "unat (bucket_index v) \<le> unat (bucket_index w)"
proof -
  have main: "unat (bucket_index v) \<le> unat (bucket_index w)"
    if vw: "unat v \<le> unat w" and w: "unat w < 2 ^ 40" for v w
  proof -
    have v: "unat v < 2 ^ 40" using vw w by simp
    show ?thesis using v
    proof (cases rule: bucket_cases)
      case small
      note sm = small
      show ?thesis using w
        by (cases rule: bucket_cases) (use sm vw in linarith)+
    next
      case (large s)
      note lv = large
      show ?thesis using w
      proof (cases rule: bucket_cases)
        case small
        have "64 * 2 ^ 1 \<le> 64 * (2::nat) ^ s" using lv(1) by (intro mult_le_mono2 power_increasing) auto
        also have "\<dots> \<le> unat v" using lv(3) by (simp add: less_eq_div_iff_mult_less_eq)
        finally show ?thesis using small vw by simp
      next
        case (large s')
        show ?thesis
        proof (cases "s = s'")
          case True
          then show ?thesis using lv(5) large(5) vw by (simp add: div_le_mono)
        next
          case False
          have "s < s'"
          proof (rule ccontr)
            assume "\<not> s < s'"
            with False have "s' + 1 \<le> s" by simp
            then have "64 * 2 ^ (s' + 1) \<le> 64 * (2::nat) ^ s"
              by (intro mult_le_mono2 power_increasing) auto
            also have "\<dots> \<le> unat v" using lv(3) by (simp add: less_eq_div_iff_mult_less_eq)
            finally have "128 * 2 ^ s' \<le> unat w" using vw by simp
            then have "128 \<le> unat w div 2 ^ s'" by (simp add: less_eq_div_iff_mult_less_eq)
            with large(4) show False by simp
          qed
          with lv large show ?thesis by linarith
        qed
      qed
    qed
  qed
  have clamp: "bucket_index x = bucket_index (min x kMaxValueUs)" for x
    by (simp add: bucket_index_def)
  have "unat (min v kMaxValueUs) \<le> unat (min w kMaxValueUs)"
    using assms by (simp add: unat_min_u64 u64_le_unat min_le_iff_disj)
  moreover have "unat (min w kMaxValueUs) < 2 ^ 40"
    by (simp add: unat_min_u64 hist_const_simps)
  ultimately show ?thesis using main clamp by metis
qed

lemma bucket_index_upper_bound:
  assumes "i < 2240"
  shows "bucket_index (bucket_upper_bound (of_nat i)) = of_nat i"
    and "unat (bucket_upper_bound (of_nat i)) < 2 ^ 40"
proof -
  let ?u = "bucket_upper_bound (of_nat i)"
  have "bucket_index ?u = of_nat i \<and> unat ?u < 2 ^ 40"
  proof (cases "i < 128")
    case True
    then have "unat ?u = i" by (rule upper_bound_small)
    moreover from this True have "bucket_index ?u = ?u"
      by (intro bucket_index_small) (simp add: u64_less_unat)
    moreover have "?u = of_nat i" using \<open>unat ?u = i\<close> by (metis of_nat_unat_u64)
    ultimately show ?thesis using True by simp
  next
    case False
    obtain q k where qk: "i = 64 * q + k" "k < 64"
      by (metis mult_div_mod_eq mod_less_divisor zero_less_numeral)
    obtain s t where st_def: "s = q - 1" "t = k + 64" by simp
    have q: "2 \<le> q" "q \<le> 34" using qk False assms by linarith+
    have st: "1 \<le> s" "s \<le> 33" "64 \<le> t" "t < 128" "i = 64 * s + t"
      using q qk unfolding st_def by linarith+
    have u: "unat ?u = (t + 1) * 2 ^ s - 1" by (rule upper_bound_large [OF st])
    have pos: "1 \<le> (2::nat) ^ s" by simp
    have lo: "t * 2 ^ s \<le> unat ?u" and hi: "unat ?u < (t + 1) * 2 ^ s"
      unfolding u Suc_eq_plus1 [symmetric] mult_Suc using pos by linarith+
    have div: "unat ?u div 2 ^ s = t" using lo hi by (intro div_nat_eqI) (simp_all add: mult.commute)
    have "(t + 1) * 2 ^ s \<le> 128 * 2 ^ 33"
      using st by (intro mult_le_mono power_increasing) auto
    with hi have u40: "unat ?u < 2 ^ 40" by simp
    have l64: "2 ^ (s + 6) \<le> unat ?u"
      by (rule order_trans [OF _ lo]) (use st in \<open>simp add: power_add\<close>)
    have "(t + 1) * 2 ^ s \<le> 128 * 2 ^ s" using st by (intro mult_le_mono1) simp
    also have "\<dots> = 2 ^ Suc (s + 6)" by (simp add: power_add)
    finally have "unat ?u < 2 ^ Suc (s + 6)" by (rule less_le_trans [OF hi])
    with l64 have w: "bit_width (unat ?u) = s + 7" using bit_width_unique by fastforce
    have "2 ^ (1 + 6) \<le> (2::nat) ^ (s + 6)" using st by (intro power_increasing) auto
    with l64 have "128 \<le> unat ?u" by simp
    then have "unat (bucket_index ?u) = i"
      using bucket_index_large [OF _ u40 w] st div by simp
    then show ?thesis using u40 by (metis of_nat_unat_u64)
  qed
  then show "bucket_index ?u = of_nat i" and "unat ?u < 2 ^ 40" by simp_all
qed

lemma le_upper_bound_of_index_le:
  assumes "unat x < 2 ^ 40" and "unat (bucket_index x) \<le> i" and "i < 2240"
  shows "unat x \<le> unat (bucket_upper_bound (of_nat i))"
proof (rule ccontr)
  assume neg: "\<not> ?thesis"
  then have "unat (bucket_index (bucket_upper_bound (of_nat i))) \<le> unat (bucket_index x)"
    by (intro bucket_index_mono) (simp add: u64_le_unat)
  then have "unat (of_nat i :: u64) \<le> unat (bucket_index x)"
    by (simp only: bucket_index_upper_bound(1) [OF assms(3)])
  moreover have "unat (of_nat i :: u64) = i" using assms(3) by (intro unat_of_nat_u64) simp
  ultimately have "unat (bucket_index x) = i" using assms(2) by linarith
  then have "bucket_index x = of_nat i" by (metis of_nat_unat_u64)
  with bucket_upper_bound_ge(1) [OF assms(1)] neg show False by simp
qed

lemma upper_bound_mono:
  assumes "i \<le> j" and "j < 2240"
  shows "unat (bucket_upper_bound (of_nat i)) \<le> unat (bucket_upper_bound (of_nat j))"
proof (rule le_upper_bound_of_index_le)
  have i: "i < 2240" using assms by simp
  show "unat (bucket_upper_bound (of_nat i)) < 2 ^ 40" using i by (rule bucket_index_upper_bound)
  have "unat (of_nat i :: u64) = i" using i by (intro unat_of_nat_u64) simp
  then show "unat (bucket_index (bucket_upper_bound (of_nat i))) \<le> j"
    using bucket_index_upper_bound(1) [OF i] assms by simp
qed (rule assms)

section \<open>Recording refines appending to a list of samples\<close>

definition in_bucket :: "nat \<Rightarrow> u64 list \<Rightarrow> nat" where
  "in_bucket i xs = length (filter (\<lambda>x. unat (bucket_index x) = i) xs)"

definition represents :: "latency_histogram \<Rightarrow> u64 list \<Rightarrow> bool" where
  "represents h xs \<longleftrightarrow>
     hist_buckets h = map (\<lambda>i. of_nat (in_bucket i xs)) [0..<kBucketCount] \<and>
     hist_count h = of_nat (length xs) \<and>
     hist_sum_us h = sum_list xs \<and>
     hist_min_us h = foldr min xs (-1) \<and>
     hist_max_us h = foldr max xs 0"

lemma in_bucket_Cons:
  "in_bucket i (x # xs) = (if unat (bucket_index x) = i then 1 else 0) + in_bucket i xs"
  by (simp add: in_bucket_def)

lemma represents_empty: "represents empty_histogram []"
  by (simp add: represents_def empty_histogram_def in_bucket_def map_replicate_const)

lemma update_min_eq: "update_min t v = min v t"
  by (auto simp: update_min_def min_def)

lemma update_max_eq: "update_max t v = max v t"
  by (auto simp: update_max_def max_def)

lemma represents_record:
  assumes "represents h xs" shows "represents (record_us h x) (x # xs)"
proof -
  let ?i = "unat (bucket_index x)"
  have i: "?i < kBucketCount" using bucket_index_less by (simp add: hist_const_simps)
  have "hist_buckets (record_us h x) = map (\<lambda>i. of_nat (in_bucket i (x # xs))) [0..<kBucketCount]"
    using assms i
    by (intro nth_equalityI)
      (auto simp: represents_def record_us_def Let_def in_bucket_Cons nth_list_update)
  then show ?thesis
    using assms by (simp add: represents_def record_us_def Let_def update_min_eq update_max_eq)
qed

lemma represents_reset: "length (hist_buckets h) = kBucketCount \<Longrightarrow> represents (reset_histogram h) []"
  by (simp add: represents_def reset_histogram_def in_bucket_def map_replicate_const list_eq_iff_nth_eq)

lemma max_foldr_ge: "x \<in> set xs \<Longrightarrow> x \<le> foldr max xs (0 :: u64)"
  by (induction xs) (auto simp: le_max_iff_disj)

lemma min_foldr_le: "x \<in> set xs \<Longrightarrow> foldr min xs (-1 :: u64) \<le> x"
  by (induction xs) (auto simp: min_le_iff_disj)

section \<open>Percentiles\<close>

definition up_to_bucket :: "nat \<Rightarrow> u64 list \<Rightarrow> nat" where
  "up_to_bucket i xs = length (filter (\<lambda>x. unat (bucket_index x) < i) xs)"

lemma up_to_bucket_Suc: "up_to_bucket (Suc i) xs = up_to_bucket i xs + in_bucket i xs"
  by (induction xs) (auto simp: up_to_bucket_def in_bucket_def less_Suc_eq)

lemma up_to_bucket_le: "up_to_bucket i xs \<le> length xs"
  by (simp add: up_to_bucket_def)

lemma up_to_bucket_all: "up_to_bucket 2240 xs = length xs"
  by (simp add: up_to_bucket_def bucket_index_less)

lemma scan_from:
  assumes len: "length xs < 2 ^ 64" and i: "i \<le> n"
    and less: "up_to_bucket i xs < unat rank" and all: "unat rank \<le> up_to_bucket n xs"
  shows "\<exists>j. percentile_scan (map (\<lambda>i. of_nat (in_bucket i xs)) [i..<n]) i
      (of_nat (up_to_bucket i xs)) rank = Some j \<and> i \<le> j \<and> j < n \<and>
      up_to_bucket j xs < unat rank \<and> unat rank \<le> up_to_bucket (Suc j) xs"
  using i less
proof (induction "n - i" arbitrary: i)
  case 0
  then show ?case using all by simp
next
  case (Suc k)
  then have i: "i < n" by simp
  have sum: "of_nat (up_to_bucket i xs) + of_nat (in_bucket i xs) = (of_nat (up_to_bucket (Suc i) xs) :: u64)"
    by (simp add: up_to_bucket_Suc)
  have le: "rank \<le> of_nat (up_to_bucket (Suc i) xs) \<longleftrightarrow> unat rank \<le> up_to_bucket (Suc i) xs"
    using len up_to_bucket_le [of "Suc i" xs] by (simp add: u64_le_unat unat_of_nat_u64)
  have scan: "percentile_scan (map (\<lambda>i. of_nat (in_bucket i xs)) [i..<n]) i (of_nat (up_to_bucket i xs)) rank =
      (if unat rank \<le> up_to_bucket (Suc i) xs then Some i
       else percentile_scan (map (\<lambda>i. of_nat (in_bucket i xs)) [Suc i..<n]) (Suc i)
         (of_nat (up_to_bucket (Suc i) xs)) rank)"
    using i by (simp add: upt_conv_Cons sum le)
  show ?case
  proof (cases "unat rank \<le> up_to_bucket (Suc i) xs")
    case True
    then show ?thesis using scan i Suc.prems by auto
  next
    case False
    then show ?thesis using scan Suc.hyps(1) [of "Suc i"] Suc.hyps(2) Suc.prems i
      by fastforce
  qed
qed

context double_rounding
begin

lemma rank_bounds:
  assumes n: "unat n \<le> 2 ^ 53" and pos: "0 < unat n"
  shows "1 \<le> unat (percentile_rank d q n)" and "unat (percentile_rank d q n) \<le> unat n"
    and "unat (percentile_rank d q n) = max 1 (nat \<lceil>d (clamp q 0 1 * real (unat n))\<rceil>)"
proof -
  let ?x = "d (clamp q 0 1 * real (unat n))"
  obtain N where N: "unat n = N" by blast
  have ex: "d (real (unat n)) = real (unat n)" using n by (rule exact_nat)
  have c: "0 \<le> clamp q 0 1" "clamp q 0 1 \<le> 1" by (auto simp: clamp_def)
  have "0 \<le> ?x" unfolding N using c by (intro nonneg) simp
  then have c0: "0 \<le> \<lceil>?x\<rceil>" by linarith
  have "?x \<le> real (unat n)"
    using ex unfolding N by (intro le_rounded) (simp_all add: mult_left_le_one_le c)
  then have c1: "\<lceil>?x\<rceil> \<le> int (unat n)" unfolding N by (simp add: ceiling_le_iff)
  have "of_int \<lceil>?x\<rceil> = (of_nat (nat \<lceil>?x\<rceil>) :: u64)" using c0 by simp
  moreover have "nat \<lceil>?x\<rceil> < 2 ^ 64"
  proof -
    have "nat \<lceil>?x\<rceil> \<le> unat n" using c1 by (simp add: nat_le_iff)
    also have "\<dots> < 2 ^ 64" by (rule unat_u64_less)
    finally show ?thesis .
  qed
  ultimately have u: "unat (of_int \<lceil>?x\<rceil> :: u64) = nat \<lceil>?x\<rceil>" by (simp only: unat_of_nat_u64)
  show r: "unat (percentile_rank d q n) = max 1 (nat \<lceil>?x\<rceil>)"
    by (simp only: percentile_rank_def fmul_def ex unat_max_u64 u) simp
  show "1 \<le> unat (percentile_rank d q n)" unfolding r by simp
  show "unat (percentile_rank d q n) \<le> unat n" unfolding r using c1 pos
    by (simp only: max.bounded_iff nat_le_iff) simp
qed

text \<open>
  The reported value, against the sorted list of samples: the sample of the rank falls into the
  reported bucket, so the report is at least that sample and at most \<open>1/64\<close> above it.
\<close>

lemma percentile_us_accurate_gen:
  fixes q :: real
  assumes rep: "represents h xs" and ne: "xs \<noteq> []"
    and len: "length xs \<le> 2 ^ 53" and small: "\<forall>x \<in> set xs. unat x < 2 ^ 40"
  defines "v \<equiv> sort (map unat xs) ! (unat (percentile_rank d q (hist_count h)) - 1)"
  shows "v \<le> unat (percentile_us d h q)"
    and "64 * (unat (percentile_us d h q) - v) \<le> v"
    and "percentile_us d h q \<le> hist_max_us h"
proof -
  let ?r = "unat (percentile_rank d q (hist_count h))"
  let ?ys = "sort (map unat xs)"
  have cnt: "unat (hist_count h) = length xs"
    using rep len by (simp add: represents_def unat_of_nat_u64)
  have r: "1 \<le> ?r" "?r \<le> length xs"
    using rank_bounds(1,2) [of "hist_count h" q] cnt len ne by simp_all
  have bs: "hist_buckets h = map (\<lambda>i. of_nat (in_bucket i xs)) [0..<2240]"
    using rep by (simp add: represents_def hist_const_simps)
  have z: "up_to_bucket 0 xs = 0" by (simp add: up_to_bucket_def)
  obtain j where j: "percentile_scan (hist_buckets h) 0 0 (percentile_rank d q (hist_count h)) = Some j"
    "j < 2240" "up_to_bucket j xs < ?r" "?r \<le> up_to_bucket (Suc j) xs"
    using scan_from [of xs 0 2240 "percentile_rank d q (hist_count h)"] len r z
    by (auto simp: bs up_to_bucket_all)
  let ?b = "bucket_upper_bound (of_nat j)"
  have p: "percentile_us d h q = min ?b (hist_max_us h)"
    using j(1) by (simp add: percentile_us_def)
  then show "percentile_us d h q \<le> hist_max_us h" by simp
  have ylen: "?r - 1 < length ?ys" using r by simp
  then have "v \<in> set ?ys" unfolding v_def by (rule nth_mem)
  then obtain x where x: "x \<in> set xs" "v = unat x" by auto
  have x40: "unat x < 2 ^ 40" using x small by blast
  have vb: "v \<le> unat ?b" unfolding v_def
  proof (rule sorted_count_nth_le)
    have "?r \<le> length (filter (\<lambda>x. unat (bucket_index x) < Suc j) xs)"
      using j(4) by (simp add: up_to_bucket_def)
    also have "\<dots> \<le> length (filter (\<lambda>x. unat x \<le> unat ?b) xs)"
      using small le_upper_bound_of_index_le [OF _ _ j(2)]
      by (intro length_filter_mono_strong) (auto simp: less_Suc_eq_le)
    also have "\<dots> = length (filter (\<lambda>y. y \<le> unat ?b) ?ys)"
      by (simp add: length_filter_sort filter_map o_def)
    finally show "?r - 1 < length (filter (\<lambda>y. y \<le> unat ?b) ?ys)" using r by linarith
  qed simp
  have vm: "v \<le> unat (hist_max_us h)"
    using rep max_foldr_ge [OF x(1)] x(2) by (simp add: represents_def u64_le_unat)
  show "v \<le> unat (percentile_us d h q)" unfolding p using vb vm by (simp add: unat_min_u64)
  have idx: "bucket_index x = of_nat j"
  proof -
    have "unat (bucket_index x) \<le> j"
    proof -
      have "unat (bucket_index x) \<le> unat (bucket_index ?b)"
        using vb x(2) by (intro bucket_index_mono) (simp add: u64_le_unat)
      also have "bucket_index ?b = of_nat j" by (rule bucket_index_upper_bound(1) [OF j(2)])
      finally show ?thesis using j(2) by (simp add: unat_of_nat_u64)
    qed
    moreover have "\<not> unat (bucket_index x) < j"
    proof
      assume lt: "unat (bucket_index x) < j"
      have "?r - 1 < length (filter (\<lambda>y. y \<le> v) ?ys)"
        using ylen unfolding v_def by (intro sorted_nth_le_count) simp_all
      also have "\<dots> = length (filter (\<lambda>y. unat y \<le> unat x) xs)"
        by (simp add: length_filter_sort filter_map o_def x(2))
      also have "\<dots> \<le> up_to_bucket j xs"
        unfolding up_to_bucket_def using lt bucket_index_mono [of _ x]
        by (intro length_filter_mono_strong) (auto simp: u64_le_unat intro: le_less_trans)
      finally show False using j(3) by linarith
    qed
    ultimately have "unat (bucket_index x) = j" by simp
    then show ?thesis by (metis of_nat_unat_u64)
  qed
  have "unat (percentile_us d h q) \<le> unat ?b" unfolding p by (simp add: unat_min_u64)
  then have "64 * (unat (percentile_us d h q) - v) \<le> 64 * (unat (bucket_upper_bound (bucket_index x)) - unat x)"
    unfolding x(2) idx by simp
  also have "\<dots> \<le> unat x" by (rule bucket_upper_bound_ge(2) [OF x40])
  finally show "64 * (unat (percentile_us d h q) - v) \<le> v" by (simp add: x(2))
qed

end

section \<open>Monotonicity of the percentile scan\<close>

lemma scan_index_ge: "percentile_scan bs i c rank = Some j \<Longrightarrow> i \<le> j \<and> j < i + length bs"
  by (induction bs i c rank rule: percentile_scan.induct) (auto split: if_splits)

lemma scan_mono:
  "rank \<le> rank' \<Longrightarrow> percentile_scan bs i c rank' = Some j' \<Longrightarrow>
   \<exists>j. percentile_scan bs i c rank = Some j \<and> j \<le> j'"
  by (induction bs i c rank arbitrary: j' rule: percentile_scan.induct)
    (fastforce dest: scan_index_ge split: if_splits)+

lemma percentile_us_mono_rank:
  assumes "length (hist_buckets h) = kBucketCount"
    and "percentile_rank d q (hist_count h) \<le> percentile_rank d q' (hist_count h)"
  shows "percentile_us d h q \<le> percentile_us d h q'"
proof (cases "percentile_scan (hist_buckets h) 0 0 (percentile_rank d q' (hist_count h))")
  case None
  then have "percentile_us d h q' = hist_max_us h" by (simp add: percentile_us_def)
  then show ?thesis by (simp add: percentile_us_def split: option.splits)
next
  case (Some j')
  then obtain j where j: "percentile_scan (hist_buckets h) 0 0 (percentile_rank d q (hist_count h)) = Some j"
    "j \<le> j'" using scan_mono [OF assms(2) Some] by blast
  have "j' < 2240" using scan_index_ge [OF Some] assms(1) by (simp add: hist_const_simps)
  then have "bucket_upper_bound (of_nat j) \<le> bucket_upper_bound (of_nat j')"
    using upper_bound_mono [OF j(2)] by (simp add: u64_le_unat)
  with j(1) Some show ?thesis by (simp add: percentile_us_def min_le_iff_disj)
qed

context double_rounding
begin

lemma percentile_rank_mono:
  assumes n: "unat n \<le> 2 ^ 53" "0 < unat n" and q: "q \<le> q'"
  shows "percentile_rank d q n \<le> percentile_rank d q' n"
proof -
  obtain N where N: "unat n = N" by blast
  have "clamp q 0 1 \<le> clamp q' 0 1" using q by (auto simp: clamp_def)
  then have "d (clamp q 0 1 * real (unat n)) \<le> d (clamp q' 0 1 * real (unat n))"
    unfolding N by (intro mono mult_right_mono) simp_all
  then have "nat \<lceil>d (clamp q 0 1 * real (unat n))\<rceil> \<le> nat \<lceil>d (clamp q' 0 1 * real (unat n))\<rceil>"
    by (intro nat_mono ceiling_mono)
  then show ?thesis
    unfolding u64_le_unat rank_bounds(3) [OF n] by (rule max.mono [OF order_refl])
qed

lemma percentile_us_mono:
  assumes "length (hist_buckets h) = kBucketCount" and "unat (hist_count h) \<le> 2 ^ 53"
    and "0 < unat (hist_count h)" and "q \<le> q'"
  shows "percentile_us d h q \<le> percentile_us d h q'"
  using assms by (intro percentile_us_mono_rank percentile_rank_mono)

lemma us_to_ms_mono:
  fixes a b :: u64
  assumes "a \<le> b"
  shows "fdiv d (d (real (unat a))) kUsPerMs \<le> fdiv d (d (real (unat b))) kUsPerMs"
proof -
  have "real (unat a) \<le> real (unat b)" using assms unfolding u64_le_unat of_nat_le_iff .
  then show ?thesis
    unfolding fdiv_def kUsPerMs_def by (intro mono divide_right_mono) simp_all
qed

end

section \<open>The properties\<close>

text \<open>Every value the code records lands inside the array of buckets.\<close>

theorem bucket_index_in_range: "unat (bucket_index v) < length (hist_buckets empty_histogram)"
  using bucket_index_less by (simp add: empty_histogram_def hist_const_simps)

text \<open>
  The buckets partition the values up to \<open>kMaxValueUs\<close> into consecutive intervals, and
  \<open>bucket_upper_bound\<close> is the largest value of each.
\<close>

theorem bucket_intervals:
  assumes "i < kBucketCount" and "v \<le> kMaxValueUs"
  shows "bucket_index v = of_nat i \<longleftrightarrow>
    (i = 0 \<or> bucket_upper_bound (of_nat (i - 1)) < v) \<and> v \<le> bucket_upper_bound (of_nat i)"
proof -
  have i: "i < 2240" using assms(1) by (simp add: hist_const_simps)
  have v: "unat v < 2 ^ 40" using assms(2) by (simp add: u64_le_unat hist_const_simps)
  have ui: "unat (of_nat k :: u64) = k" if "k \<le> i" for k using i that by (simp add: unat_of_nat_u64)
  have idx: "bucket_index v = of_nat i \<longleftrightarrow> unat (bucket_index v) = i"
    using ui [of i] by (metis of_nat_unat_u64 order_refl)
  have le: "v \<le> bucket_upper_bound (of_nat k) \<longleftrightarrow> unat (bucket_index v) \<le> k" if k: "k \<le> i" for k
  proof
    assume "v \<le> bucket_upper_bound (of_nat k)"
    then show "unat (bucket_index v) \<le> k"
      using bucket_index_mono bucket_index_upper_bound(1) [of k] ui [OF k] i k
      by (metis le_less_trans)
  next
    assume "unat (bucket_index v) \<le> k"
    then show "v \<le> bucket_upper_bound (of_nat k)"
      using le_upper_bound_of_index_le [OF v, of k] i k by (simp add: u64_le_unat)
  qed
  show ?thesis
    unfolding idx le [OF order_refl] not_le [symmetric] using le [of "i - 1"] by auto
qed

theorem bucket_intervals_witness:
  "bucket_index 1000 = of_nat 317 \<longleftrightarrow>
    bucket_upper_bound (of_nat 316) < 1000 \<and> 1000 \<le> bucket_upper_bound (of_nat 317)"
  using bucket_intervals [of 317 1000] by (simp add: hist_const_simps u64_le_unat)

text \<open>
  Reporting a value by the upper bound of its bucket never understates it and overstates it
  by at most one part in 64.
\<close>

theorem bucket_error_bound:
  assumes "v \<le> kMaxValueUs"
  shows "v \<le> bucket_upper_bound (bucket_index v) \<and>
    64 * (unat (bucket_upper_bound (bucket_index v)) - unat v) \<le> unat v"
proof -
  have v: "unat v < 2 ^ 40" using assms by (simp add: u64_le_unat hist_const_simps)
  show ?thesis using bucket_upper_bound_ge [OF v] by (simp add: u64_le_unat)
qed

theorem bucket_error_bound_witness:
  "(1000 :: u64) \<le> kMaxValueUs \<and> 1000 \<le> bucket_upper_bound (bucket_index 1000)"
  using bucket_error_bound [of 1000] by (simp add: hist_const_simps u64_le_unat)

text \<open>
  Recording a sequence of latencies leaves the histogram in the state that represents exactly
  those samples: bucket counts, count, sum, minimum and maximum.
\<close>

theorem recording_represents:
  "represents (fold (\<lambda>x h. record_us h x) xs empty_histogram) (rev xs)"
  by (induction xs rule: rev_induct) (simp_all add: represents_empty represents_record)

text \<open>
  C13: a percentile of a histogram that recorded the samples \<open>xs\<close>, computed in double precision,
  is at least the sample of its rank in sorted order, exceeds it by at most \<open>1/64\<close>, and never
  exceeds the largest sample.
\<close>

theorem percentile_accurate:
  assumes "represents h xs" and "xs \<noteq> []" and "length xs \<le> 2 ^ 53"
    and "\<forall>x \<in> set xs. x \<le> kMaxValueUs"
  shows "let v = sort (map unat xs) ! (unat (percentile_rank round64 q (hist_count h)) - 1);
             p = unat (percentile_us round64 h q)
         in v \<le> p \<and> 64 * (p - v) \<le> v \<and> p \<le> unat (hist_max_us h)"
proof -
  have "\<forall>x \<in> set xs. unat x < 2 ^ 40"
    using assms(4) by (auto simp: u64_le_unat hist_const_simps)
  note acc = f64.percentile_us_accurate_gen [OF assms(1-3) this]
  show ?thesis using acc by (simp add: Let_def u64_le_unat)
qed

theorem percentile_accurate_witness:
  "let h = record_us empty_histogram 1000;
       v = sort (map unat [1000 :: u64]) ! (unat (percentile_rank round64 (1 / 2) (hist_count h)) - 1);
       p = unat (percentile_us round64 h (1 / 2))
   in v \<le> p \<and> 64 * (p - v) \<le> v \<and> p \<le> unat (hist_max_us h)"
proof -
  have "represents (record_us empty_histogram 1000) [1000]"
    by (intro represents_record represents_empty)
  from percentile_accurate [OF this, of "1 / 2"] show ?thesis
    by (simp add: Let_def hist_const_simps u64_le_unat)
qed

text \<open>
  The rank the code computes is a valid position: between 1 and the number of samples, for
  any requested fraction, even outside \<open>[0, 1]\<close>.
\<close>

theorem percentile_rank_valid:
  assumes "0 < unat n" and "unat n \<le> 2 ^ 53"
  shows "1 \<le> unat (percentile_rank round64 q n) \<and> unat (percentile_rank round64 q n) \<le> unat n"
  using f64.rank_bounds(1,2) [OF assms(2,1)] by blast

theorem percentile_rank_valid_witness:
  "1 \<le> unat (percentile_rank round64 2 7) \<and> unat (percentile_rank round64 2 7) \<le> 7"
  using percentile_rank_valid [of 7 2] by simp

text \<open>
  The percentiles of a summary are ordered, and none exceeds the reported maximum.
\<close>

theorem summary_percentiles_ordered:
  assumes "length (hist_buckets h) = kBucketCount" and "0 < unat (hist_count h)"
    and "unat (hist_count h) \<le> 2 ^ 53"
  shows "let s = summarize round64 h
         in p50_ms s \<le> p90_ms s \<and> p90_ms s \<le> p95_ms s \<and> p95_ms s \<le> p99_ms s \<and>
            p99_ms s \<le> p999_ms s \<and> p999_ms s \<le> max_ms s"
proof -
  have ne: "hist_count h \<noteq> 0" using assms(2) by auto
  have mono: "percentile_ms round64 h (round64 a) \<le> percentile_ms round64 h (round64 b)"
    if "a \<le> b" for a b
    unfolding percentile_ms_def using ne assms that
    by (simp only: if_False) (intro f64.us_to_ms_mono f64.percentile_us_mono f64.mono)
  have le_max: "percentile_us round64 h q \<le> hist_max_us h" for q
    by (simp add: percentile_us_def split: option.splits)
  have "percentile_ms round64 h (round64 (999 / 1000)) \<le> max_ms (summarize round64 h)"
    unfolding percentile_ms_def summarize_def using ne
    by (simp only: if_False latency_summary.simps) (intro f64.us_to_ms_mono le_max)
  then show ?thesis
    using ne mono [of "1 / 2" "9 / 10"] mono [of "9 / 10" "95 / 100"]
      mono [of "95 / 100" "99 / 100"] mono [of "99 / 100" "999 / 1000"]
    by (simp add: summarize_def Let_def)
qed

theorem summary_percentiles_ordered_witness:
  "let s = summarize round64 (record_us empty_histogram 5)
   in p50_ms s \<le> p90_ms s \<and> p90_ms s \<le> p95_ms s \<and> p95_ms s \<le> p99_ms s \<and>
      p99_ms s \<le> p999_ms s \<and> p999_ms s \<le> max_ms s"
  by (rule summary_percentiles_ordered)
    (simp_all add: record_us_def empty_histogram_def Let_def)

text \<open>
  A compare-and-swap loop that ends leaves the minimum no larger than the recorded value,
  whatever the other threads stored in between, and stores nothing but that value; it ends with
  the first undisturbed attempt.
\<close>

theorem update_min_loop_correct:
  "(update_min_loop value current attempts = Some result \<longrightarrow>
      result \<le> value \<and> (result = value \<or> result \<in> insert current (fst ` set attempts))) \<and>
   update_min_loop value current ((current, False) # attempts) = Some (update_min current value)"
proof -
  have "update_min_loop value current attempts = Some result \<Longrightarrow>
      result \<le> value \<and> (result = value \<or> result \<in> insert current (fst ` set attempts))"
  proof (induction attempts arbitrary: current)
    case Nil
    then show ?case by (auto simp: update_min_loop.simps [of "value" current] split: if_splits)
  next
    case (Cons a attempts)
    then show ?case
      by (cases a) (fastforce simp: update_min_loop.simps [of "value" current] split: if_splits)
  qed
  then show ?thesis by (auto simp: update_min_loop.simps [of "value" current] update_min_def)
qed

theorem update_min_loop_correct_witness:
  "update_min_loop 3 7 [(5, False), (5, True), (5, False)] = Some 3 \<and> (3 :: u64) \<le> 3"
  using update_min_loop_correct [of 3 7 "[(5, False), (5, True), (5, False)]" 3]
  by (simp add: update_min_loop.simps)

end
