(* ===== verification/Detection.thy ===== *)
theory Detection
  imports FloatModel
begin

text \<open>
  \<open>vision/detection.hpp\<close>: boxes in corner form, intersection over union, detections. All
  arithmetic is single precision: the argument \<open>r\<close> rounds every result.
\<close>

section \<open>Data\<close>

record box =
  box_x1 :: real
  box_y1 :: real
  box_x2 :: real
  box_y2 :: real

record detection =
  det_box :: box
  det_score :: real
  det_class :: int

section \<open>Operations\<close>

definition from_center :: "rounding \<Rightarrow> real \<Rightarrow> real \<Rightarrow> real \<Rightarrow> real \<Rightarrow> box" where
  "from_center r cx cy w h =
     \<lparr>box_x1 = fsub r cx (fmul r (1 / 2) w), box_y1 = fsub r cy (fmul r (1 / 2) h),
      box_x2 = fadd r cx (fmul r (1 / 2) w), box_y2 = fadd r cy (fmul r (1 / 2) h)\<rparr>"

definition box_width :: "rounding \<Rightarrow> box \<Rightarrow> real" where
  "box_width r b = fsub r (box_x2 b) (box_x1 b)"

definition box_height :: "rounding \<Rightarrow> box \<Rightarrow> real" where
  "box_height r b = fsub r (box_y2 b) (box_y1 b)"

definition box_center_x :: "rounding \<Rightarrow> box \<Rightarrow> real" where
  "box_center_x r b = fmul r (1 / 2) (fadd r (box_x1 b) (box_x2 b))"

definition box_center_y :: "rounding \<Rightarrow> box \<Rightarrow> real" where
  "box_center_y r b = fmul r (1 / 2) (fadd r (box_y1 b) (box_y2 b))"

definition box_area :: "rounding \<Rightarrow> box \<Rightarrow> real" where
  "box_area r b = fmul r (max 0 (box_width r b)) (max 0 (box_height r b))"

definition box_intersection :: "rounding \<Rightarrow> box \<Rightarrow> box \<Rightarrow> real" where
  "box_intersection r a b =
     (let iw = max 0 (fsub r (min (box_x2 a) (box_x2 b)) (max (box_x1 a) (box_x1 b)));
          ih = max 0 (fsub r (min (box_y2 a) (box_y2 b)) (max (box_y1 a) (box_y1 b)))
      in fmul r iw ih)"

definition iou :: "rounding \<Rightarrow> box \<Rightarrow> box \<Rightarrow> real" where
  "iou r a b =
     (let intersection = box_intersection r a b;
          union_area = fsub r (fadd r (box_area r a) (box_area r b)) intersection
      in if 0 < union_area then fdiv r intersection union_area else 0)"

section \<open>Laws of the overlap measure under rounding\<close>

lemma box_intersection_commute: "box_intersection r a b = box_intersection r b a"
  by (simp add: box_intersection_def min.commute max.commute)

lemma iou_commute: "iou r a b = iou r b a"
  by (simp add: iou_def box_intersection_commute [of r a b] fops add.commute)

context float_rounding
begin

lemma box_area_nonneg: "0 \<le> box_area r b"
  by (simp add: box_area_def fmul_def nonneg)

lemma box_intersection_nonneg: "0 \<le> box_intersection r a b"
  by (simp add: box_intersection_def Let_def fmul_def nonneg)

lemma intersection_le_area: "box_intersection r a b \<le> box_area r a"
  unfolding box_intersection_def box_area_def box_width_def box_height_def Let_def fops
  by (intro mono mult_mono max.mono order_refl) auto

lemma intersection_rounded: "r (box_intersection r a b) = box_intersection r a b"
  by (simp add: box_intersection_def Let_def fmul_def idem)

lemma intersection_le_union:
  "box_intersection r a b \<le> fsub r (fadd r (box_area r a) (box_area r b)) (box_intersection r a b)"
  unfolding fsub_def fadd_def
proof (rule sum_minus_common)
  show "box_intersection r a b \<le> box_area r b"
    using intersection_le_area [of b a] by (simp add: box_intersection_commute)
qed (rule intersection_rounded intersection_le_area)+

lemma iou_unit: "0 \<le> iou r a b \<and> iou r a b \<le> 1"
  using quotient_unit [OF box_intersection_nonneg intersection_le_union, of a b]
  by (simp add: iou_def Let_def fdiv_def)

lemma iou_self:
  assumes "0 < box_area r b" shows "iou r b b = 1"
proof -
  have i: "box_intersection r b b = box_area r b"
    by (simp add: box_intersection_def box_area_def box_width_def box_height_def)
  have "r (2 * box_area r b) = 2 * box_area r b"
    using double [of "box_area r b"] intersection_rounded [of b b] by (simp add: i)
  then have "fsub r (fadd r (box_area r b) (box_area r b)) (box_area r b) = box_area r b"
    using intersection_rounded [of b b] by (simp add: i fops)
  with assms show ?thesis by (simp add: iou_def i fdiv_def one)
qed

lemma iou_disjoint:
  assumes "box_x2 a \<le> box_x1 b \<or> box_x2 b \<le> box_x1 a \<or> box_y2 a \<le> box_y1 b \<or> box_y2 b \<le> box_y1 a"
  shows "iou r a b = 0"
proof -
  have "r x \<le> 0" if "x \<le> 0" for x using mono [OF that] zero by simp
  moreover have "min (box_x2 a) (box_x2 b) - max (box_x1 a) (box_x1 b) \<le> 0 \<or>
      min (box_y2 a) (box_y2 b) - max (box_y1 a) (box_y1 b) \<le> 0"
    using assms by linarith
  ultimately have "max 0 (r (min (box_x2 a) (box_x2 b) - max (box_x1 a) (box_x1 b))) = 0 \<or>
      max 0 (r (min (box_y2 a) (box_y2 b) - max (box_y1 a) (box_y1 b))) = 0"
    by (metis max_absorb1)
  then have "box_intersection r a b = 0"
    by (auto simp: box_intersection_def Let_def fops zero)
  then show ?thesis by (simp add: iou_def Let_def fdiv_def zero)
qed

end

section \<open>The properties\<close>

text \<open>
  In single precision the overlap of any two boxes, degenerate and inverted ones included,
  lies between 0 and 1, and does not depend on the order of the boxes.
\<close>

theorem iou_in_unit_interval:
  "0 \<le> iou round32 a b \<and> iou round32 a b \<le> 1 \<and> iou round32 a b = iou round32 b a"
  using f32.iou_unit [of a b] iou_commute [of round32 a b] by simp

text \<open>
  In single precision a box of positive area overlaps itself completely, and boxes that
  share no interior point do not overlap.
\<close>

theorem iou_extremes:
  "(0 < box_area round32 b \<longrightarrow> iou round32 b b = 1) \<and>
   (box_x2 a \<le> box_x1 b \<or> box_x2 b \<le> box_x1 a \<or> box_y2 a \<le> box_y1 b \<or> box_y2 b \<le> box_y1 a
      \<longrightarrow> iou round32 a b = 0)"
  using f32.iou_self [of b] f32.iou_disjoint [of a b] by blast

theorem iou_extremes_witness:
  "iou round32 \<lparr>box_x1 = 0, box_y1 = 0, box_x2 = 1, box_y2 = 1\<rparr>
     \<lparr>box_x1 = 2, box_y1 = 0, box_x2 = 3, box_y2 = 1\<rparr> = 0"
  using iou_extremes [of "\<lparr>box_x1 = 2, box_y1 = 0, box_x2 = 3, box_y2 = 1\<rparr>"
      "\<lparr>box_x1 = 0, box_y1 = 0, box_x2 = 1, box_y2 = 1\<rparr>"] by simp

end
