(* ===== verification/ImageBuf.thy ===== *)
theory ImageBuf
  imports Prelude
begin

text \<open>
  \<open>core/image.hpp\<close> and \<open>src/core/image.cpp\<close>: pixel formats, views of interleaved images and the
  owning image. A data pointer is the list of the bytes behind it, \<open>None\<close> is the null pointer.
  The capacity of the buffer (what \<open>reserve\<close> changes) is not modelled.
\<close>

datatype pixel_format = kBgr8 | kRgb8 | kGray8

definition channel_count :: "pixel_format \<Rightarrow> int" where
  "channel_count f = (if f = kGray8 then 1 else 3)"

lemma channel_count_pos: "1 \<le> channel_count f" "channel_count f \<le> 3"
  by (simp_all add: channel_count_def)

record image_view =
  view_data :: "u8 list option"
  view_width :: int
  view_height :: int
  view_stride :: int
  view_format :: pixel_format

definition view_empty :: "image_view \<Rightarrow> bool" where
  "view_empty v \<longleftrightarrow> view_data v = None \<or> view_width v \<le> 0 \<or> view_height v \<le> 0"

text \<open>\<open>row(y)[k]\<close>.\<close>

definition view_byte :: "image_view \<Rightarrow> int \<Rightarrow> int \<Rightarrow> u8" where
  "view_byte v y k = the (view_data v) ! nat (y * view_stride v + k)"

record image =
  image_buffer :: "u8 list"
  image_width :: int
  image_height :: int
  image_format :: pixel_format

definition empty_image :: image where
  "empty_image = \<lparr>image_buffer = [], image_width = 0, image_height = 0, image_format = kBgr8\<rparr>"

text \<open>\<open>std::vector::resize\<close> keeps the old elements and appends zeros.\<close>

definition resize_buffer :: "nat \<Rightarrow> u8 list \<Rightarrow> u8 list" where
  "resize_buffer n xs = take n xs @ replicate (n - length xs) 0"

definition reshape :: "int \<Rightarrow> int \<Rightarrow> pixel_format \<Rightarrow> image \<Rightarrow> takt_error + image" where
  "reshape w h f img =
     (if w < 0 \<or> h < 0 then Inl (Invalid_argument ''Image::reshape: negative dimensions'')
      else Inr \<lparr>image_buffer = resize_buffer (nat w * nat h * nat (channel_count f)) (image_buffer img),
                image_width = w, image_height = h, image_format = f\<rparr>)"

definition image_stride :: "image \<Rightarrow> int" where
  "image_stride img = image_width img * channel_count (image_format img)"

definition image_is_empty :: "image \<Rightarrow> bool" where
  "image_is_empty img \<longleftrightarrow> image_buffer img = []"

definition image_row :: "image \<Rightarrow> int \<Rightarrow> nat" where
  "image_row img y = nat (y * image_stride img)"

definition image_as_view :: "image \<Rightarrow> image_view" where
  "image_as_view img =
     \<lparr>view_data = Some (image_buffer img), view_width = image_width img, view_height = image_height img,
      view_stride = image_stride img, view_format = image_format img\<rparr>"

section \<open>The invariant of an image\<close>

definition image_ok :: "image \<Rightarrow> bool" where
  "image_ok img \<longleftrightarrow> 0 \<le> image_width img \<and> 0 \<le> image_height img \<and>
     int (length (image_buffer img)) = image_height img * image_stride img"

lemma length_resize_buffer [simp]: "length (resize_buffer n xs) = n"
  by (simp add: resize_buffer_def)

lemma reshape_ok:
  assumes "reshape w h f img = Inr img'"
  shows "image_ok img' \<and> image_width img' = w \<and> image_height img' = h \<and> image_format img' = f"
proof -
  have "int (nat w * nat h * nat (channel_count f)) = h * (w * channel_count f)"
    if "0 \<le> w" "0 \<le> h"
    using that channel_count_pos(1) [of f] by simp
  then show ?thesis
    using assms by (auto simp: reshape_def image_ok_def image_stride_def split: if_splits)
qed

text \<open>A view whose rows lie inside its buffer: every pixel read is in bounds.\<close>

definition view_ok :: "image_view \<Rightarrow> bool" where
  "view_ok v \<longleftrightarrow> \<not> view_empty v \<and> view_width v * channel_count (view_format v) \<le> view_stride v \<and>
     (view_height v - 1) * view_stride v + view_width v * channel_count (view_format v)
       \<le> int (length (the (view_data v)))"

lemma view_ok_byte:
  assumes "view_ok v" and "0 \<le> y" and "y < view_height v" and "0 \<le> k"
    and "k < view_width v * channel_count (view_format v)"
  shows "0 \<le> y * view_stride v + k \<and> nat (y * view_stride v + k) < length (the (view_data v))"
proof -
  have "0 \<le> view_width v * channel_count (view_format v)" using assms(4,5) by linarith
  then have "0 \<le> view_stride v" using assms(1) by (simp add: view_ok_def)
  then have "y * view_stride v \<le> (view_height v - 1) * view_stride v" and "0 \<le> y * view_stride v"
    using assms(2,3) by (auto intro: mult_right_mono)
  then show ?thesis using assms unfolding view_ok_def by linarith
qed

lemma image_view_ok:
  assumes "image_ok img" and "0 < image_width img" and "0 < image_height img"
  shows "view_ok (image_as_view img)"
  using assms by (simp add: view_ok_def image_as_view_def view_empty_def image_ok_def image_stride_def
      left_diff_distrib)

text \<open>
  Reshaping gives an image whose buffer matches its dimensions, so every byte of every pixel of
  its view lies inside the buffer.
\<close>

theorem reshaped_image_in_bounds:
  assumes "reshape w h f img = Inr img'" and "0 \<le> y" and "y < h" and "0 \<le> x" and "x < w"
    and "0 \<le> c" and "c < channel_count f"
  shows "image_row img' y + nat (x * channel_count f + c) < length (image_buffer img')"
proof -
  note ok = reshape_ok [OF assms(1)]
  have "x * channel_count f + c < (x + 1) * channel_count f"
    using assms(7) by (simp add: distrib_right)
  also have "\<dots> \<le> w * channel_count f" using assms(5) channel_count_pos(1) [of f] by (intro mult_right_mono) auto
  finally have k: "x * channel_count f + c < w * channel_count f" .
  have "0 \<le> x * channel_count f + c" using assms(4,6) channel_count_pos(1) [of f] by simp
  then show ?thesis
    using view_ok_byte [of "image_as_view img'" y "x * channel_count f + c"] image_view_ok [of img'] ok assms(2-5) k
    by (simp add: image_as_view_def image_row_def image_stride_def nat_add_distrib channel_count_def)
qed

theorem reshaped_image_in_bounds_witness:
  "\<exists>img. reshape 2 2 kBgr8 empty_image = Inr img \<and> image_row img 1 + nat (1 * channel_count kBgr8 + 2) < length (image_buffer img)"
proof -
  obtain img where img: "reshape 2 2 kBgr8 empty_image = Inr img" by (simp add: reshape_def)
  from reshaped_image_in_bounds [OF this, of 1 1 2] show ?thesis using img by (simp add: channel_count_def)
qed

end
