(* ===== verification/Letterbox.thy ===== *)
theory Letterbox
  imports Detection ImageBuf
begin

text \<open>
  \<open>vision/letterbox.hpp\<close> and \<open>src/vision/letterbox.cpp\<close>: the letterbox geometry, the
  interpolation tables and the fused preprocessing pass. \<open>r\<close> rounds to \<open>float\<close>, \<open>d\<close> to \<open>double\<close>.
  The tensor is a list that the loops update by index; \<open>tw\<close>, \<open>th\<close> are the target dimensions.
\<close>

section \<open>The transform\<close>

record letterbox_transform =
  lb_scale :: real
  lb_pad_x :: real
  lb_pad_y :: real
  source_width :: int
  source_height :: int
  resized_width :: int
  resized_height :: int

definition identity_transform :: letterbox_transform where
  "identity_transform = \<lparr>lb_scale = 1, lb_pad_x = 0, lb_pad_y = 0, source_width = 0, source_height = 0,
     resized_width = 0, resized_height = 0\<rparr>"

text \<open>\<open>std::lround\<close> rounds halfway cases away from zero.\<close>

definition lround :: "real \<Rightarrow> int" where
  "lround x = (if 0 \<le> x then \<lfloor>x + 1 / 2\<rfloor> else - \<lfloor>- x + 1 / 2\<rfloor>)"

definition fclamp :: "real \<Rightarrow> real \<Rightarrow> real \<Rightarrow> real" where
  "fclamp v lo hi = (if v < lo then lo else if hi < v then hi else v)"

definition to_source :: "rounding \<Rightarrow> letterbox_transform \<Rightarrow> box \<Rightarrow> box" where
  "to_source r t b =
     (let w = r (of_int (source_width t)); h = r (of_int (source_height t))
      in \<lparr>box_x1 = fclamp (fdiv r (fsub r (box_x1 b) (lb_pad_x t)) (lb_scale t)) 0 w,
          box_y1 = fclamp (fdiv r (fsub r (box_y1 b) (lb_pad_y t)) (lb_scale t)) 0 h,
          box_x2 = fclamp (fdiv r (fsub r (box_x2 b) (lb_pad_x t)) (lb_scale t)) 0 w,
          box_y2 = fclamp (fdiv r (fsub r (box_y2 b) (lb_pad_y t)) (lb_scale t)) 0 h\<rparr>)"

definition to_model :: "rounding \<Rightarrow> letterbox_transform \<Rightarrow> box \<Rightarrow> box" where
  "to_model r t b =
     \<lparr>box_x1 = fadd r (fmul r (box_x1 b) (lb_scale t)) (lb_pad_x t),
      box_y1 = fadd r (fmul r (box_y1 b) (lb_scale t)) (lb_pad_y t),
      box_x2 = fadd r (fmul r (box_x2 b) (lb_scale t)) (lb_pad_x t),
      box_y2 = fadd r (fmul r (box_y2 b) (lb_scale t)) (lb_pad_y t)\<rparr>"

text \<open>\<open>vision/nms.cpp\<close>: the detections of a frame, back in source pixels.\<close>

definition scale_to_source :: "rounding \<Rightarrow> letterbox_transform \<Rightarrow> detection list \<Rightarrow> detection list" where
  "scale_to_source r t dets = map (\<lambda>d. d\<lparr>det_box := to_source r t (det_box d)\<rparr>) dets"

definition pad_of :: "rounding \<Rightarrow> int \<Rightarrow> int \<Rightarrow> int" where
  "pad_of d target resized = lround (fsub d (fdiv d (of_int (target - resized)) 2) (d (1 / 10)))"

definition compute_letterbox ::
  "rounding \<Rightarrow> rounding \<Rightarrow> int \<Rightarrow> int \<Rightarrow> int \<Rightarrow> int \<Rightarrow> takt_error + letterbox_transform" where
  "compute_letterbox r d sw sh tw th =
     (if sw \<le> 0 \<or> sh \<le> 0 \<or> tw \<le> 0 \<or> th \<le> 0
      then Inl (Invalid_argument ''compute_letterbox: dimensions must be positive'')
      else let ratio = min (fdiv d (of_int th) (of_int sh)) (fdiv d (of_int tw) (of_int sw));
               rw = lround (fmul d (of_int sw) ratio);
               rh = lround (fmul d (of_int sh) ratio)
           in Inr \<lparr>lb_scale = r ratio,
                   lb_pad_x = r (of_int (pad_of d tw rw)),
                   lb_pad_y = r (of_int (pad_of d th rh)),
                   source_width = sw, source_height = sh,
                   resized_width = rw, resized_height = rh\<rparr>)"

section \<open>Geometry\<close>

lemma lround_near:
  assumes "\<bar>x - of_int n\<bar> < 1 / 2" shows "lround x = n"
proof (cases "0 \<le> x")
  case True
  have "\<lfloor>x + 1 / 2\<rfloor> = n" using assms unfolding floor_eq_iff by (intro conjI) linarith+
  with True show ?thesis by (simp add: lround_def)
next
  case False
  have "\<lfloor>- x + 1 / 2\<rfloor> = - n" using assms unfolding floor_eq_iff of_int_minus by (intro conjI) linarith+
  with False show ?thesis by (simp add: lround_def)
qed

lemma lround_mono: "x \<le> y \<Longrightarrow> lround x \<le> lround y"
proof -
  assume le: "x \<le> y"
  consider "0 \<le> x" | "x < 0" "0 \<le> y" | "y < 0" by linarith
  then show ?thesis
  proof cases
    case 1
    with le show ?thesis by (simp add: lround_def floor_mono)
  next
    case 2
    then have "0 \<le> \<lfloor>- x + 1 / 2\<rfloor>" "0 \<le> \<lfloor>y + 1 / 2\<rfloor>" by linarith+
    then have "- \<lfloor>- x + 1 / 2\<rfloor> \<le> \<lfloor>y + 1 / 2\<rfloor>" by linarith
    with 2 show ?thesis unfolding lround_def by simp
  next
    case 3
    with le have "\<lfloor>- y + 1 / 2\<rfloor> \<le> \<lfloor>- x + 1 / 2\<rfloor>" by (intro floor_mono) linarith
    with 3 le show ?thesis by (simp add: lround_def)
  qed
qed

lemma lround_nonneg: "0 \<le> x \<Longrightarrow> 0 \<le> lround x"
  by (simp add: lround_def)

lemma powers: "(2::real) ^ 24 = 16777216" "(2::real) ^ 26 = 67108864" "(2::real) ^ 29 = 536870912"
  by simp_all

context double_rounding
begin

lemma small_error: "\<bar>x\<bar> \<le> 2 ^ 26 \<Longrightarrow> \<bar>d x - x\<bar> \<le> 1 / 2 ^ 26"
proof -
  assume x: "\<bar>x\<bar> \<le> 2 ^ 26"
  have "(2::real) / 2 ^ 1022 \<le> 2 / 2 ^ 54" by (intro divide_left_mono power_increasing) auto
  moreover have "\<bar>x\<bar> / 2 ^ 53 \<le> 2 ^ 26 / 2 ^ 53" using x by (intro divide_right_mono) auto
  moreover note abs_error [of x]
  ultimately have "\<bar>d x - x\<bar> \<le> 2 ^ 26 / 2 ^ 53 + 2 / 2 ^ 54" by linarith
  then show ?thesis by simp
qed

text \<open>Scaling a dimension by the rounded ratio misses the exact product by less than half a pixel.\<close>

lemma scaled_dimension:
  assumes "0 < s" and "s \<le> 2 ^ 24" and "0 < t" and "t \<le> 2 ^ 24"
  shows "\<bar>d (of_int s * d (of_int t / of_int s)) - of_int t\<bar> < 1 / 2"
proof -
  let ?q = "of_int t / of_int s :: real" and ?s = "of_int s :: real" and ?t = "of_int t :: real"
  have st: "1 \<le> ?s" "1 \<le> ?t" "?s \<le> 2 ^ 24" "?t \<le> 2 ^ 24" using assms by auto
  have "1 / 2 ^ 1022 \<le> (1::real) / 2 ^ 24" by (intro divide_left_mono power_increasing) auto
  also have "\<dots> \<le> ?q" using st by (simp add: divide_le_eq le_divide_eq)
  finally have q: "1 / 2 ^ 1022 \<le> \<bar>?q\<bar>" using st by simp
  have "\<bar>d ?q - ?q\<bar> \<le> \<bar>?q\<bar> / 2 ^ 53" by (rule rel_error [OF q])
  then have "?s * \<bar>d ?q - ?q\<bar> \<le> ?s * (\<bar>?q\<bar> / 2 ^ 53)" using st by (intro mult_left_mono) auto
  moreover have "?s * d ?q - ?t = ?s * (d ?q - ?q)" using st by (simp add: right_diff_distrib)
  then have "\<bar>?s * d ?q - ?t\<bar> = ?s * \<bar>d ?q - ?q\<bar>" using st by (simp add: abs_mult)
  moreover have "?s * (\<bar>?q\<bar> / 2 ^ 53) = ?t / 2 ^ 53" using st by simp
  ultimately have "\<bar>?s * d ?q - ?t\<bar> \<le> ?t / 2 ^ 53" by linarith
  moreover have "?t / 2 ^ 53 \<le> 2 ^ 24 / 2 ^ 53" using st by (intro divide_right_mono) auto
  ultimately have close: "\<bar>?s * d ?q - ?t\<bar> \<le> 1 / 2 ^ 29" by simp
  then have "\<bar>?s * d ?q\<bar> \<le> 2 ^ 26" using st unfolding powers by (intro abs_leI) linarith+
  from small_error [OF this] close show ?thesis unfolding powers by linarith
qed

lemma pad_exact:
  assumes "0 \<le> n" and "n \<le> 2 ^ 24"
  shows "lround (d (d (of_int n / 2) - d (1 / 10))) = n div 2"
proof -
  have "\<bar>d (of_int n / 2) - of_int n / 2\<bar> \<le> 1 / 2 ^ 26" using assms by (intro small_error) simp
  moreover have "\<bar>d (1 / 10) - 1 / 10\<bar> \<le> 1 / 2 ^ 26" by (rule small_error) simp
  moreover obtain y where y: "y = d (of_int n / 2) - d (1 / 10)" by simp
  ultimately have close: "\<bar>y - (of_int n / 2 - 1 / 10)\<bar> \<le> 2 / 2 ^ 26" unfolding y abs_le_iff by linarith
  have "of_int n \<le> (2 ^ 24 :: real)" using assms(2) by simp
  moreover have "(0::real) \<le> of_int n" using assms(1) by simp
  ultimately have "\<bar>y\<bar> \<le> 2 ^ 26" using close unfolding powers by (intro abs_leI) linarith+
  from small_error [OF this] close have "\<bar>d y - (of_int n / 2 - 1 / 10)\<bar> \<le> 3 / 67108864"
    unfolding powers by linarith
  then have dy: "\<bar>d y - (of_int n / 2 - 1 / 10)\<bar> \<le> 3 / 67108864" .
  have "\<bar>d y - of_int (n div 2)\<bar> < 1 / 2"
  proof (cases "even n")
    case True
    then have "of_int n / 2 = (of_int (n div 2) :: real)" by auto
    with dy show ?thesis by linarith
  next
    case False
    then have "of_int n / 2 = of_int (n div 2) + (1 / 2 :: real)" by (auto elim!: oddE)
    with dy show ?thesis by linarith
  qed
  then show ?thesis unfolding y by (rule lround_near)
qed

lemma letterbox_dims:
  assumes c: "compute_letterbox r d sw sh tw th = Inr t"
    and le: "sw \<le> 2 ^ 24" "sh \<le> 2 ^ 24" "tw \<le> 2 ^ 24" "th \<le> 2 ^ 24"
  shows "0 \<le> resized_width t \<and> resized_width t \<le> tw \<and> 0 \<le> resized_height t \<and> resized_height t \<le> th \<and>
    (resized_width t = tw \<or> resized_height t = th) \<and>
    lb_pad_x t = r (of_int ((tw - resized_width t) div 2)) \<and>
    lb_pad_y t = r (of_int ((th - resized_height t) div 2)) \<and>
    source_width t = sw \<and> source_height t = sh"
proof -
  have pos: "0 < sw" "0 < sh" "0 < tw" "0 < th" using c by (auto simp: compute_letterbox_def split: if_splits)
  let ?qx = "d (of_int tw / of_int sw)" and ?qy = "d (of_int th / of_int sh)"
  let ?ratio = "min ?qy ?qx"
  have t: "resized_width t = lround (d (of_int sw * ?ratio))" "resized_height t = lround (d (of_int sh * ?ratio))"
    "lb_pad_x t = r (of_int (pad_of d tw (resized_width t)))"
    "lb_pad_y t = r (of_int (pad_of d th (resized_height t)))"
    "source_width t = sw" "source_height t = sh"
    using c pos by (auto simp: compute_letterbox_def fops Let_def)
  have qx: "lround (d (of_int sw * ?qx)) = tw" and qy: "lround (d (of_int sh * ?qy)) = th"
    using pos le by (auto intro!: lround_near scaled_dimension)
  have ratio: "0 \<le> ?ratio" "?ratio \<le> ?qx" "?ratio \<le> ?qy" using pos by (auto intro!: nonneg)
  have w: "0 \<le> resized_width t" "resized_width t \<le> tw" and h: "0 \<le> resized_height t" "resized_height t \<le> th"
    unfolding t(1,2) using pos ratio(1)
    by (auto intro!: lround_nonneg nonneg lround_mono [THEN order_trans, OF _ eq_refl [OF qx]]
        lround_mono [THEN order_trans, OF _ eq_refl [OF qy]] mono)
  have full: "resized_width t = tw \<or> resized_height t = th"
  proof (cases "?qx \<le> ?qy")
    case True
    then have "?ratio = ?qx" by simp
    then show ?thesis using t(1) qx by simp
  next
    case False
    then have "?ratio = ?qy" by simp
    then show ?thesis using t(2) qy by simp
  qed
  have "pad_of d tw (resized_width t) = (tw - resized_width t) div 2"
    "pad_of d th (resized_height t) = (th - resized_height t) div 2"
    unfolding pad_of_def fops by (rule pad_exact; use w h le in simp)+
  then show ?thesis using t w h full by simp
qed

end

section \<open>Mapping boxes\<close>

lemma fclamp_range: "lo \<le> hi \<Longrightarrow> lo \<le> fclamp v lo hi \<and> fclamp v lo hi \<le> hi"
  by (simp add: fclamp_def)

lemma fclamp_id: "lo \<le> v \<Longrightarrow> v \<le> hi \<Longrightarrow> fclamp v lo hi = v"
  by (simp add: fclamp_def)

section \<open>Interpolation tables\<close>

definition axis_entry :: "rounding \<Rightarrow> rounding \<Rightarrow> int \<Rightarrow> int \<Rightarrow> nat \<Rightarrow> int \<times> int \<times> real" where
  "axis_entry r d src_size resized_size k =
     (let step = fdiv d (of_int src_size) (of_int resized_size);
          position = fsub d (fmul d (fadd d (real k) (1 / 2)) step) (1 / 2);
          lo0 = \<lfloor>position\<rfloor>;
          weight0 = r (fsub d position (of_int lo0));
          (lo1, weight1) = (if lo0 < 0 then (0, 0) else (lo0, weight0))
      in if src_size - 1 \<le> lo1 then (src_size - 1, src_size - 1, 0)
         else (lo1, lo1 + 1, weight1))"

definition build_axis :: "rounding \<Rightarrow> rounding \<Rightarrow> int \<Rightarrow> int \<Rightarrow> (int \<times> int \<times> real) list" where
  "build_axis r d src_size resized_size =
     map (axis_entry r d src_size resized_size) [0..<nat resized_size]"

lemma axis_entry_bounds:
  assumes "float_rounding r" and "float_rounding d" and "0 < n" and "axis_entry r d n m k = (lo, hi, w)"
  shows "0 \<le> lo \<and> lo \<le> hi \<and> hi \<le> n - 1 \<and> hi \<le> lo + 1 \<and> 0 \<le> w \<and> w \<le> 1"
proof -
  obtain x where "x = fsub d (fmul d (fadd d (real k) (1 / 2)) (fdiv d (of_int n) (of_int m))) (1 / 2)" by simp
  moreover have "0 \<le> r (d (x - of_int \<lfloor>x\<rfloor>)) \<and> r (d (x - of_int \<lfloor>x\<rfloor>)) \<le> 1" for x
  proof -
    have "0 \<le> x - of_int \<lfloor>x\<rfloor>" "x - of_int \<lfloor>x\<rfloor> \<le> 1" by linarith+
    then have "0 \<le> d (x - of_int \<lfloor>x\<rfloor>)" "d (x - of_int \<lfloor>x\<rfloor>) \<le> 1"
      by (auto intro: float_rounding.nonneg [OF assms(2)] float_rounding.le_one [OF assms(2)])
    then show ?thesis
      by (auto intro: float_rounding.nonneg [OF assms(1)] float_rounding.le_one [OF assms(1)])
  qed
  ultimately show ?thesis using assms(3,4)
    by (auto simp: axis_entry_def Let_def fsub_def [of d] split: if_splits)
qed

section \<open>The letterboxer\<close>

record letterboxer =
  target_width :: int
  target_height :: int
  pad_value :: real
  transform :: letterbox_transform
  prepared_width :: int
  prepared_height :: int
  prepared_format :: pixel_format
  x_left :: "int list"
  x_right :: "int list"
  x_weight :: "real list"
  y_top :: "int list"
  y_bottom :: "int list"
  y_weight :: "real list"

definition make_letterboxer :: "rounding \<Rightarrow> int \<Rightarrow> int \<Rightarrow> u8 \<Rightarrow> takt_error + letterboxer" where
  "make_letterboxer r tw th pad =
     (if tw \<le> 0 \<or> th \<le> 0
      then Inl (Invalid_argument ''Letterboxer: target dimensions must be positive'')
      else Inr \<lparr>target_width = tw, target_height = th, pad_value = fdiv r (real (unat pad)) 255,
                transform = identity_transform, prepared_width = -1, prepared_height = -1,
                prepared_format = kBgr8, x_left = [], x_right = [], x_weight = [],
                y_top = [], y_bottom = [], y_weight = []\<rparr>)"

definition tensor_size :: "letterboxer \<Rightarrow> nat" where
  "tensor_size lb = 3 * nat (target_width lb) * nat (target_height lb)"

definition prepare :: "rounding \<Rightarrow> rounding \<Rightarrow> image_view \<Rightarrow> letterboxer \<Rightarrow> takt_error + letterboxer" where
  "prepare r d source lb =
     (if view_width source = prepared_width lb \<and> view_height source = prepared_height lb \<and>
         view_format source = prepared_format lb
      then Inr lb
      else bind_result (compute_letterbox r d (view_width source) (view_height source)
                          (target_width lb) (target_height lb))
        (\<lambda>t. let channels = channel_count (view_format source);
                 xs = build_axis r d (view_width source) (resized_width t);
                 ys = build_axis r d (view_height source) (resized_height t)
             in Inr (lb\<lparr>transform := t,
                        x_left := map (\<lambda>(lo, hi, w). lo * channels) xs,
                        x_right := map (\<lambda>(lo, hi, w). hi * channels) xs,
                        x_weight := map (\<lambda>(lo, hi, w). w) xs,
                        y_top := map (\<lambda>(lo, hi, w). lo) ys,
                        y_bottom := map (\<lambda>(lo, hi, w). hi) ys,
                        y_weight := map (\<lambda>(lo, hi, w). w) ys,
                        prepared_width := view_width source,
                        prepared_height := view_height source,
                        prepared_format := view_format source\<rparr>)))"

text \<open>The source channel that feeds each output plane (R, G, B).\<close>

definition channel_of_plane :: "pixel_format \<Rightarrow> int list" where
  "channel_of_plane f =
     (case f of kBgr8 \<Rightarrow> [2, 1, 0] | kRgb8 \<Rightarrow> [0, 1, 2] | kGray8 \<Rightarrow> [0, 0, 0])"

text \<open>\<open>std::fill(first, last, value)\<close> on the tensor.\<close>

definition fill :: "nat \<Rightarrow> nat \<Rightarrow> real \<Rightarrow> real list \<Rightarrow> real list" where
  "fill start stop v out = fold (\<lambda>i out. out[i := v]) [start..<stop] out"

definition blend :: "rounding \<Rightarrow> image_view \<Rightarrow> letterboxer \<Rightarrow> nat \<Rightarrow> nat \<Rightarrow> nat \<Rightarrow> real" where
  "blend r source lb p dy dx =
     (let c = channel_of_plane (view_format source) ! p;
          byte = (\<lambda>y k. real (unat (view_byte source y k)));
          row0 = y_top lb ! dy; row1 = y_bottom lb ! dy; wy = y_weight lb ! dy;
          xl = x_left lb ! dx; xr = x_right lb ! dx; wx = x_weight lb ! dx;
          a = byte row0 (xl + c);
          upper = fadd r a (fmul r (fsub r (byte row0 (xr + c)) a) wx);
          b = byte row1 (xl + c);
          lower = fadd r b (fmul r (fsub r (byte row1 (xr + c)) b) wx)
      in fmul r (fadd r upper (fmul r (fsub r lower upper) wy)) (fdiv r 1 255))"

definition fill_padding_rows :: "letterboxer \<Rightarrow> nat \<Rightarrow> nat \<Rightarrow> nat \<Rightarrow> real list \<Rightarrow> real list" where
  "fill_padding_rows lb tw up rh out =
     (let plane_size = tw * nat (target_height lb)
      in fold (\<lambda>p out. fill (p * plane_size + (up + rh) * tw) (p * plane_size + plane_size) (pad_value lb)
                 (fill (p * plane_size) (p * plane_size + up * tw) (pad_value lb) out)) [0..<3] out)"

definition fill_row ::
  "rounding \<Rightarrow> image_view \<Rightarrow> letterboxer \<Rightarrow> nat \<Rightarrow> nat \<Rightarrow> nat \<Rightarrow> nat \<Rightarrow> nat \<Rightarrow> real list \<Rightarrow> real list" where
  "fill_row r source lb tw left up rw dy out =
     (let plane_size = tw * nat (target_height lb);
          row = (\<lambda>p. p * plane_size + (up + dy) * tw);
          out1 = fold (\<lambda>p out. fill (row p + left + rw) (row p + tw) (pad_value lb)
                        (fill (row p) (row p + left) (pad_value lb) out)) [0..<3] out
      in fold (\<lambda>dx out. fold (\<lambda>p out. out[row p + left + dx := blend r source lb p dy dx]) [0..<3] out)
           [0..<rw] out1)"

definition letterbox_run ::
  "rounding \<Rightarrow> rounding \<Rightarrow> image_view \<Rightarrow> real list \<Rightarrow> letterboxer
     \<Rightarrow> takt_error + (letterboxer \<times> real list \<times> letterbox_transform)" where
  "letterbox_run r d source out lb =
     (if view_empty source then Inl (Invalid_argument ''Letterboxer::run: empty source image'')
      else if length out < tensor_size lb
      then Inl (Invalid_argument ''Letterboxer::run: output tensor too small'')
      else bind_result (prepare r d source lb)
        (\<lambda>lb1. let t = transform lb1;
                   tw = nat (target_width lb1);
                   left = nat \<lfloor>lb_pad_x t\<rfloor>; up = nat \<lfloor>lb_pad_y t\<rfloor>;
                   rw = nat (resized_width t); rh = nat (resized_height t);
                   out1 = fill_padding_rows lb1 tw up rh out;
                   out2 = fold (fill_row r source lb1 tw left up rw) [0..<rh] out1
               in Inr (lb1, out2, t)))"

section \<open>Painting by index\<close>

text \<open>\<open>f\<close> writes the positions \<open>W\<close> of an \<open>N\<close>-element tensor, each with its value under \<open>g\<close>.\<close>

definition paints :: "nat \<Rightarrow> (real list \<Rightarrow> real list) \<Rightarrow> nat set \<Rightarrow> (nat \<Rightarrow> real) \<Rightarrow> bool" where
  "paints N f W g \<longleftrightarrow>
     (\<forall>out. N \<le> length out \<longrightarrow> length (f out) = length out \<and>
        (\<forall>i < length out. f out ! i = (if i \<in> W then g i else out ! i)))"

lemma paints_comp: "paints N f W g \<Longrightarrow> paints N h V g \<Longrightarrow> paints N (\<lambda>out. h (f out)) (W \<union> V) g"
  unfolding paints_def by auto

lemma paints_fold:
  assumes "\<And>x. x \<in> set xs \<Longrightarrow> paints N (f x) (W x) g"
  shows "paints N (fold f xs) (\<Union>x \<in> set xs. W x) g"
  using assms
proof (induction xs)
  case Nil
  then show ?case by (simp add: paints_def)
next
  case (Cons x xs)
  then have "paints N (\<lambda>out. fold f xs (f x out)) (W x \<union> (\<Union>x \<in> set xs. W x)) g"
    by (intro paints_comp) auto
  then show ?case by (simp add: comp_def)
qed

lemma paints_update: "i < N \<Longrightarrow> g i = v \<Longrightarrow> paints N (\<lambda>out. out[i := v]) {i} g"
  by (auto simp: paints_def nth_list_update_if)

lemma paints_fill:
  assumes "b \<le> N" and "\<And>i. a \<le> i \<Longrightarrow> i < b \<Longrightarrow> g i = v"
  shows "paints N (fill a b v) {a..<b} g"
proof -
  have "paints N (fold (\<lambda>i out. out[i := v]) [a..<b]) (\<Union>i \<in> set [a..<b]. {i}) g"
    using assms by (intro paints_fold paints_update) auto
  then show ?thesis by (simp add: fill_def [abs_def])
qed

text \<open>What the tensor is meant to hold: padding around the blended pixels.\<close>

definition lb_pixel ::
  "nat \<Rightarrow> nat \<Rightarrow> nat \<Rightarrow> nat \<Rightarrow> real \<Rightarrow> (nat \<Rightarrow> nat \<Rightarrow> nat \<Rightarrow> real) \<Rightarrow> nat \<Rightarrow> nat \<Rightarrow> nat \<Rightarrow> real" where
  "lb_pixel left up rw rh pad val p y x =
     (if up \<le> y \<and> y < up + rh \<and> left \<le> x \<and> x < left + rw then val p (y - up) (x - left) else pad)"

definition lb_tensor :: "nat \<Rightarrow> nat \<Rightarrow> (nat \<Rightarrow> nat \<Rightarrow> nat \<Rightarrow> real) \<Rightarrow> nat \<Rightarrow> real" where
  "lb_tensor tw th px i = px (i div (tw * th)) (i mod (tw * th) div tw) (i mod (tw * th) mod tw)"

lemma row_bound: "y < n \<Longrightarrow> x < tw \<Longrightarrow> y * tw + x < n * (tw::nat)"
proof -
  assume "y < n" "x < tw"
  then have "y * tw + x < (y + 1) * tw" by simp
  also have "\<dots> \<le> n * tw" using \<open>y < n\<close> by (intro mult_le_mono1) simp
  finally show ?thesis .
qed

lemma row_end: "y < th \<Longrightarrow> y * tw + tw \<le> tw * (th::nat)"
proof -
  assume "y < th"
  then have "(y + 1) * tw \<le> th * tw" by (intro mult_le_mono1) simp
  then show ?thesis by (simp add: mult.commute [of th])
qed

lemma lb_tensor_at:
  assumes "y < th" and "x < tw"
  shows "lb_tensor tw th px (p * (tw * th) + y * tw + x) = px p y x"
proof -
  have lt: "y * tw + x < tw * th" using row_bound [OF assms] by (simp add: mult.commute)
  then have "(p * (tw * th) + y * tw + x) mod (tw * th) = y * tw + x"
    by (metis add.assoc mod_less mod_mult_self3)
  moreover have "(p * (tw * th) + y * tw + x) div (tw * th) = p"
    using lt by (metis add.assoc add_cancel_left_right div_less div_mult_self3 less_nat_zero_code)
  ultimately show ?thesis using assms(2) by (simp add: lb_tensor_def)
qed

lemma tensor_index:
  assumes "i < 3 * (tw * th)"
  obtains p y x where "p < 3" "y < th" "x < tw" "i = p * (tw * th) + y * tw + (x::nat)"
proof
  let ?ps = "tw * th"
  have pos: "0 < tw" "0 < th" using assms by (auto intro: gr0I)
  show "i div ?ps < 3" using assms by (simp add: less_mult_imp_div_less)
  show "i mod ?ps div tw < th" using pos by (simp add: less_mult_imp_div_less mult.commute)
  show "i mod ?ps mod tw < tw" using pos by simp
  show "i = i div ?ps * ?ps + i mod ?ps div tw * tw + i mod ?ps mod tw"
    using div_mult_mod_eq [of i ?ps] div_mult_mod_eq [of "i mod ?ps" tw] by (simp only: add.assoc)
qed

lemma paints_padding_rows:
  assumes le: "up + rh \<le> th" and th: "th = nat (target_height lb)"
    and g: "g = lb_tensor tw th (lb_pixel left up rw rh (pad_value lb) val)"
  shows "paints (3 * (tw * th)) (fill_padding_rows lb tw up rh)
    (\<Union>p \<in> {0..<3}. {p * (tw * th)..<p * (tw * th) + up * tw} \<union>
       {p * (tw * th) + (up + rh) * tw..<p * (tw * th) + tw * th}) g"
proof -
  let ?ps = "tw * th"
  have gv: "g (p * ?ps + j) = pad_value lb" if "j < ?ps" "j < up * tw \<or> (up + rh) * tw \<le> j" for p j
  proof -
    have tw: "0 < tw" using that(1) by (auto intro: gr0I)
    have "j div tw < th" using that(1) by (simp add: less_mult_imp_div_less mult.commute)
    moreover have "j mod tw < tw" using tw by simp
    moreover have "p * ?ps + j = p * ?ps + j div tw * tw + j mod tw" by simp
    ultimately have "g (p * ?ps + j) = lb_pixel left up rw rh (pad_value lb) val p (j div tw) (j mod tw)"
      unfolding g by (metis lb_tensor_at)
    moreover have "j div tw < up \<or> up + rh \<le> j div tw"
      using that(2) tw by (metis div_less_iff_less_mult less_eq_div_iff_mult_less_eq)
    ultimately show ?thesis by (auto simp: lb_pixel_def)
  qed
  have bound: "p * ?ps + ?ps \<le> 3 * ?ps" if "p < 3" for p
  proof -
    have "p * ?ps \<le> 2 * ?ps" using that by (intro mult_le_mono1) simp
    then show ?thesis by linarith
  qed
  have up: "up * tw \<le> ?ps" using le by (simp add: mult.commute)
  have "paints (3 * ?ps) (\<lambda>out. fill (p * ?ps + (up + rh) * tw) (p * ?ps + ?ps) (pad_value lb)
        (fill (p * ?ps) (p * ?ps + up * tw) (pad_value lb) out))
      ({p * ?ps..<p * ?ps + up * tw} \<union> {p * ?ps + (up + rh) * tw..<p * ?ps + ?ps}) g"
    if "p < 3" for p
  proof (rule paints_comp; rule paints_fill)
    show "p * ?ps + up * tw \<le> 3 * ?ps" "p * ?ps + ?ps \<le> 3 * ?ps" using bound [OF that] up by linarith+
    show "g i = pad_value lb" if "p * ?ps \<le> i" "i < p * ?ps + up * tw" for i
    proof -
      obtain j where "i = p * ?ps + j" using \<open>p * ?ps \<le> i\<close> le_Suc_ex by blast
      then show ?thesis using gv [of j p] that up by simp
    qed
    show "g i = pad_value lb" if "p * ?ps + (up + rh) * tw \<le> i" "i < p * ?ps + ?ps" for i
    proof -
      have "p * ?ps \<le> i" using that(1) by linarith
      then obtain j where "i = p * ?ps + j" using le_Suc_ex by blast
      then show ?thesis using gv [of j p] that by simp
    qed
  qed
  then have "paints (3 * ?ps) (fold (\<lambda>p out. fill (p * ?ps + (up + rh) * tw) (p * ?ps + ?ps) (pad_value lb)
        (fill (p * ?ps) (p * ?ps + up * tw) (pad_value lb) out)) [0..<3])
      (\<Union>p \<in> set [0..<3]. {p * ?ps..<p * ?ps + up * tw} \<union> {p * ?ps + (up + rh) * tw..<p * ?ps + ?ps}) g"
    by (intro paints_fold) auto
  then show ?thesis by (simp add: fill_padding_rows_def [abs_def] Let_def th)
qed

lemma paints_row:
  assumes dy: "dy < rh" and le: "up + rh \<le> th" "left + rw \<le> tw" and th: "th = nat (target_height lb)"
    and g: "g = lb_tensor tw th (lb_pixel left up rw rh (pad_value lb) (blend r source lb))"
  shows "paints (3 * (tw * th)) (fill_row r source lb tw left up rw dy)
    (\<Union>p \<in> {0..<3}. {p * (tw * th) + (up + dy) * tw..<p * (tw * th) + (up + dy) * tw + tw}) g"
proof -
  let ?ps = "tw * th" and ?row = "\<lambda>p. p * (tw * th) + (up + dy) * tw"
  have y: "up + dy < th" using dy le by linarith
  have gv: "g (?row p + x) = lb_pixel left up rw rh (pad_value lb) (blend r source lb) p (up + dy) x"
    if "x < tw" for p x using lb_tensor_at [OF y that] by (simp add: g)
  have bound: "?row p + tw \<le> 3 * ?ps" if "p < 3" for p
  proof -
    have "(up + dy) * tw + tw \<le> ?ps" using row_end [OF y] .
    moreover have "p * ?ps \<le> 2 * ?ps" using that by (intro mult_le_mono1) simp
    ultimately show ?thesis by linarith
  qed
  have sides: "paints (3 * ?ps) (\<lambda>out. fill (?row p + left + rw) (?row p + tw) (pad_value lb)
        (fill (?row p) (?row p + left) (pad_value lb) out))
      ({?row p..<?row p + left} \<union> {?row p + left + rw..<?row p + tw}) g" if "p < 3" for p
  proof (rule paints_comp; rule paints_fill)
    show "?row p + left \<le> 3 * ?ps" "?row p + tw \<le> 3 * ?ps" using bound [OF that] le by linarith+
    show "g i = pad_value lb" if "?row p \<le> i" "i < ?row p + left" for i
    proof -
      obtain x where "i = ?row p + x" using \<open>?row p \<le> i\<close> le_Suc_ex by blast
      then show ?thesis using gv [of x p] that le by (simp add: lb_pixel_def)
    qed
    show "g i = pad_value lb" if "?row p + left + rw \<le> i" "i < ?row p + tw" for i
    proof -
      have "?row p \<le> i" using that(1) by linarith
      then obtain x where "i = ?row p + x" using le_Suc_ex by blast
      then show ?thesis using gv [of x p] that le by (simp add: lb_pixel_def)
    qed
  qed
  have middle: "paints (3 * ?ps) (\<lambda>out. out[?row p + left + dx := blend r source lb p dy dx]) {?row p + left + dx} g"
    if "p < 3" "dx < rw" for p dx
  proof (rule paints_update)
    show "?row p + left + dx < 3 * ?ps" using bound [OF that(1)] that(2) le by linarith
    show "g (?row p + left + dx) = blend r source lb p dy dx"
      using gv [of "left + dx" p] that dy le by (simp add: lb_pixel_def add.assoc)
  qed
  have "paints (3 * ?ps)
     (\<lambda>out. fold (\<lambda>dx. fold (\<lambda>p out. out[?row p + left + dx := blend r source lb p dy dx]) [0..<3]) [0..<rw]
        (fold (\<lambda>p out. fill (?row p + left + rw) (?row p + tw) (pad_value lb)
           (fill (?row p) (?row p + left) (pad_value lb) out)) [0..<3] out))
     ((\<Union>p \<in> set [0..<3]. {?row p..<?row p + left} \<union> {?row p + left + rw..<?row p + tw}) \<union>
      (\<Union>dx \<in> set [0..<rw]. \<Union>p \<in> set [0..<3]. {?row p + left + dx})) g"
    by (intro paints_comp paints_fold sides middle) auto
  moreover have "((\<Union>p \<in> set [0..<3]. {?row p..<?row p + left} \<union> {?row p + left + rw..<?row p + tw}) \<union>
      (\<Union>dx \<in> set [0..<rw]. \<Union>p \<in> set [0..<3]. {?row p + left + dx})) =
     (\<Union>p \<in> {0..<3}. {?row p..<?row p + tw})" (is "?A \<union> ?B = ?C")
  proof (intro equalityI subsetI)
    fix i assume "i \<in> ?A \<union> ?B"
    then show "i \<in> ?C" using le by (auto, force+)
  next
    fix i assume "i \<in> ?C"
    then obtain p where p: "p < 3" "?row p \<le> i" "i < ?row p + tw" by auto
    then obtain x where x: "i = ?row p + x" using le_Suc_ex by blast
    show "i \<in> ?A \<union> ?B"
    proof (cases "left \<le> x \<and> x < left + rw")
      case True
      then obtain dx where "x = left + dx" "dx < rw" using le_Suc_ex [of left x] by auto
      then show ?thesis using p(1) x by (intro UnI2 UN_I [of dx] UN_I [of p]) simp_all
    next
      case False
      then have "i \<in> {?row p..<?row p + left} \<union> {?row p + left + rw..<?row p + tw}" using p x by auto
      moreover have "p \<in> set [0..<3]" using p(1) by simp
      ultimately show ?thesis by (rule UnI1 [OF UN_I [rotated]])
    qed
  qed
  ultimately show ?thesis by (simp add: fill_row_def [abs_def] Let_def th)
qed

lemma paints_image:
  assumes le: "up + rh \<le> th" "left + rw \<le> tw" and th: "th = nat (target_height lb)"
    and g: "g = lb_tensor tw th (lb_pixel left up rw rh (pad_value lb) (blend r source lb))"
  shows "paints (3 * (tw * th))
    (\<lambda>out. fold (fill_row r source lb tw left up rw) [0..<rh] (fill_padding_rows lb tw up rh out))
    {..<3 * (tw * th)} g"
proof -
  let ?ps = "tw * th"
  let ?A = "\<Union>p \<in> {0..<3}. {p * ?ps..<p * ?ps + up * tw} \<union> {p * ?ps + (up + rh) * tw..<p * ?ps + ?ps}"
  let ?B = "\<Union>dy \<in> set [0..<rh]. \<Union>p \<in> {0..<3}. {p * ?ps + (up + dy) * tw..<p * ?ps + (up + dy) * tw + tw}"
  have p: "paints (3 * ?ps)
      (\<lambda>out. fold (fill_row r source lb tw left up rw) [0..<rh] (fill_padding_rows lb tw up rh out)) (?A \<union> ?B) g"
    using assms by (intro paints_comp paints_fold paints_row paints_padding_rows) auto
  have "i \<in> ?A \<union> ?B" if "i < 3 * ?ps" for i
    using that
  proof (rule tensor_index)
    fix p y x assume i: "p < 3" "y < th" "x < tw" "i = p * ?ps + y * tw + x"
    consider "y < up" | "up \<le> y" "y < up + rh" | "up + rh \<le> y" by linarith
    then show ?thesis
    proof cases
      case 1
      then have "y * tw + x < up * tw" using i(3) by (rule row_bound)
      with i have "i \<in> {p * ?ps..<p * ?ps + up * tw}" by simp
      with i(1) show ?thesis by auto
    next
      case 2
      then obtain dy where dy: "y = up + dy" "dy < rh" using le_Suc_ex [of up y] by auto
      then have "i \<in> {p * ?ps + (up + dy) * tw..<p * ?ps + (up + dy) * tw + tw}" using i by simp
      with dy(2) i(1) show ?thesis by (intro UnI2 UN_I [of dy] UN_I [of p]) simp_all
    next
      case 3
      then have "(up + rh) * tw \<le> y * tw" by (rule mult_le_mono1)
      moreover have "y * tw + x < th * tw" using i(2,3) by (rule row_bound)
      moreover have "th * tw = ?ps" by (rule mult.commute)
      ultimately have "p * ?ps + (up + rh) * tw \<le> i" "i < p * ?ps + ?ps" unfolding i(4) by linarith+
      then have "i \<in> {p * ?ps + (up + rh) * tw..<p * ?ps + ?ps}" by simp
      with i(1) show ?thesis by auto
    qed
  qed
  moreover have "i < 3 * ?ps" if AB: "i \<in> ?A \<union> ?B" for i
  proof -
    have up: "up * tw \<le> ?ps" using le by (simp add: mult.commute)
    have rows: "(up + dy) * tw + tw \<le> ?ps" if "dy < rh" for dy using that le by (intro row_end) linarith
    have step: "i < 2 * ?ps + ?ps" if "p < 3" "b \<le> ?ps" "i < p * ?ps + b" for p b
    proof -
      have "p * ?ps \<le> 2 * ?ps" using that(1) by (intro mult_le_mono1) simp
      then show ?thesis using that(2,3) by (meson add_mono order.strict_trans2)
    qed
    consider (pad) p where "p < 3" "i < p * ?ps + up * tw \<or> i < p * ?ps + ?ps"
      | (row) dy p where "dy < rh" "p < 3" "i < p * ?ps + ((up + dy) * tw + tw)"
      using AB by (elim UnE UN_E) (simp_all only: atLeastLessThan_iff set_upt Un_iff add.assoc, blast+)
    then have "i < 2 * ?ps + ?ps"
    proof cases
      case pad
      then show ?thesis using step [OF _ up] step [OF _ order_refl] by blast
    next
      case row
      then show ?thesis using step [OF _ rows] by blast
    qed
    moreover have "2 * ?ps + ?ps = 3 * ?ps" by simp
    ultimately show ?thesis by (simp only:)
  qed
  ultimately have "?A \<union> ?B = {..<3 * ?ps}" by blast
  with p show ?thesis by simp
qed

section \<open>The invariant of a letterboxer\<close>

text \<open>Either nothing has been prepared yet, or the tables belong to the recorded resolution.\<close>

definition tables_for :: "rounding \<Rightarrow> rounding \<Rightarrow> int \<Rightarrow> int \<Rightarrow> pixel_format \<Rightarrow> letterboxer \<Rightarrow> bool" where
  "tables_for r d w h f lb \<longleftrightarrow>
     compute_letterbox r d w h (target_width lb) (target_height lb) = Inr (transform lb) \<and>
     (let xs = build_axis r d w (resized_width (transform lb));
          ys = build_axis r d h (resized_height (transform lb))
      in x_left lb = map (\<lambda>(lo, hi, w). lo * channel_count f) xs \<and>
         x_right lb = map (\<lambda>(lo, hi, w). hi * channel_count f) xs \<and>
         x_weight lb = map (\<lambda>(lo, hi, w). w) xs \<and>
         y_top lb = map (\<lambda>(lo, hi, w). lo) ys \<and> y_bottom lb = map (\<lambda>(lo, hi, w). hi) ys \<and>
         y_weight lb = map (\<lambda>(lo, hi, w). w) ys)"

definition letterboxer_ok :: "rounding \<Rightarrow> rounding \<Rightarrow> letterboxer \<Rightarrow> bool" where
  "letterboxer_ok r d lb \<longleftrightarrow> 0 < target_width lb \<and> 0 < target_height lb \<and>
     (prepared_width lb = -1 \<and> prepared_height lb = -1 \<or>
      tables_for r d (prepared_width lb) (prepared_height lb) (prepared_format lb) lb)"

lemma make_letterboxer_ok: "make_letterboxer r tw th pad = Inr lb \<Longrightarrow>
    letterboxer_ok r d lb \<and> target_width lb = tw \<and> target_height lb = th"
  by (auto simp: make_letterboxer_def letterboxer_ok_def split: if_splits)

lemma prepare_ok:
  assumes "letterboxer_ok r d lb" and "\<not> view_empty source"
  shows "\<exists>lb'. prepare r d source lb = Inr lb' \<and> letterboxer_ok r d lb' \<and>
    tables_for r d (view_width source) (view_height source) (view_format source) lb' \<and>
    target_width lb' = target_width lb \<and> target_height lb' = target_height lb \<and> pad_value lb' = pad_value lb"
proof (cases "view_width source = prepared_width lb \<and> view_height source = prepared_height lb \<and>
    view_format source = prepared_format lb")
  case True
  then show ?thesis using assms by (auto simp: prepare_def letterboxer_ok_def view_empty_def)
next
  case False
  obtain t where t: "compute_letterbox r d (view_width source) (view_height source)
      (target_width lb) (target_height lb) = Inr t"
    using assms by (auto simp: compute_letterbox_def letterboxer_ok_def view_empty_def Let_def)
  obtain lb' where lb': "prepare r d source lb = Inr lb'" using False t by (auto simp: prepare_def Let_def)
  then have "tables_for r d (view_width source) (view_height source) (view_format source) lb' \<and>
      target_width lb' = target_width lb \<and> target_height lb' = target_height lb \<and> pad_value lb' = pad_value lb \<and>
      prepared_width lb' = view_width source \<and> prepared_height lb' = view_height source \<and>
      prepared_format lb' = view_format source"
    using False t by (auto simp: prepare_def tables_for_def Let_def)
  then show ?thesis using lb' assms(1) by (auto simp: letterboxer_ok_def)
qed

lemma round32_floor_nat: "0 \<le> n \<Longrightarrow> n \<le> 2 ^ 24 \<Longrightarrow> nat \<lfloor>round32 (of_int n)\<rfloor> = nat n"
  using f32.exact_int [of n] by simp

definition large_dims :: "int list \<Rightarrow> bool" where
  "large_dims ns \<longleftrightarrow> (\<exists>n \<in> set ns. 2 ^ 24 < n)"

section \<open>The properties\<close>

text \<open>
  For dimensions up to 2^24 the resized image fits into the target, fills one of its axes, and
  is centred with the odd pixel on the right or bottom, although the ratio is rounded.
\<close>

theorem letterbox_fits:
  assumes "compute_letterbox round32 round64 sw sh tw th = Inr t" and "\<not> large_dims [sw, sh, tw, th]"
  shows "0 \<le> resized_width t \<and> resized_width t \<le> tw \<and> 0 \<le> resized_height t \<and> resized_height t \<le> th \<and>
    (resized_width t = tw \<or> resized_height t = th) \<and>
    lb_pad_x t = of_int ((tw - resized_width t) div 2) \<and>
    lb_pad_y t = of_int ((th - resized_height t) div 2)"
proof -
  have le: "sw \<le> 2 ^ 24" "sh \<le> 2 ^ 24" "tw \<le> 2 ^ 24" "th \<le> 2 ^ 24"
    using assms(2) by (auto simp: large_dims_def)
  note D = f64.letterbox_dims [OF assms(1) le]
  have "round32 (of_int ((tw - resized_width t) div 2)) = of_int ((tw - resized_width t) div 2)"
    "round32 (of_int ((th - resized_height t) div 2)) = of_int ((th - resized_height t) div 2)"
    using D le by (auto intro!: f32.exact_int simp del: of_int_diff)
  with D show ?thesis by simp
qed

theorem letterbox_fits_witness:
  "\<exists>t. compute_letterbox round32 round64 1920 1080 640 640 = Inr t \<and>
     (resized_width t = 640 \<or> resized_height t = 640)"
proof -
  obtain t where "compute_letterbox round32 round64 1920 1080 640 640 = Inr t"
    by (simp add: compute_letterbox_def Let_def)
  with letterbox_fits [OF this] show ?thesis by (auto simp: large_dims_def)
qed

text \<open>
  C22: the fused pass computes what it is meant to: every element of the tensor holds the padding
  value outside the image and the bilinear blend of the scaled channel inside it, whatever it held
  before; elements behind the tensor are untouched, and the tables are those of the source
  resolution whether or not they were cached.
\<close>

theorem letterbox_fills_tensor:
  assumes "letterboxer_ok round32 round64 lb" and "\<not> view_empty source" and "tensor_size lb \<le> length out"
    and "\<not> large_dims [view_width source, view_height source, target_width lb, target_height lb]"
  shows "\<exists>lb' out' t. letterbox_run round32 round64 source out lb = Inr (lb', out', t) \<and>
    letterboxer_ok round32 round64 lb' \<and>
    tables_for round32 round64 (view_width source) (view_height source) (view_format source) lb' \<and>
    transform lb' = t \<and> length out' = length out \<and>
    (\<forall>i < length out. out' ! i = (if i < tensor_size lb
       then lb_tensor (nat (target_width lb)) (nat (target_height lb))
              (lb_pixel (nat ((target_width lb - resized_width t) div 2))
                 (nat ((target_height lb - resized_height t) div 2))
                 (nat (resized_width t)) (nat (resized_height t)) (pad_value lb) (blend round32 source lb')) i
       else out ! i))"
proof -
  obtain lb' where lb': "prepare round32 round64 source lb = Inr lb'" "letterboxer_ok round32 round64 lb'"
    "tables_for round32 round64 (view_width source) (view_height source) (view_format source) lb'"
    "target_width lb' = target_width lb" "target_height lb' = target_height lb" "pad_value lb' = pad_value lb"
    using prepare_ok [OF assms(1,2)] by blast
  let ?t = "transform lb'" and ?tw = "nat (target_width lb)" and ?th = "nat (target_height lb)"
  let ?left = "nat ((target_width lb - resized_width ?t) div 2)" and ?rw = "nat (resized_width ?t)"
  let ?up = "nat ((target_height lb - resized_height ?t) div 2)" and ?rh = "nat (resized_height ?t)"
  let ?g = "lb_tensor ?tw ?th (lb_pixel ?left ?up ?rw ?rh (pad_value lb) (blend round32 source lb'))"
  let ?paint = "\<lambda>out. fold (fill_row round32 source lb' ?tw ?left ?up ?rw) [0..<?rh]
      (fill_padding_rows lb' ?tw ?up ?rh out)"
  have le: "view_width source \<le> 2 ^ 24" "view_height source \<le> 2 ^ 24" "target_width lb \<le> 2 ^ 24" "target_height lb \<le> 2 ^ 24"
    using assms(4) by (auto simp: large_dims_def)
  have c: "compute_letterbox round32 round64 (view_width source) (view_height source)
      (target_width lb) (target_height lb) = Inr ?t"
    using lb'(3-5) by (simp add: tables_for_def)
  note D = f64.letterbox_dims [OF c le]
  have pads: "nat \<lfloor>lb_pad_x ?t\<rfloor> = ?left" "nat \<lfloor>lb_pad_y ?t\<rfloor> = ?up"
    using D le by (auto intro!: round32_floor_nat simp del: of_int_diff)
  have "?up + ?rh \<le> ?th" "?left + ?rw \<le> ?tw" using D by linarith+
  then have "paints (3 * (?tw * ?th)) ?paint {..<3 * (?tw * ?th)} ?g"
    by (rule paints_image) (simp_all add: lb'(5,6))
  then have P: "length (?paint out) = length out \<and>
      (\<forall>i < length out. ?paint out ! i = (if i < tensor_size lb then ?g i else out ! i))"
    using assms(3) by (simp add: paints_def tensor_size_def mult.assoc)
  have "letterbox_run round32 round64 source out lb = Inr (lb', ?paint out, ?t)"
    using assms(2,3) lb'(1,4) pads by (simp add: letterbox_run_def Let_def)
  with P lb'(2,3) show ?thesis by blast
qed

theorem letterbox_fills_tensor_witness:
  "\<exists>lb lb' out' t. make_letterboxer round32 2 2 114 = Inr lb \<and>
     letterbox_run round32 round64 (image_as_view \<lparr>image_buffer = [9], image_width = 1, image_height = 1,
       image_format = kGray8\<rparr>) (replicate 12 0) lb = Inr (lb', out', t) \<and> length out' = 12"
proof -
  let ?img = "image_as_view \<lparr>image_buffer = [9], image_width = 1, image_height = 1, image_format = kGray8\<rparr>"
  obtain lb where lb: "make_letterboxer round32 2 2 114 = Inr lb" by (simp add: make_letterboxer_def)
  note ok = make_letterboxer_ok [OF lb]
  have "\<not> view_empty ?img" "\<not> large_dims [view_width ?img, view_height ?img, target_width lb, target_height lb]"
    "tensor_size lb \<le> length (replicate 12 (0::real))"
    using ok by (simp_all add: image_as_view_def view_empty_def large_dims_def tensor_size_def)
  from letterbox_fills_tensor [OF _ this(1,3,2)] ok show ?thesis using lb by (metis length_replicate)
qed

text \<open>
  The interpolation tables never point outside the source: both neighbours lie in the image,
  they are equal or adjacent, and the weight is between 0 and 1.
\<close>

theorem axis_in_bounds:
  assumes "0 < n" and "(lo, hi, w) \<in> set (build_axis round32 round64 n m)"
  shows "0 \<le> lo \<and> lo \<le> hi \<and> hi \<le> n - 1 \<and> hi \<le> lo + 1 \<and> 0 \<le> w \<and> w \<le> 1"
proof -
  obtain k where "axis_entry round32 round64 n m k = (lo, hi, w)"
    using assms(2) unfolding build_axis_def set_map by (metis imageE)
  from axis_entry_bounds [OF f32.float_rounding_axioms f64.float_rounding_axioms assms(1) this]
  show ?thesis by simp
qed

theorem axis_in_bounds_witness: "\<exists>lo hi w. (lo, hi, w) \<in> set (build_axis round32 round64 3 2) \<and> hi \<le> 2"
proof -
  obtain lo hi w where e: "axis_entry round32 round64 3 2 0 = (lo, hi, w)" by (metis prod_cases3)
  have "(lo, hi, w) \<in> set (build_axis round32 round64 3 2)"
    unfolding build_axis_def e [symmetric] by simp
  with axis_in_bounds [of 3 lo hi w 2] show ?thesis by force
qed

text \<open>
  C23: mapping to the source clips to the image in any arithmetic; in exact arithmetic it undoes
  the mapping to the model for boxes inside the image.
\<close>

theorem to_source_inverts_to_model:
  assumes "0 \<le> source_width t" and "0 \<le> source_height t" and "0 < lb_scale t"
    and "0 \<le> box_x1 b \<and> box_x1 b \<le> of_int (source_width t) \<and> 0 \<le> box_x2 b \<and> box_x2 b \<le> of_int (source_width t)"
    and "0 \<le> box_y1 b \<and> box_y1 b \<le> of_int (source_height t) \<and> 0 \<le> box_y2 b \<and> box_y2 b \<le> of_int (source_height t)"
  shows "to_source exact_rounding t (to_model exact_rounding t b) = b \<and>
    (\<forall>c. let s = to_source round32 t c
       in 0 \<le> box_x1 s \<and> box_x1 s \<le> round32 (of_int (source_width t)) \<and>
          0 \<le> box_y1 s \<and> box_y1 s \<le> round32 (of_int (source_height t)) \<and>
          0 \<le> box_x2 s \<and> box_x2 s \<le> round32 (of_int (source_width t)) \<and>
          0 \<le> box_y2 s \<and> box_y2 s \<le> round32 (of_int (source_height t)))"
proof
  show "to_source exact_rounding t (to_model exact_rounding t b) = b"
    using assms(3-) by (simp add: to_source_def to_model_def fops fclamp_id)
  have "0 \<le> round32 (of_int (source_width t))" "0 \<le> round32 (of_int (source_height t))"
    using assms(1,2) by (simp_all add: f32.nonneg)
  then show "\<forall>c. let s = to_source round32 t c
       in 0 \<le> box_x1 s \<and> box_x1 s \<le> round32 (of_int (source_width t)) \<and>
          0 \<le> box_y1 s \<and> box_y1 s \<le> round32 (of_int (source_height t)) \<and>
          0 \<le> box_x2 s \<and> box_x2 s \<le> round32 (of_int (source_width t)) \<and>
          0 \<le> box_y2 s \<and> box_y2 s \<le> round32 (of_int (source_height t))"
    by (simp add: to_source_def fclamp_range Let_def)
qed

theorem to_source_inverts_to_model_witness:
  "to_source exact_rounding (identity_transform\<lparr>lb_scale := 2, lb_pad_x := 3, source_width := 10, source_height := 10\<rparr>)
     (to_model exact_rounding (identity_transform\<lparr>lb_scale := 2, lb_pad_x := 3, source_width := 10, source_height := 10\<rparr>)
        \<lparr>box_x1 = 1, box_y1 = 2, box_x2 = 5, box_y2 = 6\<rparr>) = \<lparr>box_x1 = 1, box_y1 = 2, box_x2 = 5, box_y2 = 6\<rparr>"
  by (rule to_source_inverts_to_model [THEN conjunct1]) (simp_all add: identity_transform_def)

text \<open>
  An extreme aspect ratio degenerates: a 10000 by 1 image letterboxed into 640 by 640 gets a
  resized height of zero, so the tensor is all padding.
\<close>

theorem extreme_aspect_ratio_vanishes:
  "\<exists>t. compute_letterbox exact_rounding exact_rounding 10000 1 640 640 = Inr t \<and>
     resized_width t = 640 \<and> resized_height t = 0"
  by (simp add: compute_letterbox_def Let_def fops lround_def floor_eq_iff)

end
