(* ===== verification/LinearAssignment.thy ===== *)
theory LinearAssignment
  imports FloatModel
begin

text \<open>
  \<open>track/linear_assignment.hpp\<close>, \<open>track/linear_assignment.cpp\<close>: the gated rectangular assignment
  problem, solved by the Hungarian algorithm with potentials on an extended square matrix.

  The scratch vectors (\<open>matrix_\<close>, \<open>u_\<close>, \<open>v_\<close>, \<open>min_slack_\<close>, \<open>assigned_row_\<close>, \<open>way_\<close>, \<open>used_\<close>) are
  reassigned by every call, so \<open>solve\<close> is a pure function of its arguments; they are functions
  from indices here, and the lemmas show that only the indices \<open>0..n\<close> are used. \<open>kInf\<close> is
  \<open>None\<close>. Both \<open>do\<close> loops are partial functions: not returning is the value \<open>None\<close>, and
  \<open>add_row_step\<close> proves that they return for every rounding of the double arithmetic \<open>d\<close>.
\<close>

section \<open>Data and operations\<close>

record assignment_result =
  matches :: "(int \<times> int) list"
  unmatched_rows :: "int list"
  unmatched_cols :: "int list"

definition empty_result :: assignment_result where
  "empty_result = \<lparr>matches = [], unmatched_rows = [], unmatched_cols = []\<rparr>"

definition kForbidden :: real where
  "kForbidden = 1000000000"

definition at_cost :: "rounding \<Rightarrow> real list \<Rightarrow> int \<Rightarrow> int \<Rightarrow> real \<Rightarrow> int \<Rightarrow> int \<Rightarrow> real" where
  "at_cost d cost rows cols cost_limit r c =
     (let half_limit = fmul d (1 / 2) cost_limit
      in if r < rows \<and> c < cols then
           (let cst = cost ! (nat r * nat cols + nat c) in if cst \<le> cost_limit then cst else kForbidden)
         else if r < rows then (if c - cols = r then half_limit else kForbidden)
         else if c < cols then (if r - rows = c then half_limit else kForbidden)
         else 0)"

text \<open>The buffer behind \<open>at\<close> has an extra row and column \<open>0\<close>.\<close>

definition extended_matrix :: "rounding \<Rightarrow> real list \<Rightarrow> int \<Rightarrow> int \<Rightarrow> real \<Rightarrow> nat \<Rightarrow> nat \<Rightarrow> real" where
  "extended_matrix d cost rows cols cost_limit i j =
     (if i = 0 \<or> j = 0 then 0 else at_cost d cost rows cols cost_limit (int i - 1) (int j - 1))"

record hungarian =
  pot_u :: "nat \<Rightarrow> real"
  pot_v :: "nat \<Rightarrow> real"
  min_slack :: "nat \<Rightarrow> real option"
  assigned_row :: "nat \<Rightarrow> nat"
  way :: "nat \<Rightarrow> nat"
  used_col :: "nat \<Rightarrow> bool"

definition hungarian_init :: hungarian where
  "hungarian_init = \<lparr>pot_u = (\<lambda>_. 0), pot_v = (\<lambda>_. 0), min_slack = (\<lambda>_. None),
     assigned_row = (\<lambda>_. 0), way = (\<lambda>_. 0), used_col = (\<lambda>_. False)\<rparr>"

fun below :: "real option \<Rightarrow> real option \<Rightarrow> bool" where
  "below (Some a) (Some b) = (a < b)"
| "below (Some a) None = True"
| "below None b = False"

definition relax_column ::
  "rounding \<Rightarrow> (nat \<Rightarrow> nat \<Rightarrow> real) \<Rightarrow> nat \<Rightarrow> nat \<Rightarrow> nat \<Rightarrow> hungarian \<times> real option \<times> nat \<Rightarrow>
     hungarian \<times> real option \<times> nat"
where
  "relax_column d m i0 j0 j = (\<lambda>(h, delta, j1).
     if used_col h j then (h, delta, j1)
     else
       let reduced = fsub d (fsub d (m i0 j) (pot_u h i0)) (pot_v h j);
           h = (if below (Some reduced) (min_slack h j)
                then h\<lparr>min_slack := (min_slack h)(j := Some reduced), way := (way h)(j := j0)\<rparr> else h)
       in if below (min_slack h j) delta then (h, min_slack h j, j) else (h, delta, j1))"

definition shift_column :: "rounding \<Rightarrow> real \<Rightarrow> nat \<Rightarrow> hungarian \<Rightarrow> hungarian" where
  "shift_column d delta j h =
     (if used_col h j
      then h\<lparr>pot_u := (pot_u h)(assigned_row h j := fadd d (pot_u h (assigned_row h j)) delta),
             pot_v := (pot_v h)(j := fsub d (pot_v h j) delta)\<rparr>
      else h\<lparr>min_slack := (min_slack h)(j := map_option (\<lambda>s. fsub d s delta) (min_slack h j))\<rparr>)"

text \<open>
  One pass of the first \<open>do\<close> loop: mark \<open>j0\<close>, relax the row assigned to it, shift the potentials,
  and return the next column. With no unmarked column left the code keeps an infinite
  \<open>delta\<close> and the loop never ends; the step is \<open>None\<close> there.
\<close>

definition search_step ::
  "rounding \<Rightarrow> (nat \<Rightarrow> nat \<Rightarrow> real) \<Rightarrow> nat \<Rightarrow> nat \<Rightarrow> hungarian \<Rightarrow> (hungarian \<times> nat) option"
where
  "search_step d m n j0 h =
     (let h = h\<lparr>used_col := (used_col h)(j0 := True)\<rparr>;
          i0 = assigned_row h j0;
          (h, delta, j1) = fold (relax_column d m i0 j0) [1..<Suc n] (h, None, 0)
      in case delta of None \<Rightarrow> None
         | Some dl \<Rightarrow> Some (fold (shift_column d dl) [0..<Suc n] h, j1))"

partial_function (option) search ::
  "rounding \<Rightarrow> (nat \<Rightarrow> nat \<Rightarrow> real) \<Rightarrow> nat \<Rightarrow> nat \<Rightarrow> hungarian \<Rightarrow> (hungarian \<times> nat) option"
where
  "search d m n j0 h =
     (case search_step d m n j0 h of None \<Rightarrow> None
      | Some (h, j1) \<Rightarrow> if assigned_row h j1 \<noteq> 0 then search d m n j1 h else Some (h, j1))"

partial_function (option) augment :: "nat \<Rightarrow> hungarian \<Rightarrow> hungarian option" where
  "augment j0 h =
     (let j1 = way h j0;
          h = h\<lparr>assigned_row := (assigned_row h)(j0 := assigned_row h j1)\<rparr>
      in if j1 \<noteq> 0 then augment j1 h else Some h)"

definition add_row ::
  "rounding \<Rightarrow> (nat \<Rightarrow> nat \<Rightarrow> real) \<Rightarrow> nat \<Rightarrow> nat \<Rightarrow> hungarian \<Rightarrow> hungarian option"
where
  "add_row d m n i h =
     (let h = h\<lparr>assigned_row := (assigned_row h)(0 := i), min_slack := (\<lambda>_. None),
                used_col := (\<lambda>_. False)\<rparr>
      in case search d m n 0 h of None \<Rightarrow> None | Some (h, j0) \<Rightarrow> augment j0 h)"

fun add_rows ::
  "rounding \<Rightarrow> (nat \<Rightarrow> nat \<Rightarrow> real) \<Rightarrow> nat \<Rightarrow> nat list \<Rightarrow> hungarian \<Rightarrow> hungarian option"
where
  "add_rows d m n [] h = Some h"
| "add_rows d m n (i # rows) h =
     (case add_row d m n i h of None \<Rightarrow> None | Some h \<Rightarrow> add_rows d m n rows h)"

definition read_column ::
  "(int \<Rightarrow> int \<Rightarrow> real) \<Rightarrow> int \<Rightarrow> hungarian \<Rightarrow> int \<Rightarrow> assignment_result \<Rightarrow> assignment_result"
where
  "read_column a rows h c result =
     (let r = int (assigned_row h (nat (c + 1))) - 1
      in if 0 \<le> r \<and> r < rows \<and> a r c < kForbidden
         then result\<lparr>matches := matches result @ [(r, c)]\<rparr>
         else result\<lparr>unmatched_cols := unmatched_cols result @ [c]\<rparr>)"

definition read_back ::
  "(int \<Rightarrow> int \<Rightarrow> real) \<Rightarrow> int \<Rightarrow> int \<Rightarrow> hungarian \<Rightarrow> assignment_result"
where
  "read_back a rows cols h =
     (let result = fold (read_column a rows h) [0..cols - 1] empty_result;
          row_matched = set (map fst (matches result))
      in result\<lparr>unmatched_rows := filter (\<lambda>r. r \<notin> row_matched) [0..rows - 1]\<rparr>)"

definition solve ::
  "rounding \<Rightarrow> real list \<Rightarrow> int \<Rightarrow> int \<Rightarrow> real \<Rightarrow> (takt_error + assignment_result) option"
where
  "solve d cost rows cols cost_limit =
     (if rows < 0 \<or> cols < 0 \<or> length cost < nat rows * nat cols
      then Some (Inl (Invalid_argument ''LinearAssignment::solve: cost matrix size mismatch''))
      else if rows = 0 \<or> cols = 0
      then Some (Inr \<lparr>matches = [], unmatched_rows = [0..rows - 1], unmatched_cols = [0..cols - 1]\<rparr>)
      else
        let n = nat (rows + cols);
            m = extended_matrix d cost rows cols cost_limit
        in case add_rows d m n [1..<Suc n] hungarian_init of None \<Rightarrow> None
           | Some h \<Rightarrow> Some (Inr (read_back (at_cost d cost rows cols cost_limit) rows cols h)))"


section \<open>One pass of the search\<close>

definition reduced_cost ::
  "rounding \<Rightarrow> (nat \<Rightarrow> nat \<Rightarrow> real) \<Rightarrow> hungarian \<Rightarrow> nat \<Rightarrow> nat \<Rightarrow> real" where
  "reduced_cost d m h i j = fsub d (fsub d (m i j) (pot_u h i)) (pot_v h j)"

definition slack_value ::
  "rounding \<Rightarrow> (nat \<Rightarrow> nat \<Rightarrow> real) \<Rightarrow> nat \<Rightarrow> hungarian \<Rightarrow> nat \<Rightarrow> real" where
  "slack_value d m i0 h j =
     (case min_slack h j of None \<Rightarrow> reduced_cost d m h i0 j
      | Some s \<Rightarrow> if reduced_cost d m h i0 j < s then reduced_cost d m h i0 j else s)"

definition next_way ::
  "rounding \<Rightarrow> (nat \<Rightarrow> nat \<Rightarrow> real) \<Rightarrow> nat \<Rightarrow> nat \<Rightarrow> hungarian \<Rightarrow> nat \<Rightarrow> nat" where
  "next_way d m i0 j0 h j =
     (if below (Some (reduced_cost d m h i0 j)) (min_slack h j) then j0 else way h j)"

definition relaxed ::
  "rounding \<Rightarrow> (nat \<Rightarrow> nat \<Rightarrow> real) \<Rightarrow> nat \<Rightarrow> nat \<Rightarrow> nat \<Rightarrow> hungarian \<Rightarrow> hungarian" where
  "relaxed d m i0 j0 k h = h\<lparr>
     min_slack := (\<lambda>j. if 1 \<le> j \<and> j \<le> k \<and> \<not> used_col h j then Some (slack_value d m i0 h j)
                       else min_slack h j),
     way := (\<lambda>j. if 1 \<le> j \<and> j \<le> k \<and> \<not> used_col h j then next_way d m i0 j0 h j else way h j)\<rparr>"

lemma relaxed_sel [simp]:
  "pot_u (relaxed d m i0 j0 k h) = pot_u h" "pot_v (relaxed d m i0 j0 k h) = pot_v h"
  "assigned_row (relaxed d m i0 j0 k h) = assigned_row h" "used_col (relaxed d m i0 j0 k h) = used_col h"
  by (simp_all add: relaxed_def)

lemma relax_column_used: "used_col h j \<Longrightarrow> relax_column d m i0 j0 j (h, delta, j1) = (h, delta, j1)"
  by (simp add: relax_column_def)

lemma relax_column_relaxed:
  assumes "\<not> used_col h (Suc k)"
  shows "relax_column d m i0 j0 (Suc k) (relaxed d m i0 j0 k h, delta, j1) =
    (let s = Some (slack_value d m i0 h (Suc k))
     in (relaxed d m i0 j0 (Suc k) h, if below s delta then s else delta,
         if below s delta then Suc k else j1))"
proof -
  have red: "fsub d (fsub d (m i0 (Suc k)) (pot_u h i0)) (pot_v h (Suc k)) = reduced_cost d m h i0 (Suc k)"
    by (simp add: reduced_cost_def)
  show ?thesis
    using assms
    by (cases "min_slack h (Suc k)")
      (auto simp: relax_column_def relaxed_def red slack_value_def next_way_def Let_def fun_eq_iff
        le_Suc_eq intro!: hungarian.equality)
qed

lemma relax_fold:
  assumes "fold (relax_column d m i0 j0) [1..<Suc k] (h, None, 0) = (h', delta, j1)"
  shows "h' = relaxed d m i0 j0 k h \<and>
    (case delta of None \<Rightarrow> \<forall>j. 1 \<le> j \<and> j \<le> k \<longrightarrow> used_col h j
     | Some dl \<Rightarrow> 1 \<le> j1 \<and> j1 \<le> k \<and> \<not> used_col h j1 \<and> dl = slack_value d m i0 h j1 \<and>
         (\<forall>j. 1 \<le> j \<and> j \<le> k \<and> \<not> used_col h j \<longrightarrow> dl \<le> slack_value d m i0 h j))"
  using assms
proof (induction k arbitrary: h' delta j1)
  case 0
  moreover have "relaxed d m i0 j0 0 h = h"
    by (auto simp: relaxed_def fun_eq_iff intro!: hungarian.equality)
  ultimately show ?case by auto
next
  case (Suc k)
  obtain h1 dl j where e: "fold (relax_column d m i0 j0) [1..<Suc k] (h, None, 0) = (h1, dl, j)"
    by (metis prod_cases3)
  note IH = Suc.IH [OF e]
  have step: "relax_column d m i0 j0 (Suc k) (h1, dl, j) = (h', delta, j1)"
    using Suc.prems e by simp
  show ?case
  proof (cases "used_col h (Suc k)")
    case True
    then have "used_col h1 (Suc k)" using IH by simp
    from relax_column_used [OF this] step have "h' = h1" "delta = dl" "j1 = j" by auto
    moreover have "relaxed d m i0 j0 (Suc k) h = relaxed d m i0 j0 k h"
      using True by (auto simp: relaxed_def fun_eq_iff le_Suc_eq intro!: hungarian.equality)
    ultimately show ?thesis using IH True by (auto simp: le_Suc_eq split: option.splits)
  next
    case False
    from IH have h1: "h1 = relaxed d m i0 j0 k h" by blast
    from step have "h' = relaxed d m i0 j0 (Suc k) h"
      and "delta = (if below (Some (slack_value d m i0 h (Suc k))) dl
                    then Some (slack_value d m i0 h (Suc k)) else dl)"
      and "j1 = (if below (Some (slack_value d m i0 h (Suc k))) dl then Suc k else j)"
      unfolding h1 relax_column_relaxed [OF False] by (auto simp: Let_def)
    then show ?thesis using IH False
      by (cases dl) (auto simp: le_Suc_eq split: if_splits)
  qed
qed

definition shifted :: "rounding \<Rightarrow> real \<Rightarrow> nat \<Rightarrow> hungarian \<Rightarrow> hungarian" where
  "shifted d dl k h = h\<lparr>
     pot_u := (\<lambda>r. if \<exists>j<k. used_col h j \<and> assigned_row h j = r then fadd d (pot_u h r) dl else pot_u h r),
     pot_v := (\<lambda>j. if j < k \<and> used_col h j then fsub d (pot_v h j) dl else pot_v h j),
     min_slack := (\<lambda>j. if j < k \<and> \<not> used_col h j then map_option (\<lambda>s. fsub d s dl) (min_slack h j)
                       else min_slack h j)\<rparr>"

lemma shifted_sel [simp]:
  "assigned_row (shifted d dl k h) = assigned_row h" "used_col (shifted d dl k h) = used_col h"
  "way (shifted d dl k h) = way h"
  by (simp_all add: shifted_def)

lemma shift_fold:
  assumes "inj_on (assigned_row h) {j. j < k \<and> used_col h j}"
  shows "fold (shift_column d dl) [0..<k] h = shifted d dl k h"
  using assms
proof (induction k)
  case 0
  then show ?case by (simp add: shifted_def)
next
  case (Suc k)
  have "inj_on (assigned_row h) {j. j < k \<and> used_col h j}"
    using Suc.prems by (rule inj_on_subset) auto
  note IH = Suc.IH [OF this]
  have fresh: "\<not> (\<exists>j<k. used_col h j \<and> assigned_row h j = assigned_row h k)" if "used_col h k"
    using inj_onD [OF Suc.prems, of _ k] that by fastforce
  show ?case
  proof (cases "used_col h k")
    case True
    then show ?thesis
      using fresh IH
      by (auto simp: shift_column_def shifted_def fun_eq_iff less_Suc_eq intro!: hungarian.equality)
  next
    case False
    then show ?thesis
      using IH
      by (auto simp: shift_column_def shifted_def fun_eq_iff less_Suc_eq intro!: hungarian.equality)
  qed
qed


section \<open>The search ends, for every rounding\<close>

definition rows_placed :: "nat \<Rightarrow> nat \<Rightarrow> (nat \<Rightarrow> nat) \<Rightarrow> bool" where
  "rows_placed n i p \<longleftrightarrow> inj_on p {j. j \<le> n \<and> p j \<noteq> 0} \<and> p 0 = i \<and>
     p ` {j. 1 \<le> j \<and> j \<le> n \<and> p j \<noteq> 0} = {1..<i}"

text \<open>
  At the head of the search the marked columns form a tree with root \<open>0\<close> and parent function
  \<open>way\<close>; \<open>t\<close> is the order in which columns are marked.
\<close>

definition search_ok :: "nat \<Rightarrow> nat \<Rightarrow> (nat \<Rightarrow> nat) \<Rightarrow> nat \<Rightarrow> hungarian \<Rightarrow> bool" where
  "search_ok n i t j0 h \<longleftrightarrow> rows_placed n i (assigned_row h) \<and> j0 \<le> n \<and> \<not> used_col h j0 \<and>
     (\<forall>j. used_col h j \<longrightarrow> j \<le> n \<and> assigned_row h j \<noteq> 0 \<and> t j < t j0 \<and>
        (j \<noteq> 0 \<longrightarrow> used_col h (way h j) \<and> t (way h j) < t j)) \<and>
     (j0 = 0 \<longrightarrow> (\<forall>j. \<not> used_col h j)) \<and>
     (j0 \<noteq> 0 \<longrightarrow> used_col h 0 \<and> used_col h (way h j0)) \<and>
     (\<forall>j. 1 \<le> j \<and> j \<le> n \<and> \<not> used_col h j \<and> min_slack h j \<noteq> None \<longrightarrow> used_col h (way h j))"

abbreviation mark :: "nat \<Rightarrow> hungarian \<Rightarrow> hungarian" where
  "mark j0 h \<equiv> h\<lparr>used_col := (used_col h)(j0 := True)\<rparr>"

lemma unmarked_column_exists:
  assumes "search_ok n i t j0 h" and "assigned_row h j0 \<noteq> 0" and "1 \<le> i" and "i \<le> n"
  shows "\<exists>j. 1 \<le> j \<and> j \<le> n \<and> \<not> used_col (mark j0 h) j"
proof (rule ccontr)
  let ?A = "{j. 1 \<le> j \<and> j \<le> n \<and> assigned_row h j \<noteq> 0}"
  assume "\<not> ?thesis"
  then have "{1..n} \<subseteq> ?A"
    using assms(1,2) by (auto simp: search_ok_def split: if_splits)
  then have "n \<le> card ?A" using card_mono [of ?A "{1..n}"] by simp
  moreover have "inj_on (assigned_row h) ?A"
    using assms(1) by (auto simp: search_ok_def rows_placed_def elim: inj_on_subset)
  then have "card ?A = card {1..<i}"
    using assms(1) card_image [of "assigned_row h" ?A] by (simp add: search_ok_def rows_placed_def)
  ultimately show False using assms(3,4) by simp
qed

lemma search_step_cases:
  assumes "search_ok n i t j0 h" and "assigned_row h j0 \<noteq> 0" and "1 \<le> i" and "i \<le> n"
  obtains dl j1 where
    "search_step d m n j0 h =
       Some (shifted d dl (Suc n) (relaxed d m (assigned_row h j0) j0 n (mark j0 h)), j1)"
    "1 \<le> j1" "j1 \<le> n" "\<not> used_col (mark j0 h) j1"
    "dl = slack_value d m (assigned_row h j0) (mark j0 h) j1"
    "\<And>j. 1 \<le> j \<Longrightarrow> j \<le> n \<Longrightarrow> \<not> used_col (mark j0 h) j \<Longrightarrow>
       dl \<le> slack_value d m (assigned_row h j0) (mark j0 h) j"
proof -
  let ?h = "mark j0 h" and ?i0 = "assigned_row h j0"
  obtain h1 delta j1 where
    e: "fold (relax_column d m ?i0 j0) [1..<Suc n] (?h, None, 0) = (h1, delta, j1)"
    by (metis prod_cases3)
  note r = relax_fold [OF e]
  from unmarked_column_exists [OF assms] r obtain dl where dl: "delta = Some dl"
    by (cases delta) auto
  have "inj_on (assigned_row h1) {j. j < Suc n \<and> used_col h1 j}"
    using assms(1,2) r
    by (auto simp: search_ok_def rows_placed_def elim!: inj_on_subset split: if_splits)
  from shift_fold [OF this, of d dl]
  have "search_step d m n j0 h = Some (shifted d dl (Suc n) h1, j1)"
    using e dl by (simp add: search_step_def Let_def del: upt_Suc)
  with r dl show ?thesis by (intro that [of dl j1]) auto
qed

lemma search_ok_step:
  assumes "search_ok n i t j0 h" and "assigned_row h j0 \<noteq> 0" and "1 \<le> i" and "i \<le> n"
    and "search_step d m n j0 h = Some (h', j1)"
  shows "search_ok n i (t(j1 := Suc (t j0))) j1 h'" and "assigned_row h' = assigned_row h"
    and "1 \<le> j1" and "j1 \<le> n" and "used_col h' = (used_col h)(j0 := True)"
    and "\<not> used_col h j0" and "\<not> used_col h' j1" and "\<And>j. used_col h j \<Longrightarrow> way h' j = way h j"
    and "used_col h' (way h' j1)"
proof -
  obtain dl where h': "h' = shifted d dl (Suc n) (relaxed d m (assigned_row h j0) j0 n (mark j0 h))"
    and j1: "1 \<le> j1" "j1 \<le> n" "\<not> used_col (mark j0 h) j1"
    using search_step_cases [OF assms(1-4), of d m thesis] assms(5) by auto
  show p: "assigned_row h' = assigned_row h" and u: "used_col h' = (used_col h)(j0 := True)"
    by (simp_all add: h')
  show "\<not> used_col h j0" using assms(1) by (simp add: search_ok_def)
  show "\<not> used_col h' j1" using j1 by (simp add: h')
  have way_used: "way h' j = way h j" if "used_col h j" for j
    using that by (simp add: h' relaxed_def)
  then show "\<And>j. used_col h j \<Longrightarrow> way h' j = way h j" .
  have way_j0: "way h' j0 = way h j0" by (simp add: h' relaxed_def)
  have way_new: "used_col h' (way h' j)" if "1 \<le> j" "j \<le> n" "\<not> used_col h' j" for j
    using assms(1) that
    by (cases "min_slack h j")
      (auto simp: h' relaxed_def next_way_def search_ok_def split: if_splits)
  then show "used_col h' (way h' j1)" using j1 by (simp add: h')
  show "1 \<le> j1" "j1 \<le> n" by (rule j1)+
  have zero: "used_col h' 0"
    using assms(1) by (cases "j0 = 0") (simp_all add: u search_ok_def)
  show "search_ok n i (t(j1 := Suc (t j0))) j1 h'"
    unfolding search_ok_def
  proof (intro conjI allI impI)
    fix j assume j: "used_col h' j"
    then have "j \<noteq> j1" using j1 by (auto simp: h')
    show "j \<le> n" "assigned_row h' j \<noteq> 0" using j assms(1,2) by (auto simp: u p search_ok_def split: if_splits)
    show "(t(j1 := Suc (t j0))) j < (t(j1 := Suc (t j0))) j1"
      using j \<open>j \<noteq> j1\<close> assms(1) by (auto simp: u search_ok_def less_Suc_eq split: if_splits)
    assume "j \<noteq> 0"
    show "used_col h' (way h' j)"
      using j \<open>j \<noteq> 0\<close> assms(1) way_used way_j0 by (auto simp: u search_ok_def split: if_splits)
    show "(t(j1 := Suc (t j0))) (way h' j) < (t(j1 := Suc (t j0))) j"
      using j \<open>j \<noteq> 0\<close> \<open>j \<noteq> j1\<close> j1(3) assms(1) way_used way_j0
      by (auto simp: u search_ok_def split: if_splits)
  next
    show "rows_placed n i (assigned_row h')" using assms(1) by (simp add: p search_ok_def)
  qed (use j1 zero way_new in \<open>auto simp: h'\<close>)
qed

lemma search_ends:
  assumes "search_ok n i t j0 h" and "assigned_row h j0 \<noteq> 0" and "1 \<le> i" and "i \<le> n" and "Q j0 h"
    and step: "\<And>t j0 h h' j1. search_ok n i t j0 h \<Longrightarrow> assigned_row h j0 \<noteq> 0 \<Longrightarrow> Q j0 h \<Longrightarrow>
      search_step d m n j0 h = Some (h', j1) \<Longrightarrow> Q j1 h'"
  shows "\<exists>h' j t'. search d m n j0 h = Some (h', j) \<and> search_ok n i t' j h' \<and> Q j h' \<and>
    assigned_row h' j = 0 \<and> 1 \<le> j \<and> j \<le> n \<and> assigned_row h' = assigned_row h"
  using assms(1,2,5)
proof (induction "card {j. j \<le> n \<and> \<not> used_col h j}" arbitrary: t j0 h rule: less_induct)
  case less
  obtain h1 j1 where s: "search_step d m n j0 h = Some (h1, j1)"
    using search_step_cases [OF less.prems(1,2) assms(3,4), of d m thesis] by blast
  note ok = search_ok_step [OF less.prems(1,2) assms(3,4) s]
  note q = step [OF less.prems s]
  have "{j. j \<le> n \<and> \<not> used_col h1 j} \<subset> {j. j \<le> n \<and> \<not> used_col h j}"
    using ok(5,6) less.prems(1) by (auto simp: search_ok_def)
  then have smaller: "card {j. j \<le> n \<and> \<not> used_col h1 j} < card {j. j \<le> n \<and> \<not> used_col h j}"
    by (intro psubset_card_mono) auto
  show ?case
  proof (cases "assigned_row h1 j1 = 0")
    case True
    then have "search d m n j0 h = Some (h1, j1)" using s by (subst search.simps) simp
    then show ?thesis using True ok q by blast
  next
    case False
    then have "search d m n j0 h = search d m n j1 h1" using s by (subst search.simps) simp
    then show ?thesis using less.hyps [OF smaller ok(1) False q] ok(2) by simp
  qed
qed

section \<open>Augmenting along the tree\<close>

definition path_ok :: "nat \<Rightarrow> (nat \<Rightarrow> nat) \<Rightarrow> nat set \<Rightarrow> nat \<Rightarrow> hungarian \<Rightarrow> bool" where
  "path_ok n t V j0 h \<longleftrightarrow> V \<subseteq> {0..n} \<and> j0 \<in> V \<and>
     (\<forall>j\<in>V. j \<noteq> 0 \<longrightarrow> way h j \<in> V \<and> t (way h j) < t j) \<and>
     (\<forall>j\<in>V. t j < t j0 \<longrightarrow> assigned_row h j \<noteq> 0)"

definition placed_but :: "nat \<Rightarrow> nat \<Rightarrow> nat \<Rightarrow> (nat \<Rightarrow> nat) \<Rightarrow> bool" where
  "placed_but n i j0 p \<longleftrightarrow> inj_on p {j. j \<le> n \<and> j \<noteq> j0 \<and> p j \<noteq> 0} \<and>
     p ` {j. j \<le> n \<and> j \<noteq> j0 \<and> p j \<noteq> 0} = {1..i}"

lemma placed_but_move:
  assumes "placed_but n i j0 p" and "j0 \<le> n" and "j1 \<le> n" and "j1 \<noteq> j0" and "p j1 \<noteq> 0"
  shows "placed_but n i j1 (p(j0 := p j1))"
proof -
  let ?A = "{j. j \<le> n \<and> j \<noteq> j0 \<and> p j \<noteq> 0}" and ?B = "{j. j \<le> n \<and> j \<noteq> j1 \<and> (p(j0 := p j1)) j \<noteq> 0}"
  have B: "?B = insert j0 (?A - {j1})" using assms(2-5) by auto
  have "(p(j0 := p j1)) ` (?A - {j1}) = p ` (?A - {j1})" by (intro image_cong) auto
  moreover have "p j1 \<in> p ` ?A" using assms by auto
  moreover have out: "p j1 \<notin> p ` (?A - {j1})"
    using assms unfolding placed_but_def inj_on_def by blast
  ultimately have "(p(j0 := p j1)) ` ?B = p ` ?A" unfolding B by auto
  moreover have "inj_on (p(j0 := p j1)) ?B"
    unfolding B inj_on_insert using out assms(1)
    by (auto simp: placed_but_def inj_on_def image_iff)
  ultimately show ?thesis using assms(1) by (simp add: placed_but_def)
qed

lemma augment_ends:
  assumes "path_ok n t V j0 h" and "placed_but n i j0 (assigned_row h)" and "j0 \<noteq> 0"
    and "\<And>j. j \<in> V \<Longrightarrow> j \<noteq> 0 \<Longrightarrow> t j \<le> t j0 \<Longrightarrow> T (assigned_row h (way h j)) j"
    and "\<And>j. 1 \<le> j \<Longrightarrow> j \<le> n \<Longrightarrow> j \<noteq> j0 \<Longrightarrow> assigned_row h j \<noteq> 0 \<Longrightarrow> T (assigned_row h j) j"
  shows "\<exists>p. augment j0 h = Some (h\<lparr>assigned_row := p\<rparr>) \<and> placed_but n i 0 p \<and>
    (\<forall>j. 1 \<le> j \<and> j \<le> n \<and> p j \<noteq> 0 \<longrightarrow> T (p j) j)"
  using assms
proof (induction "t j0" arbitrary: j0 h rule: less_induct)
  case less
  let ?j1 = "way h j0"
  let ?h = "h\<lparr>assigned_row := (assigned_row h)(j0 := assigned_row h ?j1)\<rparr>"
  have j1: "?j1 \<in> V" "t ?j1 < t j0" "assigned_row h ?j1 \<noteq> 0" "?j1 \<le> n" "j0 \<le> n" "?j1 \<noteq> j0"
    using less.prems(1,3) by (auto simp: path_ok_def)
  have moved: "placed_but n i ?j1 (assigned_row ?h)"
    using placed_but_move [OF less.prems(2) j1(5,4,6,3)] by simp
  have Tj0: "T (assigned_row h ?j1) j0" using less.prems(1,3,4) by (simp add: path_ok_def)
  have rest: "T (assigned_row ?h j) j" if "1 \<le> j" "j \<le> n" "j \<noteq> ?j1" "assigned_row ?h j \<noteq> 0" for j
    using that Tj0 less.prems(5) by (cases "j = j0") auto
  have unfold: "augment j0 h = (if ?j1 \<noteq> 0 then augment ?j1 ?h else Some ?h)"
    by (subst augment.simps) (simp add: Let_def)
  show ?case
  proof (cases "?j1 = 0")
    case True
    then show ?thesis using unfold moved rest by (intro exI [of _ "assigned_row ?h"]) auto
  next
    case False
    have "path_ok n t V ?j1 ?h"
      using less.prems(1) j1(1,2) unfolding path_ok_def by (auto intro: less_trans)
    moreover have "T (assigned_row ?h (way ?h j)) j" if "j \<in> V" "j \<noteq> 0" "t j \<le> t ?j1" for j
    proof -
      have "t (way h j) < t j" using less.prems(1) that by (simp add: path_ok_def)
      then have "way h j \<noteq> j0" using that j1(2) by auto
      then show ?thesis using less.prems(4) [of j] that j1(2) by simp
    qed
    ultimately obtain p where "augment ?j1 ?h = Some (?h\<lparr>assigned_row := p\<rparr>)"
      and "placed_but n i 0 p" and "\<forall>j. 1 \<le> j \<and> j \<le> n \<and> p j \<noteq> 0 \<longrightarrow> T (p j) j"
      using less.hyps [OF j1(2), of ?h] moved rest False by blast
    then show ?thesis using unfold False by auto
  qed
qed


section \<open>Potentials in exact arithmetic\<close>

definition tight :: "(nat \<Rightarrow> nat \<Rightarrow> real) \<Rightarrow> hungarian \<Rightarrow> nat \<Rightarrow> nat \<Rightarrow> bool" where
  "tight m h r j \<longleftrightarrow> pot_u h r + pot_v h j = m r j"

definition feasible :: "(nat \<Rightarrow> nat \<Rightarrow> real) \<Rightarrow> nat \<Rightarrow> nat \<Rightarrow> hungarian \<Rightarrow> bool" where
  "feasible m n i h \<longleftrightarrow> (\<forall>r j. 1 \<le> r \<and> r \<le> i \<and> 1 \<le> j \<and> j \<le> n \<longrightarrow> pot_u h r + pot_v h j \<le> m r j)"

definition slacks_ok :: "(nat \<Rightarrow> nat \<Rightarrow> real) \<Rightarrow> nat \<Rightarrow> (nat \<Rightarrow> real) \<Rightarrow> hungarian \<Rightarrow> bool" where
  "slacks_ok m n s h \<longleftrightarrow> (\<forall>j. 1 \<le> j \<and> j \<le> n \<and> \<not> used_col h j \<longrightarrow>
     s j = m (assigned_row h (way h j)) j - pot_u h (assigned_row h (way h j)) - pot_v h j \<and>
     (\<forall>k. used_col h k \<longrightarrow> s j \<le> m (assigned_row h k) j - pot_u h (assigned_row h k) - pot_v h j))"

definition potentials_ok :: "(nat \<Rightarrow> nat \<Rightarrow> real) \<Rightarrow> nat \<Rightarrow> nat \<Rightarrow> nat \<Rightarrow> hungarian \<Rightarrow> bool" where
  "potentials_ok m n i j0 h \<longleftrightarrow>
     (\<forall>j. 1 \<le> j \<and> j \<le> n \<and> assigned_row h j \<noteq> 0 \<longrightarrow> tight m h (assigned_row h j) j) \<and>
     feasible m n (if j0 = 0 then i - 1 else i) h \<and>
     (\<forall>j. 1 \<le> j \<and> j \<le> n \<and> \<not> used_col h j \<longrightarrow> (min_slack h j = None) = (j0 = 0)) \<and>
     (j0 \<noteq> 0 \<longrightarrow> slacks_ok m n (\<lambda>j. the (min_slack h j)) h) \<and>
     (\<forall>j. (used_col h j \<or> j = j0) \<and> j \<noteq> 0 \<longrightarrow> tight m h (assigned_row h (way h j)) j)"

lemma relaxed_slacks_ok:
  assumes "search_ok n i t j0 h" and "potentials_ok m n i j0 h"
  shows "slacks_ok m n (slack_value exact_rounding m (assigned_row h j0) (mark j0 h))
    (relaxed exact_rounding m (assigned_row h j0) j0 n (mark j0 h))"
  unfolding slacks_ok_def
proof (intro allI impI)
  let ?h = "relaxed exact_rounding m (assigned_row h j0) j0 n (mark j0 h)"
  let ?s = "slack_value exact_rounding m (assigned_row h j0) (mark j0 h)"
  fix j assume j: "1 \<le> j \<and> j \<le> n \<and> \<not> used_col ?h j"
  have w: "way ?h j = next_way exact_rounding m (assigned_row h j0) j0 (mark j0 h) j"
    using j by (simp add: relaxed_def)
  show "?s j = m (assigned_row ?h (way ?h j)) j - pot_u ?h (assigned_row ?h (way ?h j)) - pot_v ?h j \<and>
    (\<forall>k. used_col ?h k \<longrightarrow> ?s j \<le> m (assigned_row ?h k) j - pot_u ?h (assigned_row ?h k) - pot_v ?h j)"
  proof (cases "j0 = 0")
    case True
    then have "min_slack h j = None" "\<And>k. \<not> used_col h k"
      using assms j by (auto simp: potentials_ok_def search_ok_def split: if_splits)
    then show ?thesis unfolding w
      by (simp add: slack_value_def next_way_def reduced_cost_def fops)
  next
    case False
    then obtain s where s: "min_slack h j = Some s"
      using assms(2) j by (cases "min_slack h j") (auto simp: potentials_ok_def split: if_splits)
    have old: "s = m (assigned_row h (way h j)) j - pot_u h (assigned_row h (way h j)) - pot_v h j"
      "\<And>k. used_col h k \<Longrightarrow> s \<le> m (assigned_row h k) j - pot_u h (assigned_row h k) - pot_v h j"
      using assms(2) j s False by (auto simp: potentials_ok_def slacks_ok_def split: if_splits)
    have red: "reduced_cost exact_rounding m (mark j0 h) (assigned_row h j0) j =
        m (assigned_row h j0) j - pot_u h (assigned_row h j0) - pot_v h j"
      by (simp add: reduced_cost_def fops)
    show ?thesis
    proof (cases "reduced_cost exact_rounding m (mark j0 h) (assigned_row h j0) j < s")
      case True
      then have "way ?h j = j0" "?s j = reduced_cost exact_rounding m (mark j0 h) (assigned_row h j0) j"
        using s unfolding w by (simp_all add: next_way_def slack_value_def)
      moreover have "m (assigned_row h j0) j - pot_u h (assigned_row h j0) - pot_v h j
          \<le> m (assigned_row h k) j - pot_u h (assigned_row h k) - pot_v h j" if "used_col h k" for k
        using True old(2) [OF that] unfolding red by linarith
      ultimately show ?thesis using red by simp
    next
      case False
      then have "way ?h j = way h j" "?s j = s"
        using s unfolding w by (simp_all add: next_way_def slack_value_def)
      with False red old show ?thesis by auto
    qed
  qed
qed

lemma potentials_ok_step:
  assumes "search_ok n i t j0 h" and "assigned_row h j0 \<noteq> 0" and "1 \<le> i" and "i \<le> n"
    and "potentials_ok m n i j0 h" and "search_step exact_rounding m n j0 h = Some (h', j1)"
  shows "potentials_ok m n i j1 h'"
proof -
  let ?e = exact_rounding and ?p = "assigned_row h"
  let ?s = "slack_value ?e m (?p j0) (mark j0 h)"
  let ?r = "relaxed ?e m (?p j0) j0 n (mark j0 h)"
  note ok = search_ok_step [OF assms(1-4,6)]
  obtain dl where h': "h' = shifted ?e dl (Suc n) ?r" and dl: "dl = ?s j1"
    and least: "\<And>j. 1 \<le> j \<Longrightarrow> j \<le> n \<Longrightarrow> \<not> used_col h' j \<Longrightarrow> dl \<le> ?s j"
    using search_step_cases [OF assms(1-4), of ?e m thesis] assms(6) ok(5) by auto
  have small: "k \<le> n" if "used_col h' k" for k
    using ok(1) that by (simp add: search_ok_def)
  have inj: "k = k'" if "used_col h' k" "?p k' = ?p k" "k' \<le> n" "?p k' \<noteq> 0" for k k'
    using ok(1,2) that small [of k] by (auto simp: search_ok_def rows_placed_def inj_on_def)
  have u': "pot_u h' r = (if \<exists>k. used_col h' k \<and> ?p k = r then pot_u h r + dl else pot_u h r)" for r
    using small by (auto simp: h' shifted_def fops less_Suc_eq_le)
  have v': "pot_v h' j = (if used_col h' j then pot_v h j - dl else pot_v h j)" for j
    using small by (auto simp: h' shifted_def fops less_Suc_eq_le)
  have u_used: "pot_u h' (?p k) = pot_u h (?p k) + dl" if "used_col h' k" for k
    using that u' by auto
  have ms': "min_slack h' j = Some (?s j - dl)" if "1 \<le> j" "j \<le> n" "\<not> used_col h' j" for j
    using that by (simp add: h' shifted_def fops relaxed_def)
  have way': "way h' = way ?r" by (simp add: h')
  have slacks: "?s j = m (?p (way h' j)) j - pot_u h (?p (way h' j)) - pot_v h j"
    "\<And>k. used_col h' k \<Longrightarrow> ?s j \<le> m (?p k) j - pot_u h (?p k) - pot_v h j"
    if "1 \<le> j" "j \<le> n" "\<not> used_col h' j" for j
    using relaxed_slacks_ok [OF assms(1,5)] that unfolding way' by (auto simp: slacks_ok_def h')
  have way_used: "used_col h' (way h' j)" if "1 \<le> j" "j \<le> n" "\<not> used_col h' j" for j
    using ok(1) ms' [OF that] that by (auto simp: search_ok_def)
  have rows: "1 \<le> ?p k \<and> ?p k \<le> i" if "used_col h' k" for k
  proof -
    have "k \<le> n" "?p k \<noteq> 0" using ok(1,2) that by (auto simp: search_ok_def)
    moreover have p: "?p 0 = i" "?p ` {j. 1 \<le> j \<and> j \<le> n \<and> ?p j \<noteq> 0} = {1..<i}"
      using assms(1) by (simp_all add: search_ok_def rows_placed_def)
    moreover have "?p k \<in> {1..<i}" if "k \<noteq> 0"
      unfolding p(2) [symmetric] using calculation(1,2) that by (intro imageI) simp
    ultimately show ?thesis using assms(3) by (cases "k = 0") auto
  qed
  have pos: "0 \<le> dl" if "j0 \<noteq> 0"
  proof -
    have "feasible m n i h" using that assms(5) by (simp add: potentials_ok_def)
    moreover have "1 \<le> ?p (way h' j1) \<and> ?p (way h' j1) \<le> i" using rows ok(9) by simp
    ultimately have "pot_u h (?p (way h' j1)) + pot_v h j1 \<le> m (?p (way h' j1)) j1"
      using ok(3,4) by (simp add: feasible_def)
    then show ?thesis using slacks(1) [OF ok(3,4,7)] dl by simp
  qed
  have first: "\<not> used_col h' j" if "j0 = 0" "j \<noteq> 0" for j
    using that ok(5) assms(1) by (auto simp: search_ok_def)
  have zero: "used_col h' 0" "?p 0 = i"
    using ok(1,2,3) by (auto simp: search_ok_def rows_placed_def)
  show ?thesis
    unfolding potentials_ok_def
  proof (intro conjI allI impI)
    fix j assume j: "1 \<le> j \<and> j \<le> n \<and> assigned_row h' j \<noteq> 0"
    then have "tight m h (?p j) j" using assms(5) ok(2) by (simp add: potentials_ok_def)
    moreover have "pot_u h' (?p j) = pot_u h (?p j)" if "\<not> used_col h' j"
    proof -
      have "\<nexists>k. used_col h' k \<and> ?p k = ?p j" using inj [of _ j] j that ok(2) by metis
      then show ?thesis unfolding u' by (rule if_not_P)
    qed
    ultimately show "tight m h' (assigned_row h' j) j"
      using u_used [of j] by (cases "used_col h' j") (simp_all add: tight_def ok(2) v')
  next
    have "pot_u h' r + pot_v h' j \<le> m r j" if r: "1 \<le> r" "r \<le> i" and j: "1 \<le> j" "j \<le> n" for r j
    proof (cases "\<exists>k. used_col h' k \<and> ?p k = r")
      case True
      then obtain k where k: "used_col h' k" "?p k = r" by blast
      show ?thesis
      proof (cases "used_col h' j")
        case True
        then have "feasible m n i h"
          using first [of j] j assms(5) by (auto simp: potentials_ok_def split: if_splits)
        then show ?thesis using r j k True u_used [of k] by (simp add: v' feasible_def)
      next
        case False
        then show ?thesis using slacks(2) [OF j False k(1)] least [OF j False] k u_used [of k] by (simp add: v')
      qed
    next
      case False
      then have "r < i" using zero r by (cases "r = i") auto
      then have "pot_u h r + pot_v h j \<le> m r j"
        using assms(5) r j by (auto simp: potentials_ok_def feasible_def split: if_splits)
      moreover have "pot_v h' j \<le> pot_v h j" using first [of j] j pos by (cases "j0 = 0") (auto simp: v')
      moreover have "pot_u h' r = pot_u h r" unfolding u' using False by (rule if_not_P)
      ultimately show ?thesis by simp
    qed
    then show "feasible m n (if j1 = 0 then i - 1 else i) h'" using ok(3) by (simp add: feasible_def)
  next
    fix j assume "1 \<le> j \<and> j \<le> n \<and> \<not> used_col h' j"
    then show "(min_slack h' j = None) = (j1 = 0)" using ms' [of j] ok(3) by simp
  next
    show "slacks_ok m n (\<lambda>j. the (min_slack h' j)) h'"
      unfolding slacks_ok_def
    proof (intro allI impI)
      fix j assume j: "1 \<le> j \<and> j \<le> n \<and> \<not> used_col h' j"
      note js = conjunct1 [OF j] conjunct1 [OF conjunct2 [OF j]] conjunct2 [OF conjunct2 [OF j]]
      have v: "pot_v h' j = pot_v h j" using j by (simp add: v')
      have ms: "the (min_slack h' j) = ?s j - dl" using ms' [OF js] by simp
      show "the (min_slack h' j) =
            m (assigned_row h' (way h' j)) j - pot_u h' (assigned_row h' (way h' j)) - pot_v h' j \<and>
          (\<forall>k. used_col h' k \<longrightarrow>
            the (min_slack h' j) \<le> m (assigned_row h' k) j - pot_u h' (assigned_row h' k) - pot_v h' j)"
        unfolding ms v ok(2) using slacks [OF js] u_used way_used [OF js] by force
    qed
  next
    fix j assume j: "(used_col h' j \<or> j = j1) \<and> j \<noteq> 0"
    show "tight m h' (assigned_row h' (way h' j)) j"
    proof (cases "used_col h' j")
      case True
      then have w: "way h' j = way h j"
        using ok(5,8) by (auto simp: h' relaxed_def)
      have "used_col h' (way h' j)" using ok(1) True j by (simp add: search_ok_def)
      moreover have "tight m h (?p (way h j)) j"
        using assms(5) True j ok(5) by (auto simp: potentials_ok_def split: if_splits)
      ultimately show ?thesis using True u_used by (simp add: tight_def ok(2) v' w)
    next
      case False
      then have "j = j1" using j by simp
      then show ?thesis
        using slacks(1) [OF ok(3,4,7)] dl u_used [OF ok(9)] ok(7) by (simp add: tight_def ok(2) v')
    qed
  qed
qed


section \<open>One row at a time\<close>

definition start_row :: "nat \<Rightarrow> hungarian \<Rightarrow> hungarian" where
  "start_row i h = h\<lparr>assigned_row := (assigned_row h)(0 := i), min_slack := (\<lambda>_. None),
     used_col := (\<lambda>_. False)\<rparr>"

lemma start_row_sel [simp]:
  "assigned_row (start_row i h) = (assigned_row h)(0 := i)" "min_slack (start_row i h) = (\<lambda>_. None)"
  "used_col (start_row i h) = (\<lambda>_. False)" "pot_u (start_row i h) = pot_u h"
  "pot_v (start_row i h) = pot_v h"
  by (simp_all add: start_row_def)

lemma search_ok_start:
  assumes "placed_but n (i - 1) 0 (assigned_row h)" and "1 \<le> i"
  shows "search_ok n i (\<lambda>_. 0) 0 (start_row i h)"
proof -
  let ?p = "assigned_row h" and ?A = "{j. j \<le> n \<and> j \<noteq> 0 \<and> assigned_row h j \<noteq> 0}"
  have img: "?p ` ?A = {1..<i}" using assms by (auto simp: placed_but_def)
  have A: "{j. j \<le> n \<and> (?p(0 := i)) j \<noteq> 0} = insert 0 ?A" using assms(2) by auto
  have "{j. 1 \<le> j \<and> j \<le> n \<and> (?p(0 := i)) j \<noteq> 0} = ?A" by auto
  moreover have "(?p(0 := i)) ` ?A = ?p ` ?A" by (intro image_cong) auto
  moreover have "inj_on (?p(0 := i)) ?A"
    using assms(1) unfolding placed_but_def inj_on_def by auto
  ultimately have "rows_placed n i (?p(0 := i))"
    unfolding rows_placed_def A using img by (simp add: inj_on_insert)
  then show ?thesis by (simp add: search_ok_def)
qed

lemma placed_but_after_search:
  assumes "rows_placed n i p" and "p j = 0" and "1 \<le> i" and "j \<noteq> 0"
  shows "placed_but n i j p"
proof -
  have A: "{k. k \<le> n \<and> k \<noteq> j \<and> p k \<noteq> 0} = {k. k \<le> n \<and> p k \<noteq> 0}" using assms(2) by auto
  have B: "{k. k \<le> n \<and> p k \<noteq> 0} = insert 0 {k. 1 \<le> k \<and> k \<le> n \<and> p k \<noteq> 0}"
    using assms(1,3) by (auto simp: rows_placed_def)
  have "p ` {k. k \<le> n \<and> p k \<noteq> 0} = {1..i}"
    unfolding B using assms(1,3) by (auto simp: rows_placed_def)
  then show ?thesis using assms(1) unfolding placed_but_def A by (simp add: rows_placed_def)
qed

lemma add_row_ends:
  assumes "placed_but n (i - 1) 0 (assigned_row h)" and "1 \<le> i" and "i \<le> n"
    and start: "Q 0 (start_row i h)"
    and step: "\<And>t j0 h h' j1. search_ok n i t j0 h \<Longrightarrow> assigned_row h j0 \<noteq> 0 \<Longrightarrow> Q j0 h \<Longrightarrow>
      search_step d m n j0 h = Some (h', j1) \<Longrightarrow> Q j1 h'"
    and matched: "\<And>j0 h j. Q j0 h \<Longrightarrow> 1 \<le> j \<Longrightarrow> j \<le> n \<Longrightarrow> assigned_row h j \<noteq> 0 \<Longrightarrow> T h (assigned_row h j) j"
    and tree: "\<And>j0 h j. Q j0 h \<Longrightarrow> used_col h j \<or> j = j0 \<Longrightarrow> j \<noteq> 0 \<Longrightarrow> T h (assigned_row h (way h j)) j"
  shows "\<exists>h' p j. add_row d m n i h = Some (h'\<lparr>assigned_row := p\<rparr>) \<and> placed_but n i 0 p \<and> Q j h' \<and>
    j \<noteq> 0 \<and> (\<forall>j. 1 \<le> j \<and> j \<le> n \<and> p j \<noteq> 0 \<longrightarrow> T h' (p j) j)"
proof -
  have "assigned_row (start_row i h) 0 \<noteq> 0" using assms(2) by simp
  then have "\<exists>h' j t'. search d m n 0 (start_row i h) = Some (h', j) \<and> search_ok n i t' j h' \<and> Q j h' \<and>
      assigned_row h' j = 0 \<and> 1 \<le> j \<and> j \<le> n \<and> assigned_row h' = assigned_row (start_row i h)"
    using search_ok_start [OF assms(1,2)] assms(2,3) start
    by (intro search_ends [where Q = Q]) (assumption | rule step)+
  then obtain h' j t where s: "search d m n 0 (start_row i h) = Some (h', j)" and ok: "search_ok n i t j h'"
    and q: "Q j h'" and j: "assigned_row h' j = 0" "1 \<le> j" "j \<le> n"
    by blast
  let ?V = "insert j {k. used_col h' k}"
  have path: "path_ok n t ?V j h'"
    using ok j unfolding path_ok_def search_ok_def by (auto dest: less_imp_le less_trans)
  have placed: "placed_but n i j (assigned_row h')"
    using placed_but_after_search ok j assms(2) by (simp add: search_ok_def)
  have "\<exists>p. augment j h' = Some (h'\<lparr>assigned_row := p\<rparr>) \<and> placed_but n i 0 p \<and>
    (\<forall>k. 1 \<le> k \<and> k \<le> n \<and> p k \<noteq> 0 \<longrightarrow> T h' (p k) k)"
    by (rule augment_ends [OF path placed]) (use j tree [OF q] matched [OF q] in auto)
  then obtain p where "augment j h' = Some (h'\<lparr>assigned_row := p\<rparr>)" "placed_but n i 0 p"
    "\<forall>k. 1 \<le> k \<and> k \<le> n \<and> p k \<noteq> 0 \<longrightarrow> T h' (p k) k"
    by blast
  moreover have "add_row d m n i h = augment j h'"
    using s by (simp add: add_row_def start_row_def Let_def)
  ultimately show ?thesis using q j by (intro exI [of _ h'] exI [of _ p] exI [of _ j]) simp
qed

lemma add_row_step:
  assumes "placed_but n (i - 1) 0 (assigned_row h)" and "1 \<le> i" and "i \<le> n"
  shows "\<exists>h'. add_row d m n i h = Some h' \<and> placed_but n i 0 (assigned_row h')"
proof -
  have "\<exists>h' p (j :: nat). add_row d m n i h = Some (h'\<lparr>assigned_row := p\<rparr>) \<and> placed_but n i 0 p \<and> True \<and>
    j \<noteq> 0 \<and> (\<forall>j. 1 \<le> j \<and> j \<le> n \<and> p j \<noteq> 0 \<longrightarrow> True)"
    using assms by (rule add_row_ends [where Q = "\<lambda>_ _. True" and T = "\<lambda>_ _ _. True"]) (rule TrueI)+
  then obtain h' p where "add_row d m n i h = Some (h'\<lparr>assigned_row := p\<rparr>)" "placed_but n i 0 p" by blast
  then show ?thesis by simp
qed

definition optimal_rows :: "(nat \<Rightarrow> nat \<Rightarrow> real) \<Rightarrow> nat \<Rightarrow> nat \<Rightarrow> hungarian \<Rightarrow> bool" where
  "optimal_rows m n i h \<longleftrightarrow> placed_but n i 0 (assigned_row h) \<and> feasible m n i h \<and>
     (\<forall>j. 1 \<le> j \<and> j \<le> n \<and> assigned_row h j \<noteq> 0 \<longrightarrow> tight m h (assigned_row h j) j)"

lemma potentials_ok_start:
  assumes "optimal_rows m n (i - 1) h"
  shows "potentials_ok m n i 0 (start_row i h)"
  using assms by (auto simp: optimal_rows_def potentials_ok_def tight_def feasible_def)

lemma add_row_optimal:
  assumes "optimal_rows m n (i - 1) h" and "1 \<le> i" and "i \<le> n"
  shows "\<exists>h'. add_row exact_rounding m n i h = Some h' \<and> optimal_rows m n i h'"
proof -
  have "placed_but n (i - 1) 0 (assigned_row h)" using assms(1) by (simp add: optimal_rows_def)
  then have "\<exists>h' p j. add_row exact_rounding m n i h = Some (h'\<lparr>assigned_row := p\<rparr>) \<and> placed_but n i 0 p \<and>
    potentials_ok m n i j h' \<and> j \<noteq> 0 \<and> (\<forall>j. 1 \<le> j \<and> j \<le> n \<and> p j \<noteq> 0 \<longrightarrow> tight m h' (p j) j)"
    using assms(2,3) potentials_ok_start [OF assms(1)]
  proof (rule add_row_ends)
    show "potentials_ok m n i j1 h'"
      if "search_ok n i t j0 h" "assigned_row h j0 \<noteq> 0" "potentials_ok m n i j0 h"
        "search_step exact_rounding m n j0 h = Some (h', j1)" for t j0 h h' j1
      using potentials_ok_step [OF that(1,2) assms(2,3) that(3,4)] .
  qed (auto simp: potentials_ok_def)
  then obtain h' p j where r: "add_row exact_rounding m n i h = Some (h'\<lparr>assigned_row := p\<rparr>)"
    "placed_but n i 0 p" "potentials_ok m n i j h'" "j \<noteq> 0"
    "\<forall>j. 1 \<le> j \<and> j \<le> n \<and> p j \<noteq> 0 \<longrightarrow> tight m h' (p j) j"
    by blast
  then have "feasible m n i h'" by (simp add: potentials_ok_def)
  with r show ?thesis by (simp add: optimal_rows_def feasible_def tight_def)
qed

lemma add_rows_induct:
  assumes "J (i - 1) h" and "1 \<le> i" and "i \<le> Suc n"
    and "\<And>i h. J (i - 1) h \<Longrightarrow> 1 \<le> i \<Longrightarrow> i \<le> n \<Longrightarrow> \<exists>h'. add_row d m n i h = Some h' \<and> J i h'"
  shows "\<exists>h'. add_rows d m n [i..<Suc n] h = Some h' \<and> J n h'"
  using assms(1-3)
proof (induction "Suc n - i" arbitrary: i h)
  case 0
  then show ?case by auto
next
  case (Suc k)
  then have i: "i \<le> n" by simp
  from assms(4) [OF Suc.prems(1,2) i] obtain h1 where h1: "add_row d m n i h = Some h1" "J i h1" by blast
  have "\<exists>h'. add_rows d m n [Suc i..<Suc n] h1 = Some h' \<and> J n h'"
    using Suc.hyps(1) [of "Suc i" h1] Suc.hyps(2) h1(2) i by simp
  moreover have "[i..<Suc n] = i # [Suc i..<Suc n]" using i by (simp add: upt_conv_Cons del: upt_Suc)
  ultimately show ?case using h1(1) by (simp del: upt_Suc)
qed

lemma placed_but_init: "placed_but n 0 0 (assigned_row hungarian_init)"
  by (simp add: placed_but_def hungarian_init_def)

lemma all_rows_placed: "\<exists>h. add_rows d m n [1..<Suc n] hungarian_init = Some h \<and> placed_but n n 0 (assigned_row h)"
  using add_rows_induct [of "\<lambda>i h. placed_but n i 0 (assigned_row h)" 1 hungarian_init n d m]
    add_row_step placed_but_init by simp

lemma all_rows_optimal: "\<exists>h. add_rows exact_rounding m n [1..<Suc n] hungarian_init = Some h \<and> optimal_rows m n n h"
proof -
  have "optimal_rows m n 0 hungarian_init"
    using placed_but_init by (simp add: optimal_rows_def feasible_def hungarian_init_def)
  then show ?thesis
    using add_rows_induct [of "optimal_rows m n" 1 hungarian_init n exact_rounding m] add_row_optimal
    by simp
qed

text \<open>The final assignment is a permutation; with the potentials it has minimal cost.\<close>

lemma placed_but_bij:
  assumes "placed_but n n 0 p"
  shows "bij_betw p {1..n} {1..n}"
proof -
  let ?A = "{j. j \<le> n \<and> j \<noteq> 0 \<and> p j \<noteq> 0}"
  have A: "inj_on p ?A" "p ` ?A = {1..n}" using assms by (simp_all add: placed_but_def)
  have "card ?A = n" using card_image [OF A(1)] A(2) by simp
  moreover have "?A \<subseteq> {1..n}" by auto
  ultimately have "?A = {1..n}" by (intro card_subset_eq) auto
  then show ?thesis using A by (simp add: bij_betw_def)
qed

lemma optimal_rows_minimal:
  assumes "optimal_rows m n n h" and "bij_betw s {1..n} {1..n}"
  shows "(\<Sum>j = 1..n. m (assigned_row h j) j) \<le> (\<Sum>j = 1..n. m (s j) j)"
proof -
  let ?p = "assigned_row h"
  have p: "bij_betw ?p {1..n} {1..n}" using assms(1) placed_but_bij by (simp add: optimal_rows_def)
  have sums: "(\<Sum>j = 1..n. pot_u h (f j)) = (\<Sum>r = 1..n. pot_u h r)" if "bij_betw f {1..n} {1..n}" for f
    using sum.reindex_bij_betw [OF that, of "pot_u h"] .
  have "?p j \<noteq> 0" if "j \<in> {1..n}" for j using p that by (force simp: bij_betw_def)
  then have "(\<Sum>j = 1..n. m (?p j) j) = (\<Sum>j = 1..n. pot_u h (?p j) + pot_v h j)"
    using assms(1) by (intro sum.cong) (auto simp: optimal_rows_def tight_def)
  also have "\<dots> = (\<Sum>j = 1..n. pot_u h (s j) + pot_v h j)"
    using sums [OF p] sums [OF assms(2)] by (simp add: sum.distrib)
  also have "\<dots> \<le> (\<Sum>j = 1..n. m (s j) j)"
  proof (rule sum_mono)
    fix j assume j: "j \<in> {1..n}"
    then have "s j \<in> {1..n}" using assms(2) by (auto simp: bij_betw_def)
    with j show "pot_u h (s j) + pot_v h j \<le> m (s j) j"
      using assms(1) by (simp add: optimal_rows_def feasible_def)
  qed
  finally show ?thesis .
qed

section \<open>The result\<close>

lemma fold_read_column:
  "fold (read_column a rows h) cs res =
     (let hit = (\<lambda>c. 0 \<le> int (assigned_row h (nat (c + 1))) - 1 \<and> int (assigned_row h (nat (c + 1))) - 1 < rows \<and>
                     a (int (assigned_row h (nat (c + 1))) - 1) c < kForbidden)
      in res\<lparr>matches := matches res @ map (\<lambda>c. (int (assigned_row h (nat (c + 1))) - 1, c)) (filter hit cs),
             unmatched_cols := unmatched_cols res @ filter (\<lambda>c. \<not> hit c) cs\<rparr>)"
  by (induction cs arbitrary: res) (simp_all add: read_column_def Let_def)

definition row_of :: "hungarian \<Rightarrow> nat \<Rightarrow> nat" where
  "row_of h c = assigned_row h (Suc c) - 1"

lemma row_of_bij:
  assumes "placed_but n n 0 (assigned_row h)"
  shows "bij_betw (row_of h) {..<n} {..<n}"
proof -
  have "bij_betw (assigned_row h) {1..n} {1..n}" using assms by (rule placed_but_bij)
  moreover have "bij_betw Suc {..<n} {1..n}" by (auto simp: bij_betw_def image_Suc_lessThan)
  moreover have "bij_betw (\<lambda>i. i - 1) {1..n} {..<n}"
    by (rule bij_betw_byWitness [where f' = Suc]) auto
  ultimately have "bij_betw ((\<lambda>i. i - 1) \<circ> (assigned_row h \<circ> Suc)) {..<n} {..<n}"
    by (intro bij_betw_trans)
  then show ?thesis by (simp add: row_of_def [abs_def] comp_def)
qed

lemma assigned_row_pos:
  assumes "placed_but n n 0 (assigned_row h)" and "c < n"
  shows "int (assigned_row h (Suc c)) - 1 = int (row_of h c)"
proof -
  have "assigned_row h (Suc c) \<in> {1..n}"
    using placed_but_bij [OF assms(1)] assms(2) by (auto simp: bij_betw_def)
  then show ?thesis by (simp add: row_of_def)
qed

text \<open>\<open>hits\<close> are the columns that end in a pair.\<close>

definition hits :: "(int \<Rightarrow> int \<Rightarrow> real) \<Rightarrow> nat \<Rightarrow> nat \<Rightarrow> hungarian \<Rightarrow> nat list" where
  "hits a R C h = filter (\<lambda>c. row_of h c < R \<and> a (int (row_of h c)) (int c) < kForbidden) [0..<C]"

lemma upto_int: "[0..int C - 1] = map int [0..<C]"
  by (induction C) (simp_all add: upto_rec2)

lemma read_back_eq:
  assumes "placed_but n n 0 (assigned_row h)" and "C \<le> n"
  shows "read_back a (int R) (int C) h =
    \<lparr>matches = map (\<lambda>c. (int (row_of h c), int c)) (hits a R C h),
     unmatched_rows = map int (filter (\<lambda>r. r \<notin> row_of h ` set (hits a R C h)) [0..<R]),
     unmatched_cols = map int (filter (\<lambda>c. c \<notin> set (hits a R C h)) [0..<C])\<rparr>"
proof -
  have pos: "assigned_row h (nat (int c + 1)) = Suc (row_of h c)" if "c < C" for c
    using assigned_row_pos [OF assms(1), of c] that assms(2) by (simp add: nat_add_distrib)
  show ?thesis
    unfolding read_back_def fold_read_column upto_int
    by (auto simp: Let_def filter_map comp_def hits_def pos empty_result_def image_iff
        intro!: map_cong filter_cong)
qed

text \<open>What a caller of \<open>solve\<close> relies on.\<close>

definition valid_assignment :: "nat \<Rightarrow> nat \<Rightarrow> assignment_result \<Rightarrow> bool" where
  "valid_assignment R C res \<longleftrightarrow>
     distinct (map fst (matches res)) \<and> distinct (map snd (matches res)) \<and>
     distinct (unmatched_rows res) \<and> distinct (unmatched_cols res) \<and>
     fst ` set (matches res) \<inter> set (unmatched_rows res) = {} \<and>
     snd ` set (matches res) \<inter> set (unmatched_cols res) = {} \<and>
     fst ` set (matches res) \<union> set (unmatched_rows res) = {0..<int R} \<and>
     snd ` set (matches res) \<union> set (unmatched_cols res) = {0..<int C}"

lemma int_complement: "X \<subseteq> {..<k} \<Longrightarrow> int ` X \<union> int ` {r. r < k \<and> r \<notin> X} = {0..<int k}"
proof -
  assume "X \<subseteq> {..<k}"
  then have "X \<union> {r. r < k \<and> r \<notin> X} = {0..<k}" by auto
  then show ?thesis using image_int_atLeastLessThan [of 0 k] by (simp flip: image_Un)
qed

lemma valid_assignmentI:
  assumes "distinct cs" and "set cs \<subseteq> {..<C}" and "inj_on f (set cs)" and "f ` set cs \<subseteq> {..<R}"
  shows "valid_assignment R C
    \<lparr>matches = map (\<lambda>c. (int (f c), int c)) cs,
     unmatched_rows = map int (filter (\<lambda>r. r \<notin> f ` set cs) [0..<R]),
     unmatched_cols = map int (filter (\<lambda>c. c \<notin> set cs) [0..<C])\<rparr>"
proof -
  have "distinct (map (\<lambda>c. int (f c)) cs)" "distinct (map int cs)"
    using assms(1,3) by (auto simp: distinct_map inj_on_def)
  moreover have "distinct (map int (filter (\<lambda>r. r \<notin> f ` set cs) [0..<R]))"
    "distinct (map int (filter (\<lambda>c. c \<notin> set cs) [0..<C]))"
    by (simp_all add: distinct_map inj_on_def)
  moreover have "int ` f ` set cs \<union> int ` {r. r < R \<and> r \<notin> f ` set cs} = {0..<int R}"
    "int ` set cs \<union> int ` {c. c < C \<and> c \<notin> set cs} = {0..<int C}"
    using int_complement assms(2,4) by blast+
  moreover have "int ` f ` set cs \<inter> int ` {r. r < R \<and> r \<notin> f ` set cs} = {}"
    "int ` set cs \<inter> int ` {c. c < C \<and> c \<notin> set cs} = {}"
    by auto
  ultimately show ?thesis
    by (simp add: valid_assignment_def comp_def image_image)
qed

lemma read_back_valid:
  assumes "placed_but n n 0 (assigned_row h)" and "n = R + C"
  shows "valid_assignment R C (read_back a (int R) (int C) h)"
proof -
  have "C \<le> n" using assms(2) by simp
  note eq = read_back_eq [OF assms(1) this]
  have "inj_on (row_of h) (set (hits a R C h))"
    using row_of_bij [OF assms(1)] assms(2) by (auto simp: bij_betw_def hits_def elim!: inj_on_subset)
  then show ?thesis unfolding eq by (intro valid_assignmentI) (auto simp: hits_def)
qed

lemma at_cost_below:
  assumes "at_cost d cost (int R) (int C) L (int r) (int c) < kForbidden" and "r < R" and "c < C"
  shows "cost ! (r * C + c) \<le> L"
  using assms by (auto simp: at_cost_def Let_def split: if_splits)

lemma solve_result:
  assumes "R * C \<le> length cost"
  shows "\<exists>res. solve d cost (int R) (int C) L = Some (Inr res) \<and> valid_assignment R C res \<and>
    (\<forall>(r, c) \<in> set (matches res). cost ! (nat r * C + nat c) \<le> L)"
proof (cases "R = 0 \<or> C = 0")
  case True
  then show ?thesis using assms by (auto simp: solve_def valid_assignment_def)
next
  case False
  obtain h where h: "add_rows d (extended_matrix d cost (int R) (int C) L) (R + C) [1..<Suc (R + C)] hungarian_init = Some h"
    "placed_but (R + C) (R + C) 0 (assigned_row h)"
    using all_rows_placed by blast
  have n: "nat (int R + int C) = R + C" by simp
  let ?a = "at_cost d cost (int R) (int C) L"
  have "solve d cost (int R) (int C) L = Some (Inr (read_back ?a (int R) (int C) h))"
    using False assms h(1) unfolding solve_def n Let_def by (simp del: upt_Suc)
  moreover have "\<forall>(r, c) \<in> set (matches (read_back ?a (int R) (int C) h)). cost ! (nat r * C + nat c) \<le> L"
    unfolding read_back_eq [OF h(2) le_add2] by (auto simp: hits_def intro!: at_cost_below)
  ultimately show ?thesis using read_back_valid [OF h(2) refl] by blast
qed

section \<open>The contract a client of the solver uses\<close>

locale assignment_solver =
  fixes run :: "real list \<Rightarrow> int \<Rightarrow> int \<Rightarrow> real \<Rightarrow> (takt_error + assignment_result) option"
  assumes returns: "R * C \<le> length cost \<Longrightarrow>
    \<exists>res. run cost (int R) (int C) L = Some (Inr res) \<and> valid_assignment R C res"
begin

lemma result_valid:
  assumes "run cost (int R) (int C) L = Some (Inr res)" and "R * C \<le> length cost"
  shows "valid_assignment R C res"
  using returns [OF assms(2), of L] assms(1) by auto

lemma match_range:
  assumes "run cost (int R) (int C) L = Some (Inr res)" and "R * C \<le> length cost"
    and "(r, c) \<in> set (matches res)"
  shows "0 \<le> r \<and> r < int R \<and> 0 \<le> c \<and> c < int C"
proof -
  have "fst ` set (matches res) \<subseteq> {0..<int R}" "snd ` set (matches res) \<subseteq> {0..<int C}"
    using result_valid [OF assms(1,2)] by (auto simp: valid_assignment_def)
  then show ?thesis using assms(3) by force
qed

lemma unmatched_range:
  assumes "run cost (int R) (int C) L = Some (Inr res)" and "R * C \<le> length cost"
  shows "set (unmatched_rows res) \<subseteq> {0..<int R}" and "set (unmatched_cols res) \<subseteq> {0..<int C}"
  using result_valid [OF assms] by (auto simp: valid_assignment_def)

end

interpretation hungarian: assignment_solver "solve d" for d
  by unfold_locales (use solve_result in blast)

section \<open>Optimality in exact arithmetic\<close>

text \<open>The problem \<open>solve\<close> is meant to solve: pairs within the limit, every row and column in at
  most one pair, and half the limit for each row and column left over.\<close>

definition gated_matching :: "real list \<Rightarrow> nat \<Rightarrow> nat \<Rightarrow> real \<Rightarrow> (nat \<times> nat) set \<Rightarrow> bool" where
  "gated_matching cost R C L M \<longleftrightarrow> M \<subseteq> {..<R} \<times> {..<C} \<and> inj_on fst M \<and> inj_on snd M \<and>
     (\<forall>(r, c) \<in> M. cost ! (r * C + c) \<le> L)"

definition matching_cost :: "real list \<Rightarrow> nat \<Rightarrow> nat \<Rightarrow> real \<Rightarrow> (nat \<times> nat) set \<Rightarrow> real" where
  "matching_cost cost R C L M =
     (\<Sum>(r, c) \<in> M. cost ! (r * C + c)) + L / 2 * (real R - card M) + L / 2 * (real C - card M)"

definition matched_pairs :: "assignment_result \<Rightarrow> (nat \<times> nat) set" where
  "matched_pairs res = (\<lambda>(r, c). (nat r, nat c)) ` set (matches res)"

text \<open>Entries of the extended matrix that are not the forbidden cost.\<close>

definition allowed :: "real list \<Rightarrow> nat \<Rightarrow> nat \<Rightarrow> real \<Rightarrow> nat \<Rightarrow> nat \<Rightarrow> bool" where
  "allowed cost R C L r c \<longleftrightarrow>
     (if r < R \<and> c < C then cost ! (r * C + c) \<le> L
      else if r < R then c = C + r else if c < C then r = R + c else True)"

definition pairs_of :: "nat \<Rightarrow> nat \<Rightarrow> (nat \<Rightarrow> nat) \<Rightarrow> (nat \<times> nat) set" where
  "pairs_of R C s = (\<lambda>c. (s c, c)) ` {c. c < C \<and> s c < R}"

abbreviation ext :: "real list \<Rightarrow> nat \<Rightarrow> nat \<Rightarrow> real \<Rightarrow> nat \<Rightarrow> nat \<Rightarrow> real" where
  "ext cost R C L r c \<equiv> at_cost exact_rounding cost (int R) (int C) L (int r) (int c)"

lemma ext_eq:
  "ext cost R C L r c =
     (if \<not> allowed cost R C L r c then kForbidden
      else if r < R \<and> c < C then cost ! (r * C + c)
      else if r < R \<or> c < C then L / 2 else 0)"
  by (auto simp: at_cost_def allowed_def Let_def fops)

lemma card_split: "finite A \<Longrightarrow> card {x \<in> A. P x} + card {x \<in> A. \<not> P x} = card A"
  by (subst card_Un_disjoint [symmetric]) (auto intro!: arg_cong [where f = card])

lemma cost_of_permutation:
  assumes "bij_betw s {..<C + R} {..<C + R}" and "\<And>c. c < C + R \<Longrightarrow> allowed cost R C L (s c) c"
  shows "(\<Sum>c<C + R. ext cost R C L (s c) c) = matching_cost cost R C L (pairs_of R C s)"
    and "gated_matching cost R C L (pairs_of R C s)"
proof -
  let ?M = "pairs_of R C s" and ?hit = "{c. c < C \<and> s c < R}"
  have inj: "inj_on s {..<C + R}" and img: "s ` {..<C + R} = {..<C + R}"
    using assms(1) by (simp_all add: bij_betw_def)
  have cardM: "card ?M = card ?hit" unfolding pairs_of_def by (intro card_image) (auto simp: inj_on_def)
  have sumM: "(\<Sum>(r, c) \<in> ?M. cost ! (r * C + c)) = (\<Sum>c\<in>?hit. cost ! (s c * C + c))"
    unfolding pairs_of_def by (subst sum.reindex) (auto simp: inj_on_def)
  have "(\<Sum>c<C. ext cost R C L (s c) c) = (\<Sum>c<C. if s c < R then cost ! (s c * C + c) else L / 2)"
    using assms(2) by (intro sum.cong) (auto simp: ext_eq)
  also have "\<dots> = (\<Sum>c\<in>?hit. cost ! (s c * C + c)) + L / 2 * card {c. c < C \<and> \<not> s c < R}"
    by (subst sum.If_cases) (auto simp: Int_def Compl_eq intro!: arg_cong2 [where f = "(+)"] sum.cong)
  finally have low: "(\<Sum>c<C. ext cost R C L (s c) c) =
    (\<Sum>c\<in>?hit. cost ! (s c * C + c)) + L / 2 * card {c. c < C \<and> \<not> s c < R}" .
  have "(\<Sum>c=C..<C + R. ext cost R C L (s c) c) = (\<Sum>c=C..<C + R. if s c < R then L / 2 else 0)"
    using assms(2) by (intro sum.cong) (auto simp: ext_eq)
  also have "\<dots> = L / 2 * card {c. C \<le> c \<and> c < C + R \<and> s c < R}"
    by (subst sum.If_cases) (auto simp: Int_def intro!: arg_cong [where f = card])
  finally have high: "(\<Sum>c=C..<C + R. ext cost R C L (s c) c) =
    L / 2 * card {c. C \<le> c \<and> c < C + R \<and> s c < R}" .
  have cols: "card ?hit + card {c. c < C \<and> \<not> s c < R} = C"
    using card_split [of "{..<C}" "\<lambda>c. s c < R"] by simp
  have "card {c. c < C + R \<and> s c < R} = card (s ` {c. c < C + R \<and> s c < R})"
    using inj by (intro card_image [symmetric]) (auto elim: inj_on_subset)
  also have "s ` {c. c < C + R \<and> s c < R} = {..<R}"
    using img by (auto simp: set_eq_iff image_iff) (metis add.commute lessThan_iff trans_less_add1)
  finally have "card {c. c < C + R \<and> s c < R} = R" by simp
  moreover have "card {c \<in> {c. c < C + R \<and> s c < R}. c < C} + card {c \<in> {c. c < C + R \<and> s c < R}. \<not> c < C} =
    card {c. c < C + R \<and> s c < R}"
    by (rule card_split) simp
  moreover have "{c \<in> {c. c < C + R \<and> s c < R}. c < C} = ?hit"
    "{c \<in> {c. c < C + R \<and> s c < R}. \<not> c < C} = {c. C \<le> c \<and> c < C + R \<and> s c < R}"
    by auto
  ultimately have rows: "card ?hit + card {c. C \<le> c \<and> c < C + R \<and> s c < R} = R" by simp
  have r: "real (card {c. c < C \<and> \<not> s c < R}) = real C - card ?hit"
    "real (card {c. C \<le> c \<and> c < C + R \<and> s c < R}) = real R - card ?hit"
    using cols rows by linarith+
  have "(\<Sum>c<C + R. ext cost R C L (s c) c) =
    (\<Sum>c<C. ext cost R C L (s c) c) + (\<Sum>c=C..<C + R. ext cost R C L (s c) c)"
    using sum.atLeastLessThan_concat [of 0 C "C + R" "\<lambda>c. ext cost R C L (s c) c"]
    by (simp add: lessThan_atLeast0)
  then show "(\<Sum>c<C + R. ext cost R C L (s c) c) = matching_cost cost R C L ?M"
    unfolding low high r matching_cost_def cardM sumM by simp
  have "inj_on s ?hit" using inj by (rule inj_on_subset) auto
  then show "gated_matching cost R C L ?M"
    using assms(2) by (auto simp: gated_matching_def pairs_of_def inj_on_def allowed_def split: if_splits)
qed

text \<open>Every gated matching comes from such a permutation.\<close>

definition row_for :: "nat \<Rightarrow> nat \<Rightarrow> (nat \<times> nat) set \<Rightarrow> nat \<Rightarrow> nat" where
  "row_for R C M c =
     (if c < C then (if c \<in> snd ` M then (THE r. (r, c) \<in> M) else R + c)
      else (if c - C \<in> fst ` M then R + (THE c'. (c - C, c') \<in> M) else c - C))"

lemma row_for_matched:
  assumes "gated_matching cost R C L M"
  shows "(r, c) \<in> M \<Longrightarrow> row_for R C M c = r" and "(r, c) \<in> M \<Longrightarrow> row_for R C M (C + r) = R + c"
    and "c < C \<Longrightarrow> c \<notin> snd ` M \<Longrightarrow> row_for R C M c = R + c"
    and "r \<notin> fst ` M \<Longrightarrow> row_for R C M (C + r) = r"
proof -
  have uniq: "r = r'" if "(r, c) \<in> M" "(r', c) \<in> M" for r r' c
    using assms that inj_onD [of snd M "(r, c)" "(r', c)"] by (simp add: gated_matching_def)
  have uniq': "c = c'" if "(r, c) \<in> M" "(r, c') \<in> M" for r c c'
    using assms that inj_onD [of fst M "(r, c)" "(r, c')"] by (simp add: gated_matching_def)
  assume rc: "(r, c) \<in> M"
  then have "(THE r. (r, c) \<in> M) = r" using uniq by (intro the_equality) auto
  then show "row_for R C M c = r" using rc assms by (force simp: row_for_def gated_matching_def)
  from rc have "(THE c'. (r, c') \<in> M) = c" using uniq' by (intro the_equality) auto
  then show "row_for R C M (C + r) = R + c" using rc by (force simp: row_for_def)
qed (simp_all add: row_for_def)

lemma row_for_permutation:
  assumes "gated_matching cost R C L M"
  shows "bij_betw (row_for R C M) {..<C + R} {..<C + R}"
    and "\<And>c. c < C + R \<Longrightarrow> allowed cost R C L (row_for R C M c) c"
    and "pairs_of R C (row_for R C M) = M"
proof -
  note f = row_for_matched [OF assms]
  have M: "r < R \<and> c < C \<and> cost ! (r * C + c) \<le> L" if "(r, c) \<in> M" for r c
    using assms that by (auto simp: gated_matching_def)
  have surj: "{..<C + R} \<subseteq> row_for R C M ` {..<C + R}"
  proof
    fix r assume r: "r \<in> {..<C + R}"
    show "r \<in> row_for R C M ` {..<C + R}"
    proof (cases "r < R")
      case True
      then show ?thesis
      proof (cases "r \<in> fst ` M")
        case True
        then obtain c where "(r, c) \<in> M" by auto
        then show ?thesis using f(1) M [of r c] by (intro image_eqI [of _ _ c]) auto
      next
        case False
        then show ?thesis using f(4) \<open>r < R\<close> by (intro image_eqI [of _ _ "C + r"]) auto
      qed
    next
      case False
      define c where "c = r - R"
      have c: "r = R + c" "c < C" using False r by (auto simp: c_def)
      show ?thesis
      proof (cases "c \<in> snd ` M")
        case True
        then obtain r' where "(r', c) \<in> M" by auto
        then show ?thesis using f(2) M [of r' c] c by (intro image_eqI [of _ _ "C + r'"]) auto
      next
        case False
        then show ?thesis using f(3) c by (intro image_eqI [of _ _ c]) auto
      qed
    qed
  qed
  have range: "row_for R C M c < C + R \<and> allowed cost R C L (row_for R C M c) c" if c: "c < C + R" for c
  proof (cases "c < C")
    case True
    then show ?thesis
      using f(1,3) M by (cases "c \<in> snd ` M") (force simp: allowed_def)+
  next
    case False
    define r where "r = c - C"
    have r: "c = C + r" "r < R" using False c by (auto simp: r_def)
    show ?thesis
      unfolding r(1) using f(2,4) M r(2) by (cases "r \<in> fst ` M") (force simp: allowed_def)+
  qed
  have "row_for R C M ` {..<C + R} = {..<C + R}" using surj range by auto
  then show "bij_betw (row_for R C M) {..<C + R} {..<C + R}"
    using eq_card_imp_inj_on [of "{..<C + R}" "row_for R C M"] by (simp add: bij_betw_def)
  show "\<And>c. c < C + R \<Longrightarrow> allowed cost R C L (row_for R C M c) c" using range by blast
  show "pairs_of R C (row_for R C M) = M"
  proof (intro set_eqI iffI)
    fix x assume "x \<in> pairs_of R C (row_for R C M)"
    then obtain c where x: "x = (row_for R C M c, c)" "c < C" "row_for R C M c < R"
      by (auto simp: pairs_of_def)
    then have "c \<in> snd ` M" using f(3) by (cases "c \<in> snd ` M") auto
    then obtain r where "(r, c) \<in> M" by auto
    then show "x \<in> M" using f(1) x by simp
  next
    fix x assume "x \<in> M"
    then obtain r c where "x = (r, c)" "(r, c) \<in> M" by (cases x) auto
    then show "x \<in> pairs_of R C (row_for R C M)" using f(1) M by (force simp: pairs_of_def)
  qed
qed


section \<open>Properties\<close>

lemma minimal_ext:
  assumes "optimal_rows (extended_matrix exact_rounding cost (int R) (int C) L) n n h"
    and "bij_betw s {..<n} {..<n}"
  shows "(\<Sum>c<n. ext cost R C L (row_of h c) c) \<le> (\<Sum>c<n. ext cost R C L (s c) c)"
proof -
  let ?m = "extended_matrix exact_rounding cost (int R) (int C) L"
  have shift: "(\<Sum>j = 1..n. f j) = (\<Sum>c<n. f (Suc c))" for f :: "nat \<Rightarrow> real"
    using sum.reindex_bij_betw [of Suc "{..<n}" "{1..n}" f] by (simp add: bij_betw_def image_Suc_lessThan)
  have "bij_betw (\<lambda>i. i - 1) {1..n} {..<n}" by (rule bij_betw_byWitness [where f' = Suc]) auto
  moreover have "bij_betw Suc {..<n} {1..n}" by (auto simp: bij_betw_def image_Suc_lessThan)
  ultimately have "bij_betw (Suc \<circ> (s \<circ> (\<lambda>i. i - 1))) {1..n} {1..n}"
    using assms(2) by (intro bij_betw_trans)
  from optimal_rows_minimal [OF assms(1) this]
  have "(\<Sum>c<n. ?m (assigned_row h (Suc c)) (Suc c)) \<le> (\<Sum>c<n. ?m (Suc (s c)) (Suc c))"
    unfolding shift by simp
  moreover have "?m (assigned_row h (Suc c)) (Suc c) = ext cost R C L (row_of h c) c" if "c < n" for c
  proof -
    have p: "placed_but n n 0 (assigned_row h)" using assms(1) by (simp add: optimal_rows_def)
    from assigned_row_pos [OF p that] show ?thesis by (auto simp: extended_matrix_def)
  qed
  ultimately show ?thesis by (simp add: extended_matrix_def)
qed

lemma gated_empty: "gated_matching cost R C L {}"
  by (simp add: gated_matching_def)

lemma optimal_allowed:
  assumes "optimal_rows (extended_matrix exact_rounding cost (int R) (int C) L) (C + R) (C + R) h"
    and "R * C \<le> length cost" and "\<forall>x \<in> set cost. 0 \<le> x" and "0 \<le> L" and "L / 2 * real (R + C) < kForbidden"
    and "c < C + R"
  shows "allowed cost R C L (row_of h c) c"
proof (rule ccontr)
  assume bad: "\<not> ?thesis"
  have nonneg: "0 \<le> ext cost R C L r c" for r c
  proof -
    have "r * C + c < length cost" if "r < R" "c < C"
    proof -
      have "r * C + c < Suc r * C" using that(2) by simp
      also have "\<dots> \<le> R * C" using that(1) by (intro mult_le_mono1) simp
      finally show ?thesis using assms(2) by simp
    qed
    then show ?thesis using assms(3,4) by (auto simp: ext_eq kForbidden_def)
  qed
  have "kForbidden = ext cost R C L (row_of h c) c" using bad by (simp add: ext_eq)
  also have "\<dots> \<le> (\<Sum>c<C + R. ext cost R C L (row_of h c) c)"
    using nonneg assms(6) by (intro member_le_sum) auto
  also have "\<dots> \<le> (\<Sum>c<C + R. ext cost R C L (row_for R C {} c) c)"
    using assms(1) row_for_permutation(1) [OF gated_empty] by (rule minimal_ext)
  also have "\<dots> = matching_cost cost R C L {}"
    using cost_of_permutation(1) [OF row_for_permutation(1,2) [OF gated_empty]]
      row_for_permutation(3) [OF gated_empty] by simp
  also have "\<dots> = L / 2 * real (R + C)" by (simp add: matching_cost_def algebra_simps)
  finally show False using assms(5) by simp
qed

lemma optimal_solution:
  assumes "R * C \<le> length cost" and "\<forall>x \<in> set cost. 0 \<le> x" and "0 \<le> L" and "L / 2 * real (R + C) < kForbidden"
  shows "\<exists>res. solve exact_rounding cost (int R) (int C) L = Some (Inr res) \<and>
    gated_matching cost R C L (matched_pairs res) \<and>
    (\<forall>M. gated_matching cost R C L M \<longrightarrow>
       matching_cost cost R C L (matched_pairs res) \<le> matching_cost cost R C L M)"
proof (cases "R = 0 \<or> C = 0")
  case True
  then have "M = {}" if "gated_matching cost R C L M" for M
    using that by (auto simp: gated_matching_def)
  then show ?thesis using True assms(1) gated_empty by (auto simp: solve_def matched_pairs_def)
next
  case False
  let ?m = "extended_matrix exact_rounding cost (int R) (int C) L"
  obtain h where h: "add_rows exact_rounding ?m (C + R) [1..<Suc (C + R)] hungarian_init = Some h"
    "optimal_rows ?m (C + R) (C + R) h"
    using all_rows_optimal by blast
  have p: "placed_but (C + R) (C + R) 0 (assigned_row h)" using h(2) by (simp add: optimal_rows_def)
  have n: "nat (int R + int C) = C + R" by simp
  let ?res = "read_back (at_cost exact_rounding cost (int R) (int C) L) (int R) (int C) h"
  note ok = optimal_allowed [OF h(2) assms]
  note bij = row_of_bij [OF p]
  have "L * 1 \<le> L * (real (R + C) / 2)" using False assms(3) by (intro mult_left_mono) auto
  then have "L < kForbidden" using assms(4) by simp
  then have hits: "set (hits (at_cost exact_rounding cost (int R) (int C) L) R C h) = {c. c < C \<and> row_of h c < R}"
  proof -
    have "ext cost R C L (row_of h c) c < kForbidden" if "c < C" "row_of h c < R" for c
      using ok [of c] that \<open>L < kForbidden\<close> by (simp add: ext_eq allowed_def)
    then show ?thesis by (auto simp: hits_def)
  qed
  have pairs: "matched_pairs ?res = pairs_of R C (row_of h)"
    unfolding read_back_eq [OF p le_add1] matched_pairs_def pairs_of_def by (simp add: hits image_image)
  have "solve exact_rounding cost (int R) (int C) L = Some (Inr ?res)"
    using False assms(1) h(1) unfolding solve_def n Let_def by (simp del: upt_Suc)
  moreover have "gated_matching cost R C L (matched_pairs ?res)"
    unfolding pairs using bij ok by (rule cost_of_permutation(2))
  moreover have "matching_cost cost R C L (matched_pairs ?res) \<le> matching_cost cost R C L M"
    if M: "gated_matching cost R C L M" for M
    using minimal_ext [OF h(2) row_for_permutation(1) [OF M]] cost_of_permutation(1) [OF bij ok]
      cost_of_permutation(1) [OF row_for_permutation(1,2) [OF M]] row_for_permutation(3) [OF M]
    by (simp add: pairs)
  ultimately show ?thesis by blast
qed

text \<open>
  C15: the solver returns for every input and every rounding of the double arithmetic.
\<close>

theorem solve_terminates: "\<exists>r. solve d cost rows cols cost_limit = Some r"
proof (cases "rows < 0 \<or> cols < 0 \<or> length cost < nat rows * nat cols")
  case False
  then show ?thesis using solve_result [of "nat rows" "nat cols" cost d cost_limit] by auto
qed (auto simp: solve_def)

text \<open>
  On a matrix of the right size the result pairs rows and columns at most once, only within
  the limit, and lists exactly the other rows and columns as unmatched, in any arithmetic; any
  other input is reported as an error.
\<close>

theorem solve_valid:
  "(if R * C \<le> length cost
    then \<exists>res. solve d cost (int R) (int C) L = Some (Inr res) \<and> valid_assignment R C res \<and>
      list_all (\<lambda>(r, c). cost ! (nat r * C + nat c) \<le> L) (matches res)
    else solve d cost (int R) (int C) L =
      Some (Inl (Invalid_argument ''LinearAssignment::solve: cost matrix size mismatch'')))"
  using solve_result [of R C cost d L] by (simp add: solve_def list_all_iff)

text \<open>
  C14: in exact arithmetic the pairs are an optimal gated matching: no other set of pairs within
  the limit has smaller total cost, where each unmatched row or column costs half the limit.
\<close>

theorem solve_optimal:
  assumes "R * C \<le> length cost" and "\<forall>x \<in> set cost. 0 \<le> x" and "0 \<le> L" and "L / 2 * real (R + C) < kForbidden"
  shows "\<exists>res. solve exact_rounding cost (int R) (int C) L = Some (Inr res) \<and>
    gated_matching cost R C L (matched_pairs res) \<and>
    (\<forall>M. gated_matching cost R C L M \<longrightarrow>
       matching_cost cost R C L (matched_pairs res) \<le> matching_cost cost R C L M)"
  using assms by (rule optimal_solution)

theorem solve_optimal_witness:
  "\<exists>res. solve exact_rounding [3 / 10, 9 / 10, 1 / 10, 2 / 10] 2 2 (8 / 10) = Some (Inr res) \<and>
    matching_cost [3 / 10, 9 / 10, 1 / 10, 2 / 10] 2 2 (8 / 10) (matched_pairs res) \<le> 1 / 2"
proof -
  let ?c = "[3 / 10, 9 / 10, 1 / 10, 2 / 10] :: real list"
  have "gated_matching ?c 2 2 (8 / 10) {(0, 0), (1, 1)}"
    by (auto simp: gated_matching_def numeral_2_eq_2)
  moreover have "matching_cost ?c 2 2 (8 / 10) {(0, 0), (1, 1)} = 1 / 2"
    by (simp add: matching_cost_def numeral_2_eq_2)
  ultimately show ?thesis
    using solve_optimal [of 2 2 ?c "8 / 10"] by (force simp: kForbidden_def)
qed

end
