(* ===== verification/SmallMatrix.thy ===== *)
theory SmallMatrix
  imports FloatModel
begin

text \<open>
  \<open>track/small_matrix.hpp\<close>: fixed-size row-major matrices of floats. The array \<open>values\<close> is a list;
  the template dimensions are arguments (the number of columns \<open>C\<close> for an access, the bounds of
  the loops for an operation). \<open>r\<close> rounds the element type's arithmetic.

  The lemmas give every operation by its entries, and prove in exact arithmetic that
  \<open>cholesky_solve\<close> solves the linear system.
\<close>

section \<open>Data and operations\<close>

type_synonym matrix = "real list"

definition zero_matrix :: "nat \<Rightarrow> nat \<Rightarrow> matrix" where
  "zero_matrix R C = replicate (R * C) 0"

definition entry :: "nat \<Rightarrow> matrix \<Rightarrow> nat \<Rightarrow> nat \<Rightarrow> real" where
  "entry C m r c = m ! (r * C + c)"

definition set_entry :: "nat \<Rightarrow> nat \<Rightarrow> nat \<Rightarrow> real \<Rightarrow> matrix \<Rightarrow> matrix" where
  "set_entry C r c v m = m[r * C + c := v]"

definition identity_matrix :: "nat \<Rightarrow> matrix" where
  "identity_matrix N = fold (\<lambda>i. set_entry N i i 1) [0..<N] (zero_matrix N N)"

definition diagonal :: "nat \<Rightarrow> real list \<Rightarrow> matrix" where
  "diagonal N diag = fold (\<lambda>i. set_entry N i i (diag ! i)) [0..<N] (zero_matrix N N)"

definition transposed :: "nat \<Rightarrow> nat \<Rightarrow> matrix \<Rightarrow> matrix" where
  "transposed R C m =
     fold (\<lambda>r. fold (\<lambda>c. set_entry R c r (entry C m r c)) [0..<C]) [0..<R] (zero_matrix C R)"

definition block :: "nat \<Rightarrow> nat \<Rightarrow> nat \<Rightarrow> nat \<Rightarrow> nat \<Rightarrow> matrix \<Rightarrow> matrix" where
  "block block_rows block_cols C row col m =
     fold (\<lambda>r. fold (\<lambda>c. set_entry block_cols r c (entry C m (row + r) (col + c))) [0..<block_cols])
       [0..<block_rows] (zero_matrix block_rows block_cols)"

definition mat_add :: "rounding \<Rightarrow> matrix \<Rightarrow> matrix \<Rightarrow> matrix" where
  "mat_add r a b = map2 (fadd r) a b"

definition mat_sub :: "rounding \<Rightarrow> matrix \<Rightarrow> matrix \<Rightarrow> matrix" where
  "mat_sub r a b = map2 (fsub r) a b"

definition mat_mul :: "rounding \<Rightarrow> nat \<Rightarrow> nat \<Rightarrow> nat \<Rightarrow> matrix \<Rightarrow> matrix \<Rightarrow> matrix" where
  "mat_mul rd R K C a b =
     fold (\<lambda>r. fold (\<lambda>k. fold (\<lambda>c out.
         set_entry C r c (fadd rd (entry C out r c) (fmul rd (entry K a r k) (entry C b k c))) out)
       [0..<C]) [0..<K]) [0..<R] (zero_matrix R C)"

text \<open>The factorisation: one column of \<open>l\<close> at a time, \<open>None\<close> when a pivot is not positive.\<close>

definition cholesky_diag :: "rounding \<Rightarrow> nat \<Rightarrow> matrix \<Rightarrow> matrix \<Rightarrow> nat \<Rightarrow> real" where
  "cholesky_diag rd N a l j =
     fold (\<lambda>k diag. fsub rd diag (fmul rd (entry N l j k) (entry N l j k))) [0..<j] (entry N a j j)"

definition cholesky_below :: "rounding \<Rightarrow> nat \<Rightarrow> matrix \<Rightarrow> nat \<Rightarrow> nat \<Rightarrow> matrix \<Rightarrow> matrix" where
  "cholesky_below rd N a j i l =
     (let sum = fold (\<lambda>k sum. fsub rd sum (fmul rd (entry N l i k) (entry N l j k))) [0..<j] (entry N a i j)
      in set_entry N i j (fdiv rd sum (entry N l j j)) l)"

definition cholesky_column :: "rounding \<Rightarrow> nat \<Rightarrow> matrix \<Rightarrow> nat \<Rightarrow> matrix \<Rightarrow> matrix option" where
  "cholesky_column rd N a j l =
     (let diag = cholesky_diag rd N a l j
      in if \<not> 0 < diag then None
         else Some (fold (cholesky_below rd N a j) [Suc j..<N] (set_entry N j j (fsqrt rd diag) l)))"

fun cholesky_columns :: "rounding \<Rightarrow> nat \<Rightarrow> matrix \<Rightarrow> nat list \<Rightarrow> matrix \<Rightarrow> matrix option" where
  "cholesky_columns rd N a [] l = Some l"
| "cholesky_columns rd N a (j # js) l =
     (case cholesky_column rd N a j l of None \<Rightarrow> None | Some l \<Rightarrow> cholesky_columns rd N a js l)"

definition forward_entry :: "rounding \<Rightarrow> nat \<Rightarrow> nat \<Rightarrow> matrix \<Rightarrow> nat \<Rightarrow> nat \<Rightarrow> matrix \<Rightarrow> matrix" where
  "forward_entry rd N M l col i x =
     (let sum = fold (\<lambda>k sum. fsub rd sum (fmul rd (entry N l i k) (entry M x k col))) [0..<i] (entry M x i col)
      in set_entry M i col (fdiv rd sum (entry N l i i)) x)"

definition back_entry :: "rounding \<Rightarrow> nat \<Rightarrow> nat \<Rightarrow> matrix \<Rightarrow> nat \<Rightarrow> nat \<Rightarrow> matrix \<Rightarrow> matrix" where
  "back_entry rd N M l col i x =
     (let sum = fold (\<lambda>k sum. fsub rd sum (fmul rd (entry N l k i) (entry M x k col))) [Suc i..<N] (entry M x i col)
      in set_entry M i col (fdiv rd sum (entry N l i i)) x)"

definition substitute_column :: "rounding \<Rightarrow> nat \<Rightarrow> nat \<Rightarrow> matrix \<Rightarrow> nat \<Rightarrow> matrix \<Rightarrow> matrix" where
  "substitute_column rd N M l col x =
     fold (back_entry rd N M l col) (rev [0..<N]) (fold (forward_entry rd N M l col) [0..<N] x)"

definition cholesky_solve :: "rounding \<Rightarrow> nat \<Rightarrow> nat \<Rightarrow> matrix \<Rightarrow> matrix \<Rightarrow> matrix option" where
  "cholesky_solve rd N M a b =
     (case cholesky_columns rd N a [0..<N] (zero_matrix N N) of None \<Rightarrow> None
      | Some l \<Rightarrow> Some (fold (substitute_column rd N M l) [0..<M] b))"

section \<open>Entries\<close>

lemma length_set_entry [simp]: "length (set_entry C r c v m) = length m"
  by (simp add: set_entry_def)

lemma length_zero_matrix [simp]: "length (zero_matrix R C) = R * C"
  by (simp add: zero_matrix_def)

lemma entry_zero_matrix [simp]: "r < R \<Longrightarrow> c < C \<Longrightarrow> entry C (zero_matrix R C) r c = 0"
  by (simp add: entry_def zero_matrix_def index_less)

lemma entry_set_entry:
  assumes "length m = R * C" and "r < R" and "c < C" and "c' < C"
  shows "entry C (set_entry C r c v m) r' c' = (if r' = r \<and> c' = c then v else entry C m r' c')"
  using assms by (auto simp: entry_def set_entry_def nth_list_update index_less index_eq_iff)

lemma matrix_eqI:
  assumes "length a = R * C" and "length b = R * C"
    and "\<And>r c. r < R \<Longrightarrow> c < C \<Longrightarrow> entry C a r c = entry C b r c"
  shows "a = b"
proof (rule nth_equalityI)
  fix i assume i: "i < length a"
  then have "i div C < R" "i mod C < C"
    using assms(1) by (simp_all add: less_mult_imp_div_less) (metis mod_less_divisor mult_0_right not_less_zero gr_zeroI)
  from assms(3) [OF this] show "a ! i = b ! i" by (simp add: entry_def)
qed (use assms in simp)

lemma length_fold_set_entry [simp]:
  "length (fold (\<lambda>c m. set_entry C (f c) (g c) (h c m) m) xs m) = length m"
  by (induction xs arbitrary: m) simp_all

text \<open>A loop along a row that rewrites each entry from its old value.\<close>

lemma entry_fold_row:
  assumes "length m = R * C" and "r < R" and "n \<le> C" and "c' < C"
  shows "entry C (fold (\<lambda>c m. set_entry C r c (g c (entry C m r c)) m) [0..<n] m) r' c' =
    (if r' = r \<and> c' < n then g c' (entry C m r c') else entry C m r' c')"
  using assms(3,4)
proof (induction n arbitrary: r' c')
  case (Suc n)
  let ?m = "fold (\<lambda>c m. set_entry C r c (g c (entry C m r c)) m) [0..<n] m"
  have "length ?m = R * C" using assms(1) by simp
  then have "entry C (set_entry C r n (g n (entry C ?m r n)) ?m) r' c' =
      (if r' = r \<and> c' = n then g n (entry C ?m r n) else entry C ?m r' c')"
    using Suc.prems by (intro entry_set_entry [OF _ assms(2)]) auto
  then show ?case using Suc.IH [of n r] Suc.IH [of c' r'] Suc.prems by (auto simp: less_Suc_eq)
qed simp

lemma length_fold_rows [simp]:
  "length (fold (\<lambda>r. fold (\<lambda>c m. set_entry C (f r c) (g r c) (h r c m) m) (cs r)) rs m) = length m"
  by (induction rs arbitrary: m) simp_all

lemma entry_fold_rows:
  assumes "length m = R * C" and "n \<le> R" and "c' < C"
  shows "entry C (fold (\<lambda>r m. fold (\<lambda>c m. set_entry C r c (g r c (entry C m r c)) m) [0..<C] m) [0..<n] m) r' c' =
    (if r' < n then g r' c' (entry C m r' c') else entry C m r' c')"
  using assms(2)
proof (induction n)
  case (Suc n)
  let ?m = "fold (\<lambda>r m. fold (\<lambda>c m. set_entry C r c (g r c (entry C m r c)) m) [0..<C] m) [0..<n] m"
  have "length ?m = R * C" using assms(1) by simp
  from entry_fold_row [OF this _ order_refl assms(3), of n "g n" r'] Suc.prems
  show ?case using Suc assms(3) by (auto simp: less_Suc_eq)
qed simp

lemma entry_diagonal_fold:
  assumes "n \<le> N" and "c < N"
  shows "entry N (fold (\<lambda>i. set_entry N i i (f i)) [0..<n] (zero_matrix N N)) r c =
    (if r = c \<and> c < n then f c else entry N (zero_matrix N N) r c)"
  using assms(1)
proof (induction n)
  case (Suc n)
  let ?m = "fold (\<lambda>i. set_entry N i i (f i)) [0..<n] (zero_matrix N N)"
  have "length ?m = N * N" using length_fold_set_entry [of N "\<lambda>i. i" "\<lambda>i. i" "\<lambda>i _. f i"] by simp
  from entry_set_entry [OF this, of n n c "f n" r] Suc assms(2) show ?case by auto
qed simp

lemma length_diagonal [simp]: "length (diagonal N diag) = N * N"
  using length_fold_set_entry [of N "\<lambda>i. i" "\<lambda>i. i" "\<lambda>i _. diag ! i"] by (simp add: diagonal_def)

lemma length_identity [simp]: "length (identity_matrix N) = N * N"
  using length_fold_set_entry [of N "\<lambda>i. i" "\<lambda>i. i" "\<lambda>i _. 1"] by (simp add: identity_matrix_def)

lemma entry_diagonal [simp]:
  "r < N \<Longrightarrow> c < N \<Longrightarrow> entry N (diagonal N diag) r c = (if r = c then diag ! r else 0)"
  by (simp add: diagonal_def entry_diagonal_fold)

lemma entry_identity [simp]:
  "r < N \<Longrightarrow> c < N \<Longrightarrow> entry N (identity_matrix N) r c = (if r = c then 1 else 0)"
  by (simp add: identity_matrix_def entry_diagonal_fold)

lemma length_block [simp]: "length (block R' C' C row col m) = R' * C'"
  using length_fold_rows [of C' "\<lambda>r c. r" "\<lambda>r c. c" "\<lambda>r c _. entry C m (row + r) (col + c)" "\<lambda>_. [0..<C']"]
  by (simp add: block_def)

lemma entry_block [simp]:
  "r < R' \<Longrightarrow> c < C' \<Longrightarrow> entry C' (block R' C' C row col m) r c = entry C m (row + r) (col + c)"
  using entry_fold_rows [of "zero_matrix R' C'" R' C' R' c "\<lambda>r c _. entry C m (row + r) (col + c)" r]
  by (simp add: block_def)

lemma transposed_fold:
  assumes "n \<le> R" and "c' < R"
  shows "length (fold (\<lambda>r. fold (\<lambda>c. set_entry R c r (entry C m r c)) [0..<C]) [0..<n] (zero_matrix C R)) = C * R \<and>
    (\<forall>r'<C. entry R (fold (\<lambda>r. fold (\<lambda>c. set_entry R c r (entry C m r c)) [0..<C]) [0..<n] (zero_matrix C R)) r' c' =
    (if c' < n then entry C m c' r' else 0))"
  using assms(1)
proof (induction n)
  case (Suc n)
  let ?m = "fold (\<lambda>r. fold (\<lambda>c. set_entry R c r (entry C m r c)) [0..<C]) [0..<n] (zero_matrix C R)"
  have len: "length ?m = C * R" and IH: "\<And>r'. r' < C \<Longrightarrow> entry R ?m r' c' = (if c' < n then entry C m c' r' else 0)"
    using Suc by auto
  have "length (fold (\<lambda>c. set_entry R c n (entry C m n c)) [0..<k] ?m) = C * R \<and>
    (\<forall>r'<C. entry R (fold (\<lambda>c. set_entry R c n (entry C m n c)) [0..<k] ?m) r' c' =
      (if c' = n \<and> r' < k then entry C m n r' else entry R ?m r' c'))" if "k \<le> C" for k
    using that
  proof (induction k)
    case 0
    then show ?case using len by simp
  next
    case (Suc k)
    then show ?case using \<open>Suc n \<le> R\<close> assms(2) by (auto simp: entry_set_entry [where R = C])
  qed
  from this [of C] show ?case using IH by (auto simp: less_Suc_eq)
qed (simp add: assms(2))

lemma length_transposed [simp]: "length (transposed R C m) = C * R"
proof (cases "R = 0")
  case False
  then show ?thesis using transposed_fold [of R R 0 C m] by (simp add: transposed_def)
qed (simp add: transposed_def)

lemma entry_transposed [simp]: "r < C \<Longrightarrow> c < R \<Longrightarrow> entry R (transposed R C m) r c = entry C m c r"
  using transposed_fold [of R R c C m] by (simp add: transposed_def)

lemma length_mat_add [simp]: "length a = n \<Longrightarrow> length b = n \<Longrightarrow> length (mat_add rd a b) = n"
  by (simp add: mat_add_def)

lemma length_mat_sub [simp]: "length a = n \<Longrightarrow> length b = n \<Longrightarrow> length (mat_sub rd a b) = n"
  by (simp add: mat_sub_def)

lemma entry_mat_add:
  "length a = R * C \<Longrightarrow> length b = R * C \<Longrightarrow> r < R \<Longrightarrow> c < C \<Longrightarrow>
    entry C (mat_add rd a b) r c = fadd rd (entry C a r c) (entry C b r c)"
  by (simp add: entry_def mat_add_def index_less)

lemma entry_mat_sub:
  "length a = R * C \<Longrightarrow> length b = R * C \<Longrightarrow> r < R \<Longrightarrow> c < C \<Longrightarrow>
    entry C (mat_sub rd a b) r c = fsub rd (entry C a r c) (entry C b r c)"
  by (simp add: entry_def mat_sub_def index_less)

lemma length_mat_mul [simp]: "length (mat_mul rd R K C a b) = R * C"
proof -
  have "length (fold (\<lambda>k. fold (\<lambda>c out. set_entry C r c (fadd rd (entry C out r c)
      (fmul rd (entry K a r k) (entry C b k c))) out) [0..<C]) ks m) = length m" for r ks m
    by (induction ks arbitrary: m) simp_all
  then have "length (fold (\<lambda>r. fold (\<lambda>k. fold (\<lambda>c out. set_entry C r c (fadd rd (entry C out r c)
      (fmul rd (entry K a r k) (entry C b k c))) out) [0..<C]) [0..<K]) rs m) = length m" for rs m
    by (induction rs arbitrary: m) simp_all
  then show ?thesis by (simp add: mat_mul_def)
qed

text \<open>The loop nest accumulates each entry over \<open>k\<close> in order.\<close>

lemma entry_mat_mul:
  assumes "r' < R" and "c' < C"
  shows "entry C (mat_mul rd R K C a b) r' c' =
    fold (\<lambda>k s. fadd rd s (fmul rd (entry K a r' k) (entry C b k c'))) [0..<K] 0"
proof -
  let ?row = "\<lambda>r k. fold (\<lambda>c out. set_entry C r c (fadd rd (entry C out r c)
      (fmul rd (entry K a r k) (entry C b k c))) out) [0..<C]"
  have row: "length (fold (?row r) [0..<n] m) = R * C \<and>
      entry C (fold (?row r) [0..<n] m) r' c' =
        (if r' = r then fold (\<lambda>k s. fadd rd s (fmul rd (entry K a r' k) (entry C b k c'))) [0..<n] (entry C m r' c')
         else entry C m r' c')" if "length m = R * C" "r < R" for r m n
  proof (induction n)
    case (Suc n)
    then show ?case
      using entry_fold_row [of "fold (?row r) [0..<n] m" R C r C c'
          "\<lambda>c e. fadd rd e (fmul rd (entry K a r n) (entry C b n c))" r'] that assms(2)
      by (cases "r' = r") simp_all
  qed (simp add: that)
  have "length (fold (\<lambda>r. fold (?row r) [0..<K]) [0..<n] (zero_matrix R C)) = R * C \<and>
      entry C (fold (\<lambda>r. fold (?row r) [0..<K]) [0..<n] (zero_matrix R C)) r' c' =
        (if r' < n then fold (\<lambda>k s. fadd rd s (fmul rd (entry K a r' k) (entry C b k c'))) [0..<K] 0 else 0)"
    if "n \<le> R" for n
    using that
  proof (induction n)
    case (Suc n)
    then show ?case
      using row [of "fold (\<lambda>r. fold (?row r) [0..<K]) [0..<n] (zero_matrix R C)" n K] by auto
  qed (simp add: assms)
  from this [of R] show ?thesis using assms(1) by (simp add: mat_mul_def)
qed

lemma fold_add_exact: "fold (\<lambda>k s. fadd exact_rounding s (f k)) [0..<n] s = s + (\<Sum>k<n. f k)"
  by (induction n) (simp_all add: fops)

lemma fold_sub_exact: "fold (\<lambda>k s. fsub exact_rounding s (f k)) xs s = s - (\<Sum>k\<leftarrow>xs. f k)"
  by (induction xs arbitrary: s) (simp_all add: fops)

lemma entry_mat_mul_exact:
  "r < R \<Longrightarrow> c < C \<Longrightarrow>
    entry C (mat_mul exact_rounding R K C a b) r c = (\<Sum>k<K. entry K a r k * entry C b k c)"
  by (simp add: entry_mat_mul fold_add_exact fmul_def)

section \<open>The Cholesky solver in exact arithmetic\<close>

lemma sum_list_upt: "(\<Sum>k\<leftarrow>[a..<b]. f k) = (\<Sum>k = a..<b. f k :: real)"
  by (simp add: sum_list_distinct_conv_sum_set)

text \<open>The first \<open>n\<close> columns of \<open>l\<close> factor the matrix.\<close>

definition factored :: "nat \<Rightarrow> matrix \<Rightarrow> nat \<Rightarrow> matrix \<Rightarrow> bool" where
  "factored N a n l \<longleftrightarrow> length l = N * N \<and> (\<forall>j<n. 0 < entry N l j j \<and>
     (\<forall>i. j \<le> i \<and> i < N \<longrightarrow> (\<Sum>k = 0..<Suc j. entry N l i k * entry N l j k) = entry N a i j))"

lemma cholesky_below_fold:
  assumes "length l = N * N" and "j < N" and "n \<le> N" and "j < n"
  shows "length (fold (cholesky_below exact_rounding N a j) [Suc j..<n] l) = N * N \<and>
    (\<forall>i k. i < N \<and> k < N \<longrightarrow> entry N (fold (cholesky_below exact_rounding N a j) [Suc j..<n] l) i k =
      (if k = j \<and> j < i \<and> i < n
       then (entry N a i j - (\<Sum>k = 0..<j. entry N l i k * entry N l j k)) / entry N l j j
       else entry N l i k))"
  using assms(3,4)
proof (induction n)
  case (Suc n)
  show ?case
  proof (cases "n = j")
    case False
    then have n: "j < n" "n < N" using Suc.prems by auto
    let ?l = "fold (cholesky_below exact_rounding N a j) [Suc j..<n] l"
    have IH: "length ?l = N * N" "\<And>i k. i < N \<Longrightarrow> k < N \<Longrightarrow> entry N ?l i k =
      (if k = j \<and> j < i \<and> i < n
       then (entry N a i j - (\<Sum>k = 0..<j. entry N l i k * entry N l j k)) / entry N l j j
       else entry N l i k)"
      using Suc.IH n by (auto simp del: exact_rounding_apply)
    have "(\<Sum>k = 0..<j. entry N ?l n k * entry N ?l j k) = (\<Sum>k = 0..<j. entry N l n k * entry N l j k)"
      using n IH(2) by (intro sum.cong) auto
    moreover have "entry N ?l j j = entry N l j j" using IH(2) assms(2) by simp
    ultimately have step: "cholesky_below exact_rounding N a j n ?l =
      set_entry N n j ((entry N a n j - (\<Sum>k = 0..<j. entry N l n k * entry N l j k)) / entry N l j j) ?l"
      by (simp add: cholesky_below_def fold_sub_exact sum_list_upt fmul_def fdiv_def Let_def)
    have upt: "[Suc j..<Suc n] = [Suc j..<n] @ [n]" using n by simp
    show ?thesis
      unfolding upt fold_append comp_apply fold_simps step
      using IH n assms(2)
      by (auto simp: entry_set_entry [where R = N] less_Suc_eq simp del: exact_rounding_apply)
  qed (simp add: assms(1))
qed simp

lemma cholesky_column_factored:
  assumes "factored N a j l" and "j < N" and "cholesky_column exact_rounding N a j l = Some l'"
  shows "factored N a (Suc j) l'"
proof -
  let ?d = "entry N a j j - (\<Sum>k = 0..<j. entry N l j k * entry N l j k)"
  let ?l = "set_entry N j j (sqrt ?d) l"
  have d: "cholesky_diag exact_rounding N a l j = ?d"
    by (simp add: cholesky_diag_def fold_sub_exact sum_list_upt fmul_def)
  from assms(3) have pos: "0 < ?d" and l': "l' = fold (cholesky_below exact_rounding N a j) [Suc j..<N] ?l"
    by (auto simp: cholesky_column_def d Let_def fsqrt_def split: if_splits)
  have len: "length l = N * N" using assms(1) by (simp add: factored_def)
  have l_entry: "entry N ?l i k = (if i = j \<and> k = j then sqrt ?d else entry N l i k)" if "i < N" "k < N" for i k
    using entry_set_entry [OF len assms(2,2) that(2)] by simp
  have keep: "(\<Sum>k = 0..<j. entry N ?l i k * entry N ?l j k) = (\<Sum>k = 0..<j. entry N l i k * entry N l j k)"
    if "i < N" for i
    using that assms(2) by (intro sum.cong) (auto simp: l_entry)
  have entry: "entry N l' i k = (if k = j \<and> j < i
      then (entry N a i j - (\<Sum>k = 0..<j. entry N l i k * entry N l j k)) / sqrt ?d
      else if i = j \<and> k = j then sqrt ?d else entry N l i k)" if "i < N" "k < N" for i k
    using cholesky_below_fold [of ?l N j N a] len assms(2) that keep [of i] l_entry
    unfolding l' by auto
  have len': "length l' = N * N"
    using cholesky_below_fold [of ?l N j N a] len assms(2) unfolding l' by simp
  show ?thesis
    unfolding factored_def
  proof (intro conjI allI impI len')
    fix c assume c: "c < Suc j"
    show "0 < entry N l' c c"
      using c assms(1,2) pos by (auto simp: entry factored_def less_Suc_eq)
    fix i assume i: "c \<le> i \<and> i < N"
    show "(\<Sum>k = 0..<Suc c. entry N l' i k * entry N l' c k) = entry N a i c"
    proof (cases "c = j")
      case False
      then have "(\<Sum>k = 0..<Suc c. entry N l' i k * entry N l' c k) =
          (\<Sum>k = 0..<Suc c. entry N l i k * entry N l c k)"
        using c i assms(2) by (intro sum.cong) (auto simp: entry)
      then show ?thesis using False c i assms(1) by (auto simp: factored_def less_Suc_eq)
    next
      case True
      have "(\<Sum>k = 0..<j. entry N l' i k * entry N l' j k) = (\<Sum>k = 0..<j. entry N l i k * entry N l j k)"
        using i assms(2) True by (intro sum.cong) (auto simp: entry)
      moreover have "entry N l' i j * entry N l' j j = entry N a i j - (\<Sum>k = 0..<j. entry N l i k * entry N l j k)"
        using i assms(2) True pos by (cases "i = j") (auto simp: entry simp flip: real_sqrt_mult)
      ultimately show ?thesis using True by simp
    qed
  qed
qed

lemma cholesky_columns_factored:
  assumes "factored N a j l" and "j \<le> N" and "cholesky_columns exact_rounding N a [j..<N] l = Some l'"
  shows "factored N a N l'"
  using assms
proof (induction "N - j" arbitrary: j l)
  case 0
  then show ?case by simp
next
  case (Suc n)
  then have "[j..<N] = j # [Suc j..<N]" by (simp add: upt_conv_Cons)
  with Suc.prems obtain l1 where "cholesky_column exact_rounding N a j l = Some l1"
    "cholesky_columns exact_rounding N a [Suc j..<N] l1 = Some l'"
    by (auto split: option.splits)
  then show ?case using Suc cholesky_column_factored by (intro Suc.hyps(1)) auto
qed

text \<open>The two substitutions work on one column of \<open>x\<close> and leave the others alone.\<close>

lemma forward_fold:
  assumes "length x = N * M" and "col < M" and "\<And>i. i < N \<Longrightarrow> entry N l i i \<noteq> 0" and "n \<le> N"
  defines "y \<equiv> \<lambda>n. fold (forward_entry exact_rounding N M l col) [0..<n] x"
  shows "length (y n) = N * M \<and>
    (\<forall>i<n. (\<Sum>k = 0..<Suc i. entry N l i k * entry M (y n) k col) = entry M x i col) \<and>
    (\<forall>i c. c < M \<and> (n \<le> i \<or> c \<noteq> col) \<longrightarrow> entry M (y n) i c = entry M x i c)"
  using assms(4)
proof (induction n)
  case 0
  then show ?case by (simp add: y_def assms(1))
next
  case (Suc n)
  then have n: "n < N" by simp
  note IH = Suc.IH [OF less_imp_le [OF n]]
  have step: "y (Suc n) = set_entry M n col
      ((entry M x n col - (\<Sum>k = 0..<n. entry N l n k * entry M (y n) k col)) / entry N l n n) (y n)"
    using IH assms(2)
    by (simp add: y_def forward_entry_def fold_sub_exact sum_list_upt fmul_def fdiv_def Let_def)
  have e: "entry M (y (Suc n)) i c = (if i = n \<and> c = col
      then (entry M x n col - (\<Sum>k = 0..<n. entry N l n k * entry M (y n) k col)) / entry N l n n
      else entry M (y n) i c)" if "c < M" for i c
    unfolding step using IH entry_set_entry [OF _ n assms(2) that] by simp
  have keep: "(\<Sum>k = 0..<m. entry N l i k * entry M (y (Suc n)) k col) =
      (\<Sum>k = 0..<m. entry N l i k * entry M (y n) k col)" if "m \<le> n" for i m
    using that assms(2) by (intro sum.cong) (auto simp: e)
  show ?case
  proof (intro conjI allI impI)
    show "length (y (Suc n)) = N * M" using IH by (simp add: step)
    fix i assume "i < Suc n"
    then show "(\<Sum>k = 0..<Suc i. entry N l i k * entry M (y (Suc n)) k col) = entry M x i col"
      using IH keep [of "Suc i" i] keep [of n n] e [of col n] assms(2,3) n
      by (cases "i = n") (auto simp: less_Suc_eq)
  next
    fix i c assume "c < M \<and> (Suc n \<le> i \<or> c \<noteq> col)"
    then show "entry M (y (Suc n)) i c = entry M x i c" using IH by (auto simp: e)
  qed
qed

lemma back_fold:
  assumes "length x = N * M" and "col < M" and "\<And>i. i < N \<Longrightarrow> entry N l i i \<noteq> 0" and "n \<le> N"
  defines "y \<equiv> \<lambda>n. fold (back_entry exact_rounding N M l col) (rev [n..<N]) x"
  shows "length (y n) = N * M \<and>
    (\<forall>i. n \<le> i \<and> i < N \<longrightarrow> (\<Sum>k = i..<N. entry N l k i * entry M (y n) k col) = entry M x i col) \<and>
    (\<forall>i c. c < M \<and> (i < n \<or> c \<noteq> col) \<longrightarrow> entry M (y n) i c = entry M x i c)"
  using assms(4)
proof (induction "N - n" arbitrary: n)
  case 0
  then show ?case by (simp add: y_def assms(1))
next
  case (Suc m)
  then have n: "n < N" by simp
  have IH: "length (y (Suc n)) = N * M"
    "\<And>i. n < i \<Longrightarrow> i < N \<Longrightarrow> (\<Sum>k = i..<N. entry N l k i * entry M (y (Suc n)) k col) = entry M x i col"
    "\<And>i c. c < M \<Longrightarrow> i < Suc n \<or> c \<noteq> col \<Longrightarrow> entry M (y (Suc n)) i c = entry M x i c"
    using Suc.hyps(1) [of "Suc n"] Suc.hyps(2) n by auto
  let ?v = "(entry M x n col - (\<Sum>k = Suc n..<N. entry N l k n * entry M (y (Suc n)) k col)) / entry N l n n"
  have "[n..<N] = n # [Suc n..<N]" using n by (simp add: upt_conv_Cons)
  then have step: "y n = set_entry M n col ?v (y (Suc n))"
    using IH(3) [of col n] assms(2)
    by (simp add: y_def back_entry_def fold_sub_exact sum_list_upt fmul_def fdiv_def Let_def)
  have e: "entry M (y n) i c = (if i = n \<and> c = col then ?v else entry M (y (Suc n)) i c)" if "c < M" for i c
    unfolding step using IH(1) entry_set_entry [OF _ n assms(2) that] by simp
  have keep: "(\<Sum>k = m..<N. entry N l k i * entry M (y n) k col) =
      (\<Sum>k = m..<N. entry N l k i * entry M (y (Suc n)) k col)" if "n < m" for i m
    using that assms(2) by (intro sum.cong) (auto simp: e)
  show ?case
  proof (intro conjI allI impI)
    show "length (y n) = N * M" using IH(1) by (simp add: step)
    fix i assume i: "n \<le> i \<and> i < N"
    show "(\<Sum>k = i..<N. entry N l k i * entry M (y n) k col) = entry M x i col"
    proof (cases "i = n")
      case True
      then show ?thesis
        using keep [of "Suc n" n] e [of col n] assms(2) assms(3) [OF n] n
        by (simp add: sum.atLeast_Suc_lessThan)
    next
      case False
      then show ?thesis using i keep [of i i] IH(2) by simp
    qed
  next
    fix i c assume "c < M \<and> (i < n \<or> c \<noteq> col)"
    then show "entry M (y n) i c = entry M x i c" using IH(3) [of c i] by (auto simp: e)
  qed
qed

lemma solve_column:
  assumes "factored N a N l" and "length x = N * M" and "col < M"
    and sym: "\<And>i j. i < N \<Longrightarrow> j < N \<Longrightarrow> entry N a i j = entry N a j i"
  defines "z \<equiv> substitute_column exact_rounding N M l col x"
  shows "length z = N * M \<and>
    (\<forall>i<N. (\<Sum>j<N. entry N a i j * entry M z j col) = entry M x i col) \<and>
    (\<forall>i c. c < M \<and> c \<noteq> col \<longrightarrow> entry M z i c = entry M x i c)"
proof -
  have diag: "\<And>i. i < N \<Longrightarrow> entry N l i i \<noteq> 0" using assms(1) by (force simp: factored_def)
  define y where "y = fold (forward_entry exact_rounding N M l col) [0..<N] x"
  have z: "z = fold (back_entry exact_rounding N M l col) (rev [0..<N]) y"
    by (simp add: z_def substitute_column_def y_def)
  note f = forward_fold [OF assms(2,3) diag order_refl, folded y_def]
  then have "length y = N * M" by simp
  note b = back_fold [OF this assms(3) diag le0, folded z]
  have "(\<Sum>j<N. entry N a i j * entry M z j col) = entry M x i col" if i: "i < N" for i
  proof -
    let ?l = "\<lambda>i k. if k \<le> i then entry N l i k else 0"
    have a: "entry N a i j = (\<Sum>k<N. ?l i k * ?l j k)" if j: "j < N" for j
    proof -
      have "entry N a i j = (\<Sum>k = 0..<Suc (min i j). entry N l i k * entry N l j k)"
      proof (cases "j \<le> i")
        case True
        then show ?thesis using assms(1) i j by (simp add: factored_def min_def del: sum.op_ivl_Suc)
      next
        case False
        then have "entry N a j i = (\<Sum>k = 0..<Suc i. entry N l j k * entry N l i k)"
          using assms(1) i j by (simp add: factored_def del: sum.op_ivl_Suc)
        then show ?thesis using False sym [OF i j] by (simp add: min_def mult.commute del: sum.op_ivl_Suc)
      qed
      also have "\<dots> = (\<Sum>k<N. ?l i k * ?l j k)"
        using i j by (intro sum.mono_neutral_cong_left) auto
      finally show ?thesis .
    qed
    have "(\<Sum>j<N. entry N a i j * entry M z j col) = (\<Sum>j<N. \<Sum>k<N. ?l i k * ?l j k * entry M z j col)"
      using a by (intro sum.cong) (simp_all add: sum_distrib_right)
    also have "\<dots> = (\<Sum>k<N. ?l i k * (\<Sum>j<N. ?l j k * entry M z j col))"
      by (subst sum.swap) (simp add: sum_distrib_left mult.assoc)
    also have "\<dots> = (\<Sum>k<N. ?l i k * entry M y k col)"
    proof (intro sum.cong refl arg_cong2 [where f = "(*)"])
      fix k assume "k \<in> {..<N}"
      moreover have "(\<Sum>j<N. ?l j k * entry M z j col) = (\<Sum>j = k..<N. entry N l j k * entry M z j col)"
        by (intro sum.mono_neutral_cong_right) auto
      ultimately show "(\<Sum>j<N. ?l j k * entry M z j col) = entry M y k col" using b by simp
    qed
    also have "\<dots> = (\<Sum>k = 0..<Suc i. entry N l i k * entry M y k col)"
      using i by (intro sum.mono_neutral_cong_right) auto
    also have "\<dots> = entry M x i col" using f i by blast
    finally show ?thesis .
  qed
  then show ?thesis using b f by auto
qed

lemma cholesky_solve_length:
  "cholesky_solve exact_rounding N M a b = Some x \<Longrightarrow> length b = N * M \<Longrightarrow> length x = N * M"
proof -
  have "length (substitute_column exact_rounding N M l col x) = length x" for l col x
  proof -
    have f: "length (fold (forward_entry exact_rounding N M l col) xs x) = length x" for xs x
      by (induction xs arbitrary: x) (simp_all add: forward_entry_def Let_def)
    have "length (fold (back_entry exact_rounding N M l col) xs x) = length x" for xs x
      by (induction xs arbitrary: x) (simp_all add: back_entry_def Let_def)
    with f show ?thesis by (simp add: substitute_column_def)
  qed
  then have "length (fold (substitute_column exact_rounding N M l) xs b) = length b" for l xs b
    by (induction xs arbitrary: b) simp_all
  then show "cholesky_solve exact_rounding N M a b = Some x \<Longrightarrow> length b = N * M \<Longrightarrow> length x = N * M"
    by (auto simp: cholesky_solve_def split: option.splits)
qed

lemma cholesky_solve_solves:
  assumes "cholesky_solve exact_rounding N M a b = Some x" and "length b = N * M"
    and sym: "\<And>i j. i < N \<Longrightarrow> j < N \<Longrightarrow> entry N a i j = entry N a j i"
    and "i < N" and "c < M"
  shows "(\<Sum>j<N. entry N a i j * entry M x j c) = entry M b i c"
proof -
  obtain l where l: "cholesky_columns exact_rounding N a [0..<N] (zero_matrix N N) = Some l"
    and x: "x = fold (substitute_column exact_rounding N M l) [0..<M] b"
    using assms(1) by (auto simp: cholesky_solve_def split: option.splits)
  have fac: "factored N a N l"
    by (rule cholesky_columns_factored [OF _ _ l]) (simp_all add: factored_def)
  have "length (fold (substitute_column exact_rounding N M l) [0..<n] b) = N * M \<and>
    (\<forall>i c. i < N \<and> c < M \<longrightarrow>
      (if c < n then (\<Sum>j<N. entry N a i j * entry M (fold (substitute_column exact_rounding N M l) [0..<n] b) j c) = entry M b i c
       else entry M (fold (substitute_column exact_rounding N M l) [0..<n] b) i c = entry M b i c))"
    if "n \<le> M" for n
    using that
  proof (induction n)
    case (Suc n)
    let ?x = "fold (substitute_column exact_rounding N M l) [0..<n] b"
    have len: "length ?x = N * M" and n: "n < M" using Suc by (auto simp del: exact_rounding_apply)
    note s = solve_column [OF fac len n sym]
    have "(\<Sum>j<N. entry N a i j * entry M (substitute_column exact_rounding N M l n ?x) j c) =
        (\<Sum>j<N. entry N a i j * entry M ?x j c)" if "c < M" "c \<noteq> n" for i c
      using s that by (intro sum.cong) auto
    with s Suc show ?case by (auto simp: less_Suc_eq simp del: exact_rounding_apply)
  qed (simp add: assms(2))
  from this [of M] show ?thesis using assms(4,5) x by auto
qed

text \<open>
  C36: in exact arithmetic, when the solver succeeds on a symmetric matrix its result solves
  the linear system, for every size.
\<close>

theorem cholesky_solve_correct:
  assumes "cholesky_solve exact_rounding N M a b = Some x" and "length b = N * M"
    and "\<forall>i<N. \<forall>j<N. entry N a i j = entry N a j i"
  shows "length x = N * M \<and>
    (\<forall>i<N. \<forall>c<M. entry M (mat_mul exact_rounding N N M a x) i c = entry M b i c)"
  using cholesky_solve_solves [OF assms(1,2)] cholesky_solve_length [OF assms(1,2)] assms(3)
  by (simp add: entry_mat_mul_exact)

theorem cholesky_solve_correct_witness:
  "\<exists>x. cholesky_solve exact_rounding 1 1 [4] [8] = Some x \<and>
    entry 1 (mat_mul exact_rounding 1 1 1 [4] x) 0 0 = 8"
proof -
  obtain x where "cholesky_solve exact_rounding 1 1 [4] [8] = Some x"
    by (simp add: cholesky_solve_def cholesky_column_def cholesky_diag_def entry_def upt_conv_Cons)
  with cholesky_solve_correct [OF this] show ?thesis by (simp add: entry_def)
qed

end
