(* ===== verification/KalmanFilter.thy ===== *)
theory KalmanFilter
  imports SmallMatrix Detection
begin

text \<open>
  \<open>track/kalman_filter.hpp\<close>, \<open>track/kalman_filter.cpp\<close>: the constant-velocity filter over centre,
  aspect ratio and height. \<open>rd\<close> rounds the single precision arithmetic; \<open>kF\<close> is a constant
  of the source and exact.
\<close>

section \<open>Data and operations\<close>

record kalman_state =
  mean :: matrix
  covariance :: matrix

definition kStdWeightPosition :: "rounding \<Rightarrow> real" where
  "kStdWeightPosition rd = fdiv rd 1 20"

definition kStdWeightVelocity :: "rounding \<Rightarrow> real" where
  "kStdWeightVelocity rd = fdiv rd 1 160"

definition square :: "rounding \<Rightarrow> real \<Rightarrow> real" where
  "square rd v = fmul rd v v"

definition motion_model :: matrix where
  "motion_model = fold (\<lambda>i. set_entry 8 i (i + 4) 1) [0..<4] (identity_matrix 8)"

definition initiate :: "rounding \<Rightarrow> matrix \<Rightarrow> kalman_state" where
  "initiate rd z =
     (let h = entry 1 z 3 0;
          pos = fmul rd (kStdWeightPosition rd) h;
          vel = fmul rd (kStdWeightVelocity rd) h
      in \<lparr>mean = fold (\<lambda>i. set_entry 1 i 0 (entry 1 z i 0)) [0..<4] (zero_matrix 8 1),
          covariance = diagonal 8
            [square rd (fmul rd 2 pos), square rd (fmul rd 2 pos), square rd (rd (1 / 100)), square rd (fmul rd 2 pos),
             square rd (fmul rd 10 vel), square rd (fmul rd 10 vel), square rd (rd (1 / 100000)), square rd (fmul rd 10 vel)]\<rparr>)"

definition predict :: "rounding \<Rightarrow> kalman_state \<Rightarrow> kalman_state" where
  "predict rd s =
     (let h = entry 1 (mean s) 3 0;
          pos = fmul rd (kStdWeightPosition rd) h;
          vel = fmul rd (kStdWeightVelocity rd) h;
          process_noise = diagonal 8
            [square rd pos, square rd pos, square rd (rd (1 / 100)), square rd pos,
             square rd vel, square rd vel, square rd (rd (1 / 100000)), square rd vel]
      in s\<lparr>mean := mat_mul rd 8 8 1 motion_model (mean s),
           covariance := mat_add rd
             (mat_mul rd 8 8 8 (mat_mul rd 8 8 8 motion_model (covariance s)) (transposed 8 8 motion_model))
             process_noise\<rparr>)"

definition kalman_update :: "rounding \<Rightarrow> kalman_state \<Rightarrow> matrix \<Rightarrow> kalman_state" where
  "kalman_update rd s z =
     (let h = entry 1 (mean s) 3 0;
          pos = fmul rd (kStdWeightPosition rd) h;
          measurement_noise = diagonal 4
            [square rd pos, square rd pos, square rd (rd (1 / 10)), square rd pos];
          p_ht = block 8 4 8 0 0 (covariance s);
          innovation_cov = mat_add rd (block 4 4 8 0 0 (covariance s)) measurement_noise
      in case cholesky_solve rd 4 8 innovation_cov (transposed 8 4 p_ht) of
           None \<Rightarrow> s
         | Some k_transposed \<Rightarrow>
             let gain = transposed 4 8 k_transposed;
                 innovation = mat_sub rd z (block 4 1 1 0 0 (mean s))
             in s\<lparr>mean := mat_add rd (mean s) (mat_mul rd 8 4 1 gain innovation),
                  covariance := mat_sub rd (covariance s) (mat_mul rd 8 4 8 gain (transposed 8 4 p_ht))\<rparr>)"

definition to_measurement :: "rounding \<Rightarrow> box \<Rightarrow> matrix" where
  "to_measurement rd b =
     (let h = box_height rd b
      in set_entry 1 3 0 h
          (set_entry 1 2 0 (if 0 < h then fdiv rd (box_width rd b) h else 0)
            (set_entry 1 1 0 (box_center_y rd b)
              (set_entry 1 0 0 (box_center_x rd b) (zero_matrix 4 1)))))"

definition to_box :: "rounding \<Rightarrow> matrix \<Rightarrow> box" where
  "to_box rd m =
     (let h = entry 1 m 3 0; w = fmul rd (entry 1 m 2 0) h
      in from_center rd (entry 1 m 0 0) (entry 1 m 1 0) w h)"

section \<open>Shapes\<close>

definition kalman_shape :: "kalman_state \<Rightarrow> bool" where
  "kalman_shape s \<longleftrightarrow> length (mean s) = 8 \<and> length (covariance s) = 64"

lemma length_set_entry_fold [simp]:
  "length (fold (\<lambda>i. set_entry C (f i) (g i) (h i)) xs m) = length m"
  by (induction xs arbitrary: m) simp_all

lemma length_motion_model [simp]: "length motion_model = 64"
  by (simp add: motion_model_def)

lemma initiate_shape: "kalman_shape (initiate rd z)"
  by (simp add: kalman_shape_def initiate_def Let_def)

lemma predict_shape: "kalman_shape (predict rd s)"
  by (simp add: kalman_shape_def predict_def Let_def)

lemma update_shape: "kalman_shape s \<Longrightarrow> kalman_shape (kalman_update rd s z)"
  by (simp add: kalman_shape_def kalman_update_def Let_def split: option.splits)

lemma length_to_measurement [simp]: "length (to_measurement rd b) = 4"
  by (simp add: to_measurement_def Let_def)

section \<open>Means\<close>

lemma four_cases: "i < (4 :: nat) \<Longrightarrow> i = 0 \<or> i = 1 \<or> i = 2 \<or> i = 3"
  by auto

lemma motion_model_entry:
  assumes "r < 8" and "c < 8"
  shows "entry 8 motion_model r c = (if r = c \<or> c = r + 4 then 1 else 0)"
proof -
  have "length (fold (\<lambda>i. set_entry 8 i (i + 4) 1) [0..<n] (identity_matrix 8)) = 8 * 8 \<and>
    entry 8 (fold (\<lambda>i. set_entry 8 i (i + 4) 1) [0..<n] (identity_matrix 8)) r c =
    (if r = c \<or> c = r + 4 \<and> r < n then 1 else 0)" if "n \<le> 4" for n
    using that
  proof (induction n)
    case (Suc n)
    then show ?case using assms by (auto simp: entry_set_entry [where R = 8] less_Suc_eq)
  qed (use assms in simp)
  from this [of 4] show ?thesis using assms by (auto simp: motion_model_def)
qed

lemma initiate_mean:
  assumes "i < 8"
  shows "entry 1 (mean (initiate rd z)) i 0 = (if i < 4 then entry 1 z i 0 else 0)"
proof -
  have "length (fold (\<lambda>i. set_entry 1 i 0 (entry 1 z i 0)) [0..<n] (zero_matrix 8 1)) = 8 * 1 \<and>
    entry 1 (fold (\<lambda>i. set_entry 1 i 0 (entry 1 z i 0)) [0..<n] (zero_matrix 8 1)) i 0 =
      (if i < n then entry 1 z i 0 else 0)" if "n \<le> 4" for n
    using that
  proof (induction n)
    case (Suc n)
    then show ?case by (auto simp: entry_set_entry [where R = 8] less_Suc_eq)
  qed (use assms in simp)
  from this [of 4] show ?thesis by (simp add: initiate_def Let_def)
qed

lemma to_measurement_entry:
  "entry 1 (to_measurement rd b) 0 0 = box_center_x rd b"
  "entry 1 (to_measurement rd b) 1 0 = box_center_y rd b"
  "entry 1 (to_measurement rd b) 2 0 =
    (if 0 < box_height rd b then fdiv rd (box_width rd b) (box_height rd b) else 0)"
  "entry 1 (to_measurement rd b) 3 0 = box_height rd b"
  by (simp_all add: to_measurement_def Let_def entry_set_entry [where R = 4])


section \<open>Exact arithmetic\<close>

lemma predict_mean_exact:
  assumes "i < 8"
  shows "entry 1 (mean (predict exact_rounding s)) i 0 =
    entry 1 (mean s) i 0 + (if i < 4 then entry 1 (mean s) (i + 4) 0 else 0)"
proof -
  have "entry 1 (mean (predict exact_rounding s)) i 0 =
      (\<Sum>k<8. (if i = k \<or> k = i + 4 then 1 else 0) * entry 1 (mean s) k 0)"
    using assms by (simp add: predict_def Let_def entry_mat_mul_exact motion_model_entry del: sum.lessThan_Suc)
  also have "\<dots> = (\<Sum>k<8. (if k = i then entry 1 (mean s) k 0 else 0) +
      (if k = i + 4 then entry 1 (mean s) k 0 else 0))"
    by (intro sum.cong) auto
  also have "\<dots> = entry 1 (mean s) i 0 + (if i < 4 then entry 1 (mean s) (i + 4) 0 else 0)"
    using assms by (simp add: sum.distrib sum.delta del: sum.lessThan_Suc)
  finally show ?thesis .
qed

definition symmetric :: "nat \<Rightarrow> matrix \<Rightarrow> bool" where
  "symmetric N m \<longleftrightarrow> (\<forall>i<N. \<forall>j<N. entry N m i j = entry N m j i)"

lemma symmetricD: "symmetric N m \<Longrightarrow> i < N \<Longrightarrow> j < N \<Longrightarrow> entry N m i j = entry N m j i"
  by (simp add: symmetric_def)

lemma symmetric_diagonal: "symmetric N (diagonal N d)"
  by (simp add: symmetric_def)

lemma symmetric_add:
  "length a = N * N \<Longrightarrow> length b = N * N \<Longrightarrow> symmetric N a \<Longrightarrow> symmetric N b \<Longrightarrow> symmetric N (mat_add rd a b)"
  by (simp add: symmetric_def entry_mat_add)

lemma symmetric_block: "symmetric 8 m \<Longrightarrow> symmetric 4 (block 4 4 8 0 0 m)"
  by (simp add: symmetric_def)

lemma symmetric_congruence:
  assumes "symmetric N p"
  shows "symmetric N (mat_mul exact_rounding N N N (mat_mul exact_rounding N N N f p) (transposed N N f))"
proof -
  have "entry N (mat_mul exact_rounding N N N (mat_mul exact_rounding N N N f p) (transposed N N f)) i j =
      (\<Sum>k<N. \<Sum>l<N. entry N f i l * entry N p l k * entry N f j k)" if "i < N" "j < N" for i j
    using that by (simp add: entry_mat_mul_exact sum_distrib_right)
  moreover have "(\<Sum>k<N. \<Sum>l<N. entry N f i l * entry N p l k * entry N f j k) =
      (\<Sum>k<N. \<Sum>l<N. entry N f j l * entry N p l k * entry N f i k)" for i j
    by (subst sum.swap) (intro sum.cong refl, use symmetricD [OF assms] in \<open>simp add: mult_ac\<close>)
  ultimately show ?thesis unfolding symmetric_def by (metis (no_types, lifting))
qed

lemma gain_symmetric:
  assumes "cholesky_solve exact_rounding 4 8 s (transposed 8 4 p) = Some x" and "symmetric 4 s"
  shows "symmetric 8 (mat_mul exact_rounding 8 4 8 (transposed 4 8 x) (transposed 8 4 p))"
proof -
  have p: "entry 8 (transposed 8 4 p) k j = (\<Sum>m<4. entry 4 s k m * entry 8 x m j)" if "k < 4" "j < 8" for k j
    using cholesky_solve_solves [OF assms(1) _ _ that] symmetricD [OF assms(2)] by simp
  have "entry 8 (mat_mul exact_rounding 8 4 8 (transposed 4 8 x) (transposed 8 4 p)) i j =
      (\<Sum>k<4. \<Sum>m<4. entry 8 x k i * entry 4 s k m * entry 8 x m j)" if "i < 8" "j < 8" for i j
  proof -
    have "entry 8 (mat_mul exact_rounding 8 4 8 (transposed 4 8 x) (transposed 8 4 p)) i j =
        (\<Sum>k<4. entry 8 x k i * entry 8 (transposed 8 4 p) k j)"
      using that by (simp add: entry_mat_mul_exact)
    also have "\<dots> = (\<Sum>k<4. entry 8 x k i * (\<Sum>m<4. entry 4 s k m * entry 8 x m j))"
      using p that by (intro sum.cong) auto
    finally show ?thesis by (simp add: sum_distrib_left mult.assoc)
  qed
  moreover have "(\<Sum>k<4. \<Sum>m<4. entry 8 x k i * entry 4 s k m * entry 8 x m j) =
      (\<Sum>k<4. \<Sum>m<4. entry 8 x k j * entry 4 s k m * entry 8 x m i)" for i j
    by (subst sum.swap) (intro sum.cong refl, use symmetricD [OF assms(2)] in \<open>simp add: mult_ac\<close>)
  ultimately show ?thesis unfolding symmetric_def by (metis (no_types, lifting))
qed

text \<open>
  Initiation, prediction and update produce an 8-vector and an 8 by 8 covariance which, in
  exact arithmetic, stays symmetric; this is what the solver's update step assumes.
\<close>

theorem covariance_symmetric:
  "kalman_shape (initiate rd z) \<and> kalman_shape (predict rd s) \<and> symmetric 8 (covariance (initiate rd z)) \<and>
   (kalman_shape s \<and> symmetric 8 (covariance s) \<longrightarrow>
     symmetric 8 (covariance (predict exact_rounding s)) \<and>
     symmetric 8 (covariance (kalman_update exact_rounding s z)) \<and> kalman_shape (kalman_update rd s z))"
proof (intro conjI impI)
  assume s: "kalman_shape s \<and> symmetric 8 (covariance s)"
  then have len: "length (covariance s) = 64" by (simp add: kalman_shape_def)
  show "symmetric 8 (covariance (predict exact_rounding s))"
    unfolding predict_def Let_def using s
    by (simp add: symmetric_add symmetric_congruence symmetric_diagonal)
  show "kalman_shape (kalman_update rd s z)" using s by (simp add: update_shape)
  show "symmetric 8 (covariance (kalman_update exact_rounding s z))"
  proof -
    let ?h = "entry 1 (mean s) 3 0"
    let ?p = "block 8 4 8 0 0 (covariance s)"
    let ?pos = "fmul exact_rounding (kStdWeightPosition exact_rounding) ?h"
    let ?S = "mat_add exact_rounding (block 4 4 8 0 0 (covariance s)) (diagonal 4
      [square exact_rounding ?pos, square exact_rounding ?pos, square exact_rounding (exact_rounding (1 / 10)),
       square exact_rounding ?pos])"
    have S: "symmetric 4 ?S" using s by (intro symmetric_add symmetric_block symmetric_diagonal) simp_all
    show ?thesis
    proof (cases "cholesky_solve exact_rounding 4 8 ?S (transposed 8 4 ?p)")
      case None
      then have "kalman_update exact_rounding s z = s" unfolding kalman_update_def Let_def by simp
      then show ?thesis using s by simp
    next
      case (Some x)
      let ?g = "mat_mul exact_rounding 8 4 8 (transposed 4 8 x) (transposed 8 4 ?p)"
      have "covariance (kalman_update exact_rounding s z) = mat_sub exact_rounding (covariance s) ?g"
        using Some unfolding kalman_update_def Let_def by simp
      moreover have "symmetric 8 ?g" using Some S by (rule gain_symmetric)
      ultimately show ?thesis
        using s len by (simp add: symmetric_def entry_mat_sub [where R = 8])
    qed
  qed
next
  show "symmetric 8 (covariance (initiate rd z))"
    by (simp add: initiate_def Let_def symmetric_diagonal)
qed (simp_all add: initiate_shape predict_shape)

theorem covariance_symmetric_witness:
  "symmetric 8 (covariance (predict exact_rounding (initiate round32 (to_measurement round32
     \<lparr>box_x1 = 0, box_y1 = 0, box_x2 = 4, box_y2 = 8\<rparr>))))"
  using covariance_symmetric [of round32 "to_measurement round32 \<lparr>box_x1 = 0, box_y1 = 0, box_x2 = 4, box_y2 = 8\<rparr>"
      "initiate round32 (to_measurement round32 \<lparr>box_x1 = 0, box_y1 = 0, box_x2 = 4, box_y2 = 8\<rparr>)"]
  by simp

lemma box_preserved:
  assumes "0 < box_height exact_rounding b"
  shows "to_box exact_rounding (mean (initiate exact_rounding (to_measurement exact_rounding b))) = b \<and>
    to_box exact_rounding (mean (predict exact_rounding (initiate exact_rounding (to_measurement exact_rounding b)))) = b"
proof -
  have b: "to_box exact_rounding m = b"
    if "\<And>i. i < 4 \<Longrightarrow> entry 1 m i 0 = entry 1 (to_measurement exact_rounding b) i 0" for m
  proof -
    have m: "entry 1 m 0 0 = (box_x1 b + box_x2 b) / 2" "entry 1 m 1 0 = (box_y1 b + box_y2 b) / 2"
      "entry 1 m 3 0 = box_y2 b - box_y1 b" "entry 1 m 2 0 = (box_x2 b - box_x1 b) / (box_y2 b - box_y1 b)"
      using that [of 0] that [of 1] that [of 2] that [of 3] assms
      by (simp_all add: to_measurement_entry [simplified] box_center_x_def box_center_y_def
          box_width_def box_height_def fops)
    have "0 < box_y2 b - box_y1 b" using assms by (simp add: box_height_def fops)
    then have w: "entry 1 m 2 0 * entry 1 m 3 0 = box_x2 b - box_x1 b" unfolding m by simp
    show ?thesis
      unfolding to_box_def Let_def from_center_def fops exact_rounding_apply w unfolding m
      by (rule box.equality) (simp_all add: field_simps)
  qed
  show ?thesis
    by (intro conjI b) (simp_all add: predict_mean_exact [simplified] initiate_mean [simplified])
qed

text \<open>
  A box of positive height survives the conversion to a measurement, the initiation of a
  filter and the conversion back, and one prediction of the new filter leaves it in place, in
  exact arithmetic.
\<close>

theorem box_roundtrip:
  assumes "0 < box_height exact_rounding b"
  shows "to_box exact_rounding (mean (initiate exact_rounding (to_measurement exact_rounding b))) = b \<and>
    to_box exact_rounding (mean (predict exact_rounding (initiate exact_rounding (to_measurement exact_rounding b)))) = b"
  using assms by (rule box_preserved)

theorem box_roundtrip_witness:
  "to_box exact_rounding (mean (initiate exact_rounding (to_measurement exact_rounding
     \<lparr>box_x1 = 1, box_y1 = 2, box_x2 = 4, box_y2 = 8\<rparr>))) = \<lparr>box_x1 = 1, box_y1 = 2, box_x2 = 4, box_y2 = 8\<rparr>"
  using box_roundtrip [of "\<lparr>box_x1 = 1, box_y1 = 2, box_x2 = 4, box_y2 = 8\<rparr>"]
  by (simp add: box_height_def fops)

end
