(* ===== verification/ByteTracker.thy ===== *)
theory ByteTracker
  imports LinearAssignment KalmanFilter
begin

text \<open>
  \<open>track/byte_tracker.hpp\<close>, \<open>track/byte_tracker.cpp\<close>: the multi-object tracker. \<open>rd\<close> rounds single
  precision, \<open>d\<close> the double precision of the assignment solver. Index vectors are lists of
  naturals; the per-frame scratch vectors are local values here, since every one of them is
  cleared before it is used. Frame and identity counters are unbounded integers: the
  \<open>int\<close> overflow after \<open>2\<^sup>3\<^sup>1\<close> frames or tracks is outside the model.
\<close>

section \<open>Data\<close>

datatype track_state = kTracked | kLost | kRemoved

record track =
  tr_id :: int
  tr_kalman :: kalman_state
  tr_score :: real
  tr_class :: int
  tr_state :: track_state
  tr_activated :: bool
  tr_start_frame :: int
  tr_last_frame :: int

record tracked_object =
  obj_track_id :: int
  obj_box :: box
  obj_score :: real
  obj_class :: int
  obj_age_frames :: int

record byte_tracker_options =
  opt_high_threshold :: real
  opt_low_threshold :: real
  opt_new_track_threshold :: real
  opt_match_threshold :: real
  opt_track_buffer :: int
  opt_frame_rate :: real
  opt_fuse_score :: bool

definition default_tracker_options :: "rounding \<Rightarrow> byte_tracker_options" where
  "default_tracker_options rd = \<lparr>opt_high_threshold = 1 / 4, opt_low_threshold = rd (1 / 10),
     opt_new_track_threshold = 1 / 4, opt_match_threshold = rd (4 / 5), opt_track_buffer = 30,
     opt_frame_rate = 30, opt_fuse_score = True\<rparr>"

record byte_tracker =
  bt_options :: byte_tracker_options
  bt_tracks :: "track list"
  bt_frame_id :: int
  bt_next_id :: int

definition make_tracker :: "byte_tracker_options \<Rightarrow> byte_tracker" where
  "make_tracker opts = \<lparr>bt_options = opts, bt_tracks = [], bt_frame_id = 0, bt_next_id = 1\<rparr>"

definition reset_tracker :: "byte_tracker \<Rightarrow> byte_tracker" where
  "reset_tracker bt = bt\<lparr>bt_tracks := [], bt_frame_id := 0, bt_next_id := 1\<rparr>"

definition kSecondStageCostLimit :: real where
  "kSecondStageCostLimit = 1 / 2"

definition kUnconfirmedCostLimit :: "rounding \<Rightarrow> real" where
  "kUnconfirmedCostLimit rd = rd (7 / 10)"

section \<open>Operations\<close>

definition track_box :: "rounding \<Rightarrow> track \<Rightarrow> box" where
  "track_box rd t = to_box rd (mean (tr_kalman t))"

definition pair_cost :: "rounding \<Rightarrow> bool \<Rightarrow> box \<Rightarrow> detection \<Rightarrow> real" where
  "pair_cost rd fuse_score b det =
     (let similarity = iou rd b (det_box det);
          similarity = (if fuse_score then fmul rd similarity (det_score det) else similarity)
      in fsub rd 1 similarity)"

definition associate ::
  "rounding \<Rightarrow> rounding \<Rightarrow> track list \<Rightarrow> nat list \<Rightarrow> nat list \<Rightarrow> detection list \<Rightarrow> real \<Rightarrow> bool \<Rightarrow>
     (takt_error + assignment_result) option"
where
  "associate rd d tracks track_indices detection_indices detections cost_limit fuse_score =
     (let cost = concat (map (\<lambda>t. map (\<lambda>c. pair_cost rd fuse_score (track_box rd (tracks ! t)) (detections ! c))
                   detection_indices) track_indices)
      in solve d cost (int (length track_indices)) (int (length detection_indices)) cost_limit)"

definition apply_match :: "rounding \<Rightarrow> int \<Rightarrow> detection \<Rightarrow> track \<Rightarrow> track" where
  "apply_match rd frame det t =
     t\<lparr>tr_kalman := kalman_update rd (tr_kalman t) (to_measurement rd (det_box det)),
       tr_score := det_score det, tr_class := det_class det, tr_state := kTracked,
       tr_activated := True, tr_last_frame := frame\<rparr>"

text \<open>The three loops over an assignment: its pairs as (track index, detection index), the
  matched tracks, the tracks that change state.\<close>

definition index_pairs :: "nat list \<Rightarrow> nat list \<Rightarrow> assignment_result \<Rightarrow> (nat \<times> nat) list" where
  "index_pairs track_indices detection_indices res =
     map (\<lambda>(r, c). (track_indices ! nat r, detection_indices ! nat c)) (matches res)"

definition apply_matches ::
  "rounding \<Rightarrow> int \<Rightarrow> detection list \<Rightarrow> (nat \<times> nat) list \<Rightarrow> track list \<Rightarrow> track list"
where
  "apply_matches rd frame detections pairs tracks =
     fold (\<lambda>(t, c) ts. ts[t := apply_match rd frame (detections ! c) (ts ! t)]) pairs tracks"

definition mark_tracks :: "track_state \<Rightarrow> nat list \<Rightarrow> track list \<Rightarrow> track list" where
  "mark_tracks st ts tracks = fold (\<lambda>t ts. ts[t := (ts ! t)\<lparr>tr_state := st\<rparr>]) ts tracks"

definition high_detections :: "byte_tracker_options \<Rightarrow> detection list \<Rightarrow> nat list" where
  "high_detections opts detections =
     filter (\<lambda>i. opt_high_threshold opts \<le> det_score (detections ! i)) [0..<length detections]"

definition low_detections :: "byte_tracker_options \<Rightarrow> detection list \<Rightarrow> nat list" where
  "low_detections opts detections =
     filter (\<lambda>i. \<not> opt_high_threshold opts \<le> det_score (detections ! i) \<and>
               opt_low_threshold opts < det_score (detections ! i)) [0..<length detections]"

definition is_tentative :: "track \<Rightarrow> bool" where
  "is_tentative t \<longleftrightarrow> tr_state t = kTracked \<and> \<not> tr_activated t"

definition predict_track :: "rounding \<Rightarrow> track \<Rightarrow> track" where
  "predict_track rd t =
     (if is_tentative t \<or> tr_state t = kRemoved then t
      else let k = (if tr_state t \<noteq> kTracked
                    then (tr_kalman t)\<lparr>mean := set_entry 1 7 0 0 (mean (tr_kalman t))\<rparr> else tr_kalman t)
           in t\<lparr>tr_kalman := predict rd k\<rparr>)"

definition unconfirmed_tracks :: "track list \<Rightarrow> nat list" where
  "unconfirmed_tracks tracks = filter (\<lambda>t. is_tentative (tracks ! t)) [0..<length tracks]"

definition pool_tracks :: "track list \<Rightarrow> nat list" where
  "pool_tracks tracks =
     filter (\<lambda>t. \<not> is_tentative (tracks ! t) \<and> tr_state (tracks ! t) \<noteq> kRemoved) [0..<length tracks]"

text \<open>The three associations: the tracks afterwards and the detections left for new tracks.\<close>

definition association_stages ::
  "rounding \<Rightarrow> rounding \<Rightarrow> byte_tracker_options \<Rightarrow> int \<Rightarrow> detection list \<Rightarrow> track list \<Rightarrow>
     (takt_error + track list \<times> nat list) option"
where
  "association_stages rd d opts frame detections tracks =
     (let high = high_detections opts detections;
          low = low_detections opts detections;
          pool = pool_tracks tracks;
          unconfirmed = unconfirmed_tracks tracks
      in then_run (associate rd d tracks pool high detections (opt_match_threshold opts) (opt_fuse_score opts)) (\<lambda>a1.
         let tracks = apply_matches rd frame detections (index_pairs pool high a1) tracks;
             remaining_tracks = filter (\<lambda>t. tr_state (tracks ! t) = kTracked)
                                  (map (\<lambda>r. pool ! nat r) (unmatched_rows a1));
             remaining_high = map (\<lambda>c. high ! nat c) (unmatched_cols a1)
         in then_run (associate rd d tracks remaining_tracks low detections kSecondStageCostLimit False) (\<lambda>a2.
            let tracks = apply_matches rd frame detections (index_pairs remaining_tracks low a2) tracks;
                tracks = mark_tracks kLost (map (\<lambda>r. remaining_tracks ! nat r) (unmatched_rows a2)) tracks
            in then_run (associate rd d tracks unconfirmed remaining_high detections (kUnconfirmedCostLimit rd)
                 (opt_fuse_score opts)) (\<lambda>a3.
               let tracks = apply_matches rd frame detections (index_pairs unconfirmed remaining_high a3) tracks;
                   tracks = mark_tracks kRemoved (map (\<lambda>r. unconfirmed ! nat r) (unmatched_rows a3)) tracks
               in Some (Inr (tracks, map (\<lambda>c. remaining_high ! nat c) (unmatched_cols a3)))))))"

definition new_track :: "rounding \<Rightarrow> int \<Rightarrow> int \<Rightarrow> detection \<Rightarrow> track" where
  "new_track rd frame nid det =
     \<lparr>tr_id = nid, tr_kalman = initiate rd (to_measurement rd (det_box det)), tr_score = det_score det,
      tr_class = det_class det, tr_state = kTracked, tr_activated = (frame = 1), tr_start_frame = frame,
      tr_last_frame = frame\<rparr>"

definition start_track ::
  "rounding \<Rightarrow> byte_tracker_options \<Rightarrow> int \<Rightarrow> detection list \<Rightarrow> nat \<Rightarrow> track list \<times> int \<Rightarrow> track list \<times> int"
where
  "start_track rd opts frame detections c = (\<lambda>(tracks, next_id).
     if det_score (detections ! c) < opt_new_track_threshold opts then (tracks, next_id)
     else (tracks @ [new_track rd frame next_id (detections ! c)], next_id + 1))"

definition to_int :: "real \<Rightarrow> int" where
  "to_int x = (if 0 \<le> x then \<lfloor>x\<rfloor> else \<lceil>x\<rceil>)"

definition max_time_lost :: "rounding \<Rightarrow> byte_tracker_options \<Rightarrow> int" where
  "max_time_lost rd opts =
     to_int (fmul rd (fdiv rd (opt_frame_rate opts) 30) (rd (of_int (opt_track_buffer opts))))"

definition age_out :: "int \<Rightarrow> int \<Rightarrow> track \<Rightarrow> track" where
  "age_out frame limit t =
     (if tr_state t = kLost \<and> limit < frame - tr_last_frame t then t\<lparr>tr_state := kRemoved\<rparr> else t)"

definition report_track :: "rounding \<Rightarrow> int \<Rightarrow> track \<Rightarrow> tracked_object" where
  "report_track rd frame t =
     \<lparr>obj_track_id = tr_id t, obj_box = track_box rd t, obj_score = tr_score t, obj_class = tr_class t,
      obj_age_frames = frame - tr_start_frame t + 1\<rparr>"

definition tracker_update ::
  "rounding \<Rightarrow> rounding \<Rightarrow> detection list \<Rightarrow> byte_tracker \<Rightarrow>
     (takt_error + byte_tracker \<times> tracked_object list) option"
where
  "tracker_update rd d detections bt =
     (let frame = bt_frame_id bt + 1; opts = bt_options bt
      in then_run (association_stages rd d opts frame detections (map (predict_track rd) (bt_tracks bt)))
           (\<lambda>(tracks, new_candidates).
              let (tracks, next_id) = fold (start_track rd opts frame detections) new_candidates (tracks, bt_next_id bt);
                  tracks = filter (\<lambda>t. tr_state t \<noteq> kRemoved) (map (age_out frame (max_time_lost rd opts)) tracks)
              in Some (Inr (bt\<lparr>bt_tracks := tracks, bt_frame_id := frame, bt_next_id := next_id\<rparr>,
                   map (report_track rd frame) (filter (\<lambda>t. tr_state t = kTracked \<and> tr_activated t) tracks)))))"


section \<open>Loops over matched and unmatched tracks\<close>

lemma length_apply_matches [simp]: "length (apply_matches rd f dets pairs ts) = length ts"
  unfolding apply_matches_def by (induction pairs arbitrary: ts) auto

lemma length_mark_tracks [simp]: "length (mark_tracks st xs ts) = length ts"
  unfolding mark_tracks_def by (induction xs arbitrary: ts) auto

lemma apply_matches_nth:
  assumes "distinct (map fst pairs)" and "i < length ts"
  shows "apply_matches rd f dets pairs ts ! i =
    (case map_of pairs i of None \<Rightarrow> ts ! i | Some c \<Rightarrow> apply_match rd f (dets ! c) (ts ! i))"
  using assms
proof (induction pairs arbitrary: ts)
  case (Cons p pairs)
  obtain t c where p: "p = (t, c)" by (cases p)
  let ?ts = "ts[t := apply_match rd f (dets ! c) (ts ! t)]"
  have "apply_matches rd f dets (p # pairs) ts = apply_matches rd f dets pairs ?ts"
    by (simp add: apply_matches_def p)
  moreover have "map_of pairs t = None"
    using Cons.prems(1) by (auto simp: p map_of_eq_None_iff)
  ultimately show ?case using Cons by (auto simp: p update_nth split: option.split)
qed (simp add: apply_matches_def)

lemma mark_tracks_nth:
  assumes "i < length ts"
  shows "mark_tracks st xs ts ! i = (if i \<in> set xs then (ts ! i)\<lparr>tr_state := st\<rparr> else ts ! i)"
  using assms unfolding mark_tracks_def
  by (induction xs arbitrary: ts) (auto simp: update_nth)

section \<open>One association\<close>

lemma associate_valid:
  assumes "associate rd d ts ti di dets L fuse = Some (Inr res)"
  shows "valid_assignment (length ti) (length di) res"
proof -
  let ?cost = "concat (map (\<lambda>t. map (\<lambda>c. pair_cost rd fuse (track_box rd (ts ! t)) (dets ! c)) di) ti)"
  have "length ?cost = length ti * length di"
    by (simp add: length_concat comp_def sum_list_triv)
  then show ?thesis using assms hungarian.result_valid by (simp add: associate_def Let_def)
qed

lemma associate_returns:
  "\<exists>res. associate rd d ts ti di dets L fuse = Some (Inr res)"
proof -
  let ?cost = "concat (map (\<lambda>t. map (\<lambda>c. pair_cost rd fuse (track_box rd (ts ! t)) (dets ! c)) di) ti)"
  have "length ti * length di \<le> length ?cost"
    by (simp add: length_concat comp_def sum_list_triv)
  from hungarian.returns [OF this, of d L] show ?thesis by (auto simp: associate_def Let_def)
qed

text \<open>In terms of the track and detection indices: the pairs are a partial injection, and the
  unmatched indices are the others.\<close>

lemma nth_inj_pairs:
  assumes "distinct xs" and "distinct (map f ms)" and "\<And>m. m \<in> set ms \<Longrightarrow> 0 \<le> f m \<and> f m < int (length xs)"
  shows "distinct (map (\<lambda>m. xs ! nat (f m)) ms)"
  using assms(2,3)
proof (induction ms)
  case (Cons m ms)
  have "xs ! nat (f m) \<noteq> xs ! nat (f m')" if "m' \<in> set ms" for m'
  proof -
    have "f m \<noteq> f m'" using Cons.prems(1) that by auto
    moreover have "0 \<le> f m \<and> f m < int (length xs)" "0 \<le> f m' \<and> f m' < int (length xs)"
      using Cons.prems(2) that by auto
    ultimately show ?thesis using assms(1) by (simp add: nth_eq_iff_index_eq eq_nat_nat_iff nat_less_iff)
  qed
  then show ?case using Cons by auto
qed simp

lemma nth_int_image: "(\<lambda>r. xs ! nat r) ` {0..<int (length xs)} = set xs"
proof -
  have "(\<lambda>r. xs ! nat r) ` int ` {0..<length xs} = set xs"
    by (simp add: image_image nth_image [of "length xs" xs, simplified])
  then show ?thesis by (simp add: image_int_atLeastLessThan)
qed

lemma matched_indices:
  assumes "valid_assignment (length ti) (length di) res" and "distinct ti" and "distinct di"
  shows "distinct (map fst (index_pairs ti di res))" and "distinct (map snd (index_pairs ti di res))"
    and "set (map (\<lambda>r. ti ! nat r) (unmatched_rows res)) = set ti - fst ` set (index_pairs ti di res)"
    and "set (map (\<lambda>c. di ! nat c) (unmatched_cols res)) = set di - snd ` set (index_pairs ti di res)"
    and "distinct (map (\<lambda>c. di ! nat c) (unmatched_cols res))"
    and "distinct (map (\<lambda>r. ti ! nat r) (unmatched_rows res))"
    and "fst ` set (index_pairs ti di res) \<subseteq> set ti" and "snd ` set (index_pairs ti di res) \<subseteq> set di"
proof -
  let ?R = "fst ` set (matches res)" and ?C = "snd ` set (matches res)"
  have v: "distinct (map fst (matches res))" "distinct (map snd (matches res))"
    "?R \<inter> set (unmatched_rows res) = {}" "?R \<union> set (unmatched_rows res) = {0..<int (length ti)}"
    "?C \<inter> set (unmatched_cols res) = {}" "?C \<union> set (unmatched_cols res) = {0..<int (length di)}"
    "distinct (unmatched_cols res)" "distinct (unmatched_rows res)"
    using assms(1) by (auto simp: valid_assignment_def)
  have r: "0 \<le> r \<and> r < int (length ti)" if "r \<in> ?R \<union> set (unmatched_rows res)" for r
    using that unfolding v(4) by simp
  have c: "0 \<le> c \<and> c < int (length di)" if "c \<in> ?C \<union> set (unmatched_cols res)" for c
    using that unfolding v(6) by simp
  have fsts: "map fst (index_pairs ti di res) = map (\<lambda>m. ti ! nat (fst m)) (matches res)"
    and snds: "map snd (index_pairs ti di res) = map (\<lambda>m. di ! nat (snd m)) (matches res)"
    by (auto simp: index_pairs_def)
  show "distinct (map fst (index_pairs ti di res))" "distinct (map snd (index_pairs ti di res))"
    unfolding fsts snds using assms(2,3) v(1,2) r c by (auto intro!: nth_inj_pairs)
  show "distinct (map (\<lambda>c. di ! nat c) (unmatched_cols res))"
    using nth_inj_pairs [of di "\<lambda>c. c" "unmatched_cols res"] assms(3) v(7) c by simp
  show "distinct (map (\<lambda>r. ti ! nat r) (unmatched_rows res))"
    using nth_inj_pairs [of ti "\<lambda>c. c" "unmatched_rows res"] assms(2) v(8) r by simp
  have injR: "inj_on (\<lambda>r. ti ! nat r) {0..<int (length ti)}"
    using assms(2) by (auto simp: inj_on_def nth_eq_iff_index_eq)
  have injC: "inj_on (\<lambda>c. di ! nat c) {0..<int (length di)}"
    using assms(3) by (auto simp: inj_on_def nth_eq_iff_index_eq)
  have fs: "fst ` set (index_pairs ti di res) = (\<lambda>r. ti ! nat r) ` ?R"
    and ss: "snd ` set (index_pairs ti di res) = (\<lambda>c. di ! nat c) ` ?C"
    by (force simp: index_pairs_def)+
  show "fst ` set (index_pairs ti di res) \<subseteq> set ti" "snd ` set (index_pairs ti di res) \<subseteq> set di"
    unfolding fs ss
    by (rule image_subsetI, rule nth_mem, use r c nat_less_iff in blast)+
  have sub: "?R \<subseteq> {0..<int (length ti)}" "?C \<subseteq> {0..<int (length di)}" using v(4,6) by blast+
  have un: "set (unmatched_rows res) = {0..<int (length ti)} - ?R" "set (unmatched_cols res) = {0..<int (length di)} - ?C"
    using v by blast+
  have "(\<lambda>r. ti ! nat r) ` set (unmatched_rows res) =
      (\<lambda>r. ti ! nat r) ` {0..<int (length ti)} - (\<lambda>r. ti ! nat r) ` ?R"
    "(\<lambda>c. di ! nat c) ` set (unmatched_cols res) =
      (\<lambda>c. di ! nat c) ` {0..<int (length di)} - (\<lambda>c. di ! nat c) ` ?C"
    unfolding un by (rule inj_on_image_set_diff [OF injR Diff_subset sub(1)] inj_on_image_set_diff [OF injC Diff_subset sub(2)])+
  then show "set (map (\<lambda>r. ti ! nat r) (unmatched_rows res)) = set ti - fst ` set (index_pairs ti di res)"
    and "set (map (\<lambda>c. di ! nat c) (unmatched_cols res)) = set di - snd ` set (index_pairs ti di res)"
    unfolding fs ss nth_int_image by simp_all
qed

section \<open>The three associations together\<close>

text \<open>
  What the three stages do to the tracks: the partial injection \<open>hit\<close> from track indices to
  detection indices; a track that is hit absorbs its detection, any other is lost or
  removed; the detections left over are unhit high-score ones. A low-score detection only
  reaches a confirmed track that was not lost.
\<close>

definition association_spec ::
  "rounding \<Rightarrow> byte_tracker_options \<Rightarrow> int \<Rightarrow> detection list \<Rightarrow> track list \<Rightarrow> (nat \<Rightarrow> nat option) \<Rightarrow>
     track list \<Rightarrow> nat list \<Rightarrow> bool"
where
  "association_spec rd opts frame dets ts hit ts' new \<longleftrightarrow>
     length ts' = length ts \<and> dom hit \<subseteq> {..<length ts} \<and> inj_on hit (dom hit) \<and>
     ran hit \<subseteq> set (high_detections opts dets) \<union> set (low_detections opts dets) \<and>
     distinct new \<and> set new = set (high_detections opts dets) - ran hit \<and>
     (\<forall>i c. hit i = Some c \<longrightarrow> ts' ! i = apply_match rd frame (dets ! c) (ts ! i)) \<and>
     (\<forall>i < length ts. hit i = None \<longrightarrow>
        ts' ! i = (ts ! i)\<lparr>tr_state := (if is_tentative (ts ! i) then kRemoved else kLost)\<rparr>) \<and>
     (\<forall>i c. hit i = Some c \<and> c \<in> set (low_detections opts dets) \<longrightarrow>
        tr_state (ts ! i) = kTracked \<and> tr_activated (ts ! i))"

lemma detection_sets:
  "distinct (high_detections opts dets)" "distinct (low_detections opts dets)"
  "set (high_detections opts dets) \<inter> set (low_detections opts dets) = {}"
  "set (high_detections opts dets) \<subseteq> {..<length dets}" "set (low_detections opts dets) \<subseteq> {..<length dets}"
  by (auto simp: high_detections_def low_detections_def)

lemma track_sets:
  "distinct (pool_tracks ts)" "distinct (unconfirmed_tracks ts)"
  "set (pool_tracks ts) \<inter> set (unconfirmed_tracks ts) = {}"
  by (auto simp: pool_tracks_def unconfirmed_tracks_def)

lemma map_of_ran: "map_of ps i = Some c \<Longrightarrow> c \<in> snd ` set ps"
  by (force dest: map_of_SomeD)

lemma map_of_inj:
  assumes "distinct (map snd ps)" and "map_of ps i = Some c" and "map_of ps j = Some c"
  shows "i = j"
proof -
  have "(i, c) \<in> set ps" "(j, c) \<in> set ps" using assms(2,3) by (auto dest: map_of_SomeD)
  then have "(i, c) = (j, c)" using assms(1) by (intro inj_onD [of snd "set ps"]) (auto simp: distinct_map)
  then show ?thesis by simp
qed

text \<open>Two injections whose domains and ranges are disjoint.\<close>

lemma add_injection:
  assumes "inj_on m (dom m)" and "inj_on m' (dom m')" and "dom m \<inter> dom m' = {}" and "ran m \<inter> ran m' = {}"
  shows "inj_on (m ++ m') (dom (m ++ m'))" and "ran (m ++ m') = ran m \<union> ran m'"
proof -
  show "ran (m ++ m') = ran m \<union> ran m'" using assms(3) by (rule ran_map_add)
  show "inj_on (m ++ m') (dom (m ++ m'))"
  proof (rule inj_onI)
    fix x y assume xy: "x \<in> dom (m ++ m')" "y \<in> dom (m ++ m')" "(m ++ m') x = (m ++ m') y"
    have dis: False if "m a = Some v" "m' b = Some v" for a b v
      using assms(4) that by (auto simp: ran_def)
    have same: "a = b" if "m a = Some v" "m b = Some v" for a b v
      using inj_onD [OF assms(1), of a b] that by auto
    have same': "a = b" if "m' a = Some v" "m' b = Some v" for a b v
      using inj_onD [OF assms(2), of a b] that by auto
    from xy show "x = y"
      by (cases "m' x"; cases "m' y") (auto simp: map_add_def dest: dis same same')
  qed
qed

lemma stages_result:
  assumes "\<forall>t \<in> set ts. tr_state t \<noteq> kRemoved"
  shows "\<exists>ts' new hit. association_stages rd d opts frame dets ts = Some (Inr (ts', new)) \<and>
    association_spec rd opts frame dets ts hit ts' new"
proof -
  let ?high = "high_detections opts dets" and ?low = "low_detections opts dets"
  let ?pool = "pool_tracks ts" and ?unc = "unconfirmed_tracks ts"
  have part: "set ?pool = {i. i < length ts \<and> \<not> is_tentative (ts ! i)}" "set ?unc = {i. i < length ts \<and> is_tentative (ts ! i)}"
    using assms by (auto simp: pool_tracks_def unconfirmed_tracks_def)
  obtain a1 where a1: "associate rd d ts ?pool ?high dets (opt_match_threshold opts) (opt_fuse_score opts) = Some (Inr a1)"
    using associate_returns by blast
  define p1 where "p1 = index_pairs ?pool ?high a1"
  define ts1 where "ts1 = apply_matches rd frame dets p1 ts"
  define rem where "rem = filter (\<lambda>t. tr_state (ts1 ! t) = kTracked) (map (\<lambda>r. ?pool ! nat r) (unmatched_rows a1))"
  define rh where "rh = map (\<lambda>c. ?high ! nat c) (unmatched_cols a1)"
  note m1 = matched_indices [OF associate_valid [OF a1] track_sets(1) detection_sets(1), folded p1_def rh_def]
  obtain a2 where a2: "associate rd d ts1 rem ?low dets kSecondStageCostLimit False = Some (Inr a2)"
    using associate_returns by blast
  define p2 where "p2 = index_pairs rem ?low a2"
  define ts2 where "ts2 = mark_tracks kLost (map (\<lambda>r. rem ! nat r) (unmatched_rows a2)) (apply_matches rd frame dets p2 ts1)"
  have rem_distinct: "distinct rem"
    unfolding rem_def by (rule distinct_filter [OF m1(6)])
  note m2 = matched_indices [OF associate_valid [OF a2] rem_distinct detection_sets(2), folded p2_def]
  obtain a3 where a3: "associate rd d ts2 ?unc rh dets (kUnconfirmedCostLimit rd) (opt_fuse_score opts) = Some (Inr a3)"
    using associate_returns by blast
  define p3 where "p3 = index_pairs ?unc rh a3"
  define ts3 where "ts3 = mark_tracks kRemoved (map (\<lambda>r. ?unc ! nat r) (unmatched_rows a3)) (apply_matches rd frame dets p3 ts2)"
  define new where "new = map (\<lambda>c. rh ! nat c) (unmatched_cols a3)"
  note m3 = matched_indices [OF associate_valid [OF a3] track_sets(2) m1(5), folded p3_def new_def]
  have run: "association_stages rd d opts frame dets ts = Some (Inr (ts3, new))"
    unfolding association_stages_def Let_def a1 then_run_simps p1_def [symmetric] ts1_def [symmetric]
      rem_def [symmetric] rh_def [symmetric] a2 p2_def [symmetric] ts2_def [symmetric] a3 p3_def [symmetric]
      ts3_def [symmetric] new_def [symmetric] by (rule refl)
  have ts1: "ts1 ! i = (case map_of p1 i of None \<Rightarrow> ts ! i | Some c \<Rightarrow> apply_match rd frame (dets ! c) (ts ! i))"
    if "i < length ts" for i
    using apply_matches_nth [OF m1(1) that] by (simp add: ts1_def)
  have rem: "set rem = {i. i < length ts \<and> \<not> is_tentative (ts ! i) \<and> i \<notin> dom (map_of p1) \<and> tr_state (ts ! i) = kTracked}"
  proof -
    have "ts1 ! i = ts ! i" if "i < length ts" "i \<notin> fst ` set p1" for i
      using ts1 [OF that(1)] that(2) by (simp add: map_of_eq_None_iff [THEN iffD2])
    then show ?thesis using m1(3) by (auto simp: rem_def part dom_map_of_conv_image_fst)
  qed
  define hit where "hit = map_of p1 ++ map_of p2 ++ map_of p3"
  have doms: "dom (map_of p1) \<subseteq> set ?pool" "dom (map_of p2) \<subseteq> set rem" "dom (map_of p3) \<subseteq> set ?unc"
    using m1(7) m2(7) m3(7) by (simp_all add: dom_map_of_conv_image_fst)
  have rans: "ran (map_of p1) = snd ` set p1" "ran (map_of p2) = snd ` set p2" "ran (map_of p3) = snd ` set p3"
    using m1(1) m2(1) m3(1) by (simp_all add: ran_distinct)
  have inj: "inj_on (map_of p1) (dom (map_of p1))" "inj_on (map_of p2) (dom (map_of p2))" "inj_on (map_of p3) (dom (map_of p3))"
    using map_of_inj [OF m1(2)] map_of_inj [OF m2(2)] map_of_inj [OF m3(2)] by (auto simp: inj_on_def dom_def)
  have tent: "dom (map_of p1) \<subseteq> {i. \<not> is_tentative (ts ! i)}" "dom (map_of p2) \<subseteq> {i. \<not> is_tentative (ts ! i)}"
    "dom (map_of p3) \<subseteq> {i. is_tentative (ts ! i)}"
    using doms unfolding part rem by blast+
  have d12: "dom (map_of p1) \<inter> dom (map_of p2) = {}" using doms(2) rem by auto
  have d123: "dom (map_of p1 ++ map_of p2) \<inter> dom (map_of p3) = {}"
    unfolding dom_map_add using tent by blast
  have r12: "ran (map_of p1) \<inter> ran (map_of p2) = {}"
    unfolding rans using m1(8) m2(8) detection_sets(3) by blast
  note h12 = add_injection [OF inj(1,2) d12 r12]
  have rh: "set rh = set ?high - snd ` set p1" using m1(4) by (simp add: rh_def)
  have "ran (map_of p1 ++ map_of p2) \<inter> ran (map_of p3) = {}"
    unfolding h12(2) rans using m2(8) m3(8) rh detection_sets(3) [of opts dets] by blast
  note h = add_injection [OF h12(1) inj(3) d123 this, folded hit_def, unfolded h12(2) rans]
  have ts3: "ts3 ! i = (if i \<in> set ?unc - dom (map_of p3) then
      (case map_of p3 i of None \<Rightarrow> ts2 ! i | Some c \<Rightarrow> apply_match rd frame (dets ! c) (ts2 ! i))\<lparr>tr_state := kRemoved\<rparr>
      else (case map_of p3 i of None \<Rightarrow> ts2 ! i | Some c \<Rightarrow> apply_match rd frame (dets ! c) (ts2 ! i)))"
    if "i < length ts" for i
    using that m3(3) apply_matches_nth [OF m3(1), of i ts2]
    by (simp add: ts3_def ts2_def ts1_def mark_tracks_nth dom_map_of_conv_image_fst)
  have ts2: "ts2 ! i = (if i \<in> set rem - dom (map_of p2) then
      (case map_of p2 i of None \<Rightarrow> ts1 ! i | Some c \<Rightarrow> apply_match rd frame (dets ! c) (ts1 ! i))\<lparr>tr_state := kLost\<rparr>
      else (case map_of p2 i of None \<Rightarrow> ts1 ! i | Some c \<Rightarrow> apply_match rd frame (dets ! c) (ts1 ! i)))"
    if "i < length ts" for i
    using that m2(3) apply_matches_nth [OF m2(1), of i ts1]
    by (simp add: ts2_def ts1_def mark_tracks_nth dom_map_of_conv_image_fst)
  have hit_cases: "hit i = Some c \<longleftrightarrow> map_of p1 i = Some c \<or> map_of p2 i = Some c \<or> map_of p3 i = Some c" for i c
    using d12 d123 by (auto simp: hit_def map_add_Some_iff)
  have "association_spec rd opts frame dets ts hit ts3 new"
    unfolding association_spec_def
  proof (intro conjI allI impI)
    show "length ts3 = length ts" by (simp add: ts3_def ts2_def ts1_def)
    show "dom hit \<subseteq> {..<length ts}" using doms part rem by (auto simp: hit_def)
    show "inj_on hit (dom hit)" by (rule h(1))
    show "ran hit \<subseteq> set ?high \<union> set ?low" unfolding h(2) using m1(8) m2(8) m3(8) rh by blast
    show "distinct new" using m3(5) by (simp add: new_def)
    show "set new = set ?high - ran hit"
      unfolding h(2) using m3(4) rh m2(8) detection_sets(3) [of opts dets] by (auto simp: new_def)
  next
    fix i c assume hc: "hit i = Some c"
    then have i: "i < length ts" using doms part rem unfolding hit_cases by auto
    from hc show "ts3 ! i = apply_match rd frame (dets ! c) (ts ! i)"
      unfolding hit_cases
    proof (elim disjE)
      assume c: "map_of p1 i = Some c"
      then have "map_of p2 i = None" "map_of p3 i = None" "i \<notin> set ?unc" "i \<notin> set rem"
        using d12 d123 doms(1) part rem by (auto simp: domIff)
      with c i show ?thesis by (simp add: ts1 ts2 ts3)
    next
      assume c: "map_of p2 i = Some c"
      then have "map_of p1 i = None" "map_of p3 i = None" "i \<notin> set ?unc"
        using d12 d123 doms(2) part rem by (auto simp: domIff)
      with c i show ?thesis by (simp add: ts1 ts2 ts3 domIff)
    next
      assume c: "map_of p3 i = Some c"
      then have "map_of p1 i = None" "map_of p2 i = None" "i \<notin> set rem"
        using d123 doms(3) part rem by (auto simp: domIff)
      with c i show ?thesis by (simp add: ts1 ts2 ts3 domIff)
    qed
  next
    fix i assume i: "i < length ts" and "hit i = None"
    then have n: "map_of p1 i = None" "map_of p2 i = None" "map_of p3 i = None" by (auto simp: hit_def)
    have t1: "ts1 ! i = ts ! i" using ts1 [OF i] n by simp
    show "ts3 ! i = (ts ! i)\<lparr>tr_state := (if is_tentative (ts ! i) then kRemoved else kLost)\<rparr>"
    proof (cases "is_tentative (ts ! i)")
      case True
      then have "i \<notin> set rem" "i \<in> set ?unc" using i unfolding rem part by simp_all
      then show ?thesis using ts3 [OF i] ts2 [OF i] t1 n True by (simp add: domIff)
    next
      case False
      then have u: "i \<notin> set ?unc" unfolding part by simp
      show ?thesis
      proof (cases "tr_state (ts ! i) = kTracked")
        case True
        then have "i \<in> set rem" using i n False unfolding rem by (simp add: domIff)
        then show ?thesis using ts3 [OF i] ts2 [OF i] t1 n u False by (simp add: domIff)
      next
        case other: False
        then have "i \<notin> set rem" unfolding rem by simp
        moreover have "tr_state (ts ! i) = kLost"
          using other assms nth_mem [OF i] by (cases "tr_state (ts ! i)") auto
        then have "(ts ! i)\<lparr>tr_state := kLost\<rparr> = ts ! i" by simp
        ultimately show ?thesis using ts3 [OF i] ts2 [OF i] t1 n u False by simp
      qed
    qed
  next
    fix i c assume "hit i = Some c \<and> c \<in> set ?low"
    then have "map_of p2 i = Some c"
    proof -
      assume c: "hit i = Some c \<and> c \<in> set ?low"
      then have "c \<notin> set ?high" using detection_sets(3) [of opts dets] by blast
      then have "c \<notin> snd ` set p1" "c \<notin> snd ` set p3" using m1(8) m3(8) unfolding rh by blast+
      then show ?thesis using c map_of_ran unfolding hit_cases by metis
    qed
    then have "i \<in> set rem" using doms(2) by auto
    then show "tr_state (ts ! i) = kTracked" "tr_activated (ts ! i)"
      unfolding rem by (auto simp: is_tentative_def)
  qed
  with run show ?thesis by blast
qed

section \<open>One frame\<close>

lemma predict_track_sel [simp]:
  "tr_id (predict_track rd t) = tr_id t" "tr_state (predict_track rd t) = tr_state t"
  "tr_activated (predict_track rd t) = tr_activated t" "tr_start_frame (predict_track rd t) = tr_start_frame t"
  "tr_last_frame (predict_track rd t) = tr_last_frame t" "is_tentative (predict_track rd t) = is_tentative t"
  by (simp_all add: predict_track_def is_tentative_def Let_def)

lemma predict_track_shape: "kalman_shape (tr_kalman t) \<Longrightarrow> kalman_shape (tr_kalman (predict_track rd t))"
  by (simp add: predict_track_def predict_shape Let_def)

lemma apply_match_sel [simp]:
  "tr_id (apply_match rd f det t) = tr_id t" "tr_state (apply_match rd f det t) = kTracked"
  "tr_activated (apply_match rd f det t)" "tr_start_frame (apply_match rd f det t) = tr_start_frame t"
  "tr_last_frame (apply_match rd f det t) = f" "tr_score (apply_match rd f det t) = det_score det"
  "tr_class (apply_match rd f det t) = det_class det"
  by (simp_all add: apply_match_def)

lemma apply_match_shape: "kalman_shape (tr_kalman t) \<Longrightarrow> kalman_shape (tr_kalman (apply_match rd f det t))"
  by (simp add: apply_match_def update_shape)

lemma age_out_sel [simp]:
  "tr_id (age_out f L t) = tr_id t" "tr_start_frame (age_out f L t) = tr_start_frame t"
  "tr_last_frame (age_out f L t) = tr_last_frame t" "tr_activated (age_out f L t) = tr_activated t"
  "tr_kalman (age_out f L t) = tr_kalman t"
  by (simp_all add: age_out_def)

lemma age_out_tracked [simp]: "tr_state (age_out f L t) = kTracked \<longleftrightarrow> tr_state t = kTracked"
  by (simp add: age_out_def)

lemma age_out_id: "tr_state t = kTracked \<Longrightarrow> age_out f L t = t"
  by (simp add: age_out_def)

lemma age_out_lost: "tr_state (age_out f L t) = kLost \<Longrightarrow> tr_state t = kLost \<and> f - tr_last_frame t \<le> L"
  by (auto simp: age_out_def split: if_splits)

text \<open>New tracks: one per remaining detection with a sufficient score, numbered consecutively.\<close>

lemma fold_start_track:
  "\<exists>fresh. fold (start_track rd opts f dets) new (ts, nid) = (ts @ fresh, nid + int (length fresh)) \<and>
     (let cs = filter (\<lambda>c. \<not> det_score (dets ! c) < opt_new_track_threshold opts) new
      in length fresh = length cs \<and>
         (\<forall>k < length cs. fresh ! k = new_track rd f (nid + int k) (dets ! (cs ! k))))"
proof (induction new arbitrary: ts nid)
  case (Cons c new)
  show ?case
  proof (cases "det_score (dets ! c) < opt_new_track_threshold opts")
    case True
    then show ?thesis using Cons [of ts nid] by (simp add: start_track_def)
  next
    case False
    let ?t = "new_track rd f nid (dets ! c)"
    obtain fresh where f: "fold (start_track rd opts f dets) new (ts @ [?t], nid + 1) =
        ((ts @ [?t]) @ fresh, nid + 1 + int (length fresh))"
      "length fresh = length (filter (\<lambda>c. \<not> det_score (dets ! c) < opt_new_track_threshold opts) new)"
      "\<And>k. k < length fresh \<Longrightarrow> fresh ! k = new_track rd f (nid + 1 + int k)
         (dets ! (filter (\<lambda>c. \<not> det_score (dets ! c) < opt_new_track_threshold opts) new ! k))"
      using Cons [of "ts @ [?t]" "nid + 1"] by (auto simp: Let_def)
    let ?cs = "filter (\<lambda>c. \<not> det_score (dets ! c) < opt_new_track_threshold opts) new"
    have "fold (start_track rd opts f dets) (c # new) (ts, nid) = (ts @ (?t # fresh), nid + int (length (?t # fresh)))"
      using f(1) False by (simp add: start_track_def)
    moreover have "(?t # fresh) ! k = new_track rd f (nid + int k) (dets ! ((c # ?cs) ! k))" if "k < length (c # ?cs)" for k
      using f(2) f(3) [of "k - 1"] that by (cases k) (simp_all add: algebra_simps)
    ultimately show ?thesis using f(2) False by (intro exI [of _ "?t # fresh"]) (simp add: Let_def)
  qed
qed simp

definition tracker_ok :: "rounding \<Rightarrow> byte_tracker \<Rightarrow> bool" where
  "tracker_ok rd bt \<longleftrightarrow>
     0 \<le> bt_frame_id bt \<and> 1 \<le> bt_next_id bt \<and> distinct (map tr_id (bt_tracks bt)) \<and>
     (\<forall>t \<in> set (bt_tracks bt).
        1 \<le> tr_id t \<and> tr_id t < bt_next_id bt \<and>
        1 \<le> tr_start_frame t \<and> tr_start_frame t \<le> tr_last_frame t \<and> tr_last_frame t \<le> bt_frame_id bt \<and>
        kalman_shape (tr_kalman t) \<and> tr_state t \<noteq> kRemoved \<and>
        (tr_state t = kTracked \<longrightarrow> tr_last_frame t = bt_frame_id bt) \<and>
        (tr_state t = kLost \<longrightarrow> tr_activated t \<and> bt_frame_id bt - tr_last_frame t \<le> max_time_lost rd (bt_options bt)) \<and>
        (\<not> tr_activated t \<longrightarrow> tr_start_frame t = bt_frame_id bt))"

lemma tracker_ok_init: "tracker_ok rd (make_tracker opts)" "tracker_ok rd (reset_tracker bt)"
  by (simp_all add: tracker_ok_def make_tracker_def reset_tracker_def)

text \<open>The tracks after a frame, before ageing: the old ones as the associations left them, then
  the new ones.\<close>

definition frame_result ::
  "rounding \<Rightarrow> detection list \<Rightarrow> byte_tracker \<Rightarrow> (nat \<Rightarrow> nat option) \<Rightarrow> track list \<Rightarrow> nat list \<Rightarrow> nat list \<Rightarrow> track list \<Rightarrow> bool"
where
  "frame_result rd dets bt hit ts new cs fresh \<longleftrightarrow>
     association_spec rd (bt_options bt) (bt_frame_id bt + 1) dets (map (predict_track rd) (bt_tracks bt)) hit ts new \<and>
     cs = filter (\<lambda>c. \<not> det_score (dets ! c) < opt_new_track_threshold (bt_options bt)) new \<and>
     length fresh = length cs \<and>
     (\<forall>k < length cs. fresh ! k = new_track rd (bt_frame_id bt + 1) (bt_next_id bt + int k) (dets ! (cs ! k)))"

definition after_frame :: "rounding \<Rightarrow> byte_tracker \<Rightarrow> track list \<Rightarrow> track list \<Rightarrow> byte_tracker" where
  "after_frame rd bt ts fresh =
     bt\<lparr>bt_tracks := filter (\<lambda>t. tr_state t \<noteq> kRemoved)
          (map (age_out (bt_frame_id bt + 1) (max_time_lost rd (bt_options bt))) (ts @ fresh)),
        bt_frame_id := bt_frame_id bt + 1, bt_next_id := bt_next_id bt + int (length fresh)\<rparr>"

lemma tracker_update_result:
  assumes "tracker_ok rd bt"
  shows "\<exists>hit ts new cs fresh. frame_result rd dets bt hit ts new cs fresh \<and>
    tracker_update rd d dets bt = Some (Inr (after_frame rd bt ts fresh,
      map (report_track rd (bt_frame_id bt + 1))
        (filter (\<lambda>t. tr_state t = kTracked \<and> tr_activated t) (bt_tracks (after_frame rd bt ts fresh)))))"
proof -
  have "\<forall>t \<in> set (map (predict_track rd) (bt_tracks bt)). tr_state t \<noteq> kRemoved"
    using assms by (auto simp: tracker_ok_def)
  from stages_result [OF this, where rd = rd and d = d and opts = "bt_options bt" and frame = "bt_frame_id bt + 1" and dets = dets]
  obtain ts new hit where
    s: "association_stages rd d (bt_options bt) (bt_frame_id bt + 1) dets (map (predict_track rd) (bt_tracks bt)) = Some (Inr (ts, new))"
    and spec: "association_spec rd (bt_options bt) (bt_frame_id bt + 1) dets (map (predict_track rd) (bt_tracks bt)) hit ts new"
    by blast
  from fold_start_track [of rd "bt_options bt" "bt_frame_id bt + 1" dets new ts "bt_next_id bt"]
  obtain fresh where f: "fold (start_track rd (bt_options bt) (bt_frame_id bt + 1) dets) new (ts, bt_next_id bt) =
      (ts @ fresh, bt_next_id bt + int (length fresh))"
    and fresh: "frame_result rd dets bt hit ts new
      (filter (\<lambda>c. \<not> det_score (dets ! c) < opt_new_track_threshold (bt_options bt)) new) fresh"
    using spec by (auto simp: frame_result_def Let_def)
  have "tracker_update rd d dets bt = Some (Inr (after_frame rd bt ts fresh,
      map (report_track rd (bt_frame_id bt + 1))
        (filter (\<lambda>t. tr_state t = kTracked \<and> tr_activated t) (bt_tracks (after_frame rd bt ts fresh)))))"
    by (simp add: tracker_update_def Let_def s f after_frame_def)
  with fresh show ?thesis by blast
qed

lemma old_track_cases:
  assumes "frame_result rd dets bt hit ts new cs fresh" and "i < length (bt_tracks bt)"
  obtains (hit) c where "hit i = Some c" "ts ! i = apply_match rd (bt_frame_id bt + 1) (dets ! c) (predict_track rd (bt_tracks bt ! i))"
  | (miss) "hit i = None" "ts ! i = (predict_track rd (bt_tracks bt ! i))
      \<lparr>tr_state := (if is_tentative (bt_tracks bt ! i) then kRemoved else kLost)\<rparr>"
  using assms by (cases "hit i") (auto simp: frame_result_def association_spec_def)

lemma frame_result_ids:
  assumes "frame_result rd dets bt hit ts new cs fresh"
  shows "length ts = length (bt_tracks bt)" and "map tr_id ts = map tr_id (bt_tracks bt)"
    and "map tr_id fresh = map (\<lambda>k. bt_next_id bt + int k) [0..<length fresh]"
proof -
  show len: "length ts = length (bt_tracks bt)"
    using assms by (simp add: frame_result_def association_spec_def)
  show "map tr_id ts = map tr_id (bt_tracks bt)"
  proof (rule nth_equalityI)
    fix i assume "i < length (map tr_id ts)"
    then have i: "i < length (bt_tracks bt)" using len by simp
    from assms i show "map tr_id ts ! i = map tr_id (bt_tracks bt) ! i"
      by (cases rule: old_track_cases) (use len i in auto)
  qed (use len in simp)
  show "map tr_id fresh = map (\<lambda>k. bt_next_id bt + int k) [0..<length fresh]"
    using assms by (intro nth_equalityI) (simp_all add: frame_result_def new_track_def)
qed

lemma fresh_track:
  assumes "frame_result rd dets bt hit ts new cs fresh" and "t \<in> set fresh"
  shows "\<exists>k < length fresh. t = new_track rd (bt_frame_id bt + 1) (bt_next_id bt + int k) (dets ! (cs ! k))"
  using assms by (auto simp: frame_result_def in_set_conv_nth)

lemma after_frame_ok:
  assumes "tracker_ok rd bt" and "frame_result rd dets bt hit ts new cs fresh"
  shows "tracker_ok rd (after_frame rd bt ts fresh)"
proof -
  let ?f = "bt_frame_id bt + 1" and ?L = "max_time_lost rd (bt_options bt)"
  note ids = frame_result_ids [OF assms(2)]
  have old: "1 \<le> tr_id t \<and> tr_id t < bt_next_id bt \<and> 1 \<le> tr_start_frame t \<and> tr_start_frame t \<le> tr_last_frame t \<and>
      tr_last_frame t \<le> bt_frame_id bt \<and> kalman_shape (tr_kalman t) \<and> tr_state t \<noteq> kRemoved \<and>
      (tr_state t = kTracked \<or> tr_state t = kLost) \<and> (tr_state t = kLost \<longrightarrow> tr_activated t) \<and> 0 \<le> bt_frame_id bt"
    if "t \<in> set (bt_tracks bt)" for t
    using assms(1) that by (cases "tr_state t") (auto simp: tracker_ok_def)
  have each: "1 \<le> tr_id t \<and> tr_id t < bt_next_id bt + int (length fresh) \<and> 1 \<le> tr_start_frame t \<and>
      tr_start_frame t \<le> tr_last_frame t \<and> tr_last_frame t \<le> ?f \<and> kalman_shape (tr_kalman t) \<and>
      (tr_state t = kTracked \<longrightarrow> tr_last_frame t = ?f) \<and> (tr_state t = kLost \<longrightarrow> tr_activated t) \<and>
      (\<not> tr_activated t \<longrightarrow> tr_state t = kRemoved \<or> tr_start_frame t = ?f)"
    if t: "t \<in> set (ts @ fresh)" for t
  proof (cases "t \<in> set ts")
    case True
    then obtain i where i: "i < length (bt_tracks bt)" "t = ts ! i" by (auto simp: in_set_conv_nth ids(1))
    let ?o = "bt_tracks bt ! i"
    have o: "?o \<in> set (bt_tracks bt)" using i(1) by simp
    from assms(2) i(1) show ?thesis
    proof (cases rule: old_track_cases)
      case (hit c)
      then show ?thesis
        using i old [OF o] predict_track_shape [of ?o rd] by (simp add: apply_match_shape)
    next
      case miss
      then show ?thesis
        using i old [OF o] predict_track_shape [of ?o rd]
        by (cases "tr_state ?o") (simp_all add: is_tentative_def)
    qed
  next
    case False
    then have "t \<in> set fresh" using t by simp
    from fresh_track [OF assms(2) this] show ?thesis
      using assms(1) by (auto simp: new_track_def initiate_shape tracker_ok_def)
  qed
  have "distinct (map tr_id (ts @ fresh))"
  proof -
    have "distinct (map tr_id ts)" using assms(1) ids(2) by (simp add: tracker_ok_def)
    moreover have "distinct (map tr_id fresh)" unfolding ids(3) by (simp add: distinct_map inj_on_def)
    moreover have "tr_id t < bt_next_id bt" if "t \<in> set ts" for t
    proof -
      have "tr_id t \<in> set (map tr_id (bt_tracks bt))" using that by (simp flip: ids(2))
      then show ?thesis using old by auto
    qed
    moreover have "bt_next_id bt \<le> tr_id t" if "t \<in> set fresh" for t
      using fresh_track [OF assms(2) that] by (auto simp: new_track_def)
    ultimately show ?thesis by (force simp: distinct_append)
  qed
  then have "distinct (map tr_id (map (age_out ?f ?L) (ts @ fresh)))" by (simp add: comp_def)
  then have "distinct (map tr_id (bt_tracks (after_frame rd bt ts fresh)))"
    by (simp add: after_frame_def distinct_map_filter del: map_append filter_append)
  moreover have "1 \<le> tr_id t \<and> tr_id t < bt_next_id bt + int (length fresh) \<and> 1 \<le> tr_start_frame t \<and>
      tr_start_frame t \<le> tr_last_frame t \<and> tr_last_frame t \<le> ?f \<and> kalman_shape (tr_kalman t) \<and>
      tr_state t \<noteq> kRemoved \<and> (tr_state t = kTracked \<longrightarrow> tr_last_frame t = ?f) \<and>
      (tr_state t = kLost \<longrightarrow> tr_activated t \<and> ?f - tr_last_frame t \<le> ?L) \<and>
      (\<not> tr_activated t \<longrightarrow> tr_start_frame t = ?f)"
    if "t \<in> set (bt_tracks (after_frame rd bt ts fresh))" for t
  proof -
    from that obtain t0 where t0: "t0 \<in> set (ts @ fresh)" "t = age_out ?f ?L t0" "tr_state t \<noteq> kRemoved"
      by (auto simp: after_frame_def)
    have "tr_state t0 \<noteq> kRemoved" using t0(2,3) by (auto simp: age_out_def)
    moreover have "tr_state t0 = kLost \<and> ?f - tr_last_frame t0 \<le> ?L" if "tr_state t = kLost"
      using that age_out_lost unfolding t0(2) by blast
    ultimately show ?thesis using each [OF t0(1)] t0(3) unfolding t0(2) by simp
  qed
  moreover have "0 \<le> ?f" "1 \<le> bt_next_id bt + int (length fresh)" using assms(1) by (simp_all add: tracker_ok_def)
  moreover have "bt_frame_id (after_frame rd bt ts fresh) = ?f" "bt_options (after_frame rd bt ts fresh) = bt_options bt"
    "bt_next_id (after_frame rd bt ts fresh) = bt_next_id bt + int (length fresh)"
    by (simp_all add: after_frame_def)
  ultimately show ?thesis unfolding tracker_ok_def by simp
qed

text \<open>The tracks seen in a frame, each with the detection it absorbed.\<close>

definition seen_pairs :: "(nat \<Rightarrow> nat option) \<Rightarrow> track list \<Rightarrow> nat list \<Rightarrow> track list \<Rightarrow> (track \<times> nat) list" where
  "seen_pairs hit ts cs fresh =
     map (\<lambda>i. (ts ! i, the (hit i))) (filter (\<lambda>i. hit i \<noteq> None) [0..<length ts]) @ zip fresh cs"

lemma seen_tracks:
  assumes "frame_result rd dets bt hit ts new cs fresh"
  shows "filter (\<lambda>t. tr_state t = kTracked) (bt_tracks (after_frame rd bt ts fresh)) = map fst (seen_pairs hit ts cs fresh)"
proof -
  let ?age = "age_out (bt_frame_id bt + 1) (max_time_lost rd (bt_options bt))"
  have age: "filter (\<lambda>t. tr_state t = kTracked) (filter (\<lambda>t. tr_state t \<noteq> kRemoved) (map ?age xs)) =
    filter (\<lambda>t. tr_state t = kTracked) xs" for xs
    by (induction xs) (auto simp: age_out_id)
  have "tr_state t = kTracked" if "t \<in> set fresh" for t
    using fresh_track [OF assms that] by (auto simp: new_track_def)
  then have "filter (\<lambda>t. tr_state t = kTracked) fresh = fresh" by (intro filter_True) blast
  moreover have "filter (\<lambda>t. tr_state t = kTracked) ts = map ((!) ts) (filter (\<lambda>i. hit i \<noteq> None) [0..<length ts])"
  proof -
    have "filter (\<lambda>t. tr_state t = kTracked) (map ((!) ts) [0..<length ts]) =
        map ((!) ts) (filter (\<lambda>i. tr_state (ts ! i) = kTracked) [0..<length ts])"
      by (simp add: filter_map comp_def)
    also have "filter (\<lambda>i. tr_state (ts ! i) = kTracked) [0..<length ts] = filter (\<lambda>i. hit i \<noteq> None) [0..<length ts]"
    proof (intro filter_cong refl)
      fix i assume "i \<in> set [0..<length ts]"
      then have "i < length (bt_tracks bt)" using frame_result_ids(1) [OF assms] by simp
      with assms show "(tr_state (ts ! i) = kTracked) = (hit i \<noteq> None)"
        by (cases rule: old_track_cases) simp_all
    qed
    finally show ?thesis by (simp add: map_nth)
  qed
  moreover have "length fresh = length cs" using assms by (simp add: frame_result_def)
  ultimately show ?thesis
    by (simp add: after_frame_def age seen_pairs_def comp_def del: map_append filter_append filter_filter)
      simp
qed

lemma seen_pairs_props:
  assumes "frame_result rd dets bt hit ts new cs fresh"
  shows "distinct (map snd (seen_pairs hit ts cs fresh))"
    and "(t, c) \<in> set (seen_pairs hit ts cs fresh) \<Longrightarrow>
      c \<in> set (high_detections (bt_options bt) dets) \<union> set (low_detections (bt_options bt) dets) \<and>
      tr_score t = det_score (dets ! c) \<and> tr_class t = det_class (dets ! c)"
proof -
  have spec: "inj_on hit (dom hit)" "ran hit \<subseteq> set (high_detections (bt_options bt) dets) \<union> set (low_detections (bt_options bt) dets)"
    "distinct new" "set new = set (high_detections (bt_options bt) dets) - ran hit" "length fresh = length cs"
    "length ts = length (bt_tracks bt)"
    using assms by (auto simp: frame_result_def association_spec_def)
  have cs: "distinct cs" "set cs \<subseteq> set new" using assms spec(3) by (auto simp: frame_result_def)
  have "distinct (map (\<lambda>i. the (hit i)) (filter (\<lambda>i. hit i \<noteq> None) [0..<length ts]))"
    using spec(1) by (auto simp: distinct_map inj_on_def domIff)
  moreover have "the (hit i) \<in> ran hit" if "hit i \<noteq> None" for i using that by (auto simp: ran_def)
  ultimately show "distinct (map snd (seen_pairs hit ts cs fresh))"
    using cs spec(4,5) by (auto simp: seen_pairs_def comp_def)
  assume "(t, c) \<in> set (seen_pairs hit ts cs fresh)"
  then consider i where "i < length ts" "hit i = Some c" "t = ts ! i" | "(t, c) \<in> set (zip fresh cs)"
    by (auto simp: seen_pairs_def)
  then show "c \<in> set (high_detections (bt_options bt) dets) \<union> set (low_detections (bt_options bt) dets) \<and>
      tr_score t = det_score (dets ! c) \<and> tr_class t = det_class (dets ! c)"
  proof cases
    case 1
    then have i: "i < length (bt_tracks bt)" using spec(6) by simp
    have "c \<in> ran hit" using 1(2) by (rule ranI)
    with assms i 1 spec(2) show ?thesis by (cases rule: old_track_cases) auto
  next
    case 2
    then obtain k where k: "k < length cs" "t = fresh ! k" "c = cs ! k" by (auto simp: set_zip)
    then have "c \<in> set (high_detections (bt_options bt) dets)" using nth_mem [OF k(1)] cs(2) spec(4) unfolding k(3) by blast
    moreover have "t = new_track rd (bt_frame_id bt + 1) (bt_next_id bt + int k) (dets ! c)"
      using assms k by (simp add: frame_result_def)
    ultimately show ?thesis by (simp add: new_track_def)
  qed
qed

lemma solve_1_1:
  assumes "0 \<le> x" and "x < 1 / 2"
  shows "solve exact_rounding [x] 1 1 (1 / 2) = Some (Inr \<lparr>matches = [(0, 0)], unmatched_rows = [], unmatched_cols = []\<rparr>)"
proof -
  have "\<exists>res. solve exact_rounding [x] (int 1) (int 1) (1 / 2) = Some (Inr res) \<and>
    gated_matching [x] 1 1 (1 / 2) (matched_pairs res) \<and>
    (\<forall>M. gated_matching [x] 1 1 (1 / 2) M \<longrightarrow> matching_cost [x] 1 1 (1 / 2) (matched_pairs res) \<le> matching_cost [x] 1 1 (1 / 2) M)"
    by (rule optimal_solution) (use assms in \<open>simp_all add: kForbidden_def\<close>)
  then obtain res where res: "solve exact_rounding [x] (int 1) (int 1) (1 / 2) = Some (Inr res)"
    and least: "\<And>M. gated_matching [x] 1 1 (1 / 2) M \<Longrightarrow>
      matching_cost [x] 1 1 (1 / 2) (matched_pairs res) \<le> matching_cost [x] 1 1 (1 / 2) M"
    by blast
  have "gated_matching [x] 1 1 (1 / 2) {(0, 0)}" using assms by (simp add: gated_matching_def)
  from least [OF this] have "matches res \<noteq> []" using assms by (auto simp: matching_cost_def matched_pairs_def)
  then obtain p ps where m: "matches res = p # ps" by (cases "matches res") auto
  have v: "valid_assignment 1 1 res" using hungarian.result_valid [OF res] by simp
  have zero: "fst q = 0 \<and> snd q = 0" if "q \<in> set (matches res)" for q
    using hungarian.match_range [OF res, of "fst q" "snd q"] that by simp
  have "ps = []"
  proof (cases ps)
    case (Cons q qs)
    then show ?thesis using v zero [of p] zero [of q] by (simp add: valid_assignment_def m)
  qed
  moreover have "unmatched_rows res = []" "unmatched_cols res = []"
  proof -
    have "r = 0" if "r \<in> set (unmatched_rows res) \<union> set (unmatched_cols res)" for r
      using hungarian.unmatched_range [OF res] that by auto
    moreover have "0 \<notin> set (unmatched_rows res)" "0 \<notin> set (unmatched_cols res)"
      using v zero [of p] by (auto simp: valid_assignment_def m)
    ultimately show "unmatched_rows res = []" "unmatched_cols res = []"
      by (metis UnI1 list.set_intros(1) neq_Nil_conv, metis UnI2 list.set_intros(1) neq_Nil_conv)
  qed
  moreover have "p = (0, 0)" using zero [of p] m by (simp add: prod_eq_iff)
  ultimately have "res = \<lparr>matches = [(0, 0)], unmatched_rows = [], unmatched_cols = []\<rparr>"
    using m by (intro assignment_result.equality) simp_all
  then show ?thesis using res by simp
qed

lemma tracker_returns:
  assumes ok: "tracker_ok rd bt"
  shows "\<exists>bt' out. tracker_update rd d dets bt = Some (Inr (bt', out)) \<and>
      tracker_ok rd bt' \<and> bt_frame_id bt' = bt_frame_id bt + 1 \<and> bt_options bt' = bt_options bt"
proof -
  from tracker_update_result [OF ok, of dets d] obtain hit ts new cs fresh where
    r: "frame_result rd dets bt hit ts new cs fresh"
    and u: "tracker_update rd d dets bt = Some (Inr (after_frame rd bt ts fresh,
      map (report_track rd (bt_frame_id bt + 1))
        (filter (\<lambda>t. tr_state t = kTracked \<and> tr_activated t) (bt_tracks (after_frame rd bt ts fresh)))))"
    by blast
  from after_frame_ok [OF ok r] u show ?thesis by (auto simp: after_frame_def)
qed

section \<open>Properties\<close>

text \<open>
  C16: the tracker's state invariant (unique identities below the next one, consistent frame
  stamps, no removed track kept, every tracked track seen in the current frame, lost tracks within
  their grace period, tentative tracks exactly one frame old) holds initially, after a reset and
  after every update; an update always returns normally.
\<close>

theorem tracker_invariant:
  "tracker_ok rd (make_tracker opts) \<and> tracker_ok rd (reset_tracker bt) \<and>
   (tracker_ok rd bt \<longrightarrow> (\<exists>bt' out. tracker_update rd d dets bt = Some (Inr (bt', out)) \<and>
      tracker_ok rd bt' \<and> bt_frame_id bt' = bt_frame_id bt + 1 \<and> bt_options bt' = bt_options bt))"
  using tracker_returns by (blast intro: tracker_ok_init)

theorem tracker_invariant_witness:
  "\<exists>bt' out. tracker_update round32 round64 [\<lparr>det_box = \<lparr>box_x1 = 0, box_y1 = 0, box_x2 = 4, box_y2 = 8\<rparr>, det_score = 1 / 2, det_class = 3\<rparr>]
      (make_tracker (default_tracker_options round32)) = Some (Inr (bt', out)) \<and> tracker_ok round32 bt' \<and> bt_frame_id bt' = 1"
proof -
  let ?d = "[\<lparr>det_box = \<lparr>box_x1 = 0, box_y1 = 0, box_x2 = 4, box_y2 = 8\<rparr>, det_score = 1 / 2, det_class = 3\<rparr>]"
  let ?b = "make_tracker (default_tracker_options round32)"
  from tracker_invariant [of round32 "default_tracker_options round32" ?b round64 ?d]
  show ?thesis by (auto simp: make_tracker_def)
qed



text \<open>
  C18: the reported objects have distinct identities, and each stands for its own detection of
  this frame: no detection is used twice, and score and class are those of the detection, whose
  score reaches one of the two thresholds.
\<close>

theorem tracker_reports:
  assumes "tracker_ok rd bt" and "tracker_update rd d dets bt = Some (Inr (bt', out))"
  shows "distinct (map obj_track_id out) \<and>
    (\<exists>pairs. map fst pairs = out \<and> distinct (map snd pairs) \<and>
      (\<forall>(obj, c) \<in> set pairs. c < length dets \<and> obj_score obj = det_score (dets ! c) \<and>
         obj_class obj = det_class (dets ! c) \<and> 1 \<le> obj_age_frames obj \<and>
         (opt_high_threshold (bt_options bt) \<le> obj_score obj \<or> opt_low_threshold (bt_options bt) < obj_score obj)))"
proof -
  from tracker_update_result [OF assms(1), of dets d] assms(2) obtain hit ts new cs fresh where
    r: "frame_result rd dets bt hit ts new cs fresh" and bt': "bt' = after_frame rd bt ts fresh"
    and out: "out = map (report_track rd (bt_frame_id bt + 1)) (filter (\<lambda>t. tr_state t = kTracked \<and> tr_activated t) (bt_tracks bt'))"
    by auto
  have ok: "tracker_ok rd bt'" unfolding bt' using assms(1) r by (rule after_frame_ok)
  let ?f = "bt_frame_id bt + 1"
  let ?pairs = "filter (\<lambda>p. tr_activated (fst p)) (seen_pairs hit ts cs fresh)"
  have "filter (\<lambda>t. tr_state t = kTracked \<and> tr_activated t) (bt_tracks bt') =
      filter tr_activated (filter (\<lambda>t. tr_state t = kTracked) (bt_tracks bt'))"
    by (simp add: conj_commute)
  also have "\<dots> = map fst ?pairs" unfolding bt' seen_tracks [OF r] by (simp add: filter_map comp_def)
  finally have seen: "filter (\<lambda>t. tr_state t = kTracked \<and> tr_activated t) (bt_tracks bt') = map fst ?pairs" .
  have "distinct (map tr_id (bt_tracks bt'))" using ok by (simp add: tracker_ok_def)
  then have "distinct (map tr_id (filter (\<lambda>t. tr_state t = kTracked \<and> tr_activated t) (bt_tracks bt')))"
    by (rule distinct_map_filter)
  then have "distinct (map obj_track_id out)" by (simp add: out report_track_def comp_def)
  moreover have "map fst (map (\<lambda>(t, c). (report_track rd ?f t, c)) ?pairs) = out"
    unfolding out seen by (simp add: comp_def case_prod_unfold)
  moreover have "distinct (map snd (map (\<lambda>(t, c). (report_track rd ?f t, c)) ?pairs))"
    using distinct_map_filter [OF seen_pairs_props(1) [OF r], of "\<lambda>p. tr_activated (fst p)"]
    by (simp add: comp_def case_prod_unfold)
  moreover have "c < length dets \<and> obj_score obj = det_score (dets ! c) \<and> obj_class obj = det_class (dets ! c) \<and>
      1 \<le> obj_age_frames obj \<and>
      (opt_high_threshold (bt_options bt) \<le> obj_score obj \<or> opt_low_threshold (bt_options bt) < obj_score obj)"
    if "(obj, c) \<in> set (map (\<lambda>(t, c). (report_track rd ?f t, c)) ?pairs)" for obj c
  proof -
    from that obtain t where t: "(t, c) \<in> set (seen_pairs hit ts cs fresh)" "tr_activated t" "obj = report_track rd ?f t"
      by auto
    then have "(t, c) \<in> set ?pairs" by simp
    then have "t \<in> set (map fst ?pairs)" by force
    then have "t \<in> set (bt_tracks bt')" by (simp flip: seen)
    then have "tr_start_frame t \<le> tr_last_frame t \<and> tr_last_frame t \<le> bt_frame_id bt'"
      using ok unfolding tracker_ok_def by blast
    then have "tr_start_frame t \<le> ?f" by (simp add: bt' after_frame_def)
    moreover have "c < length dets \<and> (opt_high_threshold (bt_options bt) \<le> det_score (dets ! c) \<or>
        opt_low_threshold (bt_options bt) < det_score (dets ! c))"
      using seen_pairs_props(2) [OF r t(1)] by (auto simp: high_detections_def low_detections_def)
    ultimately show ?thesis
      using seen_pairs_props(2) [OF r t(1)] by (simp add: t(3) report_track_def)
  qed
  ultimately show ?thesis by blast
qed

theorem tracker_reports_witness:
  "\<exists>bt' out. tracker_update round32 round64 [] (make_tracker (default_tracker_options round32)) = Some (Inr (bt', out)) \<and> out = []"
proof -
  let ?b = "make_tracker (default_tracker_options round32)"
  have ok: "tracker_ok round32 ?b" by (rule tracker_ok_init)
  from tracker_update_result [OF ok, of "[]" round64] obtain bt' out where
    u: "tracker_update round32 round64 [] ?b = Some (Inr (bt', out))"
    by blast
  from tracker_reports [OF ok u] obtain pairs where p: "map fst pairs = out" "\<forall>(obj, c) \<in> set pairs. c < length ([] :: detection list)"
    by auto
  then have "pairs = []" by (cases pairs) auto
  with p u show ?thesis by auto
qed

text \<open>
  C19: a detection below the high threshold only rescues a confirmed track that was seen in the
  previous frame: it starts no track, confirms no tentative track and revives no lost one.
\<close>

theorem low_score_only_rescues:
  assumes "tracker_ok rd bt" and "tracker_update rd d dets bt = Some (Inr (bt', out))"
    and "t \<in> set (bt_tracks bt')" and "tr_state t = kTracked" and "tr_score t < opt_high_threshold (bt_options bt)"
  shows "\<exists>u \<in> set (bt_tracks bt). tr_id u = tr_id t \<and> tr_state u = kTracked \<and> tr_activated u \<and>
    tr_last_frame u = bt_frame_id bt"
proof -
  from tracker_update_result [OF assms(1), of dets d] assms(2) obtain hit ts new cs fresh where
    r: "frame_result rd dets bt hit ts new cs fresh" and bt': "bt' = after_frame rd bt ts fresh"
    by auto
  have "t \<in> set (map fst (seen_pairs hit ts cs fresh))"
    using assms(3,4) unfolding seen_tracks [OF r, symmetric] bt' by simp
  then obtain c where tc: "(t, c) \<in> set (seen_pairs hit ts cs fresh)" by auto
  from seen_pairs_props(2) [OF r tc] assms(5)
  have low: "c \<in> set (low_detections (bt_options bt) dets)" and nh: "c \<notin> set (high_detections (bt_options bt) dets)"
    by (auto simp: high_detections_def)
  have "set cs \<subseteq> set (high_detections (bt_options bt) dets)"
    using r by (auto simp: frame_result_def association_spec_def)
  then have "(t, c) \<notin> set (zip fresh cs)" using nh by (auto dest: set_zip_rightD)
  then obtain i where i: "i < length ts" "hit i = Some c" "t = ts ! i"
    using tc by (auto simp: seen_pairs_def)
  then have n: "i < length (bt_tracks bt)" using frame_result_ids(1) [OF r] by simp
  let ?u = "bt_tracks bt ! i"
  have "tr_state (map (predict_track rd) (bt_tracks bt) ! i) = kTracked \<and> tr_activated (map (predict_track rd) (bt_tracks bt) ! i)"
    using r low i(2) unfolding frame_result_def association_spec_def by blast
  then have s: "tr_state ?u = kTracked" "tr_activated ?u" using n by simp_all
  have u: "?u \<in> set (bt_tracks bt)" using n by simp
  moreover have "tr_id ?u = tr_id t"
    using r n by (cases rule: old_track_cases) (simp_all add: i)
  moreover have "tr_last_frame ?u = bt_frame_id bt" using assms(1) u s(1) by (simp add: tracker_ok_def)
  ultimately show ?thesis using s by blast
qed

theorem low_score_only_rescues_witness:
  "\<exists>bt bt' out t u. tracker_update exact_rounding exact_rounding
       [\<lparr>det_box = \<lparr>box_x1 = 0, box_y1 = 0, box_x2 = 4, box_y2 = 8\<rparr>, det_score = 1 / 5, det_class = 3\<rparr>] bt = Some (Inr (bt', out)) \<and>
     t \<in> set (bt_tracks bt') \<and> tr_score t = 1 / 5 \<and> u \<in> set (bt_tracks bt) \<and> tr_id u = tr_id t \<and> tr_activated u"
proof -
  let ?b = "\<lparr>box_x1 = 0, box_y1 = 0, box_x2 = 4, box_y2 = 8\<rparr> :: box"
  let ?det = "\<lparr>det_box = ?b, det_score = 1 / 5, det_class = 3\<rparr>"
  let ?opts = "default_tracker_options exact_rounding"
  define t where "t = \<lparr>tr_id = 1, tr_kalman = initiate exact_rounding (to_measurement exact_rounding ?b), tr_score = 1 / 2,
     tr_class = 3, tr_state = kTracked, tr_activated = True, tr_start_frame = 1, tr_last_frame = 1\<rparr>"
  let ?bt = "\<lparr>bt_options = ?opts, bt_tracks = [t], bt_frame_id = 1, bt_next_id = 2\<rparr>"
  let ?p = "predict_track exact_rounding t"
  have ok: "tracker_ok exact_rounding ?bt" by (simp add: tracker_ok_def t_def initiate_shape)
  have sel: "tr_state t = kTracked" "tr_activated t" by (simp_all add: t_def)
  have p: "pool_tracks [?p] = [0]" "unconfirmed_tracks [?p] = []"
    by (simp_all add: pool_tracks_def unconfirmed_tracks_def is_tentative_def sel)
  have sets: "high_detections ?opts [?det] = []" "low_detections ?opts [?det] = [0]"
    by (simp_all add: high_detections_def low_detections_def default_tracker_options_def)
  have "track_box exact_rounding ?p = ?b"
  proof -
    have "0 < box_height exact_rounding ?b" by (simp add: box_height_def fops)
    from box_preserved [OF this] show ?thesis
      by (simp add: track_box_def predict_track_def t_def is_tentative_def)
  qed
  then have cost: "pair_cost exact_rounding False (track_box exact_rounding ?p) ?det = 0"
    by (simp add: pair_cost_def iou_def box_intersection_def box_area_def box_width_def box_height_def fops Let_def)
  have a1: "associate exact_rounding exact_rounding [?p] [0] [] [?det] L f =
      Some (Inr \<lparr>matches = [], unmatched_rows = [0], unmatched_cols = []\<rparr>)" for L f
    by (simp add: associate_def solve_def)
  have a2: "associate exact_rounding exact_rounding [?p] [0] [0] [?det] kSecondStageCostLimit False =
      Some (Inr \<lparr>matches = [(0, 0)], unmatched_rows = [], unmatched_cols = []\<rparr>)"
    using solve_1_1 [of 0] cost by (simp add: associate_def kSecondStageCostLimit_def)
  have a3: "associate exact_rounding exact_rounding ts [] [] [?det] L f =
      Some (Inr \<lparr>matches = [], unmatched_rows = [], unmatched_cols = []\<rparr>)" for ts L f
    by (simp add: associate_def solve_def)
  let ?t' = "apply_match exact_rounding 2 ?det ?p"
  have "association_stages exact_rounding exact_rounding ?opts 2 [?det] [?p] = Some (Inr ([?t'], []))"
    by (simp add: association_stages_def p sets a1 a2 a3 index_pairs_def apply_matches_def mark_tracks_def sel)
  then obtain bt' out where u: "tracker_update exact_rounding exact_rounding [?det] ?bt = Some (Inr (bt', out))"
    and t': "?t' \<in> set (bt_tracks bt')"
    by (auto simp: tracker_update_def Let_def age_out_id)
  from low_score_only_rescues [OF ok u t'] have "\<exists>u \<in> set (bt_tracks ?bt). tr_id u = tr_id ?t' \<and> tr_activated u"
    by (simp add: default_tracker_options_def)
  then show ?thesis using u t' by (intro exI [of _ ?bt] exI [of _ bt'] exI [of _ out] exI [of _ ?t'] exI [of _ t]) simp
qed

end
