(* ===== verification/FramePool.thy ===== *)
theory FramePool
  imports Letterbox ByteTracker
begin

text \<open>
  \<open>pipeline/frame.hpp\<close>, \<open>pipeline/frame_pool.hpp\<close>, \<open>src/pipeline/frame_pool.cpp\<close>: the frame that
  travels through the pipeline and the fixed pool that owns every frame. A \<open>Frame*\<close> is the
  index of the frame in the pool's storage, a \<open>FramePtr\<close> is such an index or \<open>None\<close> for the empty
  pointer; dropping one runs \<open>frame_recycler\<close>. The free list is a vector: its last element is the
  next frame to hand out. Time points and durations are nanosecond counts.
\<close>

section \<open>Frames\<close>

datatype stage_id = kPreprocess | kInference | kPostprocess | kTracking | kSink | kCount

definition to_index :: "stage_id \<Rightarrow> nat" where
  "to_index s = (case s of kPreprocess \<Rightarrow> 0 | kInference \<Rightarrow> 1 | kPostprocess \<Rightarrow> 2 | kTracking \<Rightarrow> 3
     | kSink \<Rightarrow> 4 | kCount \<Rightarrow> 5)"

text \<open>Stages are ordered as a frame passes them.\<close>

lemma to_index_inject [simp]: "to_index a = to_index b \<longleftrightarrow> a = b"
  by (cases a; cases b) (simp_all add: to_index_def)

instantiation stage_id :: linorder
begin

definition less_eq_stage_id :: "stage_id \<Rightarrow> stage_id \<Rightarrow> bool" where
  "less_eq_stage_id a b \<longleftrightarrow> to_index a \<le> to_index b"

definition less_stage_id :: "stage_id \<Rightarrow> stage_id \<Rightarrow> bool" where
  "less_stage_id a b \<longleftrightarrow> to_index a < to_index b"

instance
  by standard (auto simp: less_eq_stage_id_def less_stage_id_def)

end

definition kStageCount :: nat where
  "kStageCount = to_index kCount"

definition stage_name :: "stage_id \<Rightarrow> string" where
  "stage_name s = (case s of kPreprocess \<Rightarrow> ''preprocess'' | kInference \<Rightarrow> ''inference''
     | kPostprocess \<Rightarrow> ''postprocess'' | kTracking \<Rightarrow> ''tracking'' | kSink \<Rightarrow> ''sink'' | kCount \<Rightarrow> ''unknown'')"

record frame =
  sequence :: u64
  captured_at :: int
  fr_image :: image
  fr_input :: "real list"
  fr_output :: "real list"
  fr_letterbox :: letterbox_transform
  detections :: "detection list"
  tracks :: "tracked_object list"
  service_time :: "int list"

definition empty_letterbox :: letterbox_transform where
  "empty_letterbox = \<lparr>lb_scale = 1, lb_pad_x = 0, lb_pad_y = 0, source_width = 0, source_height = 0,
     resized_width = 0, resized_height = 0\<rparr>"

definition empty_frame :: frame where
  "empty_frame = \<lparr>sequence = 0, captured_at = 0, fr_image = empty_image, fr_input = [], fr_output = [],
     fr_letterbox = empty_letterbox, detections = [], tracks = [], service_time = replicate kStageCount 0\<rparr>"

definition frame_reset :: "frame \<Rightarrow> frame" where
  "frame_reset f = f\<lparr>sequence := 0, captured_at := 0, detections := [], tracks := [],
     service_time := map (\<lambda>_. 0) (service_time f)\<rparr>"

text \<open>What \<open>reset\<close> promises the next user of a frame.\<close>

definition is_clean :: "frame \<Rightarrow> bool" where
  "is_clean f \<longleftrightarrow> sequence f = 0 \<and> captured_at f = 0 \<and> detections f = [] \<and> tracks f = [] \<and>
     (\<forall>t \<in> set (service_time f). t = 0)"

lemma frame_reset_clean [simp]: "is_clean (frame_reset f)"
  by (auto simp: is_clean_def frame_reset_def)

lemma empty_frame_clean [simp]: "is_clean (empty_frame\<lparr>fr_input := i, fr_output := out\<rparr>)"
  by (auto simp: is_clean_def empty_frame_def)

section \<open>The pool\<close>

record frame_buffer_sizes =
  input_elements :: u64
  output_elements :: u64
  fb_max_detections :: u64

record frame_pool =
  storage :: "frame list"
  free_frames :: "nat list"

type_synonym frame_ptr = "nat option"

text \<open>Capacities (\<open>max_detections\<close>, \<open>reserve\<close>) have no effect on the values.\<close>

definition pool_frame :: "frame_buffer_sizes \<Rightarrow> frame" where
  "pool_frame sizes = empty_frame\<lparr>fr_input := replicate (unat (input_elements sizes)) 0,
     fr_output := replicate (unat (output_elements sizes)) 0\<rparr>"

definition make_pool :: "u64 \<Rightarrow> frame_buffer_sizes \<Rightarrow> takt_error + frame_pool" where
  "make_pool frame_count sizes =
     (if frame_count = 0 then Inl (Invalid_argument ''FramePool: frame_count must be positive'')
      else Inr (fold (\<lambda>i p. p\<lparr>free_frames := free_frames p @ [i], storage := storage p @ [pool_frame sizes]\<rparr>)
                 [0..<unat frame_count] \<lparr>storage = [], free_frames = []\<rparr>))"

definition pool_capacity :: "frame_pool \<Rightarrow> nat" where
  "pool_capacity p = length (storage p)"

definition available :: "frame_pool \<Rightarrow> nat" where
  "available p = length (free_frames p)"

definition take_locked :: "frame_pool \<Rightarrow> frame_ptr \<times> frame_pool" where
  "take_locked p = (Some (last (free_frames p)), p\<lparr>free_frames := butlast (free_frames p)\<rparr>)"

definition try_acquire :: "frame_pool \<Rightarrow> frame_ptr \<times> frame_pool" where
  "try_acquire p = (if free_frames p = [] then (None, p) else take_locked p)"

text \<open>\<open>acquire\<close> with the stop token requested or not; \<open>None\<close>: the call keeps waiting.\<close>

definition acquire :: "bool \<Rightarrow> frame_pool \<Rightarrow> (frame_ptr \<times> frame_pool) option" where
  "acquire stop p =
     (if free_frames p \<noteq> [] then Some (take_locked p)
      else if stop then Some (None, p) else None)"

definition recycle :: "nat \<Rightarrow> frame_pool \<Rightarrow> frame_pool" where
  "recycle i p =
     (let p = p\<lparr>storage := (storage p)[i := frame_reset (storage p ! i)]\<rparr>
      in p\<lparr>free_frames := free_frames p @ [i]\<rparr>)"

definition frame_recycler :: "frame_ptr \<Rightarrow> frame_pool \<Rightarrow> frame_pool" where
  "frame_recycler fp p = (case fp of None \<Rightarrow> p | Some i \<Rightarrow> recycle i p)"

section \<open>The pool as a set of owned frames\<close>

text \<open>\<open>held\<close> lists the frames that live \<open>FramePtr\<close>s own.\<close>

definition pool_ok :: "frame_pool \<Rightarrow> nat list \<Rightarrow> bool" where
  "pool_ok p held \<longleftrightarrow> mset (free_frames p) + mset held = mset [0..<pool_capacity p] \<and>
     (\<forall>i \<in> set (free_frames p). is_clean (storage p ! i))"

lemma make_pool_fold:
  "fold (\<lambda>i p. p\<lparr>free_frames := free_frames p @ [i], storage := storage p @ [f]\<rparr>) [0..<n]
     \<lparr>storage = [], free_frames = []\<rparr> = \<lparr>storage = replicate n f, free_frames = [0..<n]\<rparr>"
  by (induction n) (simp_all add: replicate_append_same)

lemma make_pool_eq:
  "0 < n \<Longrightarrow> make_pool n sizes =
     Inr \<lparr>storage = replicate (unat n) (pool_frame sizes), free_frames = [0..<unat n]\<rparr>"
  by (auto simp: make_pool_def make_pool_fold)

lemma make_pool_ok: "make_pool n sizes = Inr p \<Longrightarrow> pool_ok p [] \<and> pool_capacity p = unat n \<and> 0 < pool_capacity p"
  by (auto simp: make_pool_def make_pool_fold pool_ok_def pool_capacity_def pool_frame_def
      unat_eq_zero split: if_splits)

lemma pool_ok_partition:
  assumes "pool_ok p held"
  shows "distinct (free_frames p @ held)" and "set (free_frames p @ held) = {0..<pool_capacity p}"
    and "available p + length held = pool_capacity p"
proof -
  have m: "mset (free_frames p @ held) = mset [0..<pool_capacity p]" using assms by (simp add: pool_ok_def)
  show "distinct (free_frames p @ held)" using m by (metis mset_eq_imp_distinct_iff distinct_upt)
  show "set (free_frames p @ held) = {0..<pool_capacity p}" using m by (metis mset_eq_setD set_upt)
  show "available p + length held = pool_capacity p"
    using arg_cong [OF m, of size] by (simp add: available_def)
qed

lemma take_locked_ok:
  assumes "pool_ok p held" "free_frames p \<noteq> []" "take_locked p = (fp, p')"
  shows "\<exists>i. fp = Some i \<and> i < pool_capacity p \<and> i \<notin> set held \<and> is_clean (storage p' ! i) \<and>
    storage p' = storage p \<and> pool_capacity p' = pool_capacity p \<and> pool_ok p' (i # held)"
proof -
  have snoc: "free_frames p = butlast (free_frames p) @ [last (free_frames p)]" using assms(2) by simp
  have "mset (free_frames p) = mset (butlast (free_frames p) @ [last (free_frames p)])" using snoc by simp
  then have "mset (free_frames p) = add_mset (last (free_frames p)) (mset (butlast (free_frames p)))" by simp
  moreover have "last (free_frames p) \<in> set (free_frames p)" using assms(2) by simp
  moreover have "last (free_frames p) < pool_capacity p" "last (free_frames p) \<notin> set held"
    using pool_ok_partition(1,2) [OF assms(1)] last_in_set [OF assms(2)] by auto
  ultimately show ?thesis
    using assms in_set_butlastD [of _ "free_frames p"]
    by (auto simp: take_locked_def pool_ok_def pool_capacity_def simp del: mset_upt)
qed

lemma try_acquire_ok:
  assumes "pool_ok p held" "try_acquire p = (fp, p')"
  shows "case fp of None \<Rightarrow> p' = p \<and> available p = 0
    | Some i \<Rightarrow> i < pool_capacity p \<and> i \<notin> set held \<and> is_clean (storage p' ! i) \<and> storage p' = storage p \<and>
        pool_capacity p' = pool_capacity p \<and> pool_ok p' (i # held)"
  using assms take_locked_ok [OF assms(1)]
  by (auto simp: try_acquire_def available_def split: if_splits)

lemma recycle_ok:
  assumes "pool_ok p held" "i \<in> set held"
  shows "pool_ok (recycle i p) (remove1 i held)" "pool_capacity (recycle i p) = pool_capacity p"
proof -
  have "i < pool_capacity p" using pool_ok_partition(2) [OF assms(1)] assms(2) by auto
  then show "pool_ok (recycle i p) (remove1 i held)"
    using assms by (auto simp: pool_ok_def recycle_def pool_capacity_def Let_def update_nth)
  show "pool_capacity (recycle i p) = pool_capacity p"
    by (simp add: recycle_def pool_capacity_def Let_def)
qed

text \<open>Taking and dropping a frame is a no-op on the set of free frames: the free list is a stack.\<close>

lemma recycle_after_take:
  assumes "free_frames p \<noteq> []" "take_locked p = (Some i, p')"
  shows "free_frames (recycle i p') = free_frames p"
  using assms by (auto simp: take_locked_def recycle_def Let_def)

section \<open>The pool shared by threads\<close>

text \<open>
  The capture thread is in \<open>acquire\<close> between \<open>A_check\<close> (about to test the predicate with the mutex
  held) and \<open>A_wait\<close> (parked on the condition variable). \<open>pending\<close> counts the recyclers that have
  released the mutex and not yet called \<open>notify_one\<close>; \<open>stop_pending\<close>: stop was requested and the
  stop callback of the wait has not run yet. \<open>Write\<close> is any use of a frame by its owner.
\<close>

datatype acquirer_pc = A_idle | A_check | A_wait

record pool_system =
  ps_pool :: frame_pool
  ps_held :: "nat list"
  acquirer :: acquirer_pc
  ps_pending :: nat
  stop_flag :: bool
  stop_pending :: bool

datatype pool_action =
    Start_acquire
  | Test_acquire
  | Try_acquire
  | Recycle nat
  | Notify_one
  | Spurious_wake
  | Write nat frame
  | Request_stop
  | Stop_callback

definition wake_acquirer :: "acquirer_pc \<Rightarrow> acquirer_pc" where
  "wake_acquirer a = (if a = A_wait then A_check else a)"

definition hand_out :: "frame_ptr \<times> frame_pool \<Rightarrow> pool_system \<Rightarrow> pool_system" where
  "hand_out r s = s\<lparr>ps_pool := snd r, ps_held := (case fst r of None \<Rightarrow> ps_held s | Some i \<Rightarrow> i # ps_held s)\<rparr>"

fun pool_act :: "pool_action \<Rightarrow> pool_system \<Rightarrow> pool_system option" where
  "pool_act Start_acquire s = (if acquirer s = A_idle then Some (s\<lparr>acquirer := A_check\<rparr>) else None)"
| "pool_act Test_acquire s =
     (if acquirer s = A_check
      then (case acquire (stop_flag s) (ps_pool s) of
              None \<Rightarrow> Some (s\<lparr>acquirer := A_wait\<rparr>)
            | Some r \<Rightarrow> Some (hand_out r (s\<lparr>acquirer := A_idle\<rparr>)))
      else None)"
| "pool_act Try_acquire s =
     (if acquirer s = A_idle then Some (hand_out (try_acquire (ps_pool s)) s) else None)"
| "pool_act (Recycle i) s =
     (if i \<in> set (ps_held s)
      then Some (s\<lparr>ps_pool := frame_recycler (Some i) (ps_pool s), ps_held := remove1 i (ps_held s), ps_pending := ps_pending s + 1\<rparr>)
      else None)"
| "pool_act Notify_one s =
     (if 0 < ps_pending s then Some (s\<lparr>ps_pending := ps_pending s - 1, acquirer := wake_acquirer (acquirer s)\<rparr>) else None)"
| "pool_act Spurious_wake s = Some (s\<lparr>acquirer := wake_acquirer (acquirer s)\<rparr>)"
| "pool_act (Write i f) s =
     (if i \<in> set (ps_held s) then Some (s\<lparr>ps_pool := (ps_pool s)\<lparr>storage := (storage (ps_pool s))[i := f]\<rparr>\<rparr>) else None)"
| "pool_act Request_stop s = Some (s\<lparr>stop_flag := True, stop_pending := True\<rparr>)"
| "pool_act Stop_callback s =
     (if stop_pending s then Some (s\<lparr>stop_pending := False, acquirer := wake_acquirer (acquirer s)\<rparr>) else None)"

inductive pool_step :: "pool_system \<Rightarrow> pool_system \<Rightarrow> bool" where
  "pool_act a s = Some s' \<Longrightarrow> pool_step s s'"

inductive_cases pool_stepE: "pool_step s s'"

definition pool_start :: "frame_pool \<Rightarrow> pool_system" where
  "pool_start p = \<lparr>ps_pool = p, ps_held = [], acquirer = A_idle, ps_pending = 0, stop_flag = False, stop_pending = False\<rparr>"

definition pool_system_ok :: "nat \<Rightarrow> pool_system \<Rightarrow> bool" where
  "pool_system_ok n s \<longleftrightarrow> pool_ok (ps_pool s) (ps_held s) \<and> pool_capacity (ps_pool s) = n \<and>
     (acquirer s = A_wait \<longrightarrow> (free_frames (ps_pool s) = [] \<or> 0 < ps_pending s) \<and> (stop_flag s \<longrightarrow> stop_pending s))"

lemma pool_step_ok:
  assumes "pool_step s s'" "pool_system_ok n s"
  shows "pool_system_ok n s'"
proof -
  obtain a where 1: "pool_act a s = Some s'" using assms(1) by (rule pool_stepE)
  have ok: "pool_ok (ps_pool s) (ps_held s)" "pool_capacity (ps_pool s) = n" using assms(2) by (auto simp: pool_system_ok_def)
  show ?thesis
  proof (cases a)
    case Test_acquire
    then show ?thesis using 1 assms(2) take_locked_ok [OF ok(1) _ surjective_pairing]
      by (fastforce simp: pool_system_ok_def acquire_def hand_out_def split: if_splits)
  next
    case Try_acquire
    then show ?thesis using 1 assms(2) try_acquire_ok [OF ok(1) surjective_pairing]
      by (auto simp: pool_system_ok_def hand_out_def split: if_splits option.splits)
  next
    case (Recycle i)
    then show ?thesis using 1 assms(2) recycle_ok [OF ok(1)]
      by (auto simp: pool_system_ok_def frame_recycler_def split: if_splits)
  next
    case (Write i f)
    then have "i \<notin> set (free_frames (ps_pool s))"
      using 1 pool_ok_partition(1) [OF ok(1)] by (auto split: if_splits)
    then show ?thesis using 1 Write assms(2)
      by (auto simp: pool_system_ok_def pool_ok_def pool_capacity_def update_nth split: if_splits)
  qed (use 1 assms(2) in \<open>auto simp: pool_system_ok_def wake_acquirer_def split: if_splits\<close>)
qed

lemma pool_start_ok: "make_pool n sizes = Inr p \<Longrightarrow> pool_system_ok (unat n) (pool_start p)"
  using make_pool_ok by (auto simp: pool_system_ok_def pool_start_def)

lemma pool_reachable_ok:
  assumes "make_pool n sizes = Inr p" "pool_step\<^sup>*\<^sup>* (pool_start p) s"
  shows "pool_system_ok (unat n) s"
  using assms(2) pool_start_ok [OF assms(1)] by (rule rtranclp_invariant) (rule pool_step_ok)

text \<open>
  C25: however the capture thread and the threads that drop frames interleave, the pool never hands
  out a frame that someone holds and never loses one: free and held frames are a permutation of
  the storage, and every free frame is reset.
\<close>

theorem pool_conservation:
  assumes "make_pool n sizes = Inr p" "pool_step\<^sup>*\<^sup>* (pool_start p) s"
  shows "distinct (free_frames (ps_pool s) @ ps_held s) \<and>
    set (free_frames (ps_pool s) @ ps_held s) = {0..<unat n} \<and>
    available (ps_pool s) + length (ps_held s) = unat n \<and>
    (\<forall>i \<in> set (free_frames (ps_pool s)). is_clean (storage (ps_pool s) ! i))"
proof -
  have ok: "pool_ok (ps_pool s) (ps_held s)" "pool_capacity (ps_pool s) = unat n"
    using pool_reachable_ok [OF assms] by (auto simp: pool_system_ok_def)
  show ?thesis using pool_ok_partition [OF ok(1)] ok by (auto simp: pool_ok_def)
qed

definition two_frame_pool :: frame_pool where
  "two_frame_pool = \<lparr>storage = [empty_frame, empty_frame], free_frames = [0, 1]\<rparr>"

lemma two_frame_pool_made:
  "make_pool 2 \<lparr>input_elements = 0, output_elements = 0, fb_max_detections = 0\<rparr> = Inr two_frame_pool"
  by (simp add: make_pool_eq two_frame_pool_def pool_frame_def empty_frame_def upt_rec replicate_numeral)

lemma pool_step_act: "pool_act a s = Some s' \<Longrightarrow> pool_step\<^sup>*\<^sup>* s s'"
  by (auto intro: pool_step.intros)

theorem pool_conservation_witness:
  "\<exists>s. pool_act Try_acquire (pool_start two_frame_pool) = Some s \<and> ps_held s = [1] \<and>
     set (free_frames (ps_pool s) @ ps_held s) = {0..<2}"
proof -
  obtain s where s: "pool_act Try_acquire (pool_start two_frame_pool) = Some s" "ps_held s = [1]"
    by (simp add: pool_start_def two_frame_pool_def try_acquire_def take_locked_def hand_out_def)
  from pool_conservation [OF two_frame_pool_made pool_step_act [OF s(1)]]
  have "set (free_frames (ps_pool s) @ ps_held s) = {0..<2}" by simp
  with s show ?thesis by blast
qed

text \<open>
  No wake-up of a blocked \<open>acquire\<close> is lost: whenever the capture thread is parked although a
  frame is free or stop was requested, a notification is still to come, and after it the thread
  tests again and returns.
\<close>

theorem pool_no_lost_wakeup:
  assumes "make_pool n sizes = Inr p" "pool_step\<^sup>*\<^sup>* (pool_start p) s"
    and "acquirer s = A_wait" "free_frames (ps_pool s) \<noteq> [] \<or> stop_flag s"
  shows "\<exists>a \<in> {Notify_one, Stop_callback}. \<exists>s1 s2. pool_act a s = Some s1 \<and> acquirer s1 = A_check \<and>
    pool_act Test_acquire s1 = Some s2 \<and> acquirer s2 = A_idle"
  using pool_reachable_ok [OF assms(1,2)] assms(3,4)
  by (auto simp: pool_system_ok_def wake_acquirer_def acquire_def hand_out_def)

theorem pool_no_lost_wakeup_witness:
  "\<exists>s. acquirer s = A_wait \<and> stop_flag s \<and> (\<exists>a \<in> {Notify_one, Stop_callback}. \<exists>s1. pool_act a s = Some s1 \<and> acquirer s1 = A_check)"
proof -
  let ?run = "\<lambda>as. foldl (\<lambda>s a. the (pool_act a s)) (pool_start two_frame_pool) as"
  let ?s = "?run [Try_acquire, Try_acquire, Start_acquire, Test_acquire, Request_stop]"
  have run: "pool_act Try_acquire (?run []) = Some (?run [Try_acquire])"
    "pool_act Try_acquire (?run [Try_acquire]) = Some (?run [Try_acquire, Try_acquire])"
    "pool_act Start_acquire (?run [Try_acquire, Try_acquire]) = Some (?run [Try_acquire, Try_acquire, Start_acquire])"
    "pool_act Test_acquire (?run [Try_acquire, Try_acquire, Start_acquire]) =
       Some (?run [Try_acquire, Try_acquire, Start_acquire, Test_acquire])"
    "pool_act Request_stop (?run [Try_acquire, Try_acquire, Start_acquire, Test_acquire]) = Some ?s"
    by (simp_all add: pool_start_def two_frame_pool_def try_acquire_def take_locked_def hand_out_def acquire_def)
  have "pool_step\<^sup>*\<^sup>* (?run []) ?s"
    by (rule rtranclp_trans [OF pool_step_act [OF run(1)] rtranclp_trans [OF pool_step_act [OF run(2)]
        rtranclp_trans [OF pool_step_act [OF run(3)] rtranclp_trans [OF pool_step_act [OF run(4)] pool_step_act [OF run(5)]]]]])
  moreover have "acquirer ?s = A_wait" "stop_flag ?s"
    by (simp_all add: pool_start_def two_frame_pool_def try_acquire_def take_locked_def hand_out_def acquire_def)
  moreover from this have "free_frames (ps_pool ?s) \<noteq> [] \<or> stop_flag ?s" by blast
  ultimately show ?thesis
    using pool_no_lost_wakeup [OF two_frame_pool_made, of ?s] unfolding foldl_Nil by blast
qed

end
