(* ===== verification/Metrics.thy ===== *)
theory Metrics
  imports LatencyHistogram FramePool
begin

text \<open>
  \<open>pipeline/metrics.hpp\<close> and \<open>src/pipeline/metrics.cpp\<close>: counters, stage histograms, and the run
  report with its text and JSON renderings. The \<open>{:.4f}\<close> conversions of \<open>std::format\<close> print the
  exact value rounded to the given number of decimals, ties to even. A \<open>char\<close> is a HOL \<open>char\<close>.
\<close>

section \<open>Formatting\<close>

definition pad_right :: "nat \<Rightarrow> string \<Rightarrow> string" where
  "pad_right n s = s @ replicate (n - length s) CHR '' ''"

definition pad_left :: "nat \<Rightarrow> string \<Rightarrow> string" where
  "pad_left n s = replicate (n - length s) CHR '' '' @ s"

text \<open>\<open>{:.nf}\<close>.\<close>

definition show_fixed :: "nat \<Rightarrow> real \<Rightarrow> string" where
  "show_fixed n x =
     (let k = nat (round_even (\<bar>x\<bar> * 10 ^ n)); frac = show_nat (k mod 10 ^ n)
      in (if x < 0 then ''-'' else '''') @ show_nat (k div 10 ^ n) @
         (if n = 0 then '''' else CHR ''.'' # replicate (n - length frac) CHR ''0'' @ frac))"

definition hex_digit :: "nat \<Rightarrow> char" where
  "hex_digit d = (if d < 10 then char_of (48 + d) else char_of (87 + d))"

text \<open>\<open>{:04x}\<close> of a character code.\<close>

definition hex4 :: "nat \<Rightarrow> string" where
  "hex4 n = [hex_digit (n div 4096 mod 16), hex_digit (n div 256 mod 16), hex_digit (n div 16 mod 16), hex_digit (n mod 16)]"

section \<open>JSON strings\<close>

definition quote :: char where "quote = CHR 0x22"
definition backslash :: char where "backslash = CHR 0x5C"

definition json_escape :: "char \<Rightarrow> string" where
  "json_escape c =
     (if c = quote then [backslash, quote]
      else if c = backslash then [backslash, backslash]
      else if c = CHR 0x0A then [backslash, CHR ''n'']
      else if c = CHR 0x09 then [backslash, CHR ''t'']
      else if (of_char c :: nat) < 0x20 then [backslash, CHR ''u''] @ hex4 (of_char c)
      else [c])"

definition append_json_string :: "string \<Rightarrow> string \<Rightarrow> string" where
  "append_json_string out t = out @ [quote] @ concat (map json_escape t) @ [quote]"

section \<open>Summaries\<close>

text \<open>A member \<open>"key":\<close> of a JSON object.\<close>

definition json_key :: "string \<Rightarrow> string" where
  "json_key k = [quote] @ k @ [quote, CHR '':'']"

definition append_summary :: "string \<Rightarrow> latency_summary \<Rightarrow> string" where
  "append_summary out s =
     out @ ''{'' @ json_key ''count'' @ show_nat (unat (sum_count s)) @
     '','' @ json_key ''mean_ms'' @ show_fixed 4 (mean_ms s) @
     '','' @ json_key ''min_ms'' @ show_fixed 4 (min_ms s) @
     '','' @ json_key ''p50_ms'' @ show_fixed 4 (p50_ms s) @
     '','' @ json_key ''p90_ms'' @ show_fixed 4 (p90_ms s) @
     '','' @ json_key ''p95_ms'' @ show_fixed 4 (p95_ms s) @
     '','' @ json_key ''p99_ms'' @ show_fixed 4 (p99_ms s) @
     '','' @ json_key ''p999_ms'' @ show_fixed 4 (p999_ms s) @
     '','' @ json_key ''max_ms'' @ show_fixed 4 (max_ms s) @ ''}''"

definition summary_to_json :: "latency_summary \<Rightarrow> string" where
  "summary_to_json s = append_summary [] s"

section \<open>Metrics of a pipeline\<close>

record pipeline_metrics =
  frames_captured :: u64
  frames_dropped :: u64
  frames_completed :: u64
  stages :: "latency_histogram list"
  end_to_end :: latency_histogram

definition empty_metrics :: pipeline_metrics where
  "empty_metrics = \<lparr>frames_captured = 0, frames_dropped = 0, frames_completed = 0,
     stages = replicate kStageCount empty_histogram, end_to_end = empty_histogram\<rparr>"

definition stage :: "stage_id \<Rightarrow> pipeline_metrics \<Rightarrow> latency_histogram" where
  "stage s m = stages m ! to_index s"

definition record_stage :: "stage_id \<Rightarrow> int \<Rightarrow> pipeline_metrics \<Rightarrow> pipeline_metrics" where
  "record_stage s ns m = m\<lparr>stages := (stages m)[to_index s := record_latency (stage s m) ns]\<rparr>"

definition metrics_reset :: "pipeline_metrics \<Rightarrow> pipeline_metrics" where
  "metrics_reset m = m\<lparr>stages := map reset_histogram (stages m), end_to_end := reset_histogram (end_to_end m),
     frames_captured := 0, frames_dropped := 0, frames_completed := 0\<rparr>"

section \<open>The report of a run\<close>

record run_report =
  rep_mode :: string
  rep_backend :: string
  rep_source :: string
  rep_policy :: string
  rep_model_width :: int
  rep_model_height :: int
  rep_captured :: u64
  rep_dropped :: u64
  rep_completed :: u64
  rep_wall_seconds :: real
  rep_throughput_fps :: real
  rep_stages :: "latency_summary list"
  rep_end_to_end :: latency_summary

definition stage_ids :: "stage_id list" where
  "stage_ids = [kPreprocess, kInference, kPostprocess, kTracking, kSink]"

definition text_row :: "string \<Rightarrow> latency_summary \<Rightarrow> string" where
  "text_row name s =
     (if sum_count s = 0 then ''''
      else ''  '' @ pad_right 12 name @ '' '' @ pad_left 9 (show_fixed 2 (mean_ms s)) @ '' '' @
        pad_left 9 (show_fixed 2 (p50_ms s)) @ '' '' @ pad_left 9 (show_fixed 2 (p95_ms s)) @ '' '' @
        pad_left 9 (show_fixed 2 (p99_ms s)) @ '' '' @ pad_left 9 (show_fixed 2 (max_ms s)) @ [CHR 0x0A])"

definition report_to_text :: "run_report \<Rightarrow> string" where
  "report_to_text rep =
     ''takt-vision run ('' @ rep_mode rep @ '', '' @ rep_backend rep @ '', policy='' @ rep_policy rep @ '')'' @ [CHR 0x0A] @
     ''  source     : '' @ rep_source rep @ [CHR 0x0A] @
     ''  model input: '' @ show_int (rep_model_width rep) @ ''x'' @ show_int (rep_model_height rep) @ [CHR 0x0A] @
     ''  frames     : '' @ show_nat (unat (rep_captured rep)) @ '' captured, '' @
       show_nat (unat (rep_completed rep)) @ '' completed, '' @ show_nat (unat (rep_dropped rep)) @ '' dropped'' @ [CHR 0x0A] @
     ''  throughput : '' @ show_fixed 1 (rep_throughput_fps rep) @ '' fps over '' @
       show_fixed 2 (rep_wall_seconds rep) @ '' s'' @ [CHR 0x0A] @
     ''  '' @ pad_right 12 ''latency(ms)'' @ '' '' @ pad_left 9 ''mean'' @ '' '' @ pad_left 9 ''p50'' @ '' '' @
       pad_left 9 ''p95'' @ '' '' @ pad_left 9 ''p99'' @ '' '' @ pad_left 9 ''max'' @ [CHR 0x0A] @
     concat (map (\<lambda>i. text_row (stage_name (stage_ids ! i)) (rep_stages rep ! i)) [0..<kStageCount]) @
     text_row ''end-to-end'' (rep_end_to_end rep)"

definition append_stage :: "run_report \<Rightarrow> nat \<Rightarrow> string \<Rightarrow> string" where
  "append_stage rep i out =
     append_summary (append_json_string (if 0 < i then out @ '','' else out) (stage_name (stage_ids ! i)) @ '':'')
       (rep_stages rep ! i)"

definition report_to_json :: "run_report \<Rightarrow> string" where
  "report_to_json rep =
     (let out = ''{'' @ json_key ''mode'';
          out = append_json_string out (rep_mode rep) @ '','' @ json_key ''backend'';
          out = append_json_string out (rep_backend rep) @ '','' @ json_key ''source'';
          out = append_json_string out (rep_source rep) @ '','' @ json_key ''policy'';
          out = append_json_string out (rep_policy rep) @
            '','' @ json_key ''model_width'' @ show_int (rep_model_width rep) @
            '','' @ json_key ''model_height'' @ show_int (rep_model_height rep) @
            '','' @ json_key ''frames_captured'' @ show_nat (unat (rep_captured rep)) @
            '','' @ json_key ''frames_dropped'' @ show_nat (unat (rep_dropped rep)) @
            '','' @ json_key ''frames_completed'' @ show_nat (unat (rep_completed rep)) @
            '','' @ json_key ''wall_seconds'' @ show_fixed 4 (rep_wall_seconds rep) @
            '','' @ json_key ''throughput_fps'' @ show_fixed 3 (rep_throughput_fps rep) @
            '','' @ json_key ''stages'' @ ''{'';
          out = fold (append_stage rep) [0..<kStageCount] out;
          out = out @ ''},'' @ json_key ''end_to_end''
      in append_summary out (rep_end_to_end rep) @ ''}'')"

section \<open>Reading JSON strings back\<close>

definition hex_value :: "char \<Rightarrow> nat" where
  "hex_value c = (let n = of_char c in if n < 58 then n - 48 else n - 87)"

text \<open>A JSON reader for the text after an opening quote: the string and what follows it.\<close>

fun read_string :: "string \<Rightarrow> (string \<times> string) option" where
  "read_string [] = None"
| "read_string (c # cs) =
     (if c = quote then Some ([], cs)
      else if c = backslash then
        (case cs of
           [] \<Rightarrow> None
         | e # cs \<Rightarrow>
             if e = quote \<or> e = backslash then map_option (apfst ((#) e)) (read_string cs)
             else if e = CHR ''n'' then map_option (apfst ((#) (CHR 0x0A))) (read_string cs)
             else if e = CHR ''t'' then map_option (apfst ((#) (CHR 0x09))) (read_string cs)
             else if e = CHR ''u'' then
               (case cs of
                  h3 # h2 # h1 # h0 # cs \<Rightarrow>
                    map_option (apfst ((#) (char_of (4096 * hex_value h3 + 256 * hex_value h2 + 16 * hex_value h1 + hex_value h0))))
                      (read_string cs)
                | _ \<Rightarrow> None)
             else None)
      else if (of_char c :: nat) < 0x20 then None
      else map_option (apfst ((#) c)) (read_string cs))"

declare read_string.simps(2) [simp del]

definition read_json_string :: "string \<Rightarrow> (string \<times> string) option" where
  "read_json_string t = (case t of [] \<Rightarrow> None | c # cs \<Rightarrow> if c = quote then read_string cs else None)"

lemma hex_value_digit: "d < 16 \<Longrightarrow> hex_value (hex_digit d) = d"
  by (simp add: hex_value_def hex_digit_def Let_def of_char_of)

lemma quote_facts [simp]:
  "quote \<noteq> backslash" "backslash \<noteq> quote" "CHR ''n'' \<noteq> quote" "CHR ''n'' \<noteq> backslash"
  "CHR ''t'' \<noteq> quote" "CHR ''t'' \<noteq> backslash" "CHR ''u'' \<noteq> quote" "CHR ''u'' \<noteq> backslash"
  by (simp_all add: quote_def backslash_def)

lemma read_string_escape:
  "read_string (json_escape c @ cs) = map_option (apfst ((#) c)) (read_string cs)"
proof (cases "c = quote \<or> c = backslash \<or> 32 \<le> (of_char c :: nat)")
  case True
  then show ?thesis by (auto simp: json_escape_def read_string.simps(2))
next
  case False
  then have "(of_char c :: nat) div 16 < 16" "(of_char c :: nat) mod 16 < 16" by linarith+
  with False show ?thesis
    by (simp add: json_escape_def read_string.simps(2) hex4_def hex_value_digit)
qed

lemma read_string_escaped:
  "read_string (concat (map json_escape t) @ quote # rest) = Some (t, rest)"
  by (induction t) (simp_all add: read_string_escape read_string.simps(2))

lemma read_appended: "read_json_string (append_json_string [] t @ rest) = Some (t, rest)"
  by (simp add: read_json_string_def append_json_string_def read_string_escaped)

lemma append_json_simps [simp]:
  "append_json_string (x # xs) t = x # append_json_string xs t"
  "append_json_string (u @ v) t = u @ append_json_string v t"
  "append_summary (x # xs) s = x # append_summary xs s"
  "append_summary (u @ v) s = u @ append_summary v s"
  by (simp_all add: append_json_string_def append_summary_def)

lemma fold_appends:
  assumes "\<And>i out. \<exists>s. f i out = out @ s"
  shows "\<exists>s. fold f is out = out @ s"
proof (induction "is" arbitrary: out)
  case (Cons i "is")
  obtain s s' where "f i out = out @ s" "fold f is (out @ s) = (out @ s) @ s'"
    using assms [of i out] Cons.IH [of "out @ _"] by blast
  then show ?case by simp
qed simp

text \<open>
  Whatever bytes a run's names contain (quotes, backslashes, control characters), the JSON
  report quotes them so that a JSON reader gets the same strings back.
\<close>

theorem report_json_roundtrip:
  "\<exists>a b c d rest. report_to_json rep = ''{'' @ json_key ''mode'' @ a \<and>
     read_json_string a = Some (rep_mode rep, '','' @ json_key ''backend'' @ b) \<and>
     read_json_string b = Some (rep_backend rep, '','' @ json_key ''source'' @ c) \<and>
     read_json_string c = Some (rep_source rep, '','' @ json_key ''policy'' @ d) \<and>
     read_json_string d = Some (rep_policy rep, '','' @ json_key ''model_width'' @ show_int (rep_model_width rep) @ rest)"
proof -
  have step: "\<exists>s. append_stage rep i out = out @ s" for i out
    by (simp add: append_stage_def append_json_string_def append_summary_def)
  obtain rest where rest: "report_to_json rep = ''{'' @ json_key ''mode'' @ append_json_string [] (rep_mode rep) @
    '','' @ json_key ''backend'' @ append_json_string [] (rep_backend rep) @
    '','' @ json_key ''source'' @ append_json_string [] (rep_source rep) @
    '','' @ json_key ''policy'' @ append_json_string [] (rep_policy rep) @
    '','' @ json_key ''model_width'' @ show_int (rep_model_width rep) @ rest"
  proof -
    have "\<forall>out. \<exists>s. fold (append_stage rep) [0..<kStageCount] out = out @ s"
      by (intro allI fold_appends step)
    from choice [OF this] obtain s where
      s: "\<And>out. fold (append_stage rep) [0..<kStageCount] out = out @ s out" by blast
    show thesis by (rule that) (simp add: report_to_json_def Let_def s json_key_def)
  qed
  show ?thesis unfolding rest by (intro exI conjI) (rule refl, (rule read_appended)+)
qed

section \<open>Counting\<close>

definition metrics_ok :: "pipeline_metrics \<Rightarrow> bool" where
  "metrics_ok m \<longleftrightarrow> length (stages m) = kStageCount"

lemma metrics_reset_ok: "metrics_ok m \<Longrightarrow> metrics_ok (metrics_reset m)" "metrics_ok empty_metrics"
  by (simp_all add: metrics_ok_def metrics_reset_def empty_metrics_def)

lemma record_stage_simps [simp]:
  "frames_captured (record_stage s ns m) = frames_captured m"
  "frames_dropped (record_stage s ns m) = frames_dropped m"
  "frames_completed (record_stage s ns m) = frames_completed m"
  "end_to_end (record_stage s ns m) = end_to_end m"
  "length (stages (record_stage s ns m)) = length (stages m)"
  by (simp_all add: record_stage_def)

end
