(* ===== verification/Waiter.thy ===== *)
theory Waiter
  imports Prelude
begin

text \<open>
  The protocol by which \<open>core/spsc_ring.hpp\<close> and \<open>core/latest_slot.hpp\<close> park a thread on a
  32-bit epoch: load the epoch, test the condition and the closed flag, then \<open>atomic::wait\<close>.
\<close>

text \<open>
  The flags of a waiter say whether it has seen the ring open, has seen the
  condition (full, or empty) and is parked. \<open>E\<close> is the unbounded count of signals at the time the
  epoch was loaded, \<open>S\<close> the count now; \<open>cond\<close>, \<open>opn\<close> and \<open>note\<close>: the condition still holds or
  its end is about to be signalled; the ring is open or its closing is about to be signalled; a
  notification is about to be sent.
\<close>

type_synonym waiter_flags = "bool \<times> bool \<times> bool"

definition wake_ok :: "waiter_flags \<Rightarrow> nat \<Rightarrow> nat \<Rightarrow> bool \<Rightarrow> bool \<Rightarrow> bool \<Rightarrow> bool" where
  "wake_ok fl E S cond opn note \<longleftrightarrow>
     (fst fl \<longrightarrow> opn \<or> E < S) \<and> (fst (snd fl) \<longrightarrow> cond \<or> E < S) \<and> (snd (snd fl) \<longrightarrow> E < S \<longrightarrow> note)"

definition waiter_inv ::
  "u32 option \<Rightarrow> waiter_flags \<Rightarrow> nat \<Rightarrow> nat \<Rightarrow> bool \<Rightarrow> bool \<Rightarrow> bool \<Rightarrow> bool" where
  "waiter_inv seen fl B S cond opn note \<longleftrightarrow>
     (\<forall>e. seen = Some e \<longrightarrow> (\<exists>E \<le> S. e = of_nat E \<and> B \<le> E \<and> wake_ok fl E S cond opn note))"

lemma waiter_None [simp]: "waiter_inv None fl B S cond opn note"
  by (simp add: waiter_inv_def)

lemma waiter_load: "B \<le> S \<Longrightarrow> waiter_inv (Some (of_nat S)) (False, False, False) B S cond opn note"
  by (auto simp: waiter_inv_def wake_ok_def)

lemma waiter_mono:
  assumes "waiter_inv seen fl B S cond opn note" and "S \<le> S'" and "B' \<le> B"
    and "cond \<Longrightarrow> cond' \<or> S < S'" and "opn \<Longrightarrow> opn' \<or> S < S'"
    and "note \<Longrightarrow> note'" and "S < S' \<Longrightarrow> note'"
  shows "waiter_inv seen fl B' S' cond' opn' note'"
  unfolding waiter_inv_def
proof (intro allI impI)
  fix e assume "seen = Some e"
  then obtain E where "E \<le> S" "e = of_nat E" "B \<le> E" "wake_ok fl E S cond opn note"
    using assms(1) by (auto simp: waiter_inv_def)
  then show "\<exists>E \<le> S'. e = of_nat E \<and> B' \<le> E \<and> wake_ok fl E S' cond' opn' note'"
    using assms(2-) by (intro exI [of _ E]) (auto simp: wake_ok_def)
qed

lemma waiter_woken:
  "waiter_inv seen (a, b, c) B S cond opn note \<Longrightarrow> waiter_inv seen (a, b, False) B S cond opn note'"
  by (fastforce simp: waiter_inv_def wake_ok_def)

lemma waiter_tested:
  "waiter_inv seen (a, b, False) B S cond opn note \<Longrightarrow> (a' \<Longrightarrow> a \<or> opn) \<Longrightarrow> (b' \<Longrightarrow> b \<or> cond) \<Longrightarrow>
   waiter_inv seen (a', b', False) B S cond opn note"
  by (fastforce simp: waiter_inv_def wake_ok_def)

lemma waiter_parked:
  "waiter_inv (Some e) (True, True, True) B S cond opn False \<Longrightarrow> cond \<and> opn"
  by (auto simp: waiter_inv_def wake_ok_def)

text \<open>The 32-bit epoch cannot come round while a waiter holds it: the ring is too small for that.\<close>

lemma of_nat_u32_inj_near:
  assumes "a \<le> b" and "b < a + 2 ^ 32"
  shows "(of_nat a = (of_nat b :: u32)) \<longleftrightarrow> a = b"
proof
  assume "of_nat a = (of_nat b :: u32)"
  then have "(of_nat (b - a) :: u32) = 0" using assms(1) by (simp add: of_nat_diff)
  then have "unat (of_nat (b - a) :: u32) = unat (0 :: u32)" by (rule arg_cong)
  moreover have "unat (of_nat (b - a) :: u32) = b - a" using assms by (intro unat_of_nat_u32) linarith
  ultimately show "a = b" using assms(1) by simp
qed simp

lemma waiter_parks:
  assumes "waiter_inv (Some e) (a, b, False) B S cond opn note" and "of_nat S = e"
    and "S < B + 4294967296"
  shows "waiter_inv (Some e) (a, b, True) B S cond opn note"
proof -
  obtain E where E: "E \<le> S" "e = of_nat E" "B \<le> E" "wake_ok (a, b, False) E S cond opn note"
    using assms(1) unfolding waiter_inv_def by blast
  then have "of_nat E = (of_nat S :: u32)" using assms(2) by simp
  moreover have "S < E + 2 ^ 32" using E assms(3) by simp
  ultimately have "E = S" using of_nat_u32_inj_near [OF E(1)] by blast
  then have "wake_ok (a, b, True) E S cond opn note" using E(4) by (simp add: wake_ok_def)
  with E show ?thesis unfolding waiter_inv_def by blast
qed

lemma waiter_woken_flags:
  "waiter_inv seen fl B S cond opn note \<Longrightarrow>
   waiter_inv seen (fst fl, fst (snd fl), False) B S cond opn note'"
  by (cases fl) (auto dest: waiter_woken)

end
