(* ===== verification/SpscRing.thy ===== *)
theory SpscRing
  imports Waiter
begin

text \<open>
  \<open>core/spsc_ring.hpp\<close>: the bounded single-producer single-consumer ring.

  First the operations as they run when nothing interferes (\<open>try_push\<close>, \<open>try_pop\<close>,
  \<open>close_ring\<close>), with the 64-bit indices, the cached copies of the other side's index and the
  32-bit wake-up epochs of the code, and their refinement to a bounded FIFO queue.

  Then the same operations one atomic access at a time: a producer thread, a consumer thread and
  a closing thread, each with a program counter, interleave arbitrarily (\<open>spsc_step\<close>). The
  accesses are taken in a sequentially consistent order. \<open>atomic::wait\<close> compares and blocks in
  one step and is woken by a notification or spuriously. A value moved out of a slot leaves the
  default value \<open>nil\<close> there.
\<close>

section \<open>The ring\<close>

record 'a spsc_ring =
  ring_capacity :: u64
  ring_mask :: u64
  slots :: "'a list"
  head :: u64
  cached_tail :: u64
  tail :: u64
  cached_head :: u64
  pushed :: u32
  popped :: u32
  closed :: bool

definition make_ring :: "'a \<Rightarrow> u64 \<Rightarrow> 'a spsc_ring" where
  "make_ring nil min_capacity =
     (let cap = of_nat (bit_ceil (unat (if min_capacity = 0 then 1 else min_capacity)))
      in \<lparr>ring_capacity = cap, ring_mask = cap - 1, slots = replicate (unat cap) nil,
          head = 0, cached_tail = 0, tail = 0, cached_head = 0,
          pushed = 0, popped = 0, closed = False\<rparr>)"

definition size_approx :: "'a spsc_ring \<Rightarrow> u64" where
  "size_approx r = tail r - head r"

section \<open>The operations without interference\<close>

definition try_push :: "'a \<Rightarrow> 'a spsc_ring \<Rightarrow> bool \<times> 'a spsc_ring" where
  "try_push value r =
     (let t = tail r;
          r1 = (if t - cached_head r = ring_capacity r then r\<lparr>cached_head := head r\<rparr> else r)
      in if t - cached_head r1 = ring_capacity r then (False, r1)
         else (True, r1\<lparr>slots := (slots r1)[unat (t AND ring_mask r) := value], tail := t + 1,
                        pushed := pushed r1 + 1\<rparr>))"

definition try_pop :: "'a \<Rightarrow> 'a spsc_ring \<Rightarrow> 'a option \<times> 'a spsc_ring" where
  "try_pop nil r =
     (let h = head r;
          r1 = (if h = cached_tail r then r\<lparr>cached_tail := tail r\<rparr> else r)
      in if h = cached_tail r1 then (None, r1)
         else let i = unat (h AND ring_mask r)
              in (Some (slots r1 ! i), r1\<lparr>slots := (slots r1)[i := nil], head := h + 1,
                                         popped := popped r1 + 1\<rparr>))"

definition close_ring :: "'a spsc_ring \<Rightarrow> 'a spsc_ring" where
  "close_ring r = r\<lparr>closed := True, pushed := pushed r + 1, popped := popped r + 1\<rparr>"

section \<open>Index arithmetic\<close>

text \<open>
  \<open>H\<close> elements were popped and \<open>T\<close> pushed since construction, unbounded counts of which the
  64-bit indices hold the low bits.
\<close>

definition indices :: "nat \<Rightarrow> nat \<Rightarrow> nat \<Rightarrow> 'a spsc_ring \<Rightarrow> bool" where
  "indices k H T r \<longleftrightarrow>
     k < 64 \<and> ring_capacity r = of_nat (2 ^ k) \<and> ring_mask r = of_nat (2 ^ k) - 1 \<and>
     length (slots r) = 2 ^ k \<and> head r = of_nat H \<and> tail r = of_nat T \<and> H \<le> T \<and> T \<le> H + 2 ^ k \<and>
     (\<exists>c \<le> H. cached_head r = of_nat c \<and> T \<le> c + 2 ^ k) \<and>
     (\<exists>c. H \<le> c \<and> c \<le> T \<and> cached_tail r = of_nat c)"

lemma two_power_less: "k < 64 \<Longrightarrow> (2::nat) ^ k < 2 ^ 64"
  by (rule power_strict_increasing) auto

lemma of_nat_u64_inj_near:
  assumes "a \<le> b" and "b < a + 2 ^ 64"
  shows "(of_nat a = (of_nat b :: u64)) \<longleftrightarrow> a = b"
proof
  assume "of_nat a = (of_nat b :: u64)"
  then have "(of_nat (b - a) :: u64) = 0" using assms(1) by (simp add: of_nat_diff)
  then have "unat (of_nat (b - a) :: u64) = unat (0 :: u64)" by (rule arg_cong)
  moreover have "unat (of_nat (b - a) :: u64) = b - a" using assms by (intro unat_of_nat_u64) linarith
  ultimately show "a = b" using assms(1) by simp
qed simp

lemma distance_is_capacity:
  assumes "c \<le> t" and "t \<le> c + 2 ^ k" and "k < 64"
  shows "(of_nat t - of_nat c = (of_nat (2 ^ k) :: u64)) \<longleftrightarrow> t = c + 2 ^ k"
proof -
  have "of_nat t - of_nat c = (of_nat (t - c) :: u64)" using assms(1) by (simp add: of_nat_diff)
  moreover have "(of_nat (t - c) = (of_nat (2 ^ k) :: u64)) \<longleftrightarrow> t - c = 2 ^ k"
    using assms(2) two_power_less [OF assms(3)] by (intro of_nat_u64_inj_near) linarith+
  ultimately show ?thesis using assms(1,2) by auto
qed

lemma slot_of_index:
  assumes "k < 64"
  shows "unat ((of_nat i :: u64) AND (of_nat (2 ^ k) - 1)) = i mod 2 ^ k"
proof -
  have "(of_nat (2 ^ k) - 1 :: u64) = mask k"
    by (simp add: mask_eq_decr_exp)
  then have "(of_nat i :: u64) AND (of_nat (2 ^ k) - 1) = take_bit k (of_nat i)"
    by (simp add: take_bit_eq_mask)
  then have "unat ((of_nat i :: u64) AND (of_nat (2 ^ k) - 1)) = take_bit k (unat (of_nat i :: u64))"
    by (simp only: unsigned_take_bit_eq)
  also have "unat (of_nat i :: u64) = take_bit 64 i"
    by (subst unsigned_of_nat) simp
  also have "take_bit k (take_bit 64 i) = take_bit k i"
    using assms by (simp only: take_bit_take_bit min_absorb1 less_imp_le)
  finally show ?thesis by (simp only: take_bit_eq_mod)
qed

lemma mod_distinct:
  assumes "i < j" and "j < i + n"
  shows "i mod n \<noteq> j mod (n::nat)"
proof
  assume "i mod n = j mod n"
  then have "n dvd j - i" using assms(1) by (metis less_imp_le mod_eq_dvd_iff_nat)
  then show False using assms by (auto dest!: dvd_imp_le)
qed

lemma make_ring_indices:
  assumes "unat n \<le> 2 ^ 63"
  shows "\<exists>k. indices k 0 0 (make_ring nil n) \<and> bit_ceil (unat (if n = 0 then 1 else n)) = 2 ^ k"
proof -
  let ?m = "unat (if n = 0 then 1 else n)"
  obtain k where k: "bit_ceil ?m = 2 ^ k" using bit_ceil_power by blast
  have "bit_ceil ?m \<le> 2 ^ 63" using assms by (intro bit_ceil_least) auto
  then have "(2::nat) ^ k \<le> 2 ^ 63" by (simp only: k)
  then have "k \<le> 63" by (rule power_le_imp_le_exp [rotated]) simp
  then have "k < 64" by simp
  then have "unat (of_nat (2 ^ k) :: u64) = 2 ^ k" by (intro unat_of_nat_u64 two_power_less)
  then have "indices k 0 0 (make_ring nil n)"
    using \<open>k < 64\<close> unfolding indices_def make_ring_def Let_def k by (simp add: exI [of _ 0])
  then show ?thesis using k by blast
qed

section \<open>Refinement to a bounded queue\<close>

definition ring_ok :: "'a spsc_ring \<Rightarrow> bool" where
  "ring_ok r \<longleftrightarrow> (\<exists>k H T. indices k H T r)"

definition ring_queue :: "'a spsc_ring \<Rightarrow> 'a list" where
  "ring_queue r =
     map (\<lambda>i. slots r ! unat ((head r + of_nat i) AND ring_mask r)) [0..<unat (size_approx r)]"

lemma unat_distance:
  assumes "indices k H T r"
  shows "unat (tail r - head r) = T - H"
proof -
  have "tail r - head r = of_nat (T - H)" using assms by (simp add: indices_def of_nat_diff)
  moreover have "T - H < 2 ^ 64"
    using assms two_power_less [of k] unfolding indices_def by linarith
  ultimately show ?thesis by (simp only: unat_of_nat_u64)
qed

lemma ring_queue_indices:
  assumes "indices k H T r"
  shows "ring_queue r = map (\<lambda>i. slots r ! (i mod 2 ^ k)) [H..<T]"
proof (rule nth_equalityI)
  have len: "unat (size_approx r) = T - H" using unat_distance [OF assms] by (simp add: size_approx_def)
  then show "length (ring_queue r) = length (map (\<lambda>i. slots r ! (i mod 2 ^ k)) [H..<T])"
    by (simp add: ring_queue_def)
  fix i assume "i < length (ring_queue r)"
  then have i: "i < T - H" using len by (simp add: ring_queue_def)
  have "head r + of_nat i = of_nat (H + i)" and m: "ring_mask r = of_nat (2 ^ k) - 1" and "k < 64"
    using assms by (simp_all add: indices_def)
  then have "unat ((head r + of_nat i) AND ring_mask r) = (H + i) mod 2 ^ k"
    by (simp only: slot_of_index)
  then show "ring_queue r ! i = map (\<lambda>i. slots r ! (i mod 2 ^ k)) [H..<T] ! i"
    using i len by (simp add: ring_queue_def)
qed

lemma ring_capacity_indices: "indices k H T r \<Longrightarrow> unat (ring_capacity r) = 2 ^ k"
  unfolding indices_def by (metis two_power_less unat_of_nat_u64)

lemma full_test:
  assumes "indices k H T r" and "c \<le> H" and "T \<le> c + 2 ^ k"
  shows "tail r - of_nat c = ring_capacity r \<longleftrightarrow> T = c + 2 ^ k"
  using assms distance_is_capacity [of c T k] by (simp add: indices_def)

lemma empty_test:
  assumes "indices k H T r" and "H \<le> c" and "c \<le> T"
  shows "head r = of_nat c \<longleftrightarrow> c = H"
proof -
  have "c < H + 2 ^ 64" using assms two_power_less [of k] unfolding indices_def by linarith
  from of_nat_u64_inj_near [OF assms(2) this] assms(1) show ?thesis by (auto simp: indices_def)
qed

text \<open>The producer's view: after the optional reload, the full test is exact.\<close>

lemma cached_head_exact:
  assumes "indices k H T r"
  shows "tail r - cached_head r \<noteq> ring_capacity r \<Longrightarrow> T < H + 2 ^ k"
    and "tail r - head r = ring_capacity r \<longleftrightarrow> T = H + 2 ^ k"
    and "indices k H T (r\<lparr>cached_head := head r\<rparr>)"
proof -
  obtain c where c: "c \<le> H" "cached_head r = of_nat c" "T \<le> c + 2 ^ k"
    using assms unfolding indices_def by blast
  show "tail r - cached_head r \<noteq> ring_capacity r \<Longrightarrow> T < H + 2 ^ k"
    using full_test [OF assms c(1,3)] c by simp
  show "tail r - head r = ring_capacity r \<longleftrightarrow> T = H + 2 ^ k"
    using full_test [OF assms order_refl] assms by (simp add: indices_def)
  show "indices k H T (r\<lparr>cached_head := head r\<rparr>)"
    using assms unfolding indices_def by (auto intro: exI [of _ H])
qed

lemma cached_tail_exact:
  assumes "indices k H T r"
  shows "head r \<noteq> cached_tail r \<Longrightarrow> H < T"
    and "head r = tail r \<longleftrightarrow> H = T"
    and "indices k H T (r\<lparr>cached_tail := tail r\<rparr>)"
proof -
  obtain c where c: "H \<le> c" "c \<le> T" "cached_tail r = of_nat c"
    using assms unfolding indices_def by blast
  show "head r \<noteq> cached_tail r \<Longrightarrow> H < T"
    using empty_test [OF assms c(1,2)] c by auto
  show "head r = tail r \<longleftrightarrow> H = T"
    using empty_test [OF assms _ order_refl] assms by (auto simp: indices_def)
  show "indices k H T (r\<lparr>cached_tail := tail r\<rparr>)"
    using assms unfolding indices_def by (auto intro: exI [of _ T])
qed

lemma indices_flags [simp]:
  "indices k H T (r\<lparr>pushed := a\<rparr>) = indices k H T r"
  "indices k H T (r\<lparr>popped := b\<rparr>) = indices k H T r"
  "indices k H T (r\<lparr>closed := c\<rparr>) = indices k H T r"
  by (simp_all add: indices_def)

lemma indices_write [simp]: "indices k H T (r\<lparr>slots := (slots r)[i := v]\<rparr>) = indices k H T r"
  by (simp add: indices_def)

lemma indices_store_tail:
  assumes "indices k H T r" and "tail r - cached_head r \<noteq> ring_capacity r"
  shows "indices k H (Suc T) (r\<lparr>tail := tail r + 1\<rparr>)"
proof -
  obtain c where c: "c \<le> H" "cached_head r = of_nat c" "T \<le> c + 2 ^ k"
    using assms unfolding indices_def by blast
  with assms full_test [OF assms(1) c(1,3)] have "Suc T \<le> c + 2 ^ k" by simp
  with assms c show ?thesis unfolding indices_def by (auto intro: exI [of _ c])
qed

lemma indices_store_head:
  assumes "indices k H T r" and "head r \<noteq> cached_tail r"
  shows "indices k (Suc H) T (r\<lparr>head := head r + 1\<rparr>)"
proof -
  obtain c where c: "H \<le> c" "c \<le> T" "cached_tail r = of_nat c"
    using assms unfolding indices_def by blast
  with assms empty_test [OF assms(1) c(1,2)] have "Suc H \<le> c" by auto
  with assms c show ?thesis unfolding indices_def by (auto intro: exI [of _ c] le_SucI)
qed

lemma slot_of_tail:
  assumes "indices k H T r" shows "unat (tail r AND ring_mask r) = T mod 2 ^ k"
  using assms slot_of_index [of k T] by (simp add: indices_def)

lemma slot_of_head:
  assumes "indices k H T r" shows "unat (head r AND ring_mask r) = H mod 2 ^ k"
  using assms slot_of_index [of k H] by (simp add: indices_def)

lemma try_push_refines:
  assumes "indices k H T r"
  shows "case try_push v r of (done, r') \<Rightarrow>
    (done \<longleftrightarrow> T < H + 2 ^ k) \<and> closed r' = closed r \<and> ring_capacity r' = ring_capacity r \<and>
    (if done then indices k H (Suc T) r' \<and> ring_queue r' = ring_queue r @ [v]
     else indices k H T r' \<and> ring_queue r' = ring_queue r)"
proof -
  define r1 where "r1 = (if tail r - cached_head r = ring_capacity r then r\<lparr>cached_head := head r\<rparr> else r)"
  have r1: "indices k H T r1" "slots r1 = slots r" "tail r1 = tail r" "ring_mask r1 = ring_mask r"
    "closed r1 = closed r" "ring_capacity r1 = ring_capacity r"
    using assms cached_head_exact(3) [OF assms] by (simp_all add: r1_def)
  have test: "tail r1 - cached_head r1 = ring_capacity r1 \<longleftrightarrow> T = H + 2 ^ k"
    using cached_head_exact(1,2) [OF assms] by (auto simp: r1_def)
  have queue1: "ring_queue r1 = ring_queue r"
    using ring_queue_indices [OF r1(1)] ring_queue_indices [OF assms] r1(2) by simp
  show ?thesis
  proof (cases "T = H + 2 ^ k")
    case True
    then have "try_push v r = (False, r1)"
      using test r1(3,6) by (simp add: try_push_def r1_def [symmetric] Let_def)
    then show ?thesis using True r1 queue1 by simp
  next
    case False
    let ?r' = "r1\<lparr>slots := (slots r1)[unat (tail r AND ring_mask r) := v], tail := tail r + 1, pushed := pushed r1 + 1\<rparr>"
    have push: "try_push v r = (True, ?r')"
      using test r1(3,6) False by (simp add: try_push_def r1_def [symmetric] Let_def)
    have "indices k H (Suc T) (r1\<lparr>tail := tail r1 + 1\<rparr>)"
      using test False by (intro indices_store_tail r1(1)) simp
    then have ok: "indices k H (Suc T) ?r'" by (simp add: indices_def r1(3))
    have T: "H \<le> T" "T < H + 2 ^ k" "length (slots r1) = 2 ^ k" using r1(1) False by (auto simp: indices_def)
    have "ring_queue ?r' = map (\<lambda>i. (slots r1)[T mod 2 ^ k := v] ! (i mod 2 ^ k)) [H..<Suc T]"
      using ring_queue_indices [OF ok] slot_of_tail [OF assms] by simp
    also have "\<dots> = map (\<lambda>i. slots r1 ! (i mod 2 ^ k)) [H..<T] @ [v]"
      using T mod_distinct [of _ T "2 ^ k"] by (force simp: nth_list_update_if)
    finally show ?thesis
      using push ok T r1 queue1 ring_queue_indices [OF r1(1)] by simp
  qed
qed

lemma try_pop_refines:
  assumes "indices k H T r"
  shows "case try_pop nil r of (value, r') \<Rightarrow>
    closed r' = closed r \<and> ring_capacity r' = ring_capacity r \<and>
    (case value of None \<Rightarrow> ring_queue r = [] \<and> indices k H T r' \<and> ring_queue r' = []
     | Some v \<Rightarrow> indices k (Suc H) T r' \<and> ring_queue r = v # ring_queue r')"
proof -
  define r1 where "r1 = (if head r = cached_tail r then r\<lparr>cached_tail := tail r\<rparr> else r)"
  have r1: "indices k H T r1" "slots r1 = slots r" "head r1 = head r" "ring_mask r1 = ring_mask r"
    "closed r1 = closed r" "ring_capacity r1 = ring_capacity r"
    using assms cached_tail_exact(3) [OF assms] by (simp_all add: r1_def)
  have pop: "try_pop nil r = (if head r = cached_tail r1 then (None, r1)
      else (Some (slots r1 ! unat (head r AND ring_mask r)),
            r1\<lparr>slots := (slots r1)[unat (head r AND ring_mask r) := nil], head := head r + 1,
               popped := popped r1 + 1\<rparr>))"
    unfolding r1_def try_pop_def Let_def by (rule refl)
  have test: "head r1 = cached_tail r1 \<longleftrightarrow> H = T"
    using cached_tail_exact(1,2) [OF assms] by (auto simp: r1_def)
  have queue1: "ring_queue r1 = ring_queue r"
    using ring_queue_indices [OF r1(1)] ring_queue_indices [OF assms] r1(2) by simp
  show ?thesis
  proof (cases "H = T")
    case True
    then have "try_pop nil r = (None, r1)" using test r1(3) pop by simp
    then show ?thesis using True r1 queue1 ring_queue_indices [OF assms] by simp
  next
    case False
    let ?i = "unat (head r AND ring_mask r)"
    let ?r' = "r1\<lparr>slots := (slots r1)[?i := nil], head := head r + 1, popped := popped r1 + 1\<rparr>"
    have pop: "try_pop nil r = (Some (slots r1 ! ?i), ?r')"
      using test r1(3) False pop by simp
    have "indices k (Suc H) T (r1\<lparr>head := head r1 + 1\<rparr>)"
      using test False by (intro indices_store_head r1(1)) simp
    then have ok: "indices k (Suc H) T ?r'" by (simp add: indices_def r1(3))
    have T: "H < T" "T \<le> H + 2 ^ k" "length (slots r1) = 2 ^ k" using r1(1) False by (auto simp: indices_def)
    have "ring_queue ?r' = map (\<lambda>i. (slots r1)[H mod 2 ^ k := nil] ! (i mod 2 ^ k)) [Suc H..<T]"
      using ring_queue_indices [OF ok] slot_of_head [OF assms] by simp
    also have "\<dots> = map (\<lambda>i. slots r1 ! (i mod 2 ^ k)) [Suc H..<T]"
      using T mod_distinct [of H _ "2 ^ k"] by (force simp: nth_list_update_if)
    finally have "ring_queue r = slots r1 ! ?i # ring_queue ?r'"
      using T ring_queue_indices [OF r1(1)] queue1 slot_of_head [OF assms] by (simp add: upt_conv_Cons)
    then show ?thesis using pop ok r1 by simp
  qed
qed

section \<open>The interface of a bounded FIFO\<close>

datatype 'a queue_op = Push_op 'a | Pop_op

locale bounded_fifo =
  fixes ok :: "'q \<Rightarrow> bool" and contents :: "'q \<Rightarrow> 'a list" and room :: "'q \<Rightarrow> nat"
    and push :: "'a \<Rightarrow> 'q \<Rightarrow> bool \<times> 'q" and pop :: "'q \<Rightarrow> 'a option \<times> 'q"
  assumes push_law: "ok q \<Longrightarrow> push v q = (done, q') \<Longrightarrow>
      ok q' \<and> room q' = room q \<and> (done \<longleftrightarrow> length (contents q) < room q) \<and>
      contents q' = (if done then contents q @ [v] else contents q)"
    and pop_law: "ok q \<Longrightarrow> pop q = (value, q') \<Longrightarrow>
      ok q' \<and> room q' = room q \<and>
      (case value of None \<Rightarrow> contents q = [] \<and> contents q' = [] | Some v \<Rightarrow> contents q = v # contents q')"
    and bounded: "ok q \<Longrightarrow> length (contents q) \<le> room q"
begin

fun run_ops :: "'a queue_op list \<Rightarrow> 'q \<Rightarrow> 'a list \<times> 'a list \<times> 'q" where
  "run_ops [] q = ([], [], q)"
| "run_ops (Push_op v # ops) q =
     (let (done, q1) = push v q; (ins, outs, q2) = run_ops ops q1
      in (if done then v # ins else ins, outs, q2))"
| "run_ops (Pop_op # ops) q =
     (let (value, q1) = pop q; (ins, outs, q2) = run_ops ops q1
      in (ins, (case value of None \<Rightarrow> outs | Some v \<Rightarrow> v # outs), q2))"

text \<open>What comes out, followed by what is still inside, is what was there and what went in.\<close>

lemma conservation:
  assumes "ok q" and "run_ops ops q = (ins, outs, q')"
  shows "ok q' \<and> outs @ contents q' = contents q @ ins \<and> length (contents q') \<le> room q"
  using assms
proof (induction ops arbitrary: q ins outs q')
  case Nil
  then show ?case using bounded by auto
next
  case (Cons opn ops)
  note IH = Cons.IH
  show ?case
  proof (cases opn)
    case (Push_op v)
    obtain flag q1 where p: "push v q = (flag, q1)" by fastforce
    obtain ins1 outs1 q2 where r: "run_ops ops q1 = (ins1, outs1, q2)" by (metis prod_cases3)
    show ?thesis using push_law [OF Cons.prems(1) p] IH [OF _ r] Cons.prems(2) Push_op p r
      by (auto split: if_splits)
  next
    case Pop_op
    obtain res q1 where p: "pop q = (res, q1)" by fastforce
    obtain ins1 outs1 q2 where r: "run_ops ops q1 = (ins1, outs1, q2)" by (metis prod_cases3)
    show ?thesis using pop_law [OF Cons.prems(1) p] IH [OF _ r] Cons.prems(2) Pop_op p r
      by (auto split: option.splits)
  qed
qed

end

interpretation ring_fifo: bounded_fifo ring_ok ring_queue "\<lambda>r. unat (ring_capacity r)" try_push "try_pop nil"
  for nil
proof
  fix q q' :: "'a spsc_ring" and v "done"
  assume "ring_ok q" and p: "try_push v q = (done, q')"
  then obtain k H T where i: "indices k H T q" by (auto simp: ring_ok_def)
  have "length (ring_queue q) = T - H" by (simp add: ring_queue_indices [OF i])
  moreover have "H \<le> T" using i by (simp add: indices_def)
  ultimately show "ring_ok q' \<and> unat (ring_capacity q') = unat (ring_capacity q) \<and>
      (done \<longleftrightarrow> length (ring_queue q) < unat (ring_capacity q)) \<and>
      ring_queue q' = (if done then ring_queue q @ [v] else ring_queue q)"
    using try_push_refines [OF i, of v] p ring_capacity_indices [OF i]
    by (auto simp: ring_ok_def split: if_splits)
next
  fix q q' :: "'a spsc_ring" and "value"
  assume "ring_ok q" and p: "try_pop nil q = (value, q')"
  then obtain k H T where i: "indices k H T q" by (auto simp: ring_ok_def)
  then show "ring_ok q' \<and> unat (ring_capacity q') = unat (ring_capacity q) \<and>
      (case value of None \<Rightarrow> ring_queue q = [] \<and> ring_queue q' = [] | Some v \<Rightarrow> ring_queue q = v # ring_queue q')"
    using try_pop_refines [OF i, of nil] p by (auto simp: ring_ok_def split: option.splits)
next
  fix q :: "'a spsc_ring"
  assume "ring_ok q"
  then obtain k H T where i: "indices k H T q" by (auto simp: ring_ok_def)
  have "length (ring_queue q) = T - H" by (simp add: ring_queue_indices [OF i])
  moreover have "T \<le> H + 2 ^ k" using i by (simp add: indices_def)
  ultimately show "length (ring_queue q) \<le> unat (ring_capacity q)"
    unfolding ring_capacity_indices [OF i] by linarith
qed

section \<open>One atomic access at a time\<close>

text \<open>
  The program counters. \<open>Some seen\<close> in a producer state is the epoch a blocking \<open>push\<close> loaded,
  \<open>None\<close> belongs to \<open>try_push\<close>. The consumer's mode says which call is running: \<open>try_pop\<close>
  on its own, inside the loop of \<open>pop\<close>, or the last attempt of \<open>pop\<close> once it has seen the ring
  closed.
\<close>

datatype 'a producer_pc =
    P_idle
  | P_epoch 'a
  | P_closed 'a u32
  | P_head 'a "u32 option"
  | P_reload 'a "u32 option"
  | P_write 'a
  | P_tail 'a
  | P_signal
  | P_notify
  | P_wait 'a u32
  | P_blocked 'a u32

datatype pop_mode = Try_pop | Pop_loop u32 | Pop_last

datatype 'a consumer_pc =
    C_idle
  | C_epoch
  | C_head pop_mode
  | C_reload pop_mode
  | C_read pop_mode
  | C_store pop_mode 'a
  | C_signal pop_mode 'a
  | C_notify pop_mode 'a
  | C_closed u32
  | C_wait u32
  | C_blocked u32
  | C_return pop_mode "'a option"

datatype closer_pc = L_idle | L_pushed | L_notify_pushed | L_popped | L_notify_popped | L_done

text \<open>
  \<open>accepted\<close> and \<open>taken\<close> record the values whose index store has happened, in order;
  \<open>accepted_at_close\<close> is the length of \<open>accepted\<close> when \<open>closed_\<close> was set. The code does not
  read them.
\<close>

record 'a spsc =
  mem :: "'a spsc_ring"
  ppc :: "'a producer_pc"
  cpc :: "'a consumer_pc"
  lpc :: closer_pc
  accepted :: "'a list"
  taken :: "'a list"
  accepted_at_close :: "nat option"

definition spsc_init :: "'a \<Rightarrow> u64 \<Rightarrow> 'a spsc" where
  "spsc_init nil min_capacity =
     \<lparr>mem = make_ring nil min_capacity, ppc = P_idle, cpc = C_idle, lpc = L_idle,
      accepted = [], taken = [], accepted_at_close = None\<rparr>"

definition wake_producer :: "'a producer_pc \<Rightarrow> 'a producer_pc" where
  "wake_producer pc = (case pc of P_blocked v seen \<Rightarrow> P_wait v seen | _ \<Rightarrow> pc)"

definition wake_consumer :: "'a consumer_pc \<Rightarrow> 'a consumer_pc" where
  "wake_consumer pc = (case pc of C_blocked seen \<Rightarrow> C_wait seen | _ \<Rightarrow> pc)"

text \<open>The next access of \<open>push\<close> and \<open>try_push\<close>.\<close>

definition producer_step :: "'a spsc \<Rightarrow> 'a spsc option" where
  "producer_step s =
     (let r = mem s in case ppc s of
        P_idle \<Rightarrow> None
      | P_epoch v \<Rightarrow> Some (s\<lparr>ppc := P_closed v (popped r)\<rparr>)
      | P_closed v seen \<Rightarrow> Some (s\<lparr>ppc := if closed r then P_idle else P_head v (Some seen)\<rparr>)
      | P_head v m \<Rightarrow>
          Some (s\<lparr>ppc := if tail r - cached_head r = ring_capacity r then P_reload v m else P_write v\<rparr>)
      | P_reload v m \<Rightarrow>
          Some (s\<lparr>mem := r\<lparr>cached_head := head r\<rparr>,
                  ppc := if tail r - head r = ring_capacity r
                         then (case m of None \<Rightarrow> P_idle | Some seen \<Rightarrow> P_wait v seen)
                         else P_write v\<rparr>)
      | P_write v \<Rightarrow>
          Some (s\<lparr>mem := r\<lparr>slots := (slots r)[unat (tail r AND ring_mask r) := v]\<rparr>, ppc := P_tail v\<rparr>)
      | P_tail v \<Rightarrow>
          Some (s\<lparr>mem := r\<lparr>tail := tail r + 1\<rparr>, ppc := P_signal, accepted := accepted s @ [v]\<rparr>)
      | P_signal \<Rightarrow> Some (s\<lparr>mem := r\<lparr>pushed := pushed r + 1\<rparr>, ppc := P_notify\<rparr>)
      | P_notify \<Rightarrow> Some (s\<lparr>cpc := wake_consumer (cpc s), ppc := P_idle\<rparr>)
      | P_wait v seen \<Rightarrow> Some (s\<lparr>ppc := if popped r = seen then P_blocked v seen else P_epoch v\<rparr>)
      | P_blocked v seen \<Rightarrow> None)"

text \<open>A call that found the ring empty returns, goes on to the closed test, or gives up.\<close>

definition after_empty :: "pop_mode \<Rightarrow> 'a consumer_pc" where
  "after_empty m = (case m of Pop_loop seen \<Rightarrow> C_closed seen | _ \<Rightarrow> C_return m None)"

definition consumer_step :: "'a \<Rightarrow> 'a spsc \<Rightarrow> 'a spsc option" where
  "consumer_step nil s =
     (let r = mem s in case cpc s of
        C_idle \<Rightarrow> None
      | C_epoch \<Rightarrow> Some (s\<lparr>cpc := C_head (Pop_loop (pushed r))\<rparr>)
      | C_head m \<Rightarrow> Some (s\<lparr>cpc := if head r = cached_tail r then C_reload m else C_read m\<rparr>)
      | C_reload m \<Rightarrow>
          Some (s\<lparr>mem := r\<lparr>cached_tail := tail r\<rparr>,
                  cpc := if head r = tail r then after_empty m else C_read m\<rparr>)
      | C_read m \<Rightarrow>
          (let i = unat (head r AND ring_mask r)
           in Some (s\<lparr>mem := r\<lparr>slots := (slots r)[i := nil]\<rparr>, cpc := C_store m (slots r ! i)\<rparr>))
      | C_store m v \<Rightarrow>
          Some (s\<lparr>mem := r\<lparr>head := head r + 1\<rparr>, cpc := C_signal m v, taken := taken s @ [v]\<rparr>)
      | C_signal m v \<Rightarrow> Some (s\<lparr>mem := r\<lparr>popped := popped r + 1\<rparr>, cpc := C_notify m v\<rparr>)
      | C_notify m v \<Rightarrow> Some (s\<lparr>ppc := wake_producer (ppc s), cpc := C_return m (Some v)\<rparr>)
      | C_closed seen \<Rightarrow> Some (s\<lparr>cpc := if closed r then C_head Pop_last else C_wait seen\<rparr>)
      | C_wait seen \<Rightarrow> Some (s\<lparr>cpc := if pushed r = seen then C_blocked seen else C_epoch\<rparr>)
      | C_blocked seen \<Rightarrow> None
      | C_return m res \<Rightarrow> Some (s\<lparr>cpc := C_idle\<rparr>))"

definition closer_step :: "'a spsc \<Rightarrow> 'a spsc option" where
  "closer_step s =
     (let r = mem s in case lpc s of
        L_idle \<Rightarrow> Some (s\<lparr>mem := r\<lparr>closed := True\<rparr>, lpc := L_pushed,
                         accepted_at_close := Some (length (accepted s))\<rparr>)
      | L_pushed \<Rightarrow> Some (s\<lparr>mem := r\<lparr>pushed := pushed r + 1\<rparr>, lpc := L_notify_pushed\<rparr>)
      | L_notify_pushed \<Rightarrow> Some (s\<lparr>cpc := wake_consumer (cpc s), lpc := L_popped\<rparr>)
      | L_popped \<Rightarrow> Some (s\<lparr>mem := r\<lparr>popped := popped r + 1\<rparr>, lpc := L_notify_popped\<rparr>)
      | L_notify_popped \<Rightarrow> Some (s\<lparr>ppc := wake_producer (ppc s), lpc := L_done\<rparr>)
      | L_done \<Rightarrow> None)"

inductive spsc_step :: "'a \<Rightarrow> 'a spsc \<Rightarrow> 'a spsc \<Rightarrow> bool" for nil where
  producer: "producer_step s = Some s' \<Longrightarrow> spsc_step nil s s'"
| consumer: "consumer_step nil s = Some s' \<Longrightarrow> spsc_step nil s s'"
| closer: "closer_step s = Some s' \<Longrightarrow> spsc_step nil s s'"
| call_push: "ppc s = P_idle \<Longrightarrow> spsc_step nil s (s\<lparr>ppc := P_epoch v\<rparr>)"
| call_try_push: "ppc s = P_idle \<Longrightarrow> spsc_step nil s (s\<lparr>ppc := P_head v None\<rparr>)"
| call_pop: "cpc s = C_idle \<Longrightarrow> spsc_step nil s (s\<lparr>cpc := C_epoch\<rparr>)"
| call_try_pop: "cpc s = C_idle \<Longrightarrow> spsc_step nil s (s\<lparr>cpc := C_head Try_pop\<rparr>)"
| spurious_producer: "spsc_step nil s (s\<lparr>ppc := wake_producer (ppc s)\<rparr>)"
| spurious_consumer: "spsc_step nil s (s\<lparr>cpc := wake_consumer (cpc s)\<rparr>)"

definition reachable :: "'a \<Rightarrow> u64 \<Rightarrow> 'a spsc \<Rightarrow> bool" where
  "reachable nil n s \<longleftrightarrow> (spsc_step nil)\<^sup>*\<^sup>* (spsc_init nil n) s"

section \<open>The invariant\<close>

text \<open>
  \<open>room\<close>: the producer's last look at the consumer's index showed a free slot; \<open>filled\<close> is what
  the slot of the next index holds. \<open>avail\<close>: the consumer's last look showed an element;
  \<open>oldest\<close> is the oldest element accepted and not taken.
\<close>

fun producer_inv :: "bool \<Rightarrow> 'a \<Rightarrow> 'a producer_pc \<Rightarrow> bool" where
  "producer_inv room filled (P_write v) = room"
| "producer_inv room filled (P_tail v) = (room \<and> filled = v)"
| "producer_inv room filled pc = True"

fun consumer_inv :: "bool \<Rightarrow> 'a \<Rightarrow> 'a list \<Rightarrow> 'a consumer_pc \<Rightarrow> bool" where
  "consumer_inv avail oldest tk (C_read m) = avail"
| "consumer_inv avail oldest tk (C_store m v) = (avail \<and> v = oldest)"
| "consumer_inv avail oldest tk (C_signal m v) = (tk \<noteq> [] \<and> v = last tk)"
| "consumer_inv avail oldest tk (C_notify m v) = (tk \<noteq> [] \<and> v = last tk)"
| "consumer_inv avail oldest tk (C_return m (Some v)) = (tk \<noteq> [] \<and> v = last tk)"
| "consumer_inv avail oldest tk pc = True"

fun reading :: "'a consumer_pc \<Rightarrow> bool" where
  "reading (C_store m v) = True"
| "reading pc = False"

definition sees_room :: "'a spsc_ring \<Rightarrow> bool" where
  "sees_room r \<longleftrightarrow> tail r - cached_head r \<noteq> ring_capacity r"

definition sees_element :: "'a spsc_ring \<Rightarrow> bool" where
  "sees_element r \<longleftrightarrow> head r \<noteq> cached_tail r"

definition content_inv :: "nat \<Rightarrow> 'a spsc \<Rightarrow> bool" where
  "content_inv k s \<longleftrightarrow>
     (let H = length (taken s); T = length (accepted s); r = mem s
      in indices k H T r \<and> taken s = take H (accepted s) \<and>
         (\<forall>i. H \<le> i \<longrightarrow> (reading (cpc s) \<longrightarrow> H < i) \<longrightarrow> i < T \<longrightarrow>
            slots r ! (i mod 2 ^ k) = accepted s ! i) \<and>
         producer_inv (sees_room r) (slots r ! (T mod 2 ^ k)) (ppc s) \<and>
         consumer_inv (sees_element r) (accepted s ! H) (taken s) (cpc s))"

lemma content_init:
  assumes "unat n \<le> 2 ^ 63"
  shows "\<exists>k. content_inv k (spsc_init nil n) \<and> bit_ceil (unat (if n = 0 then 1 else n)) = 2 ^ k"
  using make_ring_indices [OF assms, of nil]
  by (auto simp: content_inv_def spsc_init_def)

lemma wake_inv [simp]:
  "producer_inv room filled (wake_producer p) = producer_inv room filled p"
  "consumer_inv avail oldest tk (wake_consumer c) = consumer_inv avail oldest tk c"
  "reading (wake_consumer c) = reading c"
  by (cases p; simp add: wake_producer_def) (cases c; simp add: wake_consumer_def)+

lemma producer_inv_mono: "producer_inv room filled p \<Longrightarrow> (room \<Longrightarrow> room') \<Longrightarrow>
    (room \<Longrightarrow> filled' = filled) \<Longrightarrow> producer_inv room' filled' p"
  by (cases p) auto

lemma consumer_inv_mono: "consumer_inv avail oldest tk c \<Longrightarrow> (avail \<Longrightarrow> avail') \<Longrightarrow>
    (avail \<Longrightarrow> oldest' = oldest) \<Longrightarrow> consumer_inv avail' oldest' tk c"
  by (induction avail oldest tk c rule: consumer_inv.induct) auto

lemma content_producer:
  assumes inv: "content_inv k s" and step: "producer_step s = Some s'"
  shows "content_inv k s'"
proof -
  let ?r = "mem s" and ?H = "length (taken s)" and ?T = "length (accepted s)"
  note I = inv [unfolded content_inv_def Let_def]
  have i: "indices k ?H ?T ?r" and c: "consumer_inv (sees_element ?r) (accepted s ! ?H) (taken s) (cpc s)"
    and p: "producer_inv (sees_room ?r) (slots ?r ! (?T mod 2 ^ k)) (ppc s)" using I by blast+
  have HT: "?H \<le> ?T" "?T \<le> ?H + 2 ^ k" "length (slots ?r) = 2 ^ k" using i by (auto simp: indices_def)
  have room: "sees_room ?r \<Longrightarrow> ?T < ?H + 2 ^ k" and elem: "sees_element ?r \<Longrightarrow> ?H < ?T"
    using cached_head_exact(1) [OF i] cached_tail_exact(1) [OF i] by (auto simp: sees_room_def sees_element_def)
  show ?thesis
  proof (cases "ppc s")
    case (P_reload v m)
    have *: "sees_element (?r\<lparr>cached_head := head ?r\<rparr>) = sees_element ?r"
      "sees_room (?r\<lparr>cached_head := head ?r\<rparr>) \<longleftrightarrow> tail ?r - head ?r \<noteq> ring_capacity ?r"
      by (simp_all add: sees_element_def sees_room_def)
    show ?thesis using I step P_reload cached_head_exact(3) [OF i]
      by (auto simp: content_inv_def producer_step_def Let_def * split: option.splits if_splits)
  next
    case (P_write v)
    have "?T mod 2 ^ k \<noteq> j mod 2 ^ k" if "?H \<le> j" "j < ?T" for j
      using that room p P_write mod_distinct [of j ?T "2 ^ k"] by force
    then show ?thesis using I step P_write HT slot_of_tail [OF i]
      by (auto simp: content_inv_def producer_step_def Let_def sees_room_def sees_element_def nth_list_update_if)
  next
    case (P_tail v)
    then have *: "indices k ?H (Suc ?T) (?r\<lparr>tail := tail ?r + 1\<rparr>)"
      using p by (intro indices_store_tail i) (simp add: sees_room_def)
    have "consumer_inv (sees_element ?r) ((accepted s @ [v]) ! ?H) (taken s) (cpc s)"
      by (rule consumer_inv_mono [OF c]) (use elem in \<open>auto simp: nth_append\<close>)
    then show ?thesis using I step P_tail HT *
      by (auto simp: content_inv_def producer_step_def Let_def sees_element_def nth_append less_Suc_eq)
  qed (use I step in \<open>auto simp: content_inv_def producer_step_def Let_def sees_room_def sees_element_def
         split: if_splits\<close>)
qed

lemma content_consumer:
  assumes inv: "content_inv k s" and step: "consumer_step nil s = Some s'"
  shows "content_inv k s'"
proof -
  let ?r = "mem s" and ?H = "length (taken s)" and ?T = "length (accepted s)"
  note I = inv [unfolded content_inv_def Let_def]
  have i: "indices k ?H ?T ?r" and c: "consumer_inv (sees_element ?r) (accepted s ! ?H) (taken s) (cpc s)"
    and p: "producer_inv (sees_room ?r) (slots ?r ! (?T mod 2 ^ k)) (ppc s)" using I by blast+
  have HT: "?H \<le> ?T" "?T \<le> ?H + 2 ^ k" "length (slots ?r) = 2 ^ k" using i by (auto simp: indices_def)
  have room: "sees_room ?r \<Longrightarrow> ?T < ?H + 2 ^ k" and elem: "sees_element ?r \<Longrightarrow> ?H < ?T"
    using cached_head_exact(1) [OF i] cached_tail_exact(1) [OF i] by (auto simp: sees_room_def sees_element_def)
  show ?thesis
  proof (cases "cpc s")
    case (C_reload m)
    have *: "sees_room (?r\<lparr>cached_tail := tail ?r\<rparr>) = sees_room ?r"
      "sees_element (?r\<lparr>cached_tail := tail ?r\<rparr>) \<longleftrightarrow> head ?r \<noteq> tail ?r"
      by (simp_all add: sees_element_def sees_room_def)
    show ?thesis using I step C_reload cached_tail_exact(3) [OF i]
      by (auto simp: content_inv_def consumer_step_def Let_def after_empty_def * split: pop_mode.splits if_splits)
  next
    case (C_read m)
    then have "?H < ?T" using c elem by simp
    moreover have "?H mod 2 ^ k \<noteq> j mod 2 ^ k" if "?H < j" "j < ?T" for j
      using that HT mod_distinct [of ?H j "2 ^ k"] by force
    moreover have "?H mod 2 ^ k \<noteq> ?T mod 2 ^ k" if "sees_room ?r"
      using \<open>?H < ?T\<close> room [OF that] by (intro mod_distinct)
    then have "producer_inv (sees_room ?r) ((slots ?r)[?H mod 2 ^ k := nil] ! (?T mod 2 ^ k)) (ppc s)"
      by (intro producer_inv_mono [OF p]) auto
    ultimately show ?thesis using I step C_read HT slot_of_head [OF i]
      by (auto simp: content_inv_def consumer_step_def Let_def sees_room_def sees_element_def nth_list_update_if)
  next
    case (C_store m v)
    then have *: "indices k (Suc ?H) ?T (?r\<lparr>head := head ?r + 1\<rparr>)"
      using c by (intro indices_store_head i) (simp add: sees_element_def)
    then have "?H < ?T" by (simp add: indices_def)
    then have "take (Suc ?H) (accepted s) = taken s @ [v]"
      using I c C_store by (simp add: take_Suc_conv_app_nth)
    with * show ?thesis using I step C_store
      by (auto simp: content_inv_def consumer_step_def Let_def sees_room_def)
  qed (use I step in \<open>auto simp: content_inv_def consumer_step_def Let_def sees_room_def sees_element_def
         split: if_splits\<close>)
qed

lemma content_step:
  assumes "spsc_step nil s s'" and "content_inv k s"
  shows "content_inv k s'"
  using assms
proof cases
  case producer
  with assms(2) show ?thesis by (rule content_producer)
next
  case consumer
  with assms(2) show ?thesis by (rule content_consumer)
next
  case closer
  then show ?thesis using assms(2)
    by (auto simp: content_inv_def closer_step_def sees_room_def sees_element_def Let_def split: closer_pc.splits)
qed (auto simp: content_inv_def Let_def)

section \<open>Wake-ups\<close>

fun producer_seen :: "'a producer_pc \<Rightarrow> u32 option" where
  "producer_seen (P_closed v e) = Some e"
| "producer_seen (P_head v m) = m"
| "producer_seen (P_reload v m) = m"
| "producer_seen (P_wait v e) = Some e"
| "producer_seen (P_blocked v e) = Some e"
| "producer_seen pc = None"

fun producer_flags :: "'a producer_pc \<Rightarrow> waiter_flags" where
  "producer_flags (P_head v m) = (True, False, False)"
| "producer_flags (P_reload v m) = (True, False, False)"
| "producer_flags (P_wait v e) = (True, True, False)"
| "producer_flags (P_blocked v e) = (True, True, True)"
| "producer_flags pc = (False, False, False)"

fun consumer_seen :: "'a consumer_pc \<Rightarrow> u32 option" where
  "consumer_seen (C_head (Pop_loop e)) = Some e"
| "consumer_seen (C_reload (Pop_loop e)) = Some e"
| "consumer_seen (C_closed e) = Some e"
| "consumer_seen (C_wait e) = Some e"
| "consumer_seen (C_blocked e) = Some e"
| "consumer_seen pc = None"

fun consumer_flags :: "'a consumer_pc \<Rightarrow> waiter_flags" where
  "consumer_flags (C_closed e) = (False, True, False)"
| "consumer_flags (C_wait e) = (True, True, False)"
| "consumer_flags (C_blocked e) = (True, True, True)"
| "consumer_flags pc = (False, False, False)"

definition signalling_pop :: "'a spsc \<Rightarrow> bool" where
  "signalling_pop s \<longleftrightarrow> (case cpc s of C_signal m v \<Rightarrow> True | _ \<Rightarrow> False)"

definition notifying_pop :: "'a spsc \<Rightarrow> bool" where
  "notifying_pop s \<longleftrightarrow> (case cpc s of C_notify m v \<Rightarrow> True | _ \<Rightarrow> False)"

definition pop_signals :: "'a spsc \<Rightarrow> nat" where
  "pop_signals s = length (taken s) - (if signalling_pop s then 1 else 0) +
     (if lpc s \<in> {L_notify_popped, L_done} then 1 else 0)"

definition push_signals :: "'a spsc \<Rightarrow> nat" where
  "push_signals s = length (accepted s) - (if ppc s = P_signal then 1 else 0) +
     (if lpc s \<in> {L_idle, L_pushed} then 0 else 1)"

definition producer_wake :: "nat \<Rightarrow> 'a spsc \<Rightarrow> bool" where
  "producer_wake k s \<longleftrightarrow>
     waiter_inv (producer_seen (ppc s)) (producer_flags (ppc s))
       (length (accepted s) - (2 ^ k + 1)) (pop_signals s)
       (length (accepted s) = length (taken s) + 2 ^ k \<or> signalling_pop s)
       (lpc s \<in> {L_idle, L_pushed, L_notify_pushed, L_popped})
       (notifying_pop s \<or> lpc s = L_notify_popped)"

definition consumer_wake :: "'a spsc \<Rightarrow> bool" where
  "consumer_wake s \<longleftrightarrow>
     waiter_inv (consumer_seen (cpc s)) (consumer_flags (cpc s))
       (length (taken s) - 1) (push_signals s)
       (length (accepted s) = length (taken s) \<or> ppc s = P_signal)
       (lpc s \<in> {L_idle, L_pushed})
       (ppc s = P_notify \<or> lpc s = L_notify_pushed)"

definition signal_inv :: "nat \<Rightarrow> 'a spsc \<Rightarrow> bool" where
  "signal_inv k s \<longleftrightarrow> content_inv k s \<and>
     popped (mem s) = of_nat (pop_signals s) \<and> pushed (mem s) = of_nat (push_signals s) \<and>
     (closed (mem s) \<longleftrightarrow> lpc s \<noteq> L_idle) \<and> (ppc s = P_signal \<longrightarrow> accepted s \<noteq> []) \<and>
     producer_wake k s \<and> consumer_wake s"

lemma pop_signals_frame [simp]:
  "pop_signals (s\<lparr>ppc := p\<rparr>) = pop_signals s" "pop_signals (s\<lparr>mem := r\<rparr>) = pop_signals s"
  "pop_signals (s\<lparr>accepted := xs\<rparr>) = pop_signals s"
  "signalling_pop (s\<lparr>ppc := p\<rparr>) = signalling_pop s" "signalling_pop (s\<lparr>mem := r\<rparr>) = signalling_pop s"
  "signalling_pop (s\<lparr>accepted := xs\<rparr>) = signalling_pop s" "signalling_pop (s\<lparr>lpc := l\<rparr>) = signalling_pop s"
  "signalling_pop (s\<lparr>taken := ys\<rparr>) = signalling_pop s"
  "signalling_pop (s\<lparr>accepted_at_close := n\<rparr>) = signalling_pop s"
  "notifying_pop (s\<lparr>ppc := p\<rparr>) = notifying_pop s" "notifying_pop (s\<lparr>mem := r\<rparr>) = notifying_pop s"
  "notifying_pop (s\<lparr>accepted := xs\<rparr>) = notifying_pop s" "notifying_pop (s\<lparr>lpc := l\<rparr>) = notifying_pop s"
  "notifying_pop (s\<lparr>taken := ys\<rparr>) = notifying_pop s"
  "notifying_pop (s\<lparr>accepted_at_close := n\<rparr>) = notifying_pop s"
  by (simp_all add: pop_signals_def signalling_pop_def notifying_pop_def)

lemma push_signals_frame [simp]:
  "push_signals (s\<lparr>cpc := c\<rparr>) = push_signals s" "push_signals (s\<lparr>mem := r\<rparr>) = push_signals s"
  "push_signals (s\<lparr>taken := xs\<rparr>) = push_signals s"
  by (simp_all add: push_signals_def)

lemma wake_flags [simp]:
  "producer_seen (wake_producer p) = producer_seen p"
  "producer_flags (wake_producer p) = (fst (producer_flags p), fst (snd (producer_flags p)), False)"
  "consumer_seen (wake_consumer c) = consumer_seen c"
  "consumer_flags (wake_consumer c) = (fst (consumer_flags c), fst (snd (consumer_flags c)), False)"
  by (cases p; simp add: wake_producer_def; fail | cases c; simp add: wake_consumer_def; fail)+

lemma wake_pc [simp]:
  "wake_producer p = P_signal \<longleftrightarrow> p = P_signal" "wake_producer p = P_notify \<longleftrightarrow> p = P_notify"
  by (auto simp: wake_producer_def split: producer_pc.splits)

lemma wake_signalling [simp]:
  "signalling_pop (s\<lparr>cpc := wake_consumer (cpc s)\<rparr>) = signalling_pop s"
  "notifying_pop (s\<lparr>cpc := wake_consumer (cpc s)\<rparr>) = notifying_pop s"
  "pop_signals (s\<lparr>cpc := wake_consumer (cpc s)\<rparr>) = pop_signals s"
  "push_signals (s\<lparr>ppc := wake_producer (ppc s)\<rparr>) = push_signals s"
  by (simp_all add: pop_signals_def push_signals_def signalling_pop_def notifying_pop_def wake_consumer_def
      split: consumer_pc.splits)

lemma signal_bounds:
  assumes "signal_inv k s"
  shows "length (taken s) \<le> length (accepted s)" and "length (accepted s) \<le> length (taken s) + 2 ^ k"
    and "length (accepted s) - (2 ^ k + 1) \<le> pop_signals s"
    and "length (taken s) - 1 \<le> push_signals s"
    and "pop_signals s \<le> length (taken s) + 1" and "push_signals s \<le> length (accepted s) + 1"
    and "signalling_pop s \<Longrightarrow> taken s \<noteq> []"
proof -
  have i: "indices k (length (taken s)) (length (accepted s)) (mem s)"
    and c: "consumer_inv (sees_element (mem s)) (accepted s ! length (taken s)) (taken s) (cpc s)"
    using assms by (auto simp: signal_inv_def content_inv_def Let_def)
  from i show "length (taken s) \<le> length (accepted s)" "length (accepted s) \<le> length (taken s) + 2 ^ k"
    by (auto simp: indices_def)
  then show "length (accepted s) - (2 ^ k + 1) \<le> pop_signals s"
    "length (taken s) - 1 \<le> push_signals s"
    "pop_signals s \<le> length (taken s) + 1" "push_signals s \<le> length (accepted s) + 1"
    by (auto simp: pop_signals_def push_signals_def)
  show "taken s \<noteq> []" if "signalling_pop s"
    using that c by (auto simp: signalling_pop_def split: consumer_pc.splits)
qed

lemma small_capacity: "k < 32 \<Longrightarrow> (2::nat) ^ k + 2 < 2 ^ 32"
proof -
  assume "k < 32"
  then have "(2::nat) ^ k \<le> 2 ^ 31" by (intro power_increasing) auto
  then show ?thesis by simp
qed

lemma producer_side:
  assumes inv: "signal_inv k s" and step: "producer_step s = Some s'" and k: "k < 32"
  shows "producer_wake k s'"
proof -
  note b = signal_bounds [OF inv]
  have w: "producer_wake k s" and p: "popped (mem s) = of_nat (pop_signals s)"
    and cl: "closed (mem s) \<longleftrightarrow> lpc s \<noteq> L_idle"
    and i: "indices k (length (taken s)) (length (accepted s)) (mem s)"
    using inv by (auto simp: signal_inv_def content_inv_def Let_def)
  have no_wrap: "pop_signals s < (length (accepted s) - Suc (2 ^ k)) + 4294967296"
    using b(1,5) small_capacity [OF k] by simp
  show ?thesis
  proof (cases "ppc s")
    case (P_epoch v)
    then have "s' = s\<lparr>ppc := P_closed v (of_nat (pop_signals s))\<rparr>"
      using step p by (simp add: producer_step_def)
    then show ?thesis using waiter_load [OF b(3)] by (simp add: producer_wake_def)
  next
    case (P_closed v e)
    then show ?thesis using step w cl
      by (auto simp: producer_step_def Let_def producer_wake_def intro: waiter_tested [of _ False False])
  next
    case (P_reload v m)
    then show ?thesis using step w cached_head_exact(2) [OF i]
      by (auto simp: producer_step_def Let_def producer_wake_def split: option.splits if_splits
          elim!: waiter_tested)
  next
    case (P_wait v e)
    show ?thesis
    proof (cases "popped (mem s) = e")
      case True
      then have "s' = s\<lparr>ppc := P_blocked v e\<rparr>" using P_wait step by (simp add: producer_step_def)
      then show ?thesis
        using w P_wait True p by (auto simp: producer_wake_def intro!: waiter_parks [OF _ _ no_wrap])
    qed (use P_wait step in \<open>auto simp: producer_step_def Let_def producer_wake_def\<close>)
  qed (use step w in \<open>auto simp: producer_step_def Let_def producer_wake_def\<close>)
qed

lemma producer_keeps_consumer:
  assumes inv: "signal_inv k s" and step: "producer_step s = Some s'"
  shows "consumer_wake s'"
proof -
  have w: "consumer_wake s" and P: "ppc s = P_signal \<longrightarrow> accepted s \<noteq> []"
    using inv by (auto simp: signal_inv_def)
  show ?thesis
  proof (cases "ppc s")
    case (P_tail v)
    with step obtain r where s': "s' = s\<lparr>mem := r, ppc := P_signal, accepted := accepted s @ [v]\<rparr>"
      by (auto simp: producer_step_def Let_def)
    moreover have "push_signals s' = push_signals s" using P_tail by (simp add: s' push_signals_def)
    ultimately show ?thesis using w P_tail by (auto simp: consumer_wake_def elim!: waiter_mono)
  next
    case P_signal
    with step obtain r where s': "s' = s\<lparr>mem := r, ppc := P_notify\<rparr>"
      by (auto simp: producer_step_def Let_def)
    moreover have "push_signals s' = Suc (push_signals s)"
      using P_signal P by (auto simp: s' push_signals_def)
    ultimately show ?thesis using w P_signal by (auto simp: consumer_wake_def elim!: waiter_mono)
  next
    case P_notify
    with step have s': "s' = s\<lparr>cpc := wake_consumer (cpc s), ppc := P_idle\<rparr>"
      by (auto simp: producer_step_def Let_def)
    moreover have "push_signals s' = push_signals s" using P_notify by (simp add: s' push_signals_def)
    ultimately show ?thesis using w P_notify by (auto simp: consumer_wake_def intro: waiter_woken_flags)
  next
    case (P_reload v m)
    with step obtain r p where s': "s' = s\<lparr>mem := r, ppc := p\<rparr>" "p \<noteq> P_signal" "p \<noteq> P_notify"
      by (auto simp: producer_step_def Let_def split: option.splits)
    moreover have "push_signals s' = push_signals s" using P_reload s' by (simp add: push_signals_def)
    ultimately show ?thesis using w P_reload by (auto simp: consumer_wake_def)
  qed (use step w in \<open>auto simp: producer_step_def Let_def consumer_wake_def push_signals_def
         split: if_splits\<close>)
qed

lemma consumer_side:
  assumes inv: "signal_inv k s" and step: "consumer_step nil s = Some s'" and k: "k < 32"
  shows "consumer_wake s'"
proof -
  note b = signal_bounds [OF inv]
  have w: "consumer_wake s" and p: "pushed (mem s) = of_nat (push_signals s)"
    and cl: "closed (mem s) \<longleftrightarrow> lpc s \<noteq> L_idle"
    and i: "indices k (length (taken s)) (length (accepted s)) (mem s)"
    using inv by (auto simp: signal_inv_def content_inv_def Let_def)
  have no_wrap: "push_signals s < (length (taken s) - Suc 0) + 4294967296"
    using b(2,6) small_capacity [OF k] by simp
  show ?thesis
  proof (cases "cpc s")
    case C_epoch
    then have "s' = s\<lparr>cpc := C_head (Pop_loop (of_nat (push_signals s)))\<rparr>"
      using step p by (simp add: consumer_step_def)
    then show ?thesis using waiter_load [OF b(4)] by (simp add: consumer_wake_def)
  next
    case (C_head m)
    then show ?thesis using step w
      by (cases m) (auto simp: consumer_step_def Let_def consumer_wake_def)
  next
    case (C_closed e)
    then show ?thesis using step w cl
      by (auto simp: consumer_step_def Let_def consumer_wake_def intro: waiter_tested [of _ False True])
  next
    case (C_reload m)
    then show ?thesis using step w cached_tail_exact(2) [OF i]
      by (cases m) (auto simp: consumer_step_def Let_def consumer_wake_def after_empty_def
          intro: waiter_tested [of _ False False])
  next
    case (C_wait e)
    show ?thesis
    proof (cases "pushed (mem s) = e")
      case True
      then have "s' = s\<lparr>cpc := C_blocked e\<rparr>" using C_wait step by (simp add: consumer_step_def)
      then show ?thesis
        using w C_wait True p by (auto simp: consumer_wake_def intro!: waiter_parks [OF _ _ no_wrap])
    qed (use C_wait step in \<open>auto simp: consumer_step_def Let_def consumer_wake_def\<close>)
  qed (use step w in \<open>auto simp: consumer_step_def Let_def consumer_wake_def\<close>)
qed

lemma consumer_keeps_producer:
  assumes inv: "signal_inv k s" and step: "consumer_step nil s = Some s'"
  shows "producer_wake k s'"
proof -
  have w: "producer_wake k s" using inv by (auto simp: signal_inv_def)
  note taken = signal_bounds(7) [OF inv]
  show ?thesis
  proof (cases "cpc s")
    case (C_store m v)
    with step obtain r where s': "s' = s\<lparr>mem := r, cpc := C_signal m v, taken := taken s @ [v]\<rparr>"
      by (auto simp: consumer_step_def Let_def)
    moreover have "pop_signals s' = pop_signals s" "signalling_pop s'" "\<not> notifying_pop s"
      using C_store by (simp_all add: s' pop_signals_def signalling_pop_def notifying_pop_def)
    ultimately show ?thesis using w by (auto simp: producer_wake_def elim!: waiter_mono)
  next
    case (C_signal m v)
    with step obtain r where s': "s' = s\<lparr>mem := r, cpc := C_notify m v\<rparr>"
      by (auto simp: consumer_step_def Let_def)
    moreover have "taken s \<noteq> []" using C_signal taken by (simp add: signalling_pop_def)
    then have "pop_signals s' = Suc (pop_signals s)" "notifying_pop s'"
      using C_signal by (auto simp: s' pop_signals_def signalling_pop_def notifying_pop_def)
    ultimately show ?thesis using w by (auto simp: producer_wake_def elim!: waiter_mono)
  next
    case (C_notify m v)
    with step have s': "s' = s\<lparr>ppc := wake_producer (ppc s), cpc := C_return m (Some v)\<rparr>"
      by (auto simp: consumer_step_def Let_def)
    moreover have "pop_signals s' = pop_signals s" "\<not> signalling_pop s'" "\<not> signalling_pop s"
      using C_notify by (simp_all add: s' pop_signals_def signalling_pop_def)
    ultimately show ?thesis using w by (auto simp: producer_wake_def intro: waiter_woken_flags)
  next
    case (C_reload m)
    with step obtain r c where s': "s' = s\<lparr>mem := r, cpc := c\<rparr>" "\<And>m v. c \<noteq> C_signal m v" "\<And>m v. c \<noteq> C_notify m v"
      by (auto simp: consumer_step_def Let_def after_empty_def split: pop_mode.splits)
    moreover have "signalling_pop s' = signalling_pop s" "notifying_pop s' = notifying_pop s"
      "pop_signals s' = pop_signals s" using C_reload s'
      by (auto simp: pop_signals_def signalling_pop_def notifying_pop_def split: consumer_pc.splits)
    ultimately show ?thesis using w by (simp add: producer_wake_def)
  qed (use step w in \<open>auto simp: consumer_step_def Let_def producer_wake_def pop_signals_def
         signalling_pop_def notifying_pop_def split: if_splits\<close>)
qed

lemma closer_keeps_wakes:
  assumes inv: "signal_inv k s" and step: "closer_step s = Some s'"
  shows "producer_wake k s' \<and> consumer_wake s'"
proof -
  have w: "producer_wake k s" "consumer_wake s" using inv by (auto simp: signal_inv_def)
  show ?thesis
  proof (cases "lpc s")
    case L_pushed
    with step obtain r where s': "s' = s\<lparr>mem := r, lpc := L_notify_pushed\<rparr>"
      by (auto simp: closer_step_def Let_def)
    moreover have "push_signals s' = Suc (push_signals s)" "pop_signals s' = pop_signals s"
      using L_pushed by (simp_all add: s' push_signals_def pop_signals_def)
    ultimately show ?thesis using w L_pushed
      by (auto simp: producer_wake_def consumer_wake_def elim!: waiter_mono)
  next
    case L_notify_pushed
    with step have s': "s' = s\<lparr>cpc := wake_consumer (cpc s), lpc := L_popped\<rparr>"
      by (auto simp: closer_step_def Let_def)
    moreover have "push_signals s' = push_signals s" "pop_signals s' = pop_signals (s\<lparr>cpc := wake_consumer (cpc s)\<rparr>)"
      using L_notify_pushed by (simp_all add: s' push_signals_def pop_signals_def)
    ultimately show ?thesis using w L_notify_pushed
      by (auto simp: producer_wake_def consumer_wake_def intro: waiter_woken_flags)
  next
    case L_popped
    with step obtain r where s': "s' = s\<lparr>mem := r, lpc := L_notify_popped\<rparr>"
      by (auto simp: closer_step_def Let_def)
    moreover have "push_signals s' = push_signals s" "pop_signals s' = Suc (pop_signals s)"
      using L_popped by (simp_all add: s' push_signals_def pop_signals_def)
    ultimately show ?thesis using w L_popped
      by (auto simp: producer_wake_def consumer_wake_def elim!: waiter_mono)
  next
    case L_notify_popped
    with step have s': "s' = s\<lparr>ppc := wake_producer (ppc s), lpc := L_done\<rparr>"
      by (auto simp: closer_step_def Let_def)
    moreover have "push_signals s' = push_signals (s\<lparr>ppc := wake_producer (ppc s)\<rparr>)" "pop_signals s' = pop_signals s"
      using L_notify_popped by (simp_all add: s' push_signals_def pop_signals_def)
    ultimately show ?thesis using w L_notify_popped
      by (auto simp: producer_wake_def consumer_wake_def intro: waiter_woken_flags)
  qed (use step w in \<open>auto simp: closer_step_def Let_def producer_wake_def consumer_wake_def
         push_signals_def pop_signals_def\<close>)
qed

definition counts_ok :: "'a spsc \<Rightarrow> bool" where
  "counts_ok s \<longleftrightarrow> popped (mem s) = of_nat (pop_signals s) \<and> pushed (mem s) = of_nat (push_signals s) \<and>
     (closed (mem s) \<longleftrightarrow> lpc s \<noteq> L_idle) \<and> (ppc s = P_signal \<longrightarrow> accepted s \<noteq> [])"

lemma counts_frame:
  assumes "counts_ok s" and "popped (mem s') = popped (mem s)" and "pushed (mem s') = pushed (mem s)"
    and "closed (mem s') = closed (mem s)" and "lpc s' = lpc s" and "taken s' = taken s"
    and "accepted s' = accepted s" and "signalling_pop s' = signalling_pop s"
    and "ppc s' = P_signal \<longleftrightarrow> ppc s = P_signal"
  shows "counts_ok s'"
  using assms unfolding counts_ok_def pop_signals_def push_signals_def by simp

lemma counts_producer:
  assumes "counts_ok s" and step: "producer_step s = Some s'"
  shows "counts_ok s'"
proof (cases "ppc s")
  case (P_tail v)
  then obtain r where s': "s' = s\<lparr>mem := r, ppc := P_signal, accepted := accepted s @ [v]\<rparr>"
    "popped r = popped (mem s)" "pushed r = pushed (mem s)" "closed r = closed (mem s)"
    using step by (auto simp: producer_step_def Let_def)
  moreover have "push_signals s' = push_signals s" using P_tail by (simp add: s' push_signals_def)
  ultimately show ?thesis using assms by (simp add: counts_ok_def)
next
  case P_signal
  then obtain r where s': "s' = s\<lparr>mem := r, ppc := P_notify\<rparr>"
    "popped r = popped (mem s)" "pushed r = pushed (mem s) + 1" "closed r = closed (mem s)"
    using step by (auto simp: producer_step_def Let_def)
  moreover have "push_signals s' = Suc (push_signals s)"
    using P_signal assms(1) by (cases "accepted s") (simp_all add: s' push_signals_def counts_ok_def)
  ultimately show ?thesis using assms by (simp add: counts_ok_def)
qed (use step in \<open>auto simp: producer_step_def Let_def split: if_splits option.splits
       intro!: counts_frame [OF assms(1)]\<close>)

lemma counts_consumer:
  assumes "counts_ok s" and step: "consumer_step nil s = Some s'"
    and "signalling_pop s \<Longrightarrow> taken s \<noteq> []"
  shows "counts_ok s'"
proof (cases "cpc s")
  case (C_store m v)
  then obtain r where s': "s' = s\<lparr>mem := r, cpc := C_signal m v, taken := taken s @ [v]\<rparr>"
    "popped r = popped (mem s)" "pushed r = pushed (mem s)" "closed r = closed (mem s)"
    using step by (auto simp: consumer_step_def Let_def)
  moreover have "pop_signals s' = pop_signals s"
    using C_store by (simp add: s' pop_signals_def signalling_pop_def)
  ultimately show ?thesis using assms by (simp add: counts_ok_def)
next
  case (C_signal m v)
  then obtain r where s': "s' = s\<lparr>mem := r, cpc := C_notify m v\<rparr>"
    "popped r = popped (mem s) + 1" "pushed r = pushed (mem s)" "closed r = closed (mem s)"
    using step by (auto simp: consumer_step_def Let_def)
  moreover have "pop_signals s' = Suc (pop_signals s)"
    using C_signal assms(3) by (cases "taken s") (simp_all add: s' pop_signals_def signalling_pop_def)
  ultimately show ?thesis using assms by (simp add: counts_ok_def)
qed (use step in \<open>auto simp: consumer_step_def Let_def after_empty_def signalling_pop_def
       split: if_splits pop_mode.splits intro!: counts_frame [OF assms(1)]\<close>)

lemma counts_closer:
  assumes "counts_ok s" and step: "closer_step s = Some s'"
  shows "counts_ok s'"
proof (cases "lpc s")
  case L_idle
  with step have "s' = s\<lparr>mem := (mem s)\<lparr>closed := True\<rparr>, lpc := L_pushed,
      accepted_at_close := Some (length (accepted s))\<rparr>" by (simp add: closer_step_def Let_def)
  moreover from this L_idle have "pop_signals s' = pop_signals s" "push_signals s' = push_signals s"
    by (simp_all add: pop_signals_def push_signals_def)
  ultimately show ?thesis using assms by (simp add: counts_ok_def)
next
  case L_pushed
  with step have "s' = s\<lparr>mem := (mem s)\<lparr>pushed := pushed (mem s) + 1\<rparr>, lpc := L_notify_pushed\<rparr>"
    by (simp add: closer_step_def Let_def)
  moreover from this L_pushed have "pop_signals s' = pop_signals s" "push_signals s' = Suc (push_signals s)"
    by (simp_all add: pop_signals_def push_signals_def)
  ultimately show ?thesis using assms L_pushed by (simp add: counts_ok_def)
next
  case L_notify_pushed
  with step have "s' = s\<lparr>cpc := wake_consumer (cpc s), lpc := L_popped\<rparr>"
    by (simp add: closer_step_def Let_def)
  moreover from this L_notify_pushed
  have "pop_signals s' = pop_signals (s\<lparr>cpc := wake_consumer (cpc s)\<rparr>)" "push_signals s' = push_signals s"
    by (simp_all add: pop_signals_def push_signals_def)
  ultimately show ?thesis using assms L_notify_pushed by (simp add: counts_ok_def)
next
  case L_popped
  with step have "s' = s\<lparr>mem := (mem s)\<lparr>popped := popped (mem s) + 1\<rparr>, lpc := L_notify_popped\<rparr>"
    by (simp add: closer_step_def Let_def)
  moreover from this L_popped have "pop_signals s' = Suc (pop_signals s)" "push_signals s' = push_signals s"
    by (simp_all add: pop_signals_def push_signals_def)
  ultimately show ?thesis using assms L_popped by (simp add: counts_ok_def)
next
  case L_notify_popped
  with step have "s' = s\<lparr>ppc := wake_producer (ppc s), lpc := L_done\<rparr>"
    by (simp add: closer_step_def Let_def)
  moreover from this L_notify_popped
  have "pop_signals s' = pop_signals s" "push_signals s' = push_signals (s\<lparr>ppc := wake_producer (ppc s)\<rparr>)"
    by (simp_all add: pop_signals_def push_signals_def)
  ultimately show ?thesis using assms L_notify_popped by (simp add: counts_ok_def)
qed (use step in \<open>simp add: closer_step_def\<close>)

lemma signal_inv_counts:
  "signal_inv k s \<longleftrightarrow> content_inv k s \<and> counts_ok s \<and> producer_wake k s \<and> consumer_wake s"
  by (auto simp: signal_inv_def counts_ok_def)

lemma frame_call:
  "counts_ok s \<Longrightarrow> ppc s = P_idle \<Longrightarrow> producer_seen p = None \<Longrightarrow> p \<noteq> P_signal \<Longrightarrow> p \<noteq> P_notify \<Longrightarrow>
   consumer_wake s \<Longrightarrow>
   counts_ok (s\<lparr>ppc := p\<rparr>) \<and> producer_wake k (s\<lparr>ppc := p\<rparr>) \<and> consumer_wake (s\<lparr>ppc := p\<rparr>)"
  by (auto simp: counts_ok_def producer_wake_def consumer_wake_def push_signals_def)

lemma frame_call_consumer:
  "counts_ok s \<Longrightarrow> cpc s = C_idle \<Longrightarrow> c = C_epoch \<or> c = C_head Try_pop \<Longrightarrow> producer_wake k s \<Longrightarrow>
   counts_ok (s\<lparr>cpc := c\<rparr>) \<and> producer_wake k (s\<lparr>cpc := c\<rparr>) \<and> consumer_wake (s\<lparr>cpc := c\<rparr>)"
  by (auto simp: counts_ok_def producer_wake_def consumer_wake_def pop_signals_def signalling_pop_def
      notifying_pop_def)

lemma signal_step:
  assumes "spsc_step nil s s'" and inv: "signal_inv k s" and "k < 32"
  shows "signal_inv k s'"
proof -
  have c: "content_inv k s'" by (rule content_step [OF assms(1)]) (use inv in \<open>simp add: signal_inv_def\<close>)
  have "counts_ok s' \<and> producer_wake k s' \<and> consumer_wake s'"
    using assms(1)
  proof cases
    case producer
    with assms show ?thesis
      by (auto simp: signal_inv_counts intro: counts_producer producer_side [OF inv] producer_keeps_consumer [OF inv])
  next
    case consumer
    with assms show ?thesis using signal_bounds(7) [OF inv]
      by (auto simp: signal_inv_counts intro: counts_consumer consumer_side [OF inv] consumer_keeps_producer [OF inv])
  next
    case closer
    with assms show ?thesis using closer_keeps_wakes [OF inv]
      by (auto simp: signal_inv_counts intro: counts_closer)
  next
    case spurious_producer
    with inv show ?thesis
      by (auto simp: signal_inv_counts counts_ok_def producer_wake_def consumer_wake_def intro: waiter_woken_flags)
  next
    case spurious_consumer
    with inv show ?thesis
      by (auto simp: signal_inv_counts counts_ok_def producer_wake_def consumer_wake_def intro: waiter_woken_flags)
  qed (use inv in \<open>simp_all add: signal_inv_counts frame_call frame_call_consumer [where k = k]\<close>)
  with c show ?thesis by (simp add: signal_inv_counts)
qed

section \<open>Closing\<close>

fun last_attempt :: "'a consumer_pc \<Rightarrow> bool" where
  "last_attempt (C_head Pop_last) = True"
| "last_attempt (C_reload Pop_last) = True"
| "last_attempt pc = False"

definition close_inv :: "'a spsc \<Rightarrow> bool" where
  "close_inv s \<longleftrightarrow>
     (closed (mem s) \<longleftrightarrow> accepted_at_close s \<noteq> None) \<and> (lpc s = L_idle \<longrightarrow> \<not> closed (mem s)) \<and>
     (\<forall>n. accepted_at_close s = Some n \<longrightarrow> n \<le> length (accepted s)) \<and>
     (last_attempt (cpc s) \<longrightarrow> closed (mem s)) \<and>
     (cpc s = C_return Pop_last None \<longrightarrow> (\<exists>n. accepted_at_close s = Some n \<and> n \<le> length (taken s)))"

lemma last_attempt_wake [simp]: "last_attempt (wake_consumer c) = last_attempt c"
  "wake_consumer c = C_return m v \<longleftrightarrow> c = C_return m v"
  by (cases c; simp add: wake_consumer_def)+

lemma last_attempt_after [simp]: "\<not> last_attempt (after_empty m)"
  by (cases m) (simp_all add: after_empty_def)

lemma producer_frame:
  assumes "producer_step s = Some s'"
  shows "closed (mem s') = closed (mem s) \<and> accepted_at_close s' = accepted_at_close s \<and>
    lpc s' = lpc s \<and> taken s' = taken s \<and> length (accepted s) \<le> length (accepted s') \<and>
    (cpc s' = cpc s \<or> cpc s' = wake_consumer (cpc s))"
  using assms by (cases "ppc s") (auto simp: producer_step_def Let_def)

lemma close_step:
  assumes "spsc_step nil s s'" and "close_inv s" and "content_inv k s"
  shows "close_inv s'"
proof -
  have i: "indices k (length (taken s)) (length (accepted s)) (mem s)"
    using assms(3) by (auto simp: content_inv_def Let_def)
  show ?thesis
    using assms(1)
  proof cases
    case producer
    from producer_frame [OF this] assms(2) show ?thesis
      unfolding close_inv_def by (elim conjE disjE) (simp_all, (metis order_trans)+)
  next
    case consumer
    then show ?thesis
    proof (cases "cpc s")
      case (C_head m)
      then show ?thesis using consumer assms(2)
        by (cases m) (auto simp: close_inv_def consumer_step_def Let_def split: if_splits)
    next
      case (C_reload m)
      then show ?thesis using consumer assms(2) cached_tail_exact(2) [OF i]
        by (cases m) (auto simp: close_inv_def consumer_step_def Let_def after_empty_def split: if_splits)
    qed (use assms(2) in \<open>auto simp: close_inv_def consumer_step_def Let_def split: if_splits\<close>)
  next
    case closer
    then show ?thesis using assms(2)
      by (cases "lpc s") (auto simp: close_inv_def closer_step_def Let_def)
  qed (use assms(2) in \<open>auto simp: close_inv_def\<close>)
qed

section \<open>Reachable states\<close>

lemma reachable_content:
  assumes "reachable nil n s" and "unat n \<le> 2 ^ 63"
  shows "\<exists>k. content_inv k s \<and> close_inv s \<and> bit_ceil (unat (if n = 0 then 1 else n)) = 2 ^ k"
proof -
  obtain k where k: "content_inv k (spsc_init nil n)" "bit_ceil (unat (if n = 0 then 1 else n)) = 2 ^ k"
    using content_init [OF assms(2), of nil] by (elim exE conjE)
  have "close_inv (spsc_init nil n)"
    by (simp add: close_inv_def spsc_init_def make_ring_def Let_def)
  have "content_inv k s \<and> close_inv s"
  proof (rule rtranclp_invariant [OF assms(1) [unfolded reachable_def]])
    show "content_inv k (spsc_init nil n) \<and> close_inv (spsc_init nil n)"
      using k(1) \<open>close_inv (spsc_init nil n)\<close> by (rule conjI)
    show "content_inv k y \<and> close_inv y" if "spsc_step nil x y" "content_inv k x \<and> close_inv x" for x y
      using content_step [OF that(1)] close_step [OF that(1)] that(2) by (elim conjE) (intro conjI)
  qed
  with k(2) show ?thesis by blast
qed

lemma reachable_signals:
  assumes "reachable nil n s" and "unat n \<le> 2 ^ 31"
  shows "\<exists>k. signal_inv k s \<and> k < 32 \<and> bit_ceil (unat (if n = 0 then 1 else n)) = 2 ^ k"
proof -
  have "unat n \<le> 2 ^ 63" using assms(2) by (rule order_trans) simp
  then obtain k where k: "content_inv k (spsc_init nil n)" "bit_ceil (unat (if n = 0 then 1 else n)) = 2 ^ k"
    using content_init [OF \<open>unat n \<le> 2 ^ 63\<close>, of nil] by (elim exE conjE)
  have "bit_ceil (unat (if n = 0 then 1 else n)) \<le> 2 ^ 31" using assms(2) by (intro bit_ceil_least) auto
  then have "(2::nat) ^ k \<le> 2 ^ 31" by (simp only: k(2))
  then have "k \<le> 31" by (rule power_le_imp_le_exp [rotated]) simp
  then have "k < 32" by simp
  have "signal_inv k (spsc_init nil n)" using k(1)
    by (simp add: signal_inv_def spsc_init_def make_ring_def Let_def pop_signals_def push_signals_def
        signalling_pop_def producer_wake_def consumer_wake_def)
  then have "signal_inv k s"
    by (rule rtranclp_invariant [OF assms(1) [unfolded reachable_def]]) (rule signal_step [OF _ _ \<open>k < 32\<close>])
  with k(2) \<open>k < 32\<close> show ?thesis by blast
qed

text \<open>A schedule names the thread that moves next; \<open>run_schedule\<close> computes one execution.\<close>

datatype 'a move = Producer | Consumer | Closer | Call_push 'a | Call_pop

definition move_step :: "'a \<Rightarrow> 'a spsc \<Rightarrow> 'a move \<Rightarrow> 'a spsc option" where
  "move_step nil s mv =
     (case mv of
        Producer \<Rightarrow> producer_step s
      | Consumer \<Rightarrow> consumer_step nil s
      | Closer \<Rightarrow> closer_step s
      | Call_push v \<Rightarrow> if ppc s = P_idle then Some (s\<lparr>ppc := P_epoch v\<rparr>) else None
      | Call_pop \<Rightarrow> if cpc s = C_idle then Some (s\<lparr>cpc := C_epoch\<rparr>) else None)"

fun run_schedule :: "'a \<Rightarrow> 'a move list \<Rightarrow> 'a spsc \<Rightarrow> 'a spsc option" where
  "run_schedule nil [] s = Some s"
| "run_schedule nil (mv # mvs) s =
     (case move_step nil s mv of None \<Rightarrow> None | Some s' \<Rightarrow> run_schedule nil mvs s')"

lemma move_is_step: "move_step nil s mv = Some s' \<Longrightarrow> spsc_step nil s s'"
  by (cases mv) (auto simp: move_step_def intro: spsc_step.intros split: if_splits)

lemma schedule_reachable_gen:
  "run_schedule nil mvs s = Some s' \<Longrightarrow> (spsc_step nil)\<^sup>*\<^sup>* s s'"
proof (induction mvs arbitrary: s)
  case (Cons mv mvs)
  then show ?case
    by (auto split: option.splits intro: converse_rtranclp_into_rtranclp [of "spsc_step nil"] move_is_step)
qed simp

lemma schedule_reachable:
  "run_schedule nil mvs (spsc_init nil n) = Some s \<Longrightarrow> reachable nil n s"
  unfolding reachable_def by (rule schedule_reachable_gen)

lemma make_ring_one:
  "make_ring nil 1 = \<lparr>ring_capacity = 1, ring_mask = 0, slots = [nil], head = 0, cached_tail = 0, tail = 0,
     cached_head = 0, pushed = 0, popped = 0, closed = False\<rparr>"
  by (simp add: make_ring_def bit_ceil_def)

lemma make_ring_two:
  "make_ring nil 2 = \<lparr>ring_capacity = 2, ring_mask = 1, slots = [nil, nil], head = 0, cached_tail = 0, tail = 0,
     cached_head = 0, pushed = 0, popped = 0, closed = False\<rparr>"
proof -
  have "bit_ceil 2 = 2" by (simp add: bit_ceil_def bit_width.simps)
  then show ?thesis by (simp add: make_ring_def replicate_numeral)
qed

lemmas schedule_simps = spsc_init_def make_ring_one move_step_def producer_step_def consumer_step_def
  closer_step_def wake_producer_def wake_consumer_def after_empty_def Let_def replicate_numeral

text \<open>Push one element and pop it; then stop with the consumer parked on the empty ring.\<close>

definition push_pop_schedule :: "nat move list" where
  "push_pop_schedule = Call_push 7 # replicate 7 Producer @ Call_pop # replicate 7 Consumer"

definition parked_schedule :: "nat move list" where
  "parked_schedule = Call_pop # replicate 5 Consumer"

lemma push_pop_run:
  "run_schedule 0 push_pop_schedule (spsc_init 0 1) = Some
     \<lparr>mem = \<lparr>ring_capacity = 1, ring_mask = 0, slots = [0], head = 1, cached_tail = 1, tail = 1,
             cached_head = 0, pushed = 1, popped = 1, closed = False\<rparr>,
      ppc = P_idle, cpc = C_return (Pop_loop 1) (Some 7), lpc = L_idle,
      accepted = [7], taken = [7], accepted_at_close = None\<rparr>"
  by (simp add: push_pop_schedule_def schedule_simps)

lemma parked_run:
  "run_schedule 0 parked_schedule (spsc_init 0 1) = Some
     \<lparr>mem = \<lparr>ring_capacity = 1, ring_mask = 0, slots = [0], head = 0, cached_tail = 0, tail = 0,
             cached_head = 0, pushed = 0, popped = 0, closed = False\<rparr>,
      ppc = P_idle, cpc = C_blocked 0, lpc = L_idle,
      accepted = [], taken = [], accepted_at_close = None\<rparr>"
  by (simp add: parked_schedule_def schedule_simps)

text \<open>A push that races with \<open>close\<close>: it tests \<open>closed_\<close> before and stores its index after.\<close>

definition stranding_schedule :: "nat move list" where
  "stranding_schedule = Call_push 7 # replicate 2 Producer @ replicate 5 Closer @
     Call_pop # replicate 5 Consumer @ Consumer # replicate 5 Producer"

lemma stranding_run:
  "run_schedule 0 stranding_schedule (spsc_init 0 1) = Some
     \<lparr>mem = \<lparr>ring_capacity = 1, ring_mask = 0, slots = [7], head = 0, cached_tail = 0, tail = 1,
             cached_head = 0, pushed = 2, popped = 1, closed = True\<rparr>,
      ppc = P_idle, cpc = C_return Pop_last None, lpc = L_done,
      accepted = [7], taken = [], accepted_at_close = Some 0\<rparr>"
  by (simp add: stranding_schedule_def schedule_simps)

section \<open>The properties\<close>

text \<open>
  C34: run without interference, the ring is a bounded FIFO queue: \<open>try_push\<close> succeeds exactly
  when fewer than \<open>capacity\<close> elements are queued and then appends, \<open>try_pop\<close> returns the oldest
  element, and both keep the ring consistent although the 64-bit indices wrap.
\<close>

theorem ring_is_bounded_queue:
  assumes "ring_ok r"
  shows "(case try_push v r of (success, r') \<Rightarrow> ring_ok r' \<and>
            (success \<longleftrightarrow> length (ring_queue r) < unat (ring_capacity r)) \<and>
            ring_queue r' = (if success then ring_queue r @ [v] else ring_queue r)) \<and>
         (case try_pop nil r of (result, r') \<Rightarrow> ring_ok r' \<and>
            (case result of None \<Rightarrow> ring_queue r = [] \<and> ring_queue r' = []
             | Some x \<Rightarrow> ring_queue r = x # ring_queue r'))"
  using ring_fifo.push_law [OF assms, of v] ring_fifo.pop_law [OF assms, of nil] by (auto split: prod.splits)

definition wrapped_ring :: "nat spsc_ring" where
  "wrapped_ring = (make_ring 0 2)\<lparr>head := -1, cached_head := -1, tail := -1, cached_tail := -1\<rparr>"

theorem ring_is_bounded_queue_witness:
  "ring_queue (snd (try_push 5 wrapped_ring)) = [5] \<and>
   tail (snd (try_push 5 wrapped_ring)) = 0"
proof -
  have "ring_ok wrapped_ring"
    unfolding ring_ok_def
    by (intro exI [of _ 1] exI [of _ "2 ^ 64 - 1"])
      (simp add: wrapped_ring_def make_ring_two indices_def, intro conjI exI [of _ "2 ^ 64 - 1"], simp_all)
  from ring_is_bounded_queue [OF this, of 5 0] show ?thesis
    by (simp add: wrapped_ring_def make_ring_two try_push_def ring_queue_def size_approx_def Let_def)
qed

text \<open>
  C5: under every interleaving of the three threads, the values taken are a prefix of the values
  accepted, in order; at most \<open>capacity\<close> accepted values are in the ring, and what a successful
  pop returns is the value it took. Nothing is lost, duplicated or reordered.
\<close>

theorem concurrent_fifo:
  assumes "reachable nil n s" and "unat n \<le> 2 ^ 63"
  shows "\<exists>rest. accepted s = taken s @ rest \<and>
    length rest \<le> bit_ceil (unat (if n = 0 then 1 else n)) \<and>
    (\<forall>m v. cpc s = C_return m (Some v) \<longrightarrow> taken s \<noteq> [] \<and> v = last (taken s))"
proof -
  obtain k where k: "content_inv k s" "bit_ceil (unat (if n = 0 then 1 else n)) = 2 ^ k"
    using reachable_content [OF assms] by (elim exE conjE)
  then have c: "indices k (length (taken s)) (length (accepted s)) (mem s)"
    "taken s = take (length (taken s)) (accepted s)"
    "consumer_inv (sees_element (mem s)) (accepted s ! length (taken s)) (taken s) (cpc s)"
    by (simp_all add: content_inv_def Let_def)
  have "accepted s = taken s @ drop (length (taken s)) (accepted s)"
    using c(2) by (metis append_take_drop_id)
  moreover have "length (accepted s) \<le> length (taken s) + 2 ^ k" using c(1) by (simp add: indices_def)
  then have "length (drop (length (taken s)) (accepted s)) \<le> 2 ^ k" by simp
  moreover have "taken s \<noteq> [] \<and> v = last (taken s)" if "cpc s = C_return m (Some v)" for m v
    using c(3) that by simp
  ultimately show ?thesis unfolding k(2) by blast
qed

theorem concurrent_fifo_witness:
  "\<exists>s rest. reachable (0::nat) 1 s \<and> accepted s = taken s @ rest \<and> taken s = [7]"
  using concurrent_fifo [OF schedule_reachable [OF push_pop_run]] schedule_reachable [OF push_pop_run] by force

text \<open>
  C35: the two threads never touch the same slot: whenever the producer is about to write one and
  the consumer about to read one, they are different slots.
\<close>

theorem no_slot_race:
  assumes "reachable nil n s" and "unat n \<le> 2 ^ 63"
    and "ppc s = P_write v" and "cpc s = C_read m"
  shows "unat (tail (mem s) AND ring_mask (mem s)) \<noteq> unat (head (mem s) AND ring_mask (mem s))"
proof -
  obtain k where k: "content_inv k s" using reachable_content [OF assms(1,2)] by (elim exE conjE)
  then have c: "indices k (length (taken s)) (length (accepted s)) (mem s)"
    and sees: "sees_room (mem s)" "sees_element (mem s)"
    using assms(3,4) by (simp_all add: content_inv_def Let_def)
  show ?thesis
    unfolding slot_of_tail [OF c] slot_of_head [OF c]
    using cached_head_exact(1) [OF c] cached_tail_exact(1) [OF c] sees
      mod_distinct [of "length (taken s)" "length (accepted s)" "2 ^ k"]
    by (simp add: sees_room_def sees_element_def)
qed

definition racing_schedule :: "nat move list" where
  "racing_schedule = Call_push 7 # replicate 7 Producer @ Call_push 8 # replicate 3 Producer @
     Call_pop # replicate 3 Consumer"

theorem no_slot_race_witness:
  "\<exists>s :: nat spsc. reachable 0 2 s \<and> ppc s = P_write 8 \<and>
     unat (tail (mem s) AND ring_mask (mem s)) \<noteq> unat (head (mem s) AND ring_mask (mem s))"
proof -
  obtain s where s: "run_schedule 0 racing_schedule (spsc_init 0 2) = Some s"
    "ppc s = P_write 8" "cpc s = C_read (Pop_loop 1)"
    by (simp add: racing_schedule_def make_ring_two schedule_simps)
  from no_slot_race [OF schedule_reachable [OF s(1)] _ s(2,3)] show ?thesis
    using s schedule_reachable [OF s(1)] by auto
qed

text \<open>
  C6: no wake-up is lost. When the closing thread has not started or has finished, a parked
  producer whose consumer is not in the middle of a signal faces a full, open ring, and a parked
  consumer whose producer is not in the middle of a signal an empty, open ring; so the two are
  never parked for good at the same time. The 32-bit epochs are enough for capacities up to 2^31.
\<close>

theorem no_lost_wakeup:
  assumes "reachable nil n s" and "unat n \<le> 2 ^ 31" and "lpc s = L_idle \<or> lpc s = L_done"
  shows "(ppc s = P_blocked v e \<longrightarrow> \<not> signalling_pop s \<longrightarrow> \<not> notifying_pop s \<longrightarrow>
            length (accepted s) = length (taken s) + bit_ceil (unat (if n = 0 then 1 else n)) \<and>
            \<not> closed (mem s)) \<and>
         (cpc s = C_blocked f \<longrightarrow> ppc s \<noteq> P_signal \<longrightarrow> ppc s \<noteq> P_notify \<longrightarrow>
            accepted s = taken s \<and> \<not> closed (mem s)) \<and>
         \<not> (ppc s = P_blocked v e \<and> cpc s = C_blocked f)"
proof -
  obtain k where k: "signal_inv k s" "bit_ceil (unat (if n = 0 then 1 else n)) = 2 ^ k"
    using reachable_signals [OF assms(1,2)] by (elim exE conjE)
  note inv = k(1) [unfolded signal_inv_def]
  have pre: "taken s = take (length (taken s)) (accepted s)" using inv by (simp add: content_inv_def Let_def)
  have p: "length (accepted s) = length (taken s) + 2 ^ k \<and> \<not> closed (mem s)"
    if "ppc s = P_blocked v e" "\<not> signalling_pop s" "\<not> notifying_pop s"
  proof -
    have "producer_wake k s" using inv by blast
    then have "length (accepted s) = length (taken s) + 2 ^ k \<and>
        lpc s \<in> {L_idle, L_pushed, L_notify_pushed, L_popped}"
      using that assms(3) by (auto simp: producer_wake_def dest: waiter_parked)
    then show ?thesis using inv assms(3) by auto
  qed
  have c: "accepted s = taken s \<and> \<not> closed (mem s)"
    if "cpc s = C_blocked f" "ppc s \<noteq> P_signal" "ppc s \<noteq> P_notify"
  proof -
    have "consumer_wake s" using inv by blast
    then have "length (accepted s) = length (taken s) \<and> lpc s \<in> {L_idle, L_pushed}"
      using that assms(3) by (auto simp: consumer_wake_def dest: waiter_parked)
    then show ?thesis using inv assms(3) pre by auto
  qed
  have "\<not> (ppc s = P_blocked v e \<and> cpc s = C_blocked f)"
    using p c by (auto simp: signalling_pop_def notifying_pop_def)
  with p c show ?thesis unfolding k(2) by blast
qed

theorem no_lost_wakeup_witness:
  "\<exists>s. reachable (0::nat) 1 s \<and> cpc s = C_blocked 0 \<and> accepted s = taken s \<and> \<not> closed (mem s)"
  using no_lost_wakeup [OF schedule_reachable [OF parked_run], of undefined undefined 0]
    schedule_reachable [OF parked_run] by force

text \<open>
  When \<open>pop\<close> reports the end (a closed and drained ring), every element accepted before
  \<open>close\<close> has been taken.
\<close>

theorem drained_after_close:
  assumes "reachable nil n s" and "unat n \<le> 2 ^ 63" and "cpc s = C_return Pop_last None"
  shows "\<exists>c. accepted_at_close s = Some c \<and> c \<le> length (taken s)"
proof -
  have "close_inv s" using reachable_content [OF assms(1,2)] by (elim exE conjE)
  with assms(3) show ?thesis by (simp add: close_inv_def)
qed

definition drain_schedule :: "nat move list" where
  "drain_schedule = Call_push 7 # replicate 7 Producer @ replicate 5 Closer @
     Call_pop # replicate 8 Consumer @ Call_pop # replicate 6 Consumer"

theorem drained_after_close_witness:
  "\<exists>s c. reachable (0::nat) 1 s \<and> accepted_at_close s = Some 1 \<and> accepted_at_close s = Some c \<and>
     c \<le> length (taken s)"
proof -
  obtain s where s: "run_schedule 0 drain_schedule (spsc_init 0 1) = Some s"
    "cpc s = C_return Pop_last None" "accepted_at_close s = Some 1"
    by (simp add: drain_schedule_def schedule_simps)
  from drained_after_close [OF schedule_reachable [OF s(1)] _ s(2)] show ?thesis
    using s schedule_reachable [OF s(1)] by auto
qed

text \<open>
  C37: an element can still be stranded by a push that overlaps \<open>close\<close>: the push passes the
  closed test, the ring is closed and the consumer leaves, and then the push succeeds. \<open>push\<close>
  has reported success and nobody takes the element.
\<close>

theorem push_racing_close_strands_element:
  "\<exists>s :: nat spsc. reachable 0 1 s \<and> cpc s = C_return Pop_last None \<and> lpc s = L_done \<and>
     ppc s = P_idle \<and> accepted s = [7] \<and> taken s = []"
  using schedule_reachable [OF stranding_run] by force

end
