(* ===== verification/LatestSlot.thy ===== *)
theory LatestSlot
  imports Waiter
begin

text \<open>
  \<open>core/latest_slot.hpp\<close>: the latest-value mailbox, a lock-free triple buffer. As for the ring,
  first the operations without interference, refined to a one-place buffer, then the three threads
  one atomic access at a time. The three slots are a list of length 3, \<open>middle\<close> is the atomic byte
  that holds an index and the fresh bit.
\<close>

section \<open>The mailbox\<close>

definition kFresh :: u8 where "kFresh = 4"
definition kIndexMask :: u8 where "kIndexMask = 3"

record 'a latest_slot =
  box_slots :: "'a option list"
  middle :: u8
  back_slot :: u8
  front_slot :: u8
  published :: u32
  box_closed :: bool

definition make_slot :: "'a latest_slot" where
  "make_slot = \<lparr>box_slots = [None, None, None], middle = 1, back_slot = 0, front_slot = 2,
     published = 0, box_closed = False\<rparr>"

section \<open>The operations without interference\<close>

text \<open>\<open>std::exchange(slots_[i], std::nullopt)\<close>.\<close>

definition take_out :: "u8 \<Rightarrow> 'a latest_slot \<Rightarrow> 'a option \<times> 'a latest_slot" where
  "take_out i b = (box_slots b ! unat i, b\<lparr>box_slots := (box_slots b)[unat i := None]\<rparr>)"

definition publish :: "'a \<Rightarrow> 'a latest_slot \<Rightarrow> 'a option \<times> 'a latest_slot" where
  "publish value b =
     (if box_closed b then (Some value, b)
      else let b1 = b\<lparr>box_slots := (box_slots b)[unat (back_slot b) := Some value]\<rparr>;
               previous = middle b1;
               b2 = b1\<lparr>middle := back_slot b1 OR kFresh, back_slot := previous AND kIndexMask\<rparr>;
               (displaced, b3) = (if previous AND kFresh \<noteq> 0 then take_out (back_slot b2) b2 else (None, b2))
           in (displaced, b3\<lparr>published := published b3 + 1\<rparr>))"

definition try_take :: "'a latest_slot \<Rightarrow> 'a option \<times> 'a latest_slot" where
  "try_take b =
     (if middle b AND kFresh = 0 then (None, b)
      else let previous = middle b;
               b1 = b\<lparr>middle := front_slot b, front_slot := previous AND kIndexMask\<rparr>
           in take_out (front_slot b1) b1)"

definition close_slot :: "'a latest_slot \<Rightarrow> 'a latest_slot" where
  "close_slot b = b\<lparr>box_closed := True, published := published b + 1\<rparr>"

section \<open>Index arithmetic\<close>

definition fresh :: "u8 \<Rightarrow> bool" where
  "fresh m \<longleftrightarrow> m AND kFresh \<noteq> 0"

definition rotation :: "u8 \<Rightarrow> u8 \<Rightarrow> u8 \<Rightarrow> bool" where
  "rotation b m f \<longleftrightarrow>
     b \<in> {0, 1, 2} \<and> f \<in> {0, 1, 2} \<and> m AND kIndexMask \<in> {0, 1, 2} \<and>
     b \<noteq> f \<and> b \<noteq> m AND kIndexMask \<and> f \<noteq> m AND kIndexMask"

lemma slot_bits:
  assumes "b \<in> {0, 1, 2}"
  shows "(b OR kFresh) AND kIndexMask = b" and "b AND kIndexMask = b"
    and "fresh (b OR kFresh)" and "\<not> fresh b" and "unat b < 3"
  using assms by (auto simp: kFresh_def kIndexMask_def fresh_def)

lemma rotation_publish: "rotation b m f \<Longrightarrow> rotation (m AND kIndexMask) (b OR kFresh) f"
  by (auto simp: rotation_def slot_bits)

lemma rotation_take: "rotation b m f \<Longrightarrow> rotation b f (m AND kIndexMask)"
  by (auto simp: rotation_def slot_bits)

lemma rotation_facts:
  assumes "rotation b m f"
  shows "unat b < 3" "unat f < 3" "unat (m AND kIndexMask) < 3"
    "unat b \<noteq> unat f" "unat b \<noteq> unat (m AND kIndexMask)" "unat f \<noteq> unat (m AND kIndexMask)"
    "(b OR kFresh) AND kIndexMask = b" "f AND kIndexMask = f" "fresh (b OR kFresh)" "\<not> fresh f"
  using assms by (auto simp: rotation_def slot_bits)

text \<open>The contract: a buffer for one value that a new one overwrites.\<close>

definition slot_ok :: "'a latest_slot \<Rightarrow> bool" where
  "slot_ok b \<longleftrightarrow> rotation (back_slot b) (middle b) (front_slot b) \<and> length (box_slots b) = 3 \<and>
     box_slots b ! unat (back_slot b) = None \<and> box_slots b ! unat (front_slot b) = None \<and>
     (box_slots b ! unat (middle b AND kIndexMask) \<noteq> None \<longleftrightarrow> fresh (middle b))"

definition slot_value :: "'a latest_slot \<Rightarrow> 'a option" where
  "slot_value b = (if fresh (middle b) then box_slots b ! unat (middle b AND kIndexMask) else None)"

lemma make_slot_ok: "slot_ok make_slot" "slot_value make_slot = None"
  by (simp_all add: slot_ok_def slot_value_def make_slot_def rotation_def fresh_def kFresh_def kIndexMask_def)

lemma publish_refines:
  assumes ok: "slot_ok b" and p: "publish v b = (displaced, b')"
  shows "slot_ok b' \<and> box_closed b' = box_closed b \<and>
    (if box_closed b then displaced = Some v \<and> b' = b
     else displaced = slot_value b \<and> slot_value b' = Some v)"
proof (cases "box_closed b")
  case True
  with p ok show ?thesis by (simp add: publish_def)
next
  case False
  note r = ok [unfolded slot_ok_def, THEN conjunct1]
  note f = rotation_facts [OF r] rotation_publish [OF r]
  show ?thesis
  proof (cases "fresh (middle b)")
    case True
    then show ?thesis using p ok False f
      by (auto simp: publish_def slot_ok_def slot_value_def take_out_def Let_def fresh_def [symmetric])
  next
    case False
    then show ?thesis using p ok \<open>\<not> box_closed b\<close> f
      by (auto simp: publish_def slot_ok_def slot_value_def take_out_def Let_def fresh_def [symmetric])
  qed
qed

lemma try_take_refines:
  assumes ok: "slot_ok b" and t: "try_take b = (res, b')"
  shows "slot_ok b' \<and> box_closed b' = box_closed b \<and> res = slot_value b \<and> slot_value b' = None"
proof -
  note r = ok [unfolded slot_ok_def, THEN conjunct1]
  note f = rotation_facts [OF r] rotation_take [OF r]
  show ?thesis
  proof (cases "fresh (middle b)")
    case True
    then show ?thesis using t ok f
      by (auto simp: try_take_def slot_ok_def slot_value_def take_out_def Let_def fresh_def)
  next
    case False
    then show ?thesis using t ok by (simp add: try_take_def slot_value_def fresh_def)
  qed
qed

section \<open>One atomic access at a time\<close>

datatype 'a publisher_pc =
    M_idle
  | M_closed 'a
  | M_write 'a
  | M_swap 'a
  | M_displaced u8
  | M_signal "'a option"
  | M_notify "'a option"
  | M_return "'a option"

datatype take_mode = Try_take | Take_loop u32 | Take_last

datatype 'a taker_pc =
    T_idle
  | T_epoch
  | T_load take_mode
  | T_swap take_mode
  | T_read take_mode
  | T_closed u32
  | T_wait u32
  | T_blocked u32
  | T_return take_mode "'a option"

datatype slot_closer_pc = K_idle | K_signal | K_notify | K_done

text \<open>
  Ghost fields: \<open>posted\<close> lists the values whose exchange with \<open>middle_\<close> has happened;
  \<open>taken_at\<close> and \<open>displaced_at\<close> are positions in it, in the order in which the consumer read and
  the producer got back the values; \<open>reading\<close> is the position the consumer is about to read.
\<close>

record 'a mailbox =
  box :: "'a latest_slot"
  mpc :: "'a publisher_pc"
  tpc :: "'a taker_pc"
  kpc :: slot_closer_pc
  posted :: "'a list"
  taken_at :: "nat list"
  displaced_at :: "nat list"
  reading_at :: nat

definition mailbox_init :: "'a mailbox" where
  "mailbox_init = \<lparr>box = make_slot, mpc = M_idle, tpc = T_idle, kpc = K_idle, posted = [],
     taken_at = [], displaced_at = [], reading_at = 0\<rparr>"

definition wake_taker :: "'a taker_pc \<Rightarrow> 'a taker_pc" where
  "wake_taker pc = (case pc of T_blocked e \<Rightarrow> T_wait e | _ \<Rightarrow> pc)"

definition publisher_step :: "'a mailbox \<Rightarrow> 'a mailbox option" where
  "publisher_step s =
     (let b = box s in case mpc s of
        M_idle \<Rightarrow> None
      | M_closed v \<Rightarrow> Some (s\<lparr>mpc := if box_closed b then M_return (Some v) else M_write v\<rparr>)
      | M_write v \<Rightarrow>
          Some (s\<lparr>box := b\<lparr>box_slots := (box_slots b)[unat (back_slot b) := Some v]\<rparr>, mpc := M_swap v\<rparr>)
      | M_swap v \<Rightarrow>
          Some (s\<lparr>box := b\<lparr>middle := back_slot b OR kFresh, back_slot := middle b AND kIndexMask\<rparr>,
                  mpc := M_displaced (middle b), posted := posted s @ [v]\<rparr>)
      | M_displaced previous \<Rightarrow>
          (if previous AND kFresh \<noteq> 0
           then let (d, b') = take_out (back_slot b) b
                in Some (s\<lparr>box := b', mpc := M_signal d, displaced_at := displaced_at s @ [length (posted s) - 2]\<rparr>)
           else Some (s\<lparr>mpc := M_signal None\<rparr>))
      | M_signal d \<Rightarrow> Some (s\<lparr>box := b\<lparr>published := published b + 1\<rparr>, mpc := M_notify d\<rparr>)
      | M_notify d \<Rightarrow> Some (s\<lparr>tpc := wake_taker (tpc s), mpc := M_return d\<rparr>)
      | M_return d \<Rightarrow> Some (s\<lparr>mpc := M_idle\<rparr>))"

definition after_stale :: "take_mode \<Rightarrow> 'a taker_pc" where
  "after_stale m = (case m of Take_loop e \<Rightarrow> T_closed e | _ \<Rightarrow> T_return m None)"

definition taker_step :: "'a mailbox \<Rightarrow> 'a mailbox option" where
  "taker_step s =
     (let b = box s in case tpc s of
        T_idle \<Rightarrow> None
      | T_epoch \<Rightarrow> Some (s\<lparr>tpc := T_load (Take_loop (published b))\<rparr>)
      | T_load m \<Rightarrow> Some (s\<lparr>tpc := if middle b AND kFresh = 0 then after_stale m else T_swap m\<rparr>)
      | T_swap m \<Rightarrow>
          Some (s\<lparr>box := b\<lparr>middle := front_slot b, front_slot := middle b AND kIndexMask\<rparr>,
                  tpc := T_read m, reading_at := length (posted s) - 1\<rparr>)
      | T_read m \<Rightarrow>
          (let (v, b') = take_out (front_slot b) b
           in Some (s\<lparr>box := b', tpc := T_return m v, taken_at := taken_at s @ [reading_at s]\<rparr>))
      | T_closed e \<Rightarrow> Some (s\<lparr>tpc := if box_closed b then T_load Take_last else T_wait e\<rparr>)
      | T_wait e \<Rightarrow> Some (s\<lparr>tpc := if published b = e then T_blocked e else T_epoch\<rparr>)
      | T_blocked e \<Rightarrow> None
      | T_return m v \<Rightarrow> Some (s\<lparr>tpc := T_idle\<rparr>))"

definition slot_closer_step :: "'a mailbox \<Rightarrow> 'a mailbox option" where
  "slot_closer_step s =
     (let b = box s in case kpc s of
        K_idle \<Rightarrow> Some (s\<lparr>box := b\<lparr>box_closed := True\<rparr>, kpc := K_signal\<rparr>)
      | K_signal \<Rightarrow> Some (s\<lparr>box := b\<lparr>published := published b + 1\<rparr>, kpc := K_notify\<rparr>)
      | K_notify \<Rightarrow> Some (s\<lparr>tpc := wake_taker (tpc s), kpc := K_done\<rparr>)
      | K_done \<Rightarrow> None)"

inductive mailbox_step :: "'a mailbox \<Rightarrow> 'a mailbox \<Rightarrow> bool" where
  publisher: "publisher_step s = Some s' \<Longrightarrow> mailbox_step s s'"
| taker: "taker_step s = Some s' \<Longrightarrow> mailbox_step s s'"
| slot_closer: "slot_closer_step s = Some s' \<Longrightarrow> mailbox_step s s'"
| call_publish: "mpc s = M_idle \<Longrightarrow> mailbox_step s (s\<lparr>mpc := M_closed v\<rparr>)"
| call_take: "tpc s = T_idle \<Longrightarrow> mailbox_step s (s\<lparr>tpc := T_epoch\<rparr>)"
| call_try_take: "tpc s = T_idle \<Longrightarrow> mailbox_step s (s\<lparr>tpc := T_load Try_take\<rparr>)"
| spurious: "mailbox_step s (s\<lparr>tpc := wake_taker (tpc s)\<rparr>)"

definition box_reachable :: "'a mailbox \<Rightarrow> bool" where
  "box_reachable s \<longleftrightarrow> mailbox_step\<^sup>*\<^sup>* mailbox_init s"

section \<open>The invariant\<close>

text \<open>What the private slots hold, and which log positions are still in the buffer.\<close>

fun back_content :: "'a list \<Rightarrow> 'a publisher_pc \<Rightarrow> 'a option" where
  "back_content lg (M_swap v) = Some v"
| "back_content lg (M_displaced p) = (if fresh p then Some (lg ! (length lg - 2)) else None)"
| "back_content lg pc = None"

fun displacing :: "'a publisher_pc \<Rightarrow> bool" where
  "displacing (M_displaced p) = fresh p"
| "displacing pc = False"

fun taking :: "'a taker_pc \<Rightarrow> bool" where
  "taking (T_read m) = True"
| "taking pc = False"

fun swap_inv :: "bool \<Rightarrow> 'a taker_pc \<Rightarrow> bool" where
  "swap_inv fr (T_swap m) = fr"
| "swap_inv fr pc = True"

definition in_buffer :: "'a mailbox \<Rightarrow> nat list" where
  "in_buffer s = (if taking (tpc s) then [reading_at s] else []) @
     (if fresh (middle (box s)) then [length (posted s) - 1] else []) @
     (if displacing (mpc s) then [length (posted s) - 2] else [])"

definition box_inv :: "'a mailbox \<Rightarrow> bool" where
  "box_inv s \<longleftrightarrow>
     (let b = box s; lg = posted s in
      rotation (back_slot b) (middle b) (front_slot b) \<and> length (box_slots b) = 3 \<and>
      box_slots b ! unat (back_slot b) = back_content lg (mpc s) \<and>
      box_slots b ! unat (front_slot b) = (if taking (tpc s) then Some (lg ! reading_at s) else None) \<and>
      box_slots b ! unat (middle b AND kIndexMask) = (if fresh (middle b) then Some (last lg) else None) \<and>
      swap_inv (fresh (middle b)) (tpc s) \<and>
      (displacing (mpc s) \<longrightarrow> 2 \<le> length lg) \<and>
      mset (taken_at s) + mset (displaced_at s) + mset (in_buffer s) = mset [0..<length lg] \<and>
      sorted_wrt (<) (taken_at s @ (if taking (tpc s) then [reading_at s] else []) @
        (if fresh (middle b) then [length lg - 1] else [])))"

lemma in_buffer_less:
  assumes "box_inv s"
  shows "i \<in> set (taken_at s) \<Longrightarrow> i < length (posted s)"
    and "i \<in> set (displaced_at s) \<Longrightarrow> i < length (posted s)"
    and "i \<in> set (in_buffer s) \<Longrightarrow> i < length (posted s)"
proof -
  have "set_mset (mset (taken_at s) + mset (displaced_at s) + mset (in_buffer s)) = {0..<length (posted s)}"
    using assms by (simp add: box_inv_def Let_def)
  then show "i \<in> set (taken_at s) \<Longrightarrow> i < length (posted s)"
    "i \<in> set (displaced_at s) \<Longrightarrow> i < length (posted s)" "i \<in> set (in_buffer s) \<Longrightarrow> i < length (posted s)"
    by auto
qed

lemma positions_Suc: "mset_set {0..<Suc n} = add_mset n (mset_set {0..<n})"
  by (simp add: atLeast0_lessThan_Suc)

lemma swap_inv_True [simp]: "swap_inv True c"
  by (cases c) simp_all

lemma box_inv_init: "box_inv mailbox_init"
  by (simp add: box_inv_def mailbox_init_def make_slot_def rotation_def in_buffer_def fresh_def
      kFresh_def kIndexMask_def)

lemma wake_taker_simps [simp]:
  "taking (wake_taker c) = taking c" "swap_inv fr (wake_taker c) = swap_inv fr c"
  "wake_taker c = T_return m v \<longleftrightarrow> c = T_return m v"
  by (cases c; simp add: wake_taker_def)+

lemma box_frame:
  assumes "box_inv s" and "box_slots (box s') = box_slots (box s)" and "middle (box s') = middle (box s)"
    and "back_slot (box s') = back_slot (box s)" and "front_slot (box s') = front_slot (box s)"
    and "posted s' = posted s" and "taken_at s' = taken_at s" and "displaced_at s' = displaced_at s"
    and "reading_at s' = reading_at s" and "taking (tpc s') = taking (tpc s)"
    and "displacing (mpc s') = displacing (mpc s)" and "back_content (posted s) (mpc s') = back_content (posted s) (mpc s)"
    and "swap_inv (fresh (middle (box s))) (tpc s')"
  shows "box_inv s'"
  using assms(1,13) unfolding box_inv_def in_buffer_def Let_def assms(2-12)
  by (elim conjE, intro conjI) assumption+

lemma box_publisher:
  assumes inv: "box_inv s" and step: "publisher_step s = Some s'"
  shows "box_inv s'"
proof -
  let ?b = "box s" and ?n = "length (posted s)"
  note I = inv [unfolded box_inv_def Let_def]
  note f = rotation_facts [OF I [THEN conjunct1]] rotation_publish [OF I [THEN conjunct1]]
  show ?thesis
  proof (cases "mpc s")
    case (M_write v)
    with step have "s' = s\<lparr>box := ?b\<lparr>box_slots := (box_slots ?b)[unat (back_slot ?b) := Some v]\<rparr>, mpc := M_swap v\<rparr>"
      by (simp add: publisher_step_def Let_def)
    then show ?thesis using I f M_write
      by (cases "fresh (middle ?b)"; cases "taking (tpc s)") (simp_all add: box_inv_def in_buffer_def Let_def)
  next
    case (M_swap v)
    with step have s': "s' = s\<lparr>box := ?b\<lparr>middle := back_slot ?b OR kFresh, back_slot := middle ?b AND kIndexMask\<rparr>,
        mpc := M_displaced (middle ?b), posted := posted s @ [v]\<rparr>" by (simp add: publisher_step_def Let_def)
    have "reading_at s < ?n" if "taking (tpc s)"
      using that in_buffer_less(3) [OF inv, of "reading_at s"] by (simp add: in_buffer_def)
    moreover have "i < ?n" if "i \<in> set (taken_at s)" for i using in_buffer_less(1) [OF inv that] .
    moreover have "0 < ?n" if "fresh (middle ?b)"
      using that in_buffer_less(3) [OF inv, of "?n - 1"] by (auto simp: in_buffer_def)
    ultimately show ?thesis using I f M_swap
      by (cases "fresh (middle ?b)"; cases "taking (tpc s)")
        (auto simp: s' box_inv_def in_buffer_def Let_def nth_append last_conv_nth sorted_wrt_append
          positions_Suc add_mset_commute Suc_le_eq)
  next
    case (M_displaced previous)
    show ?thesis
    proof (cases "fresh previous")
      case True
      then have s': "s' = s\<lparr>box := ?b\<lparr>box_slots := (box_slots ?b)[unat (back_slot ?b) := None]\<rparr>,
          mpc := M_signal (box_slots ?b ! unat (back_slot ?b)), displaced_at := displaced_at s @ [?n - 2]\<rparr>"
        using M_displaced step by (simp add: publisher_step_def take_out_def fresh_def Let_def)
      then show ?thesis using I f M_displaced True
        by (cases "fresh (middle ?b)"; cases "taking (tpc s)") (simp_all add: box_inv_def in_buffer_def Let_def)
    next
      case False
      then have "s' = s\<lparr>mpc := M_signal None\<rparr>" using M_displaced step by (simp add: publisher_step_def fresh_def)
      then show ?thesis using False M_displaced I by (intro box_frame [OF inv]) auto
    qed
  qed (use step I in \<open>auto simp: publisher_step_def Let_def split: if_splits intro!: box_frame [OF inv]\<close>)
qed

lemma box_taker:
  assumes inv: "box_inv s" and step: "taker_step s = Some s'"
  shows "box_inv s'"
proof -
  let ?b = "box s" and ?n = "length (posted s)"
  note I = inv [unfolded box_inv_def Let_def]
  note f = rotation_facts [OF I [THEN conjunct1]] rotation_take [OF I [THEN conjunct1]]
  show ?thesis
  proof (cases "tpc s")
    case (T_load m)
    then show ?thesis using step I
      by (cases m) (auto simp: taker_step_def Let_def fresh_def after_stale_def split: if_splits
          intro!: box_frame [OF inv])
  next
    case (T_swap m)
    with step have s': "s' = s\<lparr>box := ?b\<lparr>middle := front_slot ?b, front_slot := middle ?b AND kIndexMask\<rparr>,
        tpc := T_read m, reading_at := ?n - 1\<rparr>" by (simp add: taker_step_def Let_def)
    have "fresh (middle ?b)" using I T_swap by simp
    moreover from this have "posted s \<noteq> []"
      using in_buffer_less(3) [OF inv, of "?n - 1"] by (auto simp: in_buffer_def)
    ultimately show ?thesis using I f T_swap
      by (cases "displacing (mpc s)") (auto simp: s' box_inv_def in_buffer_def Let_def last_conv_nth)
  next
    case (T_read m)
    with step have "s' = s\<lparr>box := ?b\<lparr>box_slots := (box_slots ?b)[unat (front_slot ?b) := None]\<rparr>,
        tpc := T_return m (box_slots ?b ! unat (front_slot ?b)), taken_at := taken_at s @ [reading_at s]\<rparr>"
      by (simp add: taker_step_def take_out_def Let_def)
    then show ?thesis using I f T_read
      by (cases "fresh (middle ?b)"; cases "displacing (mpc s)")
        (auto simp: box_inv_def in_buffer_def Let_def sorted_wrt_append add_mset_commute)
  qed (use step I in \<open>auto simp: taker_step_def Let_def split: if_splits intro!: box_frame [OF inv]\<close>)
qed

lemma box_step:
  assumes "mailbox_step s s'" and inv: "box_inv s"
  shows "box_inv s'"
proof -
  have sw: "swap_inv (fresh (middle (box s))) (tpc s)" using inv by (simp add: box_inv_def Let_def)
  show ?thesis
    using assms(1)
  proof cases
    case publisher
    with inv show ?thesis by (rule box_publisher)
  next
    case taker
    with inv show ?thesis by (rule box_taker)
  next
    case slot_closer
    then show ?thesis using sw
      by (cases "kpc s") (auto simp: slot_closer_step_def Let_def intro!: box_frame [OF inv])
  qed (use sw in \<open>auto intro!: box_frame [OF inv]\<close>)
qed

lemma reachable_box_inv:
  assumes "box_reachable s" shows "box_inv s"
  using rtranclp_invariant [where P = box_inv, OF assms [unfolded box_reachable_def] box_inv_init] box_step
  by blast

section \<open>Wake-ups\<close>

fun taker_seen :: "'a taker_pc \<Rightarrow> u32 option" where
  "taker_seen (T_load (Take_loop e)) = Some e"
| "taker_seen (T_closed e) = Some e"
| "taker_seen (T_wait e) = Some e"
| "taker_seen (T_blocked e) = Some e"
| "taker_seen pc = None"

fun taker_flags :: "'a taker_pc \<Rightarrow> waiter_flags" where
  "taker_flags (T_closed e) = (False, True, False)"
| "taker_flags (T_wait e) = (True, True, False)"
| "taker_flags (T_blocked e) = (True, True, True)"
| "taker_flags pc = (False, False, False)"

fun signal_due :: "'a publisher_pc \<Rightarrow> bool" where
  "signal_due (M_displaced p) = True"
| "signal_due (M_signal d) = True"
| "signal_due pc = False"

fun notify_due :: "'a publisher_pc \<Rightarrow> bool" where
  "notify_due (M_notify d) = True"
| "notify_due pc = False"

definition box_signals :: "'a mailbox \<Rightarrow> nat" where
  "box_signals s = length (posted s) - (if signal_due (mpc s) then 1 else 0) +
     (if kpc s = K_idle \<or> kpc s = K_signal then 0 else 1)"

definition taker_wake :: "'a mailbox \<Rightarrow> bool" where
  "taker_wake s \<longleftrightarrow>
     waiter_inv (taker_seen (tpc s)) (taker_flags (tpc s)) 0 (box_signals s)
       (\<not> fresh (middle (box s)) \<or> signal_due (mpc s))
       (kpc s = K_idle \<or> kpc s = K_signal) (notify_due (mpc s) \<or> kpc s = K_notify)"

definition box_signal_inv :: "'a mailbox \<Rightarrow> bool" where
  "box_signal_inv s \<longleftrightarrow> published (box s) = of_nat (box_signals s) \<and>
     (box_closed (box s) \<longleftrightarrow> kpc s \<noteq> K_idle) \<and> (signal_due (mpc s) \<longrightarrow> posted s \<noteq> []) \<and> taker_wake s"

lemma taker_wake_flags [simp]:
  "taker_seen (wake_taker c) = taker_seen c"
  "taker_flags (wake_taker c) = (fst (taker_flags c), fst (snd (taker_flags c)), False)"
  by (cases c; simp add: wake_taker_def)+

lemma box_signal_frame:
  assumes "box_signal_inv s" and "published (box s') = published (box s)" and "box_closed (box s') = box_closed (box s)"
    and "middle (box s') = middle (box s)" and "kpc s' = kpc s" and "posted s' = posted s"
    and "signal_due (mpc s') = signal_due (mpc s)" and "notify_due (mpc s') = notify_due (mpc s)"
    and "tpc s' = tpc s"
  shows "box_signal_inv s'"
  using assms(1) unfolding box_signal_inv_def taker_wake_def box_signals_def assms(2-) .

lemma signal_publisher:
  assumes inv: "box_signal_inv s" and step: "publisher_step s = Some s'"
  shows "box_signal_inv s'"
proof (cases "mpc s")
  case (M_swap v)
  with step obtain b where s': "s' = s\<lparr>box := b, mpc := M_displaced (middle (box s)), posted := posted s @ [v]\<rparr>"
    and b: "published b = published (box s)" "box_closed b = box_closed (box s)"
    by (auto simp: publisher_step_def Let_def)
  have eq: "box_signals s' = box_signals s" using M_swap by (simp add: s' box_signals_def)
  have w: "taker_wake s" using inv by (simp add: box_signal_inv_def)
  have same: "tpc s' = tpc s" "kpc s' = kpc s" by (simp_all add: s')
  have "taker_wake s'" unfolding taker_wake_def eq same
    by (rule waiter_mono [OF w [unfolded taker_wake_def]]) (simp_all add: s' M_swap)
  then show ?thesis using inv eq b by (simp add: box_signal_inv_def s')
next
  case (M_displaced p)
  show ?thesis
  proof (cases "p AND kFresh = 0")
    case True
    with M_displaced step have "s' = s\<lparr>mpc := M_signal None\<rparr>" by (simp add: publisher_step_def)
    then show ?thesis using M_displaced by (auto intro!: box_signal_frame [OF inv])
  next
    case False
    with M_displaced step obtain b d ds where s': "s' = s\<lparr>box := b, mpc := M_signal d, displaced_at := ds\<rparr>"
      and b: "published b = published (box s)" "box_closed b = box_closed (box s)" "middle b = middle (box s)"
      by (auto simp: publisher_step_def Let_def take_out_def)
    then show ?thesis using M_displaced by (auto intro!: box_signal_frame [OF inv])
  qed
next
  case (M_signal d)
  with step obtain b where s': "s' = s\<lparr>box := b, mpc := M_notify d\<rparr>"
    and b: "published b = published (box s) + 1" "box_closed b = box_closed (box s)" "middle b = middle (box s)"
    by (auto simp: publisher_step_def Let_def)
  have eq: "box_signals s' = Suc (box_signals s)"
    using M_signal inv by (cases "posted s") (simp_all add: s' box_signals_def box_signal_inv_def)
  have w: "taker_wake s" using inv by (simp add: box_signal_inv_def)
  have same: "tpc s' = tpc s" "kpc s' = kpc s" by (simp_all add: s')
  have "taker_wake s'" unfolding taker_wake_def eq same
    by (rule waiter_mono [OF w [unfolded taker_wake_def]]) (simp_all add: s' M_signal)
  then show ?thesis using inv eq b by (simp add: box_signal_inv_def s')
next
  case (M_notify d)
  with step have s': "s' = s\<lparr>tpc := wake_taker (tpc s), mpc := M_return d\<rparr>"
    by (simp add: publisher_step_def Let_def)
  moreover have "box_signals s' = box_signals s" using M_notify by (simp add: s' box_signals_def)
  ultimately show ?thesis using inv M_notify
    by (auto simp: box_signal_inv_def taker_wake_def intro: waiter_woken_flags)
qed (use step in \<open>auto simp: publisher_step_def Let_def split: if_splits intro!: box_signal_frame [OF inv]\<close>)

lemma box_signals_tpc [simp]: "box_signals (s\<lparr>tpc := c\<rparr>) = box_signals s"
  by (simp add: box_signals_def)

lemma tpc_frame: "box_signal_inv s \<Longrightarrow> taker_wake (s\<lparr>tpc := c\<rparr>) \<Longrightarrow> box_signal_inv (s\<lparr>tpc := c\<rparr>)"
  by (simp add: box_signal_inv_def)

lemma signal_taker:
  assumes inv: "box_signal_inv s" and bi: "box_inv s" and step: "taker_step s = Some s'"
    and bound: "length (posted s) + 1 < 2 ^ 32"
  shows "box_signal_inv s'"
proof -
  have p: "published (box s) = of_nat (box_signals s)" and w: "taker_wake s"
    and cl: "box_closed (box s) \<longleftrightarrow> kpc s \<noteq> K_idle" and dp: "signal_due (mpc s) \<longrightarrow> posted s \<noteq> []"
    using inv by (auto simp: box_signal_inv_def)
  have no_wrap: "box_signals s < 0 + 4294967296" using bound by (auto simp: box_signals_def)
  show ?thesis
  proof (cases "tpc s")
    case T_epoch
    then have "s' = s\<lparr>tpc := T_load (Take_loop (of_nat (box_signals s)))\<rparr>" using step p
      by (simp add: taker_step_def)
    then show ?thesis using waiter_load by (auto intro!: tpc_frame [OF inv] simp: taker_wake_def)
  next
    case (T_load m)
    then have "s' = s\<lparr>tpc := if middle (box s) AND kFresh = 0 then after_stale m else T_swap m\<rparr>"
      using step by (simp add: taker_step_def)
    then show ?thesis using w T_load
      by (cases m) (auto intro!: tpc_frame [OF inv] simp: taker_wake_def after_stale_def fresh_def
          intro: waiter_tested [of _ False False])
  next
    case (T_closed e)
    then have "s' = s\<lparr>tpc := if box_closed (box s) then T_load Take_last else T_wait e\<rparr>"
      using step by (simp add: taker_step_def)
    then show ?thesis using w T_closed cl
      by (auto intro!: tpc_frame [OF inv] simp: taker_wake_def intro: waiter_tested [of _ False True])
  next
    case (T_wait e)
    then have "s' = s\<lparr>tpc := if published (box s) = e then T_blocked e else T_epoch\<rparr>"
      using step by (simp add: taker_step_def)
    then show ?thesis using w T_wait p waiter_parks [OF _ _ no_wrap]
      by (auto intro!: tpc_frame [OF inv] simp: taker_wake_def)
  next
    case (T_swap m)
    then have s': "s' = s\<lparr>box := (box s)\<lparr>middle := front_slot (box s), front_slot := middle (box s) AND kIndexMask\<rparr>,
        tpc := T_read m, reading_at := length (posted s) - 1\<rparr>" using step by (simp add: taker_step_def Let_def)
    then show ?thesis using p cl dp by (simp add: box_signal_inv_def taker_wake_def box_signals_def)
  next
    case (T_read m)
    then obtain b v t where "s' = s\<lparr>box := b, tpc := T_return m v, taken_at := t\<rparr>"
      "published b = published (box s)" "box_closed b = box_closed (box s)"
      using step by (auto simp: taker_step_def take_out_def Let_def)
    then show ?thesis using p cl dp by (simp add: box_signal_inv_def taker_wake_def box_signals_def)
  qed (use step in \<open>auto simp: taker_step_def taker_wake_def intro!: tpc_frame [OF inv]\<close>)
qed

lemma signal_slot_closer:
  assumes inv: "box_signal_inv s" and step: "slot_closer_step s = Some s'"
  shows "box_signal_inv s'"
proof (cases "kpc s")
  case K_idle
  with step have "s' = s\<lparr>box := (box s)\<lparr>box_closed := True\<rparr>, kpc := K_signal\<rparr>"
    by (simp add: slot_closer_step_def Let_def)
  with inv K_idle show ?thesis by (simp add: box_signal_inv_def taker_wake_def box_signals_def)
next
  case K_signal
  with step have s': "s' = s\<lparr>box := (box s)\<lparr>published := published (box s) + 1\<rparr>, kpc := K_notify\<rparr>"
    by (simp add: slot_closer_step_def Let_def)
  moreover have "box_signals s' = Suc (box_signals s)" using K_signal by (simp add: s' box_signals_def)
  ultimately show ?thesis using inv K_signal
    by (auto simp: box_signal_inv_def taker_wake_def elim!: waiter_mono)
next
  case K_notify
  with step have s': "s' = s\<lparr>tpc := wake_taker (tpc s), kpc := K_done\<rparr>"
    by (simp add: slot_closer_step_def Let_def)
  moreover have "box_signals s' = box_signals s" using K_notify by (simp add: s' box_signals_def)
  ultimately show ?thesis using inv K_notify
    by (auto simp: box_signal_inv_def taker_wake_def intro: waiter_woken_flags)
qed (use step in \<open>simp add: slot_closer_step_def\<close>)

lemma posted_mono: "mailbox_step s s' \<Longrightarrow> length (posted s) \<le> length (posted s')"
proof (induction rule: mailbox_step.induct)
  case (publisher s s')
  then show ?case
    by (cases "mpc s") (auto simp: publisher_step_def Let_def take_out_def split: if_splits)
next
  case (taker s s')
  then show ?case by (cases "tpc s") (auto simp: taker_step_def Let_def take_out_def)
next
  case (slot_closer s s')
  then show ?case by (cases "kpc s") (auto simp: slot_closer_step_def Let_def)
qed simp_all

lemma signal_box_step:
  assumes "mailbox_step s s'" and inv: "box_signal_inv s" and bi: "box_inv s"
    and "length (posted s') + 1 < 2 ^ 32"
  shows "box_signal_inv s'"
proof -
  have bound: "length (posted s) + 1 < 2 ^ 32" using posted_mono [OF assms(1)] assms(4) by linarith
  show ?thesis
    using assms(1)
  proof cases
    case publisher
    with inv show ?thesis by (rule signal_publisher)
  next
    case taker
    with inv bi show ?thesis using bound by (rule signal_taker)
  next
    case slot_closer
    with inv show ?thesis by (rule signal_slot_closer)
  next
    case (call_publish v)
    with inv show ?thesis by (auto intro!: box_signal_frame [OF inv])
  next
    case spurious
    with inv show ?thesis
      by (auto simp: box_signal_inv_def taker_wake_def box_signals_def intro: waiter_woken_flags)
  qed (use inv in \<open>simp_all add: box_signal_inv_def taker_wake_def box_signals_def\<close>)
qed

lemma reachable_signal_inv:
  assumes "box_reachable s" and "length (posted s) + 1 < 2 ^ 32"
  shows "box_signal_inv s"
proof -
  let ?P = "\<lambda>s. box_inv s \<and> (length (posted s) + 1 < 2 ^ 32 \<longrightarrow> box_signal_inv s)"
  have "?P s"
  proof (rule rtranclp_invariant [where P = ?P, OF assms(1) [unfolded box_reachable_def]])
    have "box_signal_inv mailbox_init"
      by (simp add: box_signal_inv_def mailbox_init_def make_slot_def taker_wake_def box_signals_def)
    then show "?P mailbox_init" using box_inv_init by blast
    show "?P y" if "mailbox_step x y" "?P x" for x y
      using that box_step [of x y] signal_box_step [of x y] posted_mono [of x y] by linarith
  qed
  with assms(2) show ?thesis by blast
qed

section \<open>Executions\<close>

datatype 'a box_move = Publisher | Taker | Slot_closer | Call_publish 'a | Call_take

definition box_move_step :: "'a mailbox \<Rightarrow> 'a box_move \<Rightarrow> 'a mailbox option" where
  "box_move_step s mv =
     (case mv of
        Publisher \<Rightarrow> publisher_step s
      | Taker \<Rightarrow> taker_step s
      | Slot_closer \<Rightarrow> slot_closer_step s
      | Call_publish v \<Rightarrow> if mpc s = M_idle then Some (s\<lparr>mpc := M_closed v\<rparr>) else None
      | Call_take \<Rightarrow> if tpc s = T_idle then Some (s\<lparr>tpc := T_epoch\<rparr>) else None)"

fun run_box :: "'a box_move list \<Rightarrow> 'a mailbox \<Rightarrow> 'a mailbox option" where
  "run_box [] s = Some s"
| "run_box (mv # mvs) s = (case box_move_step s mv of None \<Rightarrow> None | Some s' \<Rightarrow> run_box mvs s')"

lemma box_move_is_step: "box_move_step s mv = Some s' \<Longrightarrow> mailbox_step s s'"
  by (cases mv) (auto simp: box_move_step_def intro: mailbox_step.intros split: if_splits)

lemma run_box_steps: "run_box mvs s = Some s' \<Longrightarrow> mailbox_step\<^sup>*\<^sup>* s s'"
proof (induction mvs arbitrary: s)
  case (Cons mv mvs)
  then show ?case
    by (auto split: option.splits intro: converse_rtranclp_into_rtranclp [of mailbox_step] box_move_is_step)
qed simp

lemma run_box_reachable: "run_box mvs mailbox_init = Some s \<Longrightarrow> box_reachable s"
  unfolding box_reachable_def by (rule run_box_steps)

lemmas run_box_simps = mailbox_init_def make_slot_def box_move_step_def publisher_step_def taker_step_def
  slot_closer_step_def wake_taker_def after_stale_def take_out_def Let_def replicate_numeral
  kFresh_def kIndexMask_def

text \<open>Two publications, of which the consumer takes the second; a consumer parked on nothing.\<close>

definition replace_schedule :: "nat box_move list" where
  "replace_schedule = Call_publish 7 # replicate 7 Publisher @ Call_publish 8 # replicate 7 Publisher @
     Call_take # replicate 2 Taker"

definition idle_schedule :: "nat box_move list" where
  "idle_schedule = Call_take # replicate 4 Taker"

definition late_publish_schedule :: "nat box_move list" where
  "late_publish_schedule = Call_publish 7 # Publisher # replicate 3 Slot_closer @
     Call_take # replicate 4 Taker @ replicate 5 Publisher"

section \<open>The properties\<close>

text \<open>
  Run without interference, the mailbox is a one-place buffer: \<open>publish\<close> stores the value and
  returns the one it replaces, \<open>try_take\<close> empties the buffer; a closed mailbox hands the value
  back.
\<close>

theorem slot_is_one_place_buffer:
  assumes "slot_ok b"
  shows "(case publish v b of (displaced, b') \<Rightarrow> slot_ok b' \<and>
            (if box_closed b then displaced = Some v \<and> b' = b
             else displaced = slot_value b \<and> slot_value b' = Some v)) \<and>
         (case try_take b of (res, b') \<Rightarrow> slot_ok b' \<and> res = slot_value b \<and> slot_value b' = None)"
  using publish_refines [OF assms, of v] try_take_refines [OF assms] by (auto split: prod.splits)

theorem slot_is_one_place_buffer_witness:
  "fst (publish 8 (snd (publish 7 make_slot))) = Some (7::nat)"
proof -
  obtain d b where p: "publish (7::nat) make_slot = (d, b)" by fastforce
  with publish_refines [OF make_slot_ok(1) p] have b: "slot_ok b" "slot_value b = Some 7" "\<not> box_closed b"
    by (simp_all add: make_slot_def)
  from slot_is_one_place_buffer [OF b(1), of 8] show ?thesis using b p by (auto split: prod.splits)
qed



text \<open>
  C8: a take gets the freshest value: the slot the exchange gives the consumer holds the last
  value published, whatever the producer does meanwhile, and that value is what it returns.
\<close>

theorem take_gets_latest:
  assumes "box_reachable s" and "tpc s = T_swap m" and "taker_step s = Some s'"
  shows "posted s \<noteq> [] \<and> tpc s' = T_read m \<and> posted s' ! reading_at s' = last (posted s) \<and>
    (\<forall>t t'. mailbox_step\<^sup>*\<^sup>* s' t \<longrightarrow> tpc t = T_read m \<longrightarrow> taker_step t = Some t' \<longrightarrow>
       tpc t' = T_return m (Some (posted t ! reading_at t)))"
proof -
  have inv: "box_inv s" using assms(1) by (rule reachable_box_inv)
  then have "fresh (middle (box s))" using assms(2) by (simp add: box_inv_def Let_def)
  then have ne: "posted s \<noteq> []" using in_buffer_less(3) [OF inv, of "length (posted s) - 1"]
    by (auto simp: in_buffer_def)
  have s': "s' = s\<lparr>box := box s', tpc := T_read m, reading_at := length (posted s) - 1\<rparr>"
    using assms(2,3) by (auto simp: taker_step_def Let_def)
  have "tpc t' = T_return m (Some (posted t ! reading_at t))"
    if "mailbox_step\<^sup>*\<^sup>* s' t" "tpc t = T_read m" "taker_step t = Some t'" for t t'
  proof -
    have "mailbox_step s s'" using assms(3) by (rule taker)
    then have "box_reachable t"
      using assms(1) that(1) unfolding box_reachable_def by (meson rtranclp.rtrancl_into_rtrancl rtranclp_trans)
    from reachable_box_inv [OF this] that(2,3) show ?thesis
      by (auto simp: box_inv_def taker_step_def take_out_def Let_def)
  qed
  moreover have "posted s' ! reading_at s' = last (posted s)" "tpc s' = T_read m"
    using ne by (subst s', simp add: last_conv_nth)+
  ultimately show ?thesis using ne by blast
qed

theorem take_gets_latest_witness:
  "\<exists>s s' :: nat mailbox. taker_step s = Some s' \<and> last (posted s) = 8 \<and> posted s' ! reading_at s' = 8"
proof -
  obtain s s' where s: "run_box replace_schedule mailbox_init = Some s" "tpc s = T_swap (Take_loop 2)"
    "last (posted s) = 8" "taker_step s = Some s'" by (simp add: replace_schedule_def run_box_simps)
  from take_gets_latest [OF run_box_reachable [OF s(1)] s(2,4)] s show ?thesis by auto
qed

text \<open>
  No wake-up is lost in the first 2^32 - 2 publications: when no signal or notification is in
  flight, a parked consumer faces an empty, open mailbox.
\<close>

theorem no_lost_wakeup_latest:
  assumes "box_reachable s" and "length (posted s) + 1 < 2 ^ 32" and "tpc s = T_blocked e"
    and "\<not> signal_due (mpc s)" and "\<not> notify_due (mpc s)" and "kpc s = K_idle \<or> kpc s = K_done"
  shows "\<not> fresh (middle (box s)) \<and> \<not> box_closed (box s)"
  using reachable_signal_inv [OF assms(1,2)] assms(3-)
  by (auto simp: box_signal_inv_def taker_wake_def dest: waiter_parked)

theorem no_lost_wakeup_latest_witness:
  "\<exists>s :: nat mailbox. tpc s = T_blocked 0 \<and> \<not> fresh (middle (box s)) \<and> \<not> box_closed (box s)"
proof -
  obtain s where s: "run_box idle_schedule mailbox_init = Some s" "tpc s = T_blocked 0" "posted s = []"
    "mpc s = M_idle" "kpc s = K_idle" by (simp add: idle_schedule_def run_box_simps)
  from no_lost_wakeup_latest [OF run_box_reachable [OF s(1)] _ s(2)] s show ?thesis by auto
qed

text \<open>
  A publication that passes the closed test before \<open>close\<close> and exchanges after it can be
  stranded: the consumer has left with nothing, and \<open>publish\<close> reports that nothing was displaced.
\<close>

theorem publish_racing_close_strands_value:
  "\<exists>s :: nat mailbox. box_reachable s \<and> tpc s = T_return Take_last None \<and> kpc s = K_done \<and>
     mpc s = M_return None \<and> posted s = [7] \<and> taken_at s = [] \<and> displaced_at s = []"
proof -
  obtain s where "run_box late_publish_schedule mailbox_init = Some s"
    "tpc s = T_return Take_last None \<and> kpc s = K_done \<and>
     mpc s = M_return None \<and> posted s = [7] \<and> taken_at s = [] \<and> displaced_at s = []"
    by (simp add: late_publish_schedule_def run_box_simps)
  then show ?thesis using run_box_reachable by blast
qed

end
