(* ===== verification/HandOff.thy ===== *)
theory HandOff
  imports SpscRing LatestSlot FramePool
begin

text \<open>
  \<open>pipeline/hand_off.hpp\<close> and \<open>src/pipeline/hand_off.cpp\<close>: the hand-off of frames between two
  pipeline threads, a ring or a latest-value mailbox of frame pointers behind a policy. The calls
  run as in their sequential models, except that a concurrent \<open>close\<close> may take effect between the
  test of the closed flag and the rest of a push (\<open>closing\<close>). A call that would block returns
  \<open>None\<close>. Frames a call drops go back to the pool.
\<close>

section \<open>Policies and results\<close>

datatype ingress_policy = kLatest | kDropNewest | kBlock

definition ingress_to_string :: "ingress_policy \<Rightarrow> string" where
  "ingress_to_string p = (case p of kLatest \<Rightarrow> ''latest'' | kDropNewest \<Rightarrow> ''drop-newest'' | kBlock \<Rightarrow> ''block'')"

definition parse_ingress_policy :: "string \<Rightarrow> ingress_policy option" where
  "parse_ingress_policy t =
     (if t = ''latest'' then Some kLatest
      else if t = ''drop-newest'' then Some kDropNewest
      else if t = ''block'' then Some kBlock
      else None)"

datatype hand_off_result = kAccepted | kReplacedStale | kDroppedIncoming | kClosed

definition is_drop :: "hand_off_result \<Rightarrow> bool" where
  "is_drop r \<longleftrightarrow> r = kReplacedStale \<or> r = kDroppedIncoming"

section \<open>The blocking calls of the two containers\<close>

definition ring_push :: "bool \<Rightarrow> 'a \<Rightarrow> 'a spsc_ring \<Rightarrow> bool option \<times> 'a spsc_ring" where
  "ring_push closing v r =
     (if closed r then (Some False, r)
      else let (pushed, r) = try_push v (if closing then close_ring r else r)
           in (if pushed then Some True else None, r))"

definition ring_pop :: "'a \<Rightarrow> 'a spsc_ring \<Rightarrow> 'a option option \<times> 'a spsc_ring" where
  "ring_pop nil r =
     (case try_pop nil r of
        (Some v, r) \<Rightarrow> (Some (Some v), r)
      | (None, r) \<Rightarrow> if closed r then map_prod Some id (try_pop nil r) else (None, r))"

definition slot_take :: "'a latest_slot \<Rightarrow> 'a option option \<times> 'a latest_slot" where
  "slot_take b =
     (case try_take b of
        (Some v, b) \<Rightarrow> (Some (Some v), b)
      | (None, b) \<Rightarrow> if box_closed b then map_prod Some id (try_take b) else (None, b))"

section \<open>The hand-off\<close>

datatype ho_storage = Slot "frame_ptr latest_slot" | Ring "frame_ptr spsc_ring"

record hand_off =
  ho_policy :: ingress_policy
  ho_storage :: ho_storage

definition make_storage :: "ingress_policy \<Rightarrow> u64 \<Rightarrow> ho_storage" where
  "make_storage policy cap = (if policy = kLatest then Slot make_slot else Ring (make_ring None cap))"

definition make_hand_off :: "ingress_policy \<Rightarrow> u64 \<Rightarrow> hand_off" where
  "make_hand_off policy cap = \<lparr>ho_policy = policy, ho_storage = make_storage policy cap\<rparr>"

definition push_latest ::
  "bool \<Rightarrow> frame_ptr \<Rightarrow> frame_ptr latest_slot \<Rightarrow> frame_pool \<Rightarrow> hand_off_result \<times> frame_ptr latest_slot \<times> frame_pool"
where
  "push_latest closing frame slot p =
     (if box_closed slot then (kClosed, slot, frame_recycler frame p)
      else case publish frame (if closing then close_slot slot else slot) of
             (Some displaced, slot) \<Rightarrow> (kReplacedStale, slot, frame_recycler displaced p)
           | (None, slot) \<Rightarrow> (kAccepted, slot, p))"

definition push_ring ::
  "bool \<Rightarrow> ingress_policy \<Rightarrow> frame_ptr \<Rightarrow> frame_ptr spsc_ring \<Rightarrow> frame_pool \<Rightarrow>
   hand_off_result option \<times> frame_ptr spsc_ring \<times> frame_pool"
where
  "push_ring closing policy frame ring p =
     (if policy = kBlock
      then case ring_push closing frame ring of
             (Some True, ring) \<Rightarrow> (Some kAccepted, ring, p)
           | (Some False, ring) \<Rightarrow> (Some kClosed, ring, frame_recycler frame p)
           | (None, ring) \<Rightarrow> (None, ring, p)
      else if closed ring then (Some kClosed, ring, frame_recycler frame p)
      else case try_push frame (if closing then close_ring ring else ring) of
             (True, ring) \<Rightarrow> (Some kAccepted, ring, p)
           | (False, ring) \<Rightarrow> (Some kDroppedIncoming, ring, frame_recycler frame p))"

definition hand_off_push ::
  "bool \<Rightarrow> frame_ptr \<Rightarrow> hand_off \<Rightarrow> frame_pool \<Rightarrow> hand_off_result option \<times> hand_off \<times> frame_pool"
where
  "hand_off_push closing frame ho p =
     (case ho_storage ho of
        Slot slot \<Rightarrow> (case push_latest closing frame slot p of (res, slot, p) \<Rightarrow> (Some res, ho\<lparr>ho_storage := Slot slot\<rparr>, p))
      | Ring ring \<Rightarrow> (case push_ring closing (ho_policy ho) frame ring p of
                       (res, ring, p) \<Rightarrow> (res, ho\<lparr>ho_storage := Ring ring\<rparr>, p)))"

definition hand_off_pop :: "hand_off \<Rightarrow> frame_ptr option option \<times> hand_off" where
  "hand_off_pop ho =
     (case ho_storage ho of
        Slot slot \<Rightarrow> map_prod id (\<lambda>slot. ho\<lparr>ho_storage := Slot slot\<rparr>) (slot_take slot)
      | Ring ring \<Rightarrow> map_prod id (\<lambda>ring. ho\<lparr>ho_storage := Ring ring\<rparr>) (ring_pop None ring))"

definition hand_off_close :: "hand_off \<Rightarrow> hand_off" where
  "hand_off_close ho =
     ho\<lparr>ho_storage := (case ho_storage ho of Slot slot \<Rightarrow> Slot (close_slot slot) | Ring ring \<Rightarrow> Ring (close_ring ring))\<rparr>"

section \<open>The abstract queue\<close>

definition storage_queue :: "ho_storage \<Rightarrow> frame_ptr list" where
  "storage_queue st = (case st of Slot slot \<Rightarrow> (case slot_value slot of None \<Rightarrow> [] | Some f \<Rightarrow> [f]) | Ring ring \<Rightarrow> ring_queue ring)"

definition storage_closed :: "ho_storage \<Rightarrow> bool" where
  "storage_closed st = (case st of Slot slot \<Rightarrow> box_closed slot | Ring ring \<Rightarrow> closed ring)"

definition storage_room :: "ho_storage \<Rightarrow> nat" where
  "storage_room st = (case st of Slot _ \<Rightarrow> 1 | Ring ring \<Rightarrow> unat (ring_capacity ring))"

definition hand_off_ok :: "hand_off \<Rightarrow> bool" where
  "hand_off_ok ho \<longleftrightarrow> (case ho_storage ho of
       Slot slot \<Rightarrow> ho_policy ho = kLatest \<and> slot_ok slot
     | Ring ring \<Rightarrow> ho_policy ho \<noteq> kLatest \<and> ring_ok ring) \<and>
     None \<notin> set (storage_queue (ho_storage ho))"

definition queued :: "hand_off \<Rightarrow> nat list" where
  "queued ho = map the (storage_queue (ho_storage ho))"

text \<open>
  What the policies promise: the result, the queue afterwards and the frames released. \<open>None\<close>: the
  caller waits and keeps the frame.
\<close>

definition push_spec ::
  "ingress_policy \<Rightarrow> nat \<Rightarrow> bool \<Rightarrow> 'a \<Rightarrow> 'a list \<Rightarrow> hand_off_result option \<times> 'a list \<times> 'a list" where
  "push_spec policy room is_closed x q =
     (if is_closed then (Some kClosed, q, [x])
      else if policy = kLatest then (Some (if q = [] then kAccepted else kReplacedStale), [x], q)
      else if length q < room then (Some kAccepted, q @ [x], [])
      else if policy = kBlock then (None, q, [])
      else (Some kDroppedIncoming, q, [x]))"

definition pop_spec :: "bool \<Rightarrow> 'a list \<Rightarrow> 'a option option \<times> 'a list" where
  "pop_spec is_closed q =
     (case q of x # q \<Rightarrow> (Some (Some x), q) | [] \<Rightarrow> (if is_closed then Some None else None, []))"

section \<open>The containers keep the contract\<close>

lemma close_ring_simps [simp]:
  "ring_queue (close_ring r) = ring_queue r" "ring_ok (close_ring r) = ring_ok r"
  "ring_capacity (close_ring r) = ring_capacity r" "closed (close_ring r)"
  by (simp_all add: close_ring_def ring_queue_def size_approx_def ring_ok_def)

lemma close_slot_simps [simp]:
  "slot_value (close_slot b) = slot_value b" "slot_ok (close_slot b) = slot_ok b" "box_closed (close_slot b)"
  by (simp_all add: close_slot_def slot_value_def slot_ok_def)

lemma ring_queue_closed [simp]: "ring_queue (r\<lparr>closed := c\<rparr>) = ring_queue r"
  by (simp add: ring_queue_def size_approx_def)

lemma try_push_law:
  assumes "ring_ok r" "try_push v r = (b, r')"
  shows "ring_ok r'" "closed r' = closed r" "ring_capacity r' = ring_capacity r"
    "b \<longleftrightarrow> length (ring_queue r) < unat (ring_capacity r)"
    "ring_queue r' = (if b then ring_queue r @ [v] else ring_queue r)"
proof -
  have "closed (snd (try_push v r)) = closed r" "ring_capacity (snd (try_push v r)) = ring_capacity r"
    by (simp_all add: try_push_def Let_def)
  then show "closed r' = closed r" "ring_capacity r' = ring_capacity r" using assms(2) by simp_all
qed (use ring_fifo.push_law [OF assms] in simp_all)

lemma try_pop_law:
  assumes "ring_ok r" "try_pop nil r = (x, r')"
  shows "ring_ok r'" "closed r' = closed r" "ring_capacity r' = ring_capacity r"
    "case x of None \<Rightarrow> ring_queue r = [] \<and> ring_queue r' = [] | Some v \<Rightarrow> ring_queue r = v # ring_queue r'"
proof -
  have "closed (snd (try_pop nil r)) = closed r" "ring_capacity (snd (try_pop nil r)) = ring_capacity r"
    by (simp_all add: try_pop_def Let_def)
  then show "closed r' = closed r" "ring_capacity r' = ring_capacity r" using assms(2) by simp_all
qed (use ring_fifo.pop_law [OF assms] in simp_all)

lemma ring_push_spec:
  assumes "ring_ok r" "ring_push False v r = (res, r')"
  shows "ring_ok r' \<and> closed r' = closed r \<and> ring_capacity r' = ring_capacity r \<and>
    (if closed r then res = Some False \<and> r' = r
     else if length (ring_queue r) < unat (ring_capacity r) then res = Some True \<and> ring_queue r' = ring_queue r @ [v]
     else res = None \<and> ring_queue r' = ring_queue r)"
proof -
  obtain b r1 where p: "try_push v r = (b, r1)" by fastforce
  from try_push_law [OF assms(1) p] p assms show ?thesis by (auto simp: ring_push_def split: if_splits)
qed

lemma ring_pop_spec:
  assumes "ring_ok r" "ring_pop nil r = (res, r')"
  shows "ring_ok r' \<and> closed r' = closed r \<and> ring_capacity r' = ring_capacity r \<and>
    (res, ring_queue r') = pop_spec (closed r) (ring_queue r)"
proof -
  obtain x r1 where p: "try_pop nil r = (x, r1)" by fastforce
  obtain y r2 where p2: "try_pop nil r1 = (y, r2)" by fastforce
  note l1 = try_pop_law [OF assms(1) p]
  note l2 = try_pop_law [OF l1(1) p2]
  show ?thesis using p p2 l1 l2 assms(2)
    by (auto simp: ring_pop_def pop_spec_def split: option.splits if_splits list.splits)
qed

lemma slot_take_spec:
  assumes "slot_ok b" "slot_take b = (res, b')"
  shows "slot_ok b' \<and> box_closed b' = box_closed b \<and>
    (res, storage_queue (Slot b')) = pop_spec (box_closed b) (storage_queue (Slot b))"
proof -
  obtain x b1 where p: "try_take b = (x, b1)" by fastforce
  obtain y b2 where p2: "try_take b1 = (y, b2)" by fastforce
  note l1 = try_take_refines [OF assms(1) p]
  note l2 = try_take_refines [OF l1 [THEN conjunct1] p2]
  show ?thesis using p p2 l1 l2 assms(2)
    by (auto simp: slot_take_def pop_spec_def storage_queue_def split: option.splits if_splits list.splits)
qed

lemma make_hand_off_ok:
  assumes "unat cap \<le> 2 ^ 63"
  shows "hand_off_ok (make_hand_off policy cap)" "queued (make_hand_off policy cap) = []"
    "\<not> storage_closed (ho_storage (make_hand_off policy cap))"
proof -
  from make_ring_indices [OF assms, of "None :: frame_ptr"]
  obtain k where i: "indices k 0 0 (make_ring (None :: frame_ptr) cap)" by (elim exE conjE)
  have "ring_ok (make_ring (None :: frame_ptr) cap)" unfolding ring_ok_def using i by blast
  moreover have "ring_queue (make_ring (None :: frame_ptr) cap) = []"
    using ring_queue_indices [OF i] by simp
  moreover have "\<not> closed (make_ring (None :: frame_ptr) cap)" by (simp add: make_ring_def Let_def)
  moreover have "\<not> box_closed (make_slot :: frame_ptr latest_slot)" by (simp add: make_slot_def)
  moreover have slot: "slot_ok (make_slot :: frame_ptr latest_slot)" "slot_value (make_slot :: frame_ptr latest_slot) = None"
    by (rule make_slot_ok)+
  ultimately show "hand_off_ok (make_hand_off policy cap)" "queued (make_hand_off policy cap) = []"
    "\<not> storage_closed (ho_storage (make_hand_off policy cap))"
    using slot by (simp_all add: make_hand_off_def make_storage_def hand_off_ok_def queued_def
        storage_queue_def storage_closed_def)
qed

lemma push_refines:
  assumes "hand_off_ok ho" "hand_off_push False (Some i) ho p = (res, ho', p')"
  shows "\<exists>released. hand_off_ok ho' \<and> ho_policy ho' = ho_policy ho \<and>
    storage_closed (ho_storage ho') = storage_closed (ho_storage ho) \<and>
    storage_room (ho_storage ho') = storage_room (ho_storage ho) \<and>
    (res, queued ho', released) =
      push_spec (ho_policy ho) (storage_room (ho_storage ho)) (storage_closed (ho_storage ho)) i (queued ho) \<and>
    p' = fold recycle released p"
proof (cases "ho_storage ho")
  case (Slot slot)
  obtain d slot' where pub: "publish (Some i) slot = (d, slot')" by fastforce
  have ok: "slot_ok slot" "ho_policy ho = kLatest" "slot_value slot \<noteq> Some None"
    using assms(1) Slot by (auto simp: hand_off_ok_def storage_queue_def)
  show ?thesis using publish_refines [OF ok(1) pub] ok assms(2) Slot pub
    by (auto simp: hand_off_push_def push_latest_def push_spec_def hand_off_ok_def queued_def storage_queue_def
        storage_closed_def storage_room_def frame_recycler_def split: option.splits if_splits)
next
  case (Ring ring)
  obtain b ring' where tp: "try_push (Some i) ring = (b, ring')" by fastforce
  obtain o1 ring1 where blk: "ring_push False (Some i) ring = (o1, ring1)" by fastforce
  have ok: "ring_ok ring" "ho_policy ho \<noteq> kLatest" "None \<notin> set (ring_queue ring)"
    using assms(1) Ring by (auto simp: hand_off_ok_def storage_queue_def)
  show ?thesis
    using try_push_law [OF ok(1) tp] ring_push_spec [OF ok(1) blk] ok assms(2) Ring tp blk
    by (auto simp: hand_off_push_def push_ring_def push_spec_def hand_off_ok_def queued_def storage_queue_def
        storage_closed_def storage_room_def frame_recycler_def split: option.splits if_splits)
qed

lemma pop_refines:
  assumes "hand_off_ok ho" "hand_off_pop ho = (res, ho')"
  shows "hand_off_ok ho' \<and> ho_policy ho' = ho_policy ho \<and>
    storage_closed (ho_storage ho') = storage_closed (ho_storage ho) \<and>
    storage_room (ho_storage ho') = storage_room (ho_storage ho) \<and>
    (map_option (map_option the) res, queued ho') = pop_spec (storage_closed (ho_storage ho)) (queued ho) \<and>
    res \<noteq> Some (Some None)"
proof (cases "ho_storage ho")
  case (Slot slot)
  obtain r slot' where t: "slot_take slot = (r, slot')" by fastforce
  have ok: "slot_ok slot" "ho_policy ho = kLatest" "slot_value slot \<noteq> Some None"
    using assms(1) Slot by (auto simp: hand_off_ok_def storage_queue_def)
  show ?thesis using slot_take_spec [OF ok(1) t] ok assms(2) Slot t
    by (auto simp: hand_off_pop_def pop_spec_def hand_off_ok_def queued_def storage_queue_def
        storage_closed_def storage_room_def split: option.splits if_splits list.splits)
next
  case (Ring ring)
  obtain r ring' where t: "ring_pop None ring = (r, ring')" by fastforce
  have some: "None \<noteq> x \<longleftrightarrow> (\<exists>y. x = Some y)" for x :: frame_ptr by (cases x) auto
  have ok: "ring_ok ring" "ho_policy ho \<noteq> kLatest" "None \<notin> set (ring_queue ring)"
    using assms(1) Ring by (auto simp: hand_off_ok_def storage_queue_def)
  show ?thesis using ring_pop_spec [OF ok(1) t] ok assms(2) Ring t
    by (auto simp: some hand_off_pop_def pop_spec_def hand_off_ok_def queued_def storage_queue_def
        storage_closed_def storage_room_def split: option.splits if_splits list.splits)
qed

section \<open>The properties\<close>

text \<open>
  C24: the hand-off implements its policies: without interference a push returns the promised
  result, leaves the promised queue and releases exactly the promised frames to the pool; a pop
  takes the oldest frame, waits on an open empty hand-off and ends on a closed one; closing keeps
  what is queued.
\<close>

theorem hand_off_refines:
  assumes "hand_off_ok ho"
  shows "(case hand_off_push False (Some i) ho p of (res, ho', p') \<Rightarrow>
      \<exists>released. hand_off_ok ho' \<and> p' = fold recycle released p \<and>
        (res, queued ho', released) =
          push_spec (ho_policy ho) (storage_room (ho_storage ho)) (storage_closed (ho_storage ho)) i (queued ho)) \<and>
    (case hand_off_pop ho of (res, ho') \<Rightarrow> hand_off_ok ho' \<and> res \<noteq> Some (Some None) \<and>
      (map_option (map_option the) res, queued ho') = pop_spec (storage_closed (ho_storage ho)) (queued ho)) \<and>
    hand_off_ok (hand_off_close ho) \<and> queued (hand_off_close ho) = queued ho \<and>
    storage_closed (ho_storage (hand_off_close ho))"
proof (intro conjI)
  obtain res ho' p' where p: "hand_off_push False (Some i) ho p = (res, ho', p')" by (metis prod_cases3)
  show "case hand_off_push False (Some i) ho p of (res, ho', p') \<Rightarrow>
      \<exists>released. hand_off_ok ho' \<and> p' = fold recycle released p \<and>
        (res, queued ho', released) =
          push_spec (ho_policy ho) (storage_room (ho_storage ho)) (storage_closed (ho_storage ho)) i (queued ho)"
    using push_refines [OF assms p] p by auto
  obtain res ho' where p: "hand_off_pop ho = (res, ho')" by fastforce
  show "case hand_off_pop ho of (res, ho') \<Rightarrow> hand_off_ok ho' \<and> res \<noteq> Some (Some None) \<and>
      (map_option (map_option the) res, queued ho') = pop_spec (storage_closed (ho_storage ho)) (queued ho)"
    using pop_refines [OF assms p] p by auto
qed (use assms in \<open>auto simp: hand_off_close_def hand_off_ok_def queued_def storage_queue_def storage_closed_def
    split: ho_storage.splits\<close>)

theorem hand_off_refines_witness:
  "\<exists>ho' p'. hand_off_push False (Some 3) (make_hand_off kLatest 1) two_frame_pool = (Some kAccepted, ho', p') \<and>
     p' = two_frame_pool \<and> queued ho' = [3]"
proof -
  have ok: "hand_off_ok (make_hand_off kLatest 1)" by (rule make_hand_off_ok) simp
  have fields: "ho_policy (make_hand_off kLatest 1) = kLatest" by (simp add: make_hand_off_def)
  have empty: "queued (make_hand_off kLatest 1) = []" "\<not> storage_closed (ho_storage (make_hand_off kLatest 1))"
    by (rule make_hand_off_ok, simp)+
  obtain res ho' p' where r: "hand_off_push False (Some 3) (make_hand_off kLatest 1) two_frame_pool = (res, ho', p')"
    by (metis prod_cases3)
  from hand_off_refines [OF ok, of two_frame_pool 3] show ?thesis
    unfolding r fields empty(1) using empty(2) by (simp add: push_spec_def r)
qed

text \<open>
  Frames are conserved: whatever the policy and even when another thread closes the hand-off
  in the middle of the call, a pushed frame ends up queued, back in the pool, or, when the call
  waits, still with the caller; no frame is lost or duplicated.
\<close>

lemma recycle_head: "pool_ok p (i # hs) \<Longrightarrow> pool_ok (recycle i p) hs"
  using recycle_ok(1) [of p "i # hs" i] by simp

lemma pool_ok_perm: "pool_ok p hs \<Longrightarrow> mset hs = mset hs' \<Longrightarrow> pool_ok p hs'"
  by (simp add: pool_ok_def)

theorem hand_off_conserves:
  assumes "hand_off_ok ho" "pool_ok p (i # queued ho @ others)"
    and "hand_off_push closing (Some i) ho p = (res, ho', p')"
  shows "hand_off_ok ho' \<and> pool_ok p' ((if res = None then [i] else []) @ queued ho' @ others)"
proof (cases "ho_storage ho")
  case (Slot slot)
  let ?slot = "if closing then close_slot slot else slot"
  obtain d slot' where pub: "publish (Some i) ?slot = (d, slot')" by fastforce
  have ok: "slot_ok slot" "ho_policy ho = kLatest" "slot_value slot \<noteq> Some None"
    using assms(1) Slot by (auto simp: hand_off_ok_def storage_queue_def)
  have "slot_ok ?slot" using ok by simp
  have q: "queued ho = (case slot_value slot of None \<Rightarrow> [] | Some f \<Rightarrow> [the f])"
    by (simp add: queued_def storage_queue_def Slot split: option.split)
  show ?thesis
  proof (cases "box_closed slot")
    case True
    then show ?thesis using assms Slot recycle_head [OF assms(2)]
      by (auto simp: hand_off_push_def push_latest_def hand_off_ok_def queued_def storage_queue_def frame_recycler_def)
  next
    case False
    note r = publish_refines [OF \<open>slot_ok ?slot\<close> pub]
    show ?thesis
    proof (cases d)
      case None
      then show ?thesis using r assms Slot False pub ok
        by (auto simp: hand_off_push_def push_latest_def hand_off_ok_def queued_def storage_queue_def split: if_splits)
    next
      case (Some old)
      then have old: "old \<noteq> None" "the old = (if closing then i else the (the (slot_value slot)))"
        "slot_value slot' = (if closing then slot_value slot else Some (Some i))"
        using r ok False by (auto split: if_splits)
      have "pool_ok (recycle (the old) p) (queued (ho\<lparr>ho_storage := Slot slot'\<rparr>) @ others)"
      proof (rule recycle_head, rule pool_ok_perm [OF assms(2)])
        show "mset (i # queued ho @ others) = mset (the old # queued (ho\<lparr>ho_storage := Slot slot'\<rparr>) @ others)"
          using old r ok False Some by (auto simp: q queued_def storage_queue_def Slot split: if_splits option.splits)
      qed
      then show ?thesis using r assms(1,3) Slot False pub ok Some old
        by (auto simp: hand_off_push_def push_latest_def hand_off_ok_def queued_def storage_queue_def
            frame_recycler_def split: if_splits option.splits)
    qed
  qed
next
  case (Ring ring)
  let ?ring = "if closing then close_ring ring else ring"
  obtain b ring' where tp: "try_push (Some i) ?ring = (b, ring')" by fastforce
  have ok: "ring_ok ring" "ho_policy ho \<noteq> kLatest" "None \<notin> set (ring_queue ring)"
    using assms(1) Ring by (auto simp: hand_off_ok_def storage_queue_def)
  then have "ring_ok ?ring" by simp
  from try_push_law [OF this tp]
  have law: "ring_ok ring'" "ring_queue ring' = (if b then ring_queue ring @ [Some i] else ring_queue ring)"
    by (auto split: if_splits)
  show ?thesis
    using law ok assms Ring tp recycle_head [OF assms(2)]
    by (auto simp: hand_off_push_def push_ring_def ring_push_def hand_off_ok_def queued_def storage_queue_def
        frame_recycler_def pool_ok_def split: if_splits prod.splits)
qed

theorem hand_off_conserves_witness:
  "\<exists>res ho' p'. hand_off_push True (Some 1) (make_hand_off kLatest 1) \<lparr>storage = [empty_frame, empty_frame], free_frames = [0]\<rparr> =
     (res, ho', p') \<and> pool_ok p' ((if res = None then [1] else []) @ queued ho')"
proof -
  let ?p = "\<lparr>storage = [empty_frame, empty_frame], free_frames = [0]\<rparr>"
  have ok: "hand_off_ok (make_hand_off kLatest 1)" by (rule make_hand_off_ok) simp
  have "queued (make_hand_off kLatest 1) = []" by (rule make_hand_off_ok) simp
  then have pool: "pool_ok ?p (1 # queued (make_hand_off kLatest 1) @ [])"
    by (auto simp: pool_ok_def pool_capacity_def is_clean_def empty_frame_def upt_rec)
  obtain res ho' p' where r: "hand_off_push True (Some 1) (make_hand_off kLatest 1) ?p = (res, ho', p')"
    by (metis prod_cases3)
  from hand_off_conserves [OF ok pool r] r show ?thesis by simp
qed

text \<open>
  The header says that \<open>kReplacedStale\<close> means the frame was queued and an older one dropped. If
  the hand-off is closed between the test of the flag and the exchange, the mailbox hands the frame
  itself back, and the call reports \<open>kReplacedStale\<close>, counted as a drop, for a frame it did not queue.
\<close>

theorem replaced_by_itself:
  assumes "ho_storage ho = Slot slot" "\<not> box_closed slot"
  shows "\<exists>ho'. hand_off_push True (Some i) ho p = (Some kReplacedStale, ho', recycle i p) \<and> queued ho' = queued ho"
  using assms
  by (simp add: hand_off_push_def push_latest_def publish_def frame_recycler_def queued_def storage_queue_def)

theorem replaced_by_itself_witness:
  "\<exists>ho'. hand_off_push True (Some 4) (make_hand_off kLatest 1) two_frame_pool = (Some kReplacedStale, ho', recycle 4 two_frame_pool) \<and> queued ho' = []"
  using replaced_by_itself [of "make_hand_off kLatest 1" make_slot 4 two_frame_pool] make_hand_off_ok(2) [of 1 kLatest]
  by (simp add: make_hand_off_def make_storage_def make_slot_def)

text \<open>The names of the policies parse back, and nothing else parses.\<close>

theorem policy_roundtrip: "parse_ingress_policy t = Some p \<longleftrightarrow> t = ingress_to_string p"
  by (cases p) (auto simp: parse_ingress_policy_def ingress_to_string_def)

end
