(* ===== verification/Nms.thy ===== *)
theory Nms
  imports Detection
begin

text \<open>
  \<open>vision/nms.hpp\<close> and \<open>src/vision/nms.cpp\<close>: greedy non-maximum suppression. \<open>nms_apply\<close> is the
  code: sort, cut to \<open>max_candidates\<close>, a pass with suppression flags that compacts the survivors
  in place. \<open>greedy\<close> is the specification on the sorted list.

  \<open>std::sort\<close> is not stable: it returns some permutation that is sorted by descending score. It
  is the parameter \<open>srt\<close> of the model, with its contract as the interface \<open>score_sort\<close>.
\<close>

section \<open>Options and sorting\<close>

record nms_options =
  iou_threshold :: real
  max_detections :: nat
  max_candidates :: nat
  class_agnostic :: bool

definition default_nms_options :: "rounding \<Rightarrow> nms_options" where
  "default_nms_options r = \<lparr>iou_threshold = r (7 / 10), max_detections = 300,
     max_candidates = 30000, class_agnostic = False\<rparr>"

definition by_descending_score :: "detection \<Rightarrow> detection \<Rightarrow> bool" where
  "by_descending_score a b \<longleftrightarrow> det_score b \<le> det_score a"

locale score_sort =
  fixes srt :: "detection list \<Rightarrow> detection list"
  assumes perm: "mset (srt ds) = mset ds"
    and descending: "sorted_wrt by_descending_score (srt ds)"

section \<open>The code\<close>

text \<open>The inner loop: flag every later candidate that \<open>current\<close> suppresses.\<close>

definition suppresses :: "rounding \<Rightarrow> nms_options \<Rightarrow> detection \<Rightarrow> detection \<Rightarrow> bool" where
  "suppresses r opts current d \<longleftrightarrow>
     \<not> (\<not> class_agnostic opts \<and> det_class d \<noteq> det_class current) \<and>
     iou_threshold opts < iou r (det_box current) (det_box d)"

function suppress_from ::
  "rounding \<Rightarrow> nms_options \<Rightarrow> nat \<Rightarrow> detection list \<Rightarrow> detection \<Rightarrow> nat \<Rightarrow> u8 list \<Rightarrow> u8 list" where
  "suppress_from r opts n ds current j supp =
     (if j < n
      then suppress_from r opts n ds current (Suc j)
             (if supp ! j \<noteq> 0 then supp
              else if suppresses r opts current (ds ! j) then supp[j := 1] else supp)
      else supp)"
  by pat_completeness auto
termination
  by (relation "measure (\<lambda>(r, opts, n, ds, current, j, supp). n - j)") auto

function nms_loop ::
  "rounding \<Rightarrow> nms_options \<Rightarrow> nat \<Rightarrow> nat \<Rightarrow> detection list \<Rightarrow> u8 list \<Rightarrow> nat \<Rightarrow> detection list \<times> nat" where
  "nms_loop r opts n i ds supp kept =
     (if i < n \<and> kept < max_detections opts
      then if supp ! i \<noteq> 0 then nms_loop r opts n (Suc i) ds supp kept
           else let current = ds ! i;
                    supp' = suppress_from r opts n ds current (Suc i) supp
                in nms_loop r opts n (Suc i) (ds[kept := current]) supp' (Suc kept)
      else (ds, kept))"
  by pat_completeness auto
termination
  by (relation "measure (\<lambda>(r, opts, n, i, ds, supp, kept). n - i)") auto

declare suppress_from.simps [simp del] nms_loop.simps [simp del]

definition nms_apply ::
  "(detection list \<Rightarrow> detection list) \<Rightarrow> rounding \<Rightarrow> nms_options \<Rightarrow> detection list \<Rightarrow> detection list" where
  "nms_apply srt r opts detections =
     (let sorted_ds = srt detections;
          ds = (if max_candidates opts < length sorted_ds then take (max_candidates opts) sorted_ds
                else sorted_ds);
          n = length ds;
          (ds', kept) = nms_loop r opts n 0 ds (replicate n 0) 0
      in take kept ds')"

section \<open>The specification: greedy selection\<close>

fun greedy :: "(detection \<Rightarrow> detection \<Rightarrow> bool) \<Rightarrow> detection list \<Rightarrow> detection list" where
  "greedy hides [] = []"
| "greedy hides (d # ds) = d # greedy hides (filter (\<lambda>e. \<not> hides d e) ds)"

text \<open>The candidates at positions \<open>i\<close> and above that are not suppressed yet.\<close>

definition live :: "detection list \<Rightarrow> u8 list \<Rightarrow> nat \<Rightarrow> nat \<Rightarrow> detection list" where
  "live ds supp n i = map ((!) ds) (filter (\<lambda>j. supp ! j = 0) [i..<n])"

lemma length_suppress_from [simp]: "length (suppress_from r opts n ds c j supp) = length supp"
  by (induction r opts n ds c j supp rule: suppress_from.induct) (simp add: suppress_from.simps)

lemma suppress_from_nth:
  assumes "length supp = n" and "k < n"
  shows "suppress_from r opts n ds c j supp ! k \<noteq> 0 \<longleftrightarrow>
    supp ! k \<noteq> 0 \<or> j \<le> k \<and> suppresses r opts c (ds ! k)"
  using assms
proof (induction r opts n ds c j supp rule: suppress_from.induct)
  case (1 r opts n ds c j supp)
  let ?supp = "if supp ! j \<noteq> 0 then supp
    else if suppresses r opts c (ds ! j) then supp[j := 1] else supp"
  show ?case
  proof (cases "j < n")
    case True
    have "suppress_from r opts n ds c j supp = suppress_from r opts n ds c (Suc j) ?supp"
      using True by (subst suppress_from.simps) simp
    moreover have "suppress_from r opts n ds c (Suc j) ?supp ! k \<noteq> 0 \<longleftrightarrow>
        ?supp ! k \<noteq> 0 \<or> Suc j \<le> k \<and> suppresses r opts c (ds ! k)"
      using 1 True by auto
    ultimately show ?thesis
      using 1(2,3) by (cases "j = k") (auto simp: nth_list_update)
  qed (use 1 in \<open>simp add: suppress_from.simps\<close>)
qed

lemma live_suppress:
  assumes "length supp = n"
  shows "live ds (suppress_from r opts n ds c i supp) n i =
    filter (\<lambda>e. \<not> suppresses r opts c e) (live ds supp n i)"
proof -
  have "filter (\<lambda>j. suppress_from r opts n ds c i supp ! j = 0) [i..<n] =
      filter (\<lambda>j. \<not> suppresses r opts c (ds ! j)) (filter (\<lambda>j. supp ! j = 0) [i..<n])"
    unfolding filter_filter
    by (rule filter_cong) (use suppress_from_nth [OF assms, of _ r opts ds c i] in auto)
  then show ?thesis by (simp add: live_def filter_map o_def)
qed

lemma live_step:
  "i < n \<Longrightarrow> live ds supp n i =
     (if supp ! i = 0 then ds ! i # live ds supp n (Suc i) else live ds supp n (Suc i))"
  by (simp add: live_def upt_conv_Cons)

lemma live_update_below:
  "k \<le> i \<Longrightarrow> live (ds[k := v]) supp n (Suc i) = live ds supp n (Suc i)"
  by (auto simp: live_def)

text \<open>In-place compaction only overwrites positions that are not read again.\<close>

lemma nms_loop_greedy:
  assumes "length ds = n" and "length supp = n" and "kept \<le> i"
  shows "(\<lambda>(ds', kept'). take kept' ds') (nms_loop r opts n i ds supp kept) =
    take kept ds @ take (max_detections opts - kept) (greedy (suppresses r opts) (live ds supp n i))"
  using assms
proof (induction r opts n i ds supp kept rule: nms_loop.induct)
  case (1 r opts n i ds supp kept)
  show ?case
  proof (cases "i < n \<and> kept < max_detections opts")
    case False
    then have "max_detections opts - kept = 0 \<or> live ds supp n i = []"
      by (auto simp: live_def)
    with False show ?thesis by (auto simp: nms_loop.simps [of r opts n i])
  next
    case True
    show ?thesis
    proof (cases "supp ! i = 0")
      case False
      then show ?thesis
        using True 1 by (simp add: nms_loop.simps [of r opts n i] live_step)
    next
      case live: True
      let ?c = "ds ! i"
      let ?supp = "suppress_from r opts n ds ?c (Suc i) supp"
      let ?m = "max_detections opts - Suc kept"
      have m: "max_detections opts - kept = Suc ?m" using True by (simp add: Suc_diff_Suc)
      have k: "kept < length ds" using True 1(3,5) by simp
      have "(\<lambda>(ds', kept'). take kept' ds') (nms_loop r opts n i ds supp kept) =
          (\<lambda>(ds', kept'). take kept' ds') (nms_loop r opts n (Suc i) (ds[kept := ?c]) ?supp (Suc kept))"
        using True live by (simp add: nms_loop.simps [of r opts n i] Let_def)
      also have "\<dots> = take (Suc kept) (ds[kept := ?c]) @
          take ?m (greedy (suppresses r opts) (live (ds[kept := ?c]) ?supp n (Suc i)))"
        using 1(2) [OF True _ refl refl] live 1(3-5) by simp
      also have "live (ds[kept := ?c]) ?supp n (Suc i) = live ds ?supp n (Suc i)"
        using 1(5) by (rule live_update_below)
      also have "\<dots> = filter (\<lambda>e. \<not> suppresses r opts ?c e) (live ds supp n (Suc i))"
        using 1(4) by (rule live_suppress)
      also have "take (Suc kept) (ds[kept := ?c]) = take kept ds @ [?c]"
        using k by (simp add: take_Suc_conv_app_nth)
      finally show ?thesis using True live by (simp add: live_step m)
    qed
  qed
qed

lemma nms_apply_greedy_gen:
  "nms_apply srt r opts detections =
     take (max_detections opts)
       (greedy (suppresses r opts) (take (max_candidates opts) (srt detections)))"
proof -
  let ?ds = "take (max_candidates opts) (srt detections)"
  have all: "live ds (replicate (length ds) 0) (length ds) 0 = ds" for ds :: "detection list"
  proof -
    have "filter (\<lambda>j. replicate (length ds) (0 :: u8) ! j = 0) [0..<length ds] = [0..<length ds]"
      by (rule filter_True) simp
    then show ?thesis by (simp add: live_def map_nth)
  qed
  have "(if max_candidates opts < length (srt detections) then take (max_candidates opts) (srt detections)
      else srt detections) = ?ds" by simp
  then have "nms_apply srt r opts detections =
      (\<lambda>(ds', kept). take kept ds') (nms_loop r opts (length ?ds) 0 ?ds (replicate (length ?ds) 0) 0)"
    by (simp add: nms_apply_def Let_def)
  also have "\<dots> = take (max_detections opts) (greedy (suppresses r opts) ?ds)"
    using nms_loop_greedy [of ?ds "length ?ds" "replicate (length ?ds) 0" 0 0 r opts] all [of ?ds]
    by simp
  finally show ?thesis .
qed

section \<open>What greedy selection guarantees\<close>

lemma set_greedy: "set (greedy hides ds) \<subseteq> set ds"
  by (induction hides ds rule: greedy.induct) auto

lemma in_greedyD: "x \<in> set (greedy hides ds) \<Longrightarrow> x \<in> set ds"
  using set_greedy by blast

lemma greedy_subseq: "mset (greedy hides ds) \<subseteq># mset ds"
proof (induction hides ds rule: greedy.induct)
  case (2 hides d ds)
  have "mset (filter (\<lambda>e. \<not> hides d e) ds) \<subseteq># mset ds" by simp
  from subset_mset.order_trans [OF 2 this] show ?case by simp
qed simp

lemma greedy_sorted: "sorted_wrt P ds \<Longrightarrow> sorted_wrt P (greedy hides ds)"
  by (induction hides ds rule: greedy.induct) (auto simp: sorted_wrt_filter dest!: in_greedyD)

lemma greedy_independent: "sorted_wrt (\<lambda>a b. \<not> hides a b) (greedy hides ds)"
proof (induction hides ds rule: greedy.induct)
  case (2 hides d ds)
  have "\<not> hides d e" if "e \<in> set (greedy hides (filter (\<lambda>e. \<not> hides d e) ds))" for e
    using in_greedyD [OF that] by simp
  with 2 show ?case unfolding greedy.simps sorted_wrt.simps by blast
qed simp

lemma greedy_covers:
  assumes "sorted_wrt P ds" and "d \<in> set ds" and "d \<notin> set (greedy hides ds)"
  shows "\<exists>k \<in> set (greedy hides ds). P k d \<and> hides k d"
  using assms
proof (induction hides ds rule: greedy.induct)
  case (2 hides x ds)
  then show ?case
  proof (cases "hides x d")
    case False
    with 2 have "d \<in> set (filter (\<lambda>e. \<not> hides x e) ds)" by auto
    with 2 show ?thesis by (auto simp: sorted_wrt_filter)
  qed auto
qed simp

lemma sorted_wrt_take: "sorted_wrt P xs \<Longrightarrow> sorted_wrt P (take n xs)"
  by (metis append_take_drop_id sorted_wrt_append)

context score_sort
begin

lemma nms_sorted: "sorted_wrt by_descending_score (nms_apply srt r opts ds)"
  unfolding nms_apply_greedy_gen by (intro sorted_wrt_take greedy_sorted descending)

lemma nms_subset: "mset (nms_apply srt r opts ds) \<subseteq># mset ds"
proof -
  have sub: "mset (take n xs) \<subseteq># mset xs" for n and xs :: "detection list"
    by (metis append_take_drop_id mset_append mset_subset_eq_add_left)
  have "mset (nms_apply srt r opts ds) \<subseteq># mset (greedy (suppresses r opts) (take (max_candidates opts) (srt ds)))"
    unfolding nms_apply_greedy_gen by (rule sub)
  also have "\<dots> \<subseteq># mset (take (max_candidates opts) (srt ds))" by (rule greedy_subseq)
  also have "\<dots> \<subseteq># mset ds" using sub perm by metis
  finally show ?thesis .
qed

lemma nms_independent:
  "sorted_wrt (\<lambda>a b. \<not> suppresses r opts a b) (nms_apply srt r opts ds)"
  unfolding nms_apply_greedy_gen by (intro sorted_wrt_take greedy_independent)

lemma nms_complete:
  assumes "d \<in> set ds" and "length ds \<le> max_candidates opts"
    and "length (nms_apply srt r opts ds) < max_detections opts"
    and "d \<notin> set (nms_apply srt r opts ds)"
  shows "\<exists>k \<in> set (nms_apply srt r opts ds). det_score d \<le> det_score k \<and> suppresses r opts k d"
proof -
  let ?g = "greedy (suppresses r opts) (srt ds)"
  have len: "length (srt ds) = length ds" using perm by (metis size_mset)
  with assms(2) have out: "nms_apply srt r opts ds = take (max_detections opts) ?g"
    by (simp add: nms_apply_greedy_gen)
  with assms(3) have out: "nms_apply srt r opts ds = ?g" by simp
  have "d \<in> set (srt ds)" using assms(1) perm by (metis set_mset_mset)
  then show ?thesis
    using greedy_covers [OF descending, of d ds "suppresses r opts"] assms(4)
    unfolding out by_descending_score_def by blast
qed

end

text \<open>A sort that meets the contract: insertion sort on the negated score.\<close>

definition sort_by_score :: "detection list \<Rightarrow> detection list" where
  "sort_by_score ds = sort_key (\<lambda>d. - det_score d) ds"

interpretation insertion: score_sort sort_by_score
proof
  fix ds
  show "mset (sort_by_score ds) = mset ds" by (simp add: sort_by_score_def)
  have "sorted (map (\<lambda>d. - det_score d) (sort_by_score ds))"
    by (simp add: sort_by_score_def)
  then show "sorted_wrt by_descending_score (sort_by_score ds)"
    by (simp add: sorted_wrt_map by_descending_score_def [abs_def])
qed

section \<open>The properties\<close>

text \<open>
  C11: the in-place pass with suppression flags computes greedy selection: repeatedly keep the
  first remaining candidate and drop what it suppresses, up to \<open>max_detections\<close> results.
\<close>

theorem nms_is_greedy:
  "nms_apply srt r opts detections =
     take (max_detections opts)
       (greedy (suppresses r opts) (take (max_candidates opts) (srt detections)))"
  by (rule nms_apply_greedy_gen)

text \<open>
  Whatever \<open>std::sort\<close> does with equal scores, the survivors are detections of the input,
  sorted by descending score, at most \<open>max_detections\<close>, and no survivor overlaps a later one of
  its class by more than the threshold.
\<close>

theorem nms_sound:
  assumes "score_sort srt"
  shows "mset (nms_apply srt r opts ds) \<subseteq># mset ds \<and>
    sorted_wrt by_descending_score (nms_apply srt r opts ds) \<and>
    length (nms_apply srt r opts ds) \<le> max_detections opts \<and>
    sorted_wrt (\<lambda>a b. \<not> class_agnostic opts \<and> det_class b \<noteq> det_class a \<or>
      iou r (det_box a) (det_box b) \<le> iou_threshold opts) (nms_apply srt r opts ds)"
proof -
  have "sorted_wrt (\<lambda>a b. \<not> class_agnostic opts \<and> det_class b \<noteq> det_class a \<or>
      iou r (det_box a) (det_box b) \<le> iou_threshold opts) (nms_apply srt r opts ds)"
    by (rule sorted_wrt_mono_rel [OF _ score_sort.nms_independent [OF assms]])
      (auto simp: suppresses_def)
  moreover have "length (nms_apply srt r opts ds) \<le> max_detections opts"
    by (simp add: nms_apply_greedy_gen)
  ultimately show ?thesis
    using score_sort.nms_subset [OF assms] score_sort.nms_sorted [OF assms] by blast
qed

theorem nms_sound_witness:
  "let out = nms_apply sort_by_score round32 (default_nms_options round32) []
   in mset out \<subseteq># mset [] \<and> length out \<le> 300"
  using nms_sound [OF insertion.score_sort_axioms, of round32 "default_nms_options round32" "[]"]
  by (simp add: default_nms_options_def)

text \<open>
  Nothing is lost without a reason: as long as neither limit is hit, a detection that is
  dropped is suppressed by a survivor with at least its score.
\<close>

theorem nms_drops_only_suppressed:
  assumes "score_sort srt" and "d \<in> set ds" and "length ds \<le> max_candidates opts"
    and "length (nms_apply srt r opts ds) < max_detections opts"
    and "d \<notin> set (nms_apply srt r opts ds)"
  shows "\<exists>k \<in> set (nms_apply srt r opts ds).
    det_score d \<le> det_score k \<and> iou_threshold opts < iou r (det_box k) (det_box d) \<and>
    (class_agnostic opts \<or> det_class d = det_class k)"
  using score_sort.nms_complete [OF assms] unfolding suppresses_def by blast

definition overlapping_pair :: "detection list" where
  "overlapping_pair =
     [\<lparr>det_box = \<lparr>box_x1 = 0, box_y1 = 0, box_x2 = 2, box_y2 = 2\<rparr>, det_score = 1 / 2, det_class = 0\<rparr>,
      \<lparr>det_box = \<lparr>box_x1 = 0, box_y1 = 0, box_x2 = 2, box_y2 = 2\<rparr>, det_score = 3 / 4, det_class = 0\<rparr>]"

theorem nms_drops_only_suppressed_witness:
  "\<exists>k \<in> set (nms_apply sort_by_score exact_rounding (default_nms_options exact_rounding) overlapping_pair).
     1 / 2 \<le> det_score k"
proof -
  let ?opts = "default_nms_options exact_rounding" and ?d = "overlapping_pair ! 0"
  have out: "nms_apply sort_by_score exact_rounding ?opts overlapping_pair = [overlapping_pair ! 1]"
    by (simp add: nms_apply_greedy_gen overlapping_pair_def sort_by_score_def default_nms_options_def
        suppresses_def iou_def box_intersection_def box_area_def box_width_def box_height_def fops)
  have "?d \<in> set overlapping_pair" "length overlapping_pair \<le> max_candidates ?opts"
    "length [overlapping_pair ! 1] < max_detections ?opts" "?d \<notin> set [overlapping_pair ! 1]"
    by (simp_all add: overlapping_pair_def default_nms_options_def)
  then show ?thesis
    using nms_drops_only_suppressed [OF insertion.score_sort_axioms, of ?d overlapping_pair ?opts exact_rounding]
    unfolding out by (simp add: overlapping_pair_def)
qed

end
