(* ===== verification/YoloDecoder.thy ===== *)
theory YoloDecoder
  imports Detection
begin

text \<open>
  \<open>vision/yolo_decoder.hpp\<close> and \<open>src/vision/yolo_decoder.cpp\<close>: decoding of a raw YOLO head. The
  raw tensor is a list of reals, an index into it is a natural number. \<open>decode\<close> has the two
  branches of the code: the class-major scan over a channels-first tensor and the row-major scan
  with \<open>std::max_element\<close>.
\<close>

section \<open>Layout\<close>

record yolo_layout =
  num_anchors :: nat
  num_classes :: nat
  channels_first :: bool

text \<open>The loop that drops leading batch dimensions of size 1.\<close>

fun drop_batch :: "int list \<Rightarrow> int list" where
  "drop_batch [] = []"
| "drop_batch (d # ds) = (if 2 < length (d # ds) \<and> d = 1 then drop_batch ds else d # ds)"

definition yolo_layout_from_shape :: "int list \<Rightarrow> takt_error + yolo_layout" where
  "yolo_layout_from_shape shape0 =
     (let shape = drop_batch shape0
      in if length shape \<noteq> 2 \<or> shape ! 0 \<le> 0 \<or> shape ! 1 \<le> 0
         then Inl (Invalid_argument ''yolo_layout_from_shape: expected [1, 4 + classes, anchors]'')
         else let ch_first = shape ! 0 < shape ! 1;
                  attributes = nat (if ch_first then shape ! 0 else shape ! 1);
                  anchors = nat (if ch_first then shape ! 1 else shape ! 0)
              in if attributes < 5
                 then Inl (Invalid_argument (''yolo_layout_from_shape: need at least 4 box values + 1 class, got '' @
                   show_nat attributes @ '' (end-to-end / post-NMS exports are not supported)''))
                 else Inr \<lparr>num_anchors = anchors, num_classes = attributes - 4, channels_first = ch_first\<rparr>)"

section \<open>Decoding\<close>

record yolo_decoder =
  decoder_layout :: yolo_layout
  best_score :: "real list"
  best_class :: "int list"

definition make_decoder :: "yolo_layout \<Rightarrow> takt_error + yolo_decoder" where
  "make_decoder layout =
     (if num_anchors layout = 0 \<or> num_classes layout = 0
      then Inl (Invalid_argument ''YoloDecoder: empty layout'')
      else Inr \<lparr>decoder_layout = layout, best_score = replicate (num_anchors layout) 0,
                best_class = replicate (num_anchors layout) 0\<rparr>)"

text \<open>One step of the class-major scan: anchor \<open>a\<close> of the row of class \<open>c\<close>.\<close>

definition scan_anchor ::
  "real list \<Rightarrow> nat \<Rightarrow> nat \<Rightarrow> nat \<Rightarrow> real list \<times> int list \<Rightarrow> real list \<times> int list" where
  "scan_anchor raw n c a st =
     (let (scores, classes) = st; s = raw ! ((4 + c) * n + a)
      in if scores ! a < s then (scores[a := s], classes[a := int c]) else st)"

definition scan_class :: "real list \<Rightarrow> nat \<Rightarrow> nat \<Rightarrow> real list \<times> int list \<Rightarrow> real list \<times> int list" where
  "scan_class raw n c st = fold (scan_anchor raw n c) [0..<n] st"

definition scan_classes :: "real list \<Rightarrow> nat \<Rightarrow> nat \<Rightarrow> real list \<times> int list" where
  "scan_classes raw n nc =
     fold (scan_class raw n) [1..<nc] (take n (drop (4 * n) raw), replicate n 0)"

text \<open>\<open>std::max_element\<close>: the offset of the first largest value among \<open>len\<close> values from \<open>start\<close>.\<close>

definition max_element :: "real list \<Rightarrow> nat \<Rightarrow> nat \<Rightarrow> nat" where
  "max_element raw start len =
     fold (\<lambda>k best. if raw ! (start + best) < raw ! (start + k) then k else best) [1..<len] 0"

definition decode ::
  "rounding \<Rightarrow> yolo_decoder \<Rightarrow> real list \<Rightarrow> real \<Rightarrow> takt_error + (yolo_decoder \<times> detection list)" where
  "decode r dec raw score_threshold =
     (let n = num_anchors (decoder_layout dec); nc = num_classes (decoder_layout dec)
      in if length raw < n * (4 + nc)
         then Inl (Invalid_argument ''YoloDecoder: output tensor too small'')
         else if channels_first (decoder_layout dec)
         then let (scores, classes) = scan_classes raw n nc;
                  out = concat (map (\<lambda>a.
                    if score_threshold < scores ! a
                    then [\<lparr>det_box = from_center r (raw ! a) (raw ! (n + a)) (raw ! (2 * n + a)) (raw ! (3 * n + a)),
                           det_score = scores ! a, det_class = classes ! a\<rparr>]
                    else []) [0..<n])
              in Inr (dec\<lparr>best_score := scores, best_class := classes\<rparr>, out)
         else let stride = 4 + nc;
                  out = concat (map (\<lambda>a.
                    let row = a * stride; best = max_element raw (row + 4) nc
                    in if score_threshold < raw ! (row + 4 + best)
                       then [\<lparr>det_box = from_center r (raw ! row) (raw ! (row + 1)) (raw ! (row + 2)) (raw ! (row + 3)),
                              det_score = raw ! (row + 4 + best), det_class = int best\<rparr>]
                       else []) [0..<n])
              in Inr (dec, out))"

section \<open>The specification: one detection per confident anchor\<close>

text \<open>\<open>attr a k\<close> is attribute \<open>k\<close> of anchor \<open>a\<close>; the first class with the largest score wins.\<close>

definition first_best :: "(nat \<Rightarrow> real) \<Rightarrow> nat \<Rightarrow> nat" where
  "first_best f nc = fold (\<lambda>k best. if f best < f k then k else best) [1..<nc] 0"

definition anchor_detections ::
  "rounding \<Rightarrow> (nat \<Rightarrow> nat \<Rightarrow> real) \<Rightarrow> nat \<Rightarrow> real \<Rightarrow> nat \<Rightarrow> detection list" where
  "anchor_detections r attr nc thr a =
     (let best = first_best (\<lambda>c. attr a (4 + c)) nc
      in if thr < attr a (4 + best)
         then [\<lparr>det_box = from_center r (attr a 0) (attr a 1) (attr a 2) (attr a 3),
                det_score = attr a (4 + best), det_class = int best\<rparr>]
         else [])"

definition head_attr :: "yolo_layout \<Rightarrow> real list \<Rightarrow> nat \<Rightarrow> nat \<Rightarrow> real" where
  "head_attr layout raw a k =
     (if channels_first layout then raw ! (k * num_anchors layout + a)
      else raw ! (a * (4 + num_classes layout) + k))"

lemma first_best_Suc:
  "0 < n \<Longrightarrow> first_best f (Suc n) = (if f (first_best f n) < f n then n else first_best f n)"
  by (simp add: first_best_def upt_Suc_append)

lemma first_best_props:
  assumes "0 < n"
  shows "first_best f n < n" and "k < n \<Longrightarrow> f k \<le> f (first_best f n)"
    and "k < first_best f n \<Longrightarrow> f k < f (first_best f n)"
proof -
  have "first_best f n < n \<and> (\<forall>k < n. f k \<le> f (first_best f n)) \<and>
      (\<forall>k < first_best f n. f k < f (first_best f n))"
    using assms
  proof (induction n rule: nat_induct_non_zero)
    case 1
    then show ?case by (simp add: first_best_def)
  next
    case (Suc n)
    then show ?case
      by (auto simp: first_best_Suc less_Suc_eq intro: le_less_trans)
  qed
  then show "first_best f n < n" and "k < n \<Longrightarrow> f k \<le> f (first_best f n)"
    and "k < first_best f n \<Longrightarrow> f k < f (first_best f n)" by auto
qed

lemma first_best_cong:
  assumes "0 < n" and "\<And>k. k < n \<Longrightarrow> f k = g k"
  shows "first_best f n = first_best g n"
  using assms
proof (induction n rule: nat_induct_non_zero)
  case 1
  then show ?case by (simp add: first_best_def)
next
  case (Suc n)
  then show ?case using first_best_props(1) [of n g] by (simp add: first_best_Suc)
qed

lemma max_element_first_best: "max_element raw start len = first_best (\<lambda>c. raw ! (start + c)) len"
  by (simp add: max_element_def first_best_def)

text \<open>The class-major scan visits every anchor of a row once.\<close>

lemma scan_class_upto:
  assumes "length (fst st) = n" and "length (snd st) = n" and "m \<le> n"
  shows "let st' = fold (scan_anchor raw n c) [0..<m] st
    in length (fst st') = n \<and> length (snd st') = n \<and>
       (\<forall>a < n. let s = raw ! ((4 + c) * n + a); better = a < m \<and> fst st ! a < s
          in fst st' ! a = (if better then s else fst st ! a) \<and>
             snd st' ! a = (if better then int c else snd st ! a))"
  using assms
proof (induction m)
  case (Suc m)
  then show ?case
    by (auto simp: Let_def scan_anchor_def split_beta nth_list_update less_Suc_eq upt_Suc_append)
qed (simp add: Let_def)

lemma scan_classes_nth:
  assumes len: "n * (4 + nc) \<le> length raw" and nc: "0 < nc"
  shows "let (scores, classes) = scan_classes raw n nc
    in length scores = n \<and> length classes = n \<and>
       (\<forall>a < n. let best = first_best (\<lambda>c. raw ! ((4 + c) * n + a)) nc
          in scores ! a = raw ! ((4 + best) * n + a) \<and> classes ! a = int best)"
  using nc len unfolding scan_classes_def
proof (induction nc rule: nat_induct_non_zero)
  case 1
  then have l: "4 * n + n \<le> length raw" by simp
  then have "\<forall>a < n. take n (drop (4 * n) raw) ! a = raw ! (4 * n + a)" by simp
  with l show ?case by (simp add: first_best_def)
next
  case (Suc nc)
  let ?st = "fold (scan_class raw n) [1..<nc] (take n (drop (4 * n) raw), replicate n 0)"
  have le: "n * (4 + nc) \<le> length raw" using Suc.prems by (rule order_trans [rotated]) simp
  have IH: "length (fst ?st) = n" "length (snd ?st) = n"
    "\<And>a. a < n \<Longrightarrow> fst ?st ! a = raw ! ((4 + first_best (\<lambda>c. raw ! ((4 + c) * n + a)) nc) * n + a)"
    "\<And>a. a < n \<Longrightarrow> snd ?st ! a = int (first_best (\<lambda>c. raw ! ((4 + c) * n + a)) nc)"
    using Suc.IH [OF le] by (simp_all add: Let_def split_beta)
  obtain st where st: "st = ?st" by simp
  have step: "fold (scan_class raw n) [1..<Suc nc] (take n (drop (4 * n) raw), replicate n 0) =
      fold (scan_anchor raw n nc) [0..<n] st"
    using Suc(1) by (simp add: upt_Suc_append st scan_class_def)
  note IH' = IH [folded st]
  obtain st' where st': "st' = fold (scan_anchor raw n nc) [0..<n] st" by simp
  have "length (fst st') = n \<and> length (snd st') = n"
    "\<forall>a < n. fst st' ! a = (if fst st ! a < raw ! ((4 + nc) * n + a) then raw ! ((4 + nc) * n + a) else fst st ! a) \<and>
       snd st' ! a = (if fst st ! a < raw ! ((4 + nc) * n + a) then int nc else snd st ! a)"
    using scan_class_upto [OF IH'(1,2) order_refl, of raw nc] by (simp_all add: st' Let_def)
  then show ?case
    using Suc(1) unfolding step st' [symmetric]
    by (simp add: Let_def split_beta IH'(3,4) first_best_Suc)
qed

lemma decode_spec_gen:
  assumes "num_anchors (decoder_layout dec) * (4 + num_classes (decoder_layout dec)) \<le> length raw"
    and "0 < num_classes (decoder_layout dec)"
  shows "\<exists>dec'. decode r dec raw thr = Inr (dec',
      concat (map (anchor_detections r (head_attr (decoder_layout dec) raw) (num_classes (decoder_layout dec)) thr)
        [0..<num_anchors (decoder_layout dec)])) \<and>
    decoder_layout dec' = decoder_layout dec"
proof (cases "channels_first (decoder_layout dec)")
  case True
  let ?n = "num_anchors (decoder_layout dec)" and ?nc = "num_classes (decoder_layout dec)"
  let ?sc = "scan_classes raw ?n ?nc"
  have nth: "fst ?sc ! a = raw ! ((4 + first_best (\<lambda>c. raw ! ((4 + c) * ?n + a)) ?nc) * ?n + a)"
    "snd ?sc ! a = int (first_best (\<lambda>c. raw ! ((4 + c) * ?n + a)) ?nc)" if "a < ?n" for a
    using scan_classes_nth [OF assms] that by (auto simp: Let_def split_beta)
  have eq: "map (\<lambda>a. if thr < fst ?sc ! a
        then [\<lparr>det_box = from_center r (raw ! a) (raw ! (?n + a)) (raw ! (2 * ?n + a)) (raw ! (3 * ?n + a)),
               det_score = fst ?sc ! a, det_class = snd ?sc ! a\<rparr>] else []) [0..<?n] =
      map (anchor_detections r (head_attr (decoder_layout dec) raw) ?nc thr) [0..<?n]"
    using True by (intro map_cong refl) (simp add: nth anchor_detections_def head_attr_def Let_def)
  show ?thesis using True assms(1) unfolding decode_def Let_def split_beta eq by simp
next
  case False
  let ?n = "num_anchors (decoder_layout dec)" and ?nc = "num_classes (decoder_layout dec)"
  have eq: "map (\<lambda>a. let row = a * (4 + ?nc); best = max_element raw (row + 4) ?nc
        in if thr < raw ! (row + 4 + best)
           then [\<lparr>det_box = from_center r (raw ! row) (raw ! (row + 1)) (raw ! (row + 2)) (raw ! (row + 3)),
                  det_score = raw ! (row + 4 + best), det_class = int best\<rparr>] else []) [0..<?n] =
      map (anchor_detections r (head_attr (decoder_layout dec) raw) ?nc thr) [0..<?n]"
    using False
    by (simp add: anchor_detections_def [abs_def] head_attr_def Let_def max_element_first_best add.assoc)
  show ?thesis using False assms(1) unfolding decode_def Let_def [of _ "\<lambda>n. let nc = _ n in _ n nc"]
    by (simp add: Let_def eq [unfolded Let_def])
qed

section \<open>The properties\<close>

text \<open>
  C12: decoding a tensor that is large enough succeeds, in both memory layouts, and yields, in
  anchor order, one detection for every anchor whose best class score exceeds the threshold.
\<close>

theorem decode_correct:
  assumes "num_anchors (decoder_layout dec) * (4 + num_classes (decoder_layout dec)) \<le> length raw"
    and "0 < num_classes (decoder_layout dec)"
  shows "\<exists>dec'. decode r dec raw thr = Inr (dec',
      concat (map (anchor_detections r (head_attr (decoder_layout dec) raw) (num_classes (decoder_layout dec)) thr)
        [0..<num_anchors (decoder_layout dec)])) \<and>
    decoder_layout dec' = decoder_layout dec"
  by (rule decode_spec_gen [OF assms])

definition small_decoder :: "bool \<Rightarrow> yolo_decoder" where
  "small_decoder first = \<lparr>decoder_layout = \<lparr>num_anchors = 1, num_classes = 1, channels_first = first\<rparr>,
     best_score = [0], best_class = [0]\<rparr>"

theorem decode_correct_witness:
  "\<exists>dec'. decode exact_rounding (small_decoder True) [4, 4, 2, 2, 1] (1 / 2) = Inr (dec',
     [\<lparr>det_box = \<lparr>box_x1 = 3, box_y1 = 3, box_x2 = 5, box_y2 = 5\<rparr>, det_score = 1, det_class = 0\<rparr>])"
proof -
  have best: "first_best f 1 = 0" for f by (simp add: first_best_def)
  show ?thesis
    using decode_correct [of "small_decoder True" "[4, 4, 2, 2, 1]" exact_rounding "1 / 2"]
    by (auto simp: small_decoder_def anchor_detections_def head_attr_def best [unfolded One_nat_def]
        from_center_def fops Let_def)
qed

text \<open>
  The two branches agree: a channels-first tensor and the transposed channels-last tensor
  with the same attributes decode to the same detections.
\<close>

theorem decode_layouts_agree:
  assumes "decoder_layout dec1 = \<lparr>num_anchors = n, num_classes = nc, channels_first = True\<rparr>"
    and "decoder_layout dec2 = \<lparr>num_anchors = n, num_classes = nc, channels_first = False\<rparr>"
    and "0 < nc" and "length raw1 = n * (4 + nc)" and "length raw2 = n * (4 + nc)"
    and "\<forall>a < n. \<forall>k < 4 + nc. raw1 ! (k * n + a) = raw2 ! (a * (4 + nc) + k)"
  shows "map_sum id snd (decode r dec1 raw1 thr) = map_sum id snd (decode r dec2 raw2 thr)"
proof -
  have eq: "head_attr (decoder_layout dec1) raw1 a k = head_attr (decoder_layout dec2) raw2 a k"
    if "a < n" "k < 4 + nc" for a k
    using that assms by (simp add: head_attr_def)
  have best: "first_best (\<lambda>c. head_attr (decoder_layout dec1) raw1 a (4 + c)) nc =
      first_best (\<lambda>c. head_attr (decoder_layout dec2) raw2 a (4 + c)) nc" if "a < n" for a
    using that eq by (intro first_best_cong assms(3)) simp
  have dets: "map (anchor_detections r (head_attr (decoder_layout dec1) raw1) nc thr) [0..<n] =
      map (anchor_detections r (head_attr (decoder_layout dec2) raw2) nc thr) [0..<n]"
    using assms(3) first_best_props(1) [OF assms(3)] eq
    by (intro map_cong refl) (simp add: anchor_detections_def best Let_def)
  obtain dec1' dec2' where
    "decode r dec1 raw1 thr = Inr (dec1',
      concat (map (anchor_detections r (head_attr (decoder_layout dec1) raw1) nc thr) [0..<n]))"
    "decode r dec2 raw2 thr = Inr (dec2',
      concat (map (anchor_detections r (head_attr (decoder_layout dec2) raw2) nc thr) [0..<n]))"
    using decode_spec_gen [of dec1 raw1 r thr] decode_spec_gen [of dec2 raw2 r thr] assms by auto
  then show ?thesis by (simp only: dets map_sum.simps snd_conv)
qed

theorem decode_layouts_agree_witness:
  "map_sum id snd (decode round32 (small_decoder True) [4, 4, 2, 2, 1] 0) =
   map_sum id snd (decode round32 (small_decoder False) [4, 4, 2, 2, 1] 0)"
  by (rule decode_layouts_agree [of _ 1 1]) (simp_all add: small_decoder_def)

text \<open>
  Every decoded detection has a score above the threshold and a class of the model, and its
  score is the largest class score of its anchor.
\<close>

theorem decoded_scores:
  assumes "decode r dec raw thr = Inr (dec', out)" and "d \<in> set out"
    and "0 < num_classes (decoder_layout dec)"
  shows "thr < det_score d \<and> 0 \<le> det_class d \<and> det_class d < int (num_classes (decoder_layout dec)) \<and>
    (\<exists>a < num_anchors (decoder_layout dec). \<forall>c < num_classes (decoder_layout dec).
       head_attr (decoder_layout dec) raw a (4 + c) \<le> det_score d)"
proof -
  have "num_anchors (decoder_layout dec) * (4 + num_classes (decoder_layout dec)) \<le> length raw"
    using assms(1) by (auto simp: decode_def Let_def split: if_splits)
  from decode_spec_gen [OF this assms(3), of r thr] assms(1,2)
  obtain a where "a < num_anchors (decoder_layout dec)"
    "d \<in> set (anchor_detections r (head_attr (decoder_layout dec) raw) (num_classes (decoder_layout dec)) thr a)"
    by auto
  then show ?thesis
    using first_best_props [OF assms(3), where f = "\<lambda>c. head_attr (decoder_layout dec) raw a (4 + c)"]
    by (auto simp: anchor_detections_def Let_def split: if_splits)
qed

theorem decoded_scores_witness:
  "\<exists>d :: detection. 1 / 2 < det_score d \<and> det_class d < 1"
proof -
  obtain dec' out where dec: "decode exact_rounding (small_decoder True) [4, 4, 2, 2, 1] (1 / 2) = Inr (dec', out)"
    "out \<noteq> []"
    by (simp add: decode_def small_decoder_def scan_classes_def)
  then have "hd out \<in> set out" by simp
  from decoded_scores [OF dec(1) this] have "1 / 2 < det_score (hd out) \<and> det_class (hd out) < 1"
    by (simp add: small_decoder_def)
  then show ?thesis by blast
qed

text \<open>
  A shape \<open>[1, 4 + classes, anchors]\<close> with more anchors than attributes is read as
  channels-first, the transposed shape as channels-last, with the same counts; leading ones are
  irrelevant.
\<close>

theorem layout_of_yolo_shapes:
  assumes "0 < nc" and "4 + nc < n"
  shows "yolo_layout_from_shape (replicate b 1 @ [int (4 + nc), int n]) =
      Inr \<lparr>num_anchors = n, num_classes = nc, channels_first = True\<rparr> \<and>
    yolo_layout_from_shape (replicate b 1 @ [int n, int (4 + nc)]) =
      Inr \<lparr>num_anchors = n, num_classes = nc, channels_first = False\<rparr>"
proof -
  have "drop_batch (replicate b 1 @ [x, y]) = [x, y]" for x y by (induction b) auto
  moreover have "nat (4 + int nc) = 4 + nc" by simp
  ultimately show ?thesis using assms by (simp add: yolo_layout_from_shape_def Let_def)
qed

theorem layout_of_yolo_shapes_witness:
  "yolo_layout_from_shape [1, 84, 8400] =
     Inr \<lparr>num_anchors = 8400, num_classes = 80, channels_first = True\<rparr>"
  using layout_of_yolo_shapes [of 80 8400 1] by simp

text \<open>
  The header and the design notes promise that end-to-end exports, whose output is
  \<open>[1, 300, 6]\<close>, are rejected. They are not: the shape is taken for a channels-last head with
  300 anchors and two classes.
\<close>

theorem end_to_end_export_accepted:
  "yolo_layout_from_shape [1, 300, 6] =
     Inr \<lparr>num_anchors = 300, num_classes = 2, channels_first = False\<rparr>"
  by (simp add: yolo_layout_from_shape_def Let_def)

end
