(* ===== verification/InferBackend.thy ===== *)
theory InferBackend
  imports YoloDecoder
begin

text \<open>
  \<open>infer/backend.hpp\<close>, \<open>infer/backend.cpp\<close>: tensor specifications and the interface of an
  inference engine; \<open>infer/fake_backend.hpp\<close>, \<open>infer/fake_backend.cpp\<close>: the deterministic
  stand-in for a YOLO model. \<open>r\<close> rounds float, \<open>d\<close> double. The random engine and the sleep only
  delay the call: \<open>fake_busy_until\<close> is the end of the delay, for what the engine draws. \<open>std::cos\<close> and
  \<open>std::sin\<close> are the exact functions, rounded.
\<close>

section \<open>Tensor specifications and engines\<close>

record tensor_spec =
  spec_name :: string
  spec_shape :: "int list"

fun count_elements :: "string \<Rightarrow> int list \<Rightarrow> u64 \<Rightarrow> takt_error + u64" where
  "count_elements nm [] n = Inr n"
| "count_elements nm (e # es) n =
     (if e \<le> 0 then Inl (Logic_error (''TensorSpec '' @ [CHR 0x27] @ nm @ [CHR 0x27] @ '' has a dynamic dimension''))
      else count_elements nm es (n * of_int e))"

definition element_count :: "tensor_spec \<Rightarrow> takt_error + u64" where
  "element_count spec = count_elements (spec_name spec) (spec_shape spec) 1"

text \<open>What \<open>Backend\<close> erases: the engine's state \<open>'b\<close> and its operations. \<open>infer\<close> returns the new
  state and the output tensor.\<close>

record 'b backend =
  engine :: 'b
  engine_name :: string
  input_spec :: tensor_spec
  output_spec :: tensor_spec
  engine_infer :: "'b \<Rightarrow> real list \<Rightarrow> real list \<Rightarrow> takt_error + 'b \<times> real list"

definition backend_infer :: "'b backend \<Rightarrow> real list \<Rightarrow> real list \<Rightarrow> takt_error + 'b backend \<times> real list" where
  "backend_infer b inp out =
     bind_result (engine_infer b (engine b) inp out) (\<lambda>(e, out). Inr (b\<lparr>engine := e\<rparr>, out))"

section \<open>The fake backend\<close>

record fake_options =
  fk_input_width :: int
  fk_input_height :: int
  fk_num_classes :: int
  fk_num_anchors :: int
  fk_num_objects :: int
  fk_latency :: int
  fk_jitter :: int

definition default_fake_options :: fake_options where
  "default_fake_options = \<lparr>fk_input_width = 640, fk_input_height = 640, fk_num_classes = 80,
     fk_num_anchors = 8400, fk_num_objects = 3, fk_latency = 0, fk_jitter = 0\<rparr>"

record fake_backend =
  fk_options :: fake_options
  fk_input_spec :: tensor_spec
  fk_output_spec :: tensor_spec
  fk_calls :: u64

definition make_fake_backend :: "fake_options \<Rightarrow> takt_error + fake_backend" where
  "make_fake_backend opts =
     (if fk_input_width opts \<le> 0 \<or> fk_input_height opts \<le> 0 \<or> fk_num_classes opts \<le> 0 \<or>
         fk_num_anchors opts \<le> 0 \<or> fk_num_objects opts < 0 \<or> fk_num_anchors opts < fk_num_objects opts
      then Inl (Invalid_argument ''FakeBackend: invalid options'')
      else Inr \<lparr>fk_options = opts,
        fk_input_spec = \<lparr>spec_name = ''images'', spec_shape = [1, 3, fk_input_height opts, fk_input_width opts]\<rparr>,
        fk_output_spec = \<lparr>spec_name = ''output0'', spec_shape = [1, 4 + fk_num_classes opts, fk_num_anchors opts]\<rparr>,
        fk_calls = 0\<rparr>)"

definition object_box :: "rounding \<Rightarrow> rounding \<Rightarrow> fake_options \<Rightarrow> u64 \<Rightarrow> int \<Rightarrow> real list" where
  "object_box r d opts call index =
     (let phase = fadd d (fdiv d (d (real (unat call))) 240)
                    (fdiv d (of_int index) (of_int (max 1 (fk_num_objects opts))));
          angle = fmul d (fmul d 2 (d pi)) phase;
          w = of_int (fk_input_width opts);
          h = of_int (fk_input_height opts);
          cx = fadd d (fdiv d w 2) (fmul d (fmul d (d (3 / 10)) w) (d (cos angle)));
          cy = fadd d (fdiv d h 2) (fmul d (fmul d (d (3 / 10)) h) (d (sin angle)));
          bw = fadd d (fmul d (d (8 / 100)) w) (fmul d (fmul d (d (2 / 100)) w) (of_int index));
          bh = fmul d (d (12 / 100)) h
      in [r cx, r cy, r bw, r bh])"

definition object_anchor :: "fake_options \<Rightarrow> nat \<Rightarrow> nat" where
  "object_anchor opts k = k * (nat (fk_num_anchors opts) div nat (fk_num_objects opts))"

definition write_object :: "rounding \<Rightarrow> rounding \<Rightarrow> fake_options \<Rightarrow> u64 \<Rightarrow> nat \<Rightarrow> real list \<Rightarrow> real list" where
  "write_object r d opts calls k out =
     (let anchors = nat (fk_num_anchors opts);
          anchor = object_anchor opts k;
          box = object_box r d opts calls (int k);
          out = fold (\<lambda>i out. out[i * anchors + anchor := box ! i]) [0..<4] out;
          class_row = 4 + k mod nat (fk_num_classes opts)
      in out[class_row * anchors + anchor := r (9 / 10)])"

definition fake_infer ::
  "rounding \<Rightarrow> rounding \<Rightarrow> fake_backend \<Rightarrow> real list \<Rightarrow> real list \<Rightarrow> takt_error + fake_backend \<times> real list"
where
  "fake_infer r d fb inp out =
     bind_result (element_count (fk_input_spec fb)) (\<lambda>in_count.
     bind_result (element_count (fk_output_spec fb)) (\<lambda>out_count.
       if length inp < unat in_count \<or> length out < unat out_count
       then Inl (Invalid_argument ''FakeBackend::infer: tensor size mismatch'')
       else
         let out = replicate (unat out_count) 0 @ drop (unat out_count) out;
             out = fold (write_object r d (fk_options fb) (fk_calls fb)) [0..<nat (fk_num_objects (fk_options fb))] out
         in Inr (fb\<lparr>fk_calls := fk_calls fb + 1\<rparr>, out)))"

text \<open>
  Until when a call that began at \<open>start\<close> keeps its thread busy, in nanoseconds; latency and jitter are
  in microseconds, \<open>extra\<close> is what the random generator draws.
\<close>

definition fake_busy_until :: "int \<Rightarrow> int \<Rightarrow> fake_options \<Rightarrow> int" where
  "fake_busy_until start extra opts =
     start + 1000 * fk_latency opts + (if 0 < fk_jitter opts then 1000 * extra else 0)"

lemma fake_delay:
  assumes "extra \<in> {0..fk_jitter opts}"
  shows "fake_busy_until start extra opts - start \<in> {1000 * fk_latency opts..1000 * (fk_latency opts + fk_jitter opts)}"
  using assms by (auto simp: fake_busy_until_def)

definition fake_as_backend :: "rounding \<Rightarrow> rounding \<Rightarrow> fake_backend \<Rightarrow> fake_backend backend" where
  "fake_as_backend r d fb = \<lparr>engine = fb, engine_name = ''fake'', input_spec = fk_input_spec fb,
     output_spec = fk_output_spec fb, engine_infer = fake_infer r d\<rparr>"


section \<open>What the fake tensor decodes to\<close>

lemma count_elements_eq:
  "\<forall>x \<in> set dims. 0 < x \<Longrightarrow> count_elements nm dims c = Inr (c * of_int (prod_list dims))"
  by (induction dims arbitrary: c) (auto simp: mult.assoc)

lemma count_elements_dynamic:
  "\<exists>x \<in> set dims. x \<le> 0 \<Longrightarrow> \<exists>e. count_elements nm dims c = Inl (Logic_error e)"
  by (induction dims arbitrary: c) auto

lemma length_update_fold: "length (fold (\<lambda>i out. out[f i := g i]) is out) = length out"
  by (induction "is" arbitrary: out) auto

lemma length_write_object [simp]: "length (write_object r d opts calls k out) = length out"
  by (simp add: write_object_def Let_def length_update_fold)

lemma length_write_objects [simp]: "length (fold (write_object r d opts calls) ks out) = length out"
  by (induction ks arbitrary: out) auto

lemma write_box_nth:
  assumes "a < n" "a' < n" "m \<le> R" "row < R" "R * n \<le> length out"
  shows "fold (\<lambda>i out. out[i * n + a' := b i]) [0..<m] out ! (row * n + a) =
    (if a = a' \<and> row < m then b row else out ! (row * n + a))"
  using assms(3)
proof (induction m)
  case (Suc m)
  have "m * n + a' < length out" using index_less [of m R a' n] Suc.prems assms by simp
  with Suc assms show ?case
    by (auto simp: update_nth length_update_fold index_eq_iff less_Suc_eq upt_Suc_append)
qed simp

lemma write_object_nth:
  assumes "a < nat (fk_num_anchors opts)" "object_anchor opts k < nat (fk_num_anchors opts)"
    and "row < 4 + nat (fk_num_classes opts)" "0 < nat (fk_num_classes opts)"
    and "(4 + nat (fk_num_classes opts)) * nat (fk_num_anchors opts) \<le> length out"
  shows "write_object r d opts calls k out ! (row * nat (fk_num_anchors opts) + a) =
    (if a = object_anchor opts k \<and> row < 4 then object_box r d opts calls (int k) ! row
     else if a = object_anchor opts k \<and> row = 4 + k mod nat (fk_num_classes opts) then r (9 / 10)
     else out ! (row * nat (fk_num_anchors opts) + a))"
proof -
  let ?n = "nat (fk_num_anchors opts)" and ?C = "nat (fk_num_classes opts)"
  have "4 + k mod ?C < 4 + ?C" using assms(4) by simp
  then have "(4 + k mod ?C) * ?n + object_anchor opts k < length out"
    using index_less [of "4 + k mod ?C" "4 + ?C" "object_anchor opts k" ?n] assms(2,5) by linarith
  then show ?thesis
    using assms(1,2) write_box_nth [OF assms(1,2) _ assms(3,5), of 4]
    unfolding write_object_def Let_def
    by (auto simp: update_nth length_update_fold index_eq_iff)
qed

lemma object_anchor_strict:
  assumes "0 < fk_num_objects opts" "fk_num_objects opts \<le> fk_num_anchors opts" "j < k"
  shows "object_anchor opts j < object_anchor opts k"
  using assms by (simp add: object_anchor_def div_greater_zero_iff nat_le_eq_zle nat_mono)

lemma object_anchor_less:
  assumes "0 < fk_num_objects opts" "fk_num_objects opts \<le> fk_num_anchors opts" "k < nat (fk_num_objects opts)"
  shows "object_anchor opts k < nat (fk_num_anchors opts)"
proof -
  let ?s = "nat (fk_num_anchors opts) div nat (fk_num_objects opts)"
  have s: "0 < ?s" using assms by (simp add: div_greater_zero_iff nat_mono)
  have "k * ?s < nat (fk_num_objects opts) * ?s" using assms(3) s by simp
  also have "\<dots> \<le> nat (fk_num_anchors opts)" by simp
  finally show ?thesis by (simp add: object_anchor_def)
qed

lemma write_objects_nth:
  assumes "0 < fk_num_classes opts" "fk_num_objects opts \<le> fk_num_anchors opts"
    and "m \<le> nat (fk_num_objects opts)" "a < nat (fk_num_anchors opts)"
    and "row < 4 + nat (fk_num_classes opts)"
    and "(4 + nat (fk_num_classes opts)) * nat (fk_num_anchors opts) \<le> length out"
  shows "fold (write_object r d opts calls) [0..<m] out ! (row * nat (fk_num_anchors opts) + a) =
    (if \<exists>k < m. a = object_anchor opts k \<and> row < 4
     then object_box r d opts calls (int (THE k. a = object_anchor opts k)) ! row
     else if \<exists>k < m. a = object_anchor opts k \<and> row = 4 + k mod nat (fk_num_classes opts) then r (9 / 10)
     else out ! (row * nat (fk_num_anchors opts) + a))"
  using assms(3)
proof (induction m)
  case (Suc m)
  then have obj: "0 < fk_num_objects opts" by linarith
  have inj: "object_anchor opts j = object_anchor opts k \<longleftrightarrow> j = k" for j k
    using object_anchor_strict [OF obj assms(2), of j k] object_anchor_strict [OF obj assms(2), of k j]
    by (metis nat_neq_iff)
  have am: "object_anchor opts m < nat (fk_num_anchors opts)"
    using object_anchor_less [OF obj assms(2)] Suc.prems by simp
  show ?case
    using Suc assms by (auto simp: upt_Suc_append write_object_nth [OF assms(4) am] inj less_Suc_eq)
qed simp

text \<open>The attributes of the head that \<open>infer\<close> wrote, seen through the layout of its own shape.\<close>

lemma fake_head:
  assumes "0 < fk_num_classes opts" "fk_num_objects opts \<le> fk_num_anchors opts"
    and le: "(4 + nat (fk_num_classes opts)) * nat (fk_num_anchors opts) \<le> length out"
    and "\<forall>j < (4 + nat (fk_num_classes opts)) * nat (fk_num_anchors opts). out ! j = 0"
    and "layout = \<lparr>num_anchors = nat (fk_num_anchors opts), num_classes = nat (fk_num_classes opts),
      channels_first = True\<rparr>"
    and "raw = fold (write_object r d opts calls) [0..<nat (fk_num_objects opts)] out"
  shows "k < nat (fk_num_objects opts) \<Longrightarrow> i < 4 \<Longrightarrow>
      head_attr layout raw (object_anchor opts k) i = object_box r d opts calls (int k) ! i"
    and "k < nat (fk_num_objects opts) \<Longrightarrow> c < nat (fk_num_classes opts) \<Longrightarrow>
      head_attr layout raw (object_anchor opts k) (4 + c) =
        (if c = k mod nat (fk_num_classes opts) then r (9 / 10) else 0)"
    and "a < nat (fk_num_anchors opts) \<Longrightarrow> \<forall>k < nat (fk_num_objects opts). a \<noteq> object_anchor opts k \<Longrightarrow>
      c < nat (fk_num_classes opts) \<Longrightarrow> head_attr layout raw a (4 + c) = 0"
proof -
  let ?n = "nat (fk_num_anchors opts)" and ?m = "nat (fk_num_objects opts)"
  let ?C = "nat (fk_num_classes opts)"
  have attr: "head_attr layout raw a row =
      (if \<exists>k < ?m. a = object_anchor opts k \<and> row < 4
       then object_box r d opts calls (int (THE k. a = object_anchor opts k)) ! row
       else if \<exists>k < ?m. a = object_anchor opts k \<and> row = 4 + k mod ?C then r (9 / 10) else 0)"
    if "a < ?n" "row < 4 + ?C" for a row
  proof -
    have "row * ?n + a < (4 + ?C) * ?n" using index_less [OF that(2,1)] by simp
    then show ?thesis
      using write_objects_nth [OF assms(1,2) order_refl that le, of r d calls] assms(4)
      by (simp add: assms(5,6) head_attr_def cong: if_cong)
  qed
  show "head_attr layout raw a (4 + c) = 0"
    if "a < ?n" "\<forall>k < ?m. a \<noteq> object_anchor opts k" "c < ?C"
    using that by (subst attr) auto
  show "head_attr layout raw (object_anchor opts k) i = object_box r d opts calls (int k) ! i"
    if k: "k < ?m" "i < 4"
  proof -
    have obj: "0 < fk_num_objects opts" using k by linarith
    have "(THE j. object_anchor opts k = object_anchor opts j) = k"
      using object_anchor_strict [OF obj assms(2)] by (intro the_equality refl) (metis nat_neq_iff)
    then show ?thesis using k object_anchor_less [OF obj assms(2) k(1)] by (subst attr) auto
  qed
  show "head_attr layout raw (object_anchor opts k) (4 + c) = (if c = k mod ?C then r (9 / 10) else 0)"
    if k: "k < ?m" "c < ?C"
  proof -
    have obj: "0 < fk_num_objects opts" using k by linarith
    have "object_anchor opts k = object_anchor opts j \<longleftrightarrow> j = k" for j
      using object_anchor_strict [OF obj assms(2)] by (metis nat_neq_iff)
    then show ?thesis using k object_anchor_less [OF obj assms(2) k(1)] by (subst attr) auto
  qed
qed

lemma first_best_single:
  assumes "c < n" and "0 < v" and "\<And>k. k < n \<Longrightarrow> f k = (if k = c then v else (0::real))"
  shows "first_best f n = c"
proof -
  have n: "0 < n" using assms(1) by linarith
  have "v \<le> f (first_best f n)" using first_best_props(2) [OF n assms(1), of f] assms(1,3) by simp
  then show ?thesis using first_best_props(1) [OF n, of f] assms by (auto split: if_splits)
qed

lemma filter_anchors:
  assumes "0 \<le> fk_num_objects opts" "fk_num_objects opts \<le> fk_num_anchors opts"
  shows "filter (\<lambda>a. \<exists>k < nat (fk_num_objects opts). a = object_anchor opts k) [0..<nat (fk_num_anchors opts)] =
    map (object_anchor opts) [0..<nat (fk_num_objects opts)]"
proof (cases "fk_num_objects opts = 0")
  case False
  then have obj: "0 < fk_num_objects opts" using assms(1) by simp
  have sorted: "sorted_wrt (<) (map (object_anchor opts) [0..<nat (fk_num_objects opts)])"
    using object_anchor_strict [OF obj assms(2)] by (simp add: sorted_wrt_map sorted_wrt_upt
        sorted_wrt_iff_nth_less)
  show ?thesis
  proof (rule sorted_distinct_set_unique)
    show "sorted (filter (\<lambda>a. \<exists>k < nat (fk_num_objects opts). a = object_anchor opts k) [0..<nat (fk_num_anchors opts)])"
      by (rule sorted_wrt_filter) simp
    show "sorted (map (object_anchor opts) [0..<nat (fk_num_objects opts)])"
      "distinct (map (object_anchor opts) [0..<nat (fk_num_objects opts)])"
      using sorted by (simp_all add: strict_sorted_iff)
    show "set (filter (\<lambda>a. \<exists>k < nat (fk_num_objects opts). a = object_anchor opts k) [0..<nat (fk_num_anchors opts)]) =
        set (map (object_anchor opts) [0..<nat (fk_num_objects opts)])"
      using object_anchor_less [OF obj assms(2)] by auto
  qed simp
qed simp

lemma fake_decode:
  assumes opts: "0 < fk_num_classes opts" "0 \<le> fk_num_objects opts" "fk_num_objects opts \<le> fk_num_anchors opts"
    and out: "(4 + nat (fk_num_classes opts)) * nat (fk_num_anchors opts) \<le> length out"
      "\<forall>j < (4 + nat (fk_num_classes opts)) * nat (fk_num_anchors opts). out ! j = 0"
    and layout: "decoder_layout dec = \<lparr>num_anchors = nat (fk_num_anchors opts),
      num_classes = nat (fk_num_classes opts), channels_first = True\<rparr>"
    and thr: "0 \<le> thr" "thr < r (9 / 10)"
  shows "\<exists>dec'. decode r dec (fold (write_object r d opts calls) [0..<nat (fk_num_objects opts)] out) thr =
    Inr (dec', map (\<lambda>k. let box = object_box r d opts calls (int k)
      in \<lparr>det_box = from_center r (box ! 0) (box ! 1) (box ! 2) (box ! 3), det_score = r (9 / 10),
          det_class = int k mod fk_num_classes opts\<rparr>) [0..<nat (fk_num_objects opts)])"
proof -
  let ?m = "nat (fk_num_objects opts)" and ?C = "nat (fk_num_classes opts)" and ?n = "nat (fk_num_anchors opts)"
  let ?raw = "fold (write_object r d opts calls) [0..<?m] out"
  let ?det = "\<lambda>k. let box = object_box r d opts calls (int k)
      in \<lparr>det_box = from_center r (box ! 0) (box ! 1) (box ! 2) (box ! 3), det_score = r (9 / 10),
          det_class = int k mod fk_num_classes opts\<rparr>"
  note head = fake_head [OF opts(1,3) out refl, where raw = ?raw and r = r and d = d and calls = calls]
  note head = head [OF refl]
  let ?attr = "head_attr (decoder_layout dec) ?raw"
  have C: "0 < ?C" using opts(1) by simp
  have hit: "anchor_detections r ?attr ?C thr (object_anchor opts k) = [?det k]" if k: "k < ?m" for k
  proof -
    have "first_best (\<lambda>c. ?attr (object_anchor opts k) (4 + c)) ?C = k mod ?C"
      using thr C head(2) [OF k] by (intro first_best_single [where v = "r (9 / 10)"]) (simp_all add: layout)
    moreover have "?attr (object_anchor opts k) (4 + k mod ?C) = r (9 / 10)"
      using head(2) [OF k, of "k mod ?C"] C by (simp add: layout)
    ultimately show ?thesis
      using thr head(1) [OF k] opts(1) by (simp add: anchor_detections_def layout Let_def zmod_int)
  qed
  have miss: "anchor_detections r ?attr ?C thr a = []"
    if a: "a < ?n" "\<forall>k < ?m. a \<noteq> object_anchor opts k" for a
    using thr head(3) [OF a first_best_props(1) [OF C]] by (simp add: anchor_detections_def layout Let_def)
  have "concat (map (anchor_detections r ?attr ?C thr) [0..<?n]) =
      concat (map (\<lambda>a. if \<exists>k < ?m. a = object_anchor opts k
        then [hd (anchor_detections r ?attr ?C thr a)] else []) [0..<?n])"
    using hit miss by (intro arg_cong [where f = concat] map_cong refl) auto
  also have "\<dots> = map (\<lambda>a. hd (anchor_detections r ?attr ?C thr a)) (map (object_anchor opts) [0..<?m])"
    unfolding concat_map_if by (simp only: filter_anchors [OF opts(2,3)])
  also have "\<dots> = map ?det [0..<?m]" unfolding map_map using hit by (intro map_cong refl) simp
  finally have dets: "concat (map (anchor_detections r ?attr ?C thr) [0..<?n]) = map ?det [0..<?m]" .
  have "num_anchors (decoder_layout dec) * (4 + num_classes (decoder_layout dec)) \<le> length ?raw"
    using out(1) by (simp add: layout mult.commute)
  moreover have "0 < num_classes (decoder_layout dec)" using C by (simp add: layout)
  ultimately obtain dec' where
    dec: "decode r dec ?raw thr = Inr (dec', concat (map (anchor_detections r ?attr ?C thr) [0..<?n]))"
    using decode_spec_gen [of dec ?raw r thr] layout by auto
  show ?thesis using dec unfolding dets by blast
qed

lemma element_count_small:
  assumes "\<forall>e \<in> set (spec_shape spec). 0 < e" and "prod_list (spec_shape spec) < 2 ^ 64"
  shows "\<exists>c. element_count spec = Inr c \<and> unat c = nat (prod_list (spec_shape spec))"
proof -
  have "0 \<le> prod_list es" if "\<forall>e \<in> set es. 0 < e" for es :: "int list"
    using that by (induction es) (auto intro: mult_nonneg_nonneg less_imp_le)
  from this [OF assms(1)] have "unat (of_int (prod_list (spec_shape spec)) :: u64) = nat (prod_list (spec_shape spec))"
    using assms(2) by (simp add: unsigned_of_int take_bit_int_eq_self)
  then show ?thesis by (simp add: element_count_def count_elements_eq [OF assms(1)])
qed

text \<open>
  Closing the loop between the fake engine and the decoder: for options the constructor
  accepts, of a size the layout rule reads as channels-first, \<open>infer\<close> on buffers that are large
  enough succeeds, whatever the buffers held, and decoding its output with the layout inferred
  from its own output shape gives back exactly its objects, in order, each with its box, the score
  0.9 and its class.
\<close>

theorem fake_roundtrip:
  assumes make: "make_fake_backend opts = Inr fb"
    and size: "4 + fk_num_classes opts < fk_num_anchors opts" "fk_num_anchors opts < 2 ^ 31"
      "fk_input_width opts < 2 ^ 31" "fk_input_height opts < 2 ^ 31"
    and buffers: "nat (3 * fk_input_width opts * fk_input_height opts) \<le> length inp"
      "nat ((4 + fk_num_classes opts) * fk_num_anchors opts) \<le> length out"
    and thr: "0 \<le> thr" "thr < r (9 / 10)"
  shows "\<exists>fb' out' layout dec dec'.
    fake_infer r d (fb\<lparr>fk_calls := calls\<rparr>) inp out = Inr (fb', out') \<and> fk_calls fb' = calls + 1 \<and>
    length out' = length out \<and>
    yolo_layout_from_shape (spec_shape (fk_output_spec fb)) = Inr layout \<and> make_decoder layout = Inr dec \<and>
    decode r dec out' thr = Inr (dec', map (\<lambda>k. let box = object_box r d opts calls (int k)
      in \<lparr>det_box = from_center r (box ! 0) (box ! 1) (box ! 2) (box ! 3), det_score = r (9 / 10),
          det_class = int k mod fk_num_classes opts\<rparr>) [0..<nat (fk_num_objects opts)])"
proof -
  have opts: "0 < fk_input_width opts" "0 < fk_input_height opts" "0 < fk_num_classes opts"
    "0 < fk_num_anchors opts" "0 \<le> fk_num_objects opts" "fk_num_objects opts \<le> fk_num_anchors opts"
    and fb: "fk_options fb = opts" "spec_shape (fk_input_spec fb) = [1, 3, fk_input_height opts, fk_input_width opts]"
      "spec_shape (fk_output_spec fb) = [1, 4 + fk_num_classes opts, fk_num_anchors opts]"
    using make by (auto simp: make_fake_backend_def split: if_splits)
  let ?C = "nat (fk_num_classes opts)" and ?n = "nat (fk_num_anchors opts)"
  have "fk_input_height opts * fk_input_width opts \<le> 2 ^ 31 * 2 ^ 31"
    using opts size by (intro mult_mono) auto
  then obtain ic where ic: "element_count (fk_input_spec fb) = Inr ic"
    "unat ic = nat (3 * fk_input_width opts * fk_input_height opts)"
    using element_count_small [of "fk_input_spec fb"] opts by (auto simp: fb ac_simps)
  have "(4 + fk_num_classes opts) * fk_num_anchors opts \<le> 2 ^ 31 * 2 ^ 31"
    using opts size by (intro mult_mono) auto
  then obtain oc where oc: "element_count (fk_output_spec fb) = Inr oc"
    "unat oc = nat ((4 + fk_num_classes opts) * fk_num_anchors opts)"
    using element_count_small [of "fk_output_spec fb"] opts by (auto simp: fb)
  have len: "unat oc = (4 + ?C) * ?n" using opts by (simp add: oc nat_mult_distrib nat_add_distrib)
  define layout where "layout = \<lparr>num_anchors = ?n, num_classes = ?C, channels_first = True\<rparr>"
  have layout: "yolo_layout_from_shape (spec_shape (fk_output_spec fb)) = Inr layout"
    using opts size(1) by (simp add: fb yolo_layout_from_shape_def layout_def nat_add_distrib)
  obtain dec where dec: "make_decoder layout = Inr dec" "decoder_layout dec = layout"
    using opts by (simp add: make_decoder_def layout_def)
  let ?out = "fold (write_object r d opts calls) [0..<nat (fk_num_objects opts)]
    (replicate (unat oc) 0 @ drop (unat oc) out)"
  have infer: "fake_infer r d (fb\<lparr>fk_calls := calls\<rparr>) inp out = Inr (fb\<lparr>fk_calls := calls + 1\<rparr>, ?out)"
    using buffers by (simp add: fake_infer_def ic oc(1) fb(1)) (simp add: ic(2) oc(2))
  obtain dec' where "decode r dec ?out thr = Inr (dec', map (\<lambda>k. let box = object_box r d opts calls (int k)
      in \<lparr>det_box = from_center r (box ! 0) (box ! 1) (box ! 2) (box ! 3), det_score = r (9 / 10),
          det_class = int k mod fk_num_classes opts\<rparr>) [0..<nat (fk_num_objects opts)])"
  proof -
    have "(4 + ?C) * ?n \<le> length (replicate (unat oc) 0 @ drop (unat oc) out)" by (simp add: len)
    moreover have "\<forall>j < (4 + ?C) * ?n. (replicate (unat oc) 0 @ drop (unat oc) out) ! j = (0 :: real)"
      by (simp add: len nth_append)
    moreover have "decoder_layout dec = \<lparr>num_anchors = ?n, num_classes = ?C, channels_first = True\<rparr>"
      by (simp add: dec(2) layout_def)
    ultimately show thesis
      using fake_decode [OF opts(3,5,6), where out = "replicate (unat oc) 0 @ drop (unat oc) out"
          and dec = dec and r = r and d = d and calls = calls and thr = thr] thr that by blast
  qed
  moreover have "length ?out = length out" using buffers by (simp add: oc(2))
  ultimately show ?thesis using infer layout dec(1) by force
qed

definition tiny_fake_options :: fake_options where
  "tiny_fake_options = \<lparr>fk_input_width = 8, fk_input_height = 8, fk_num_classes = 2,
     fk_num_anchors = 8, fk_num_objects = 3, fk_latency = 0, fk_jitter = 0\<rparr>"

theorem fake_roundtrip_witness:
  "\<exists>fb fb' out' layout dec dec' dets. make_fake_backend tiny_fake_options = Inr fb \<and>
     fake_infer exact_rounding exact_rounding fb (replicate 192 0) (replicate 48 7) = Inr (fb', out') \<and>
     yolo_layout_from_shape [1, 6, 8] = Inr layout \<and> make_decoder layout = Inr dec \<and>
     decode exact_rounding dec out' (1 / 2) = Inr (dec', dets) \<and>
     map det_class dets = [0, 1, 0] \<and> map det_score dets = [9 / 10, 9 / 10, 9 / 10]"
proof -
  obtain fb where fb: "make_fake_backend tiny_fake_options = Inr fb"
    "spec_shape (fk_output_spec fb) = [1, 6, 8]" "fb\<lparr>fk_calls := 0\<rparr> = fb"
    by (simp add: make_fake_backend_def tiny_fake_options_def)
  have upt: "[0..<3] = [0, 1, 2 :: nat]" by (simp add: upt_rec)
  from fake_roundtrip [OF fb(1), where inp = "replicate 192 0" and out = "replicate 48 7" and thr = "1 / 2"
      and r = exact_rounding and d = exact_rounding and calls = 0]
  show ?thesis
    unfolding fb(2,3) using fb(1) by (fastforce simp: tiny_fake_options_def upt Let_def)
qed

text \<open>
  The element count of a specification is the product of its dimensions when it fits in
  \<open>size_t\<close>; a dimension that is not positive is an error, wherever it stands.
\<close>

theorem element_count_correct:
  "(case element_count spec of
      Inr c \<Rightarrow> list_all (\<lambda>e. 0 < e) (spec_shape spec) \<and> uint c = prod_list (spec_shape spec) mod 2 ^ 64
    | Inl e \<Rightarrow> \<not> list_all (\<lambda>e. 0 < e) (spec_shape spec) \<and> (\<exists>m. e = Logic_error m))"
proof (cases "\<forall>e \<in> set (spec_shape spec). 0 < e")
  case True
  then show ?thesis
    by (simp add: element_count_def count_elements_eq uint_word_of_int list_all_iff)
next
  case False
  then have dyn: "\<exists>e \<in> set (spec_shape spec). e \<le> 0" by (meson linorder_not_less)
  then show ?thesis using count_elements_dynamic [of "spec_shape spec" "spec_name spec" 1]
    by (auto simp: element_count_def list_all_iff not_less)
qed

text \<open>Erasing the engine's type does not change what a call does.\<close>

lemma backend_infer_fake:
  "backend_infer (fake_as_backend r d fb) inp out =
     map_sum id (\<lambda>(fb, out). (fake_as_backend r d fb, out)) (fake_infer r d fb inp out)"
proof (cases "fake_infer r d fb inp out")
  case (Inr res)
  then have "fk_input_spec (fst res) = fk_input_spec fb \<and> fk_output_spec (fst res) = fk_output_spec fb"
    by (auto simp: fake_infer_def bind_result_Inr_iff split: if_splits)
  with Inr show ?thesis by (cases res) (simp add: backend_infer_def fake_as_backend_def)
qed (simp add: backend_infer_def fake_as_backend_def)

section \<open>The contract of an engine\<close>

text \<open>
  The concept \<open>InferenceBackend\<close> as laws: fixed tensor sizes, buffers that are too small are
  rejected, buffers that fit are never rejected for their size, and a call changes neither the
  tensor specifications nor the length of the caller's output buffer.
\<close>

locale inference_engine =
  fixes engine_ok :: "'b \<Rightarrow> bool" and in_spec :: "'b \<Rightarrow> tensor_spec" and out_spec :: "'b \<Rightarrow> tensor_spec"
    and infer :: "'b \<Rightarrow> real list \<Rightarrow> real list \<Rightarrow> takt_error + 'b \<times> real list"
  assumes static_shapes: "engine_ok e \<Longrightarrow> \<exists>n m. element_count (in_spec e) = Inr n \<and> element_count (out_spec e) = Inr m"
    and rejects_small: "engine_ok e \<Longrightarrow> element_count (in_spec e) = Inr n \<Longrightarrow> element_count (out_spec e) = Inr m \<Longrightarrow>
      length inp < unat n \<or> length out < unat m \<Longrightarrow> \<exists>msg. infer e inp out = Inl (Invalid_argument msg)"
    and accepts_fitting: "engine_ok e \<Longrightarrow> element_count (in_spec e) = Inr n \<Longrightarrow> element_count (out_spec e) = Inr m \<Longrightarrow>
      unat n \<le> length inp \<Longrightarrow> unat m \<le> length out \<Longrightarrow> infer e inp out \<noteq> Inl (Invalid_argument msg)"
    and keeps: "engine_ok e \<Longrightarrow> infer e inp out = Inr (e', out') \<Longrightarrow>
      engine_ok e' \<and> in_spec e' = in_spec e \<and> out_spec e' = out_spec e \<and> length out' = length out"

definition fake_ok :: "fake_backend \<Rightarrow> bool" where
  "fake_ok fb \<longleftrightarrow> list_all (\<lambda>e. 0 < e) (spec_shape (fk_input_spec fb)) \<and> list_all (\<lambda>e. 0 < e) (spec_shape (fk_output_spec fb))"

lemma make_fake_ok: "make_fake_backend opts = Inr fb \<Longrightarrow> fake_ok fb"
  by (auto simp: make_fake_backend_def fake_ok_def split: if_splits)

lemma static_element_count: "list_all (\<lambda>e. 0 < e) (spec_shape spec) \<Longrightarrow> \<exists>n. element_count spec = Inr n"
  by (simp add: element_count_def count_elements_eq list_all_iff)

lemma fake_infer_keeps:
  assumes "fake_infer r d fb inp out = Inr (fb', out')"
  shows "fk_input_spec fb' = fk_input_spec fb" "fk_output_spec fb' = fk_output_spec fb" "length out' = length out"
  using assms by (auto simp: fake_infer_def bind_result_Inr_iff split: if_splits)

interpretation fake_engine: inference_engine fake_ok fk_input_spec fk_output_spec "fake_infer r d" for r d
proof
  fix e and msg :: string and inp out :: "real list" and n m
  assume e: "fake_ok e"
  then show "\<exists>n m. element_count (fk_input_spec e) = Inr n \<and> element_count (fk_output_spec e) = Inr m"
    using static_element_count by (simp add: fake_ok_def)
  assume c: "element_count (fk_input_spec e) = Inr n" "element_count (fk_output_spec e) = Inr m"
  show "length inp < unat n \<or> length out < unat m \<Longrightarrow> \<exists>msg. fake_infer r d e inp out = Inl (Invalid_argument msg)"
    using c by (simp add: fake_infer_def)
  show "unat n \<le> length inp \<Longrightarrow> unat m \<le> length out \<Longrightarrow> fake_infer r d e inp out \<noteq> Inl (Invalid_argument msg)"
    using c by (simp add: fake_infer_def Let_def not_less [symmetric])
next
  fix e e' and inp out out' :: "real list"
  assume "fake_ok e" "fake_infer r d e inp out = Inr (e', out')"
  then show "fake_ok e' \<and> fk_input_spec e' = fk_input_spec e \<and> fk_output_spec e' = fk_output_spec e \<and> length out' = length out"
    using fake_infer_keeps by (simp add: fake_ok_def)
qed

end
