(* ===== verification/Pipeline.thy ===== *)
theory Pipeline
  imports Metrics HandOff Nms YoloDecoder InferBackend
begin

text \<open>
  \<open>pipeline/pipeline.hpp\<close>, \<open>src/pipeline/pipeline.cpp\<close>, \<open>pipeline/source_sink.hpp\<close>: configuration,
  construction, the five stages a frame goes through, the begin and end of a run, and
  \<open>run_sequential\<close>. The threads of \<open>run\<close> are in the theory \<open>PipelineRun\<close>.

  Sources and sinks are records of their state and operations, as the virtual classes are. The
  steady clock is a stream of readings that \<open>clock_now\<close> consumes. A stage may throw (\<open>Inl\<close>); \<open>None\<close>
  would be a call that does not return. \<open>r\<close> rounds float, \<open>d\<close> double, \<open>srt\<close> is \<open>std::sort\<close>. The
  statistics callback thread only reads the metrics; it is in the theory \<open>TaktRun\<close>.
\<close>

section \<open>Configuration, sources and sinks\<close>

record pipeline_config =
  cfg_ingress_policy :: ingress_policy
  cfg_ingress_capacity :: u64
  cfg_stage_queue_capacity :: u64
  cfg_pool_size :: u64
  cfg_score_threshold :: real
  cfg_nms :: nms_options
  cfg_enable_tracking :: bool
  cfg_tracker :: byte_tracker_options
  cfg_max_frames :: u64
  cfg_warmup_iterations :: int

definition default_config :: "rounding \<Rightarrow> pipeline_config" where
  "default_config r = \<lparr>cfg_ingress_policy = kLatest, cfg_ingress_capacity = 2, cfg_stage_queue_capacity = 1,
     cfg_pool_size = 0, cfg_score_threshold = r (25 / 100), cfg_nms = default_nms_options r,
     cfg_enable_tracking = True, cfg_tracker = default_tracker_options r, cfg_max_frames = 0,
     cfg_warmup_iterations = 3\<rparr>"

record 's frame_source =
  src_state :: 's
  src_read :: "'s \<Rightarrow> image \<Rightarrow> takt_error + bool \<times> image \<times> 's"
  src_describe :: "'s \<Rightarrow> string"
  src_nominal_fps :: "'s \<Rightarrow> real"

definition source_read :: "'s frame_source \<Rightarrow> image \<Rightarrow> takt_error + bool \<times> image \<times> 's frame_source" where
  "source_read s img =
     bind_result (src_read s (src_state s) img) (\<lambda>(more, img, st). Inr (more, img, s\<lparr>src_state := st\<rparr>))"

record run_info =
  info_started_at :: int
  info_backend :: string
  info_source :: string
  info_policy :: string
  info_source_fps :: real
  info_model_width :: int
  info_model_height :: int

record 'k frame_sink =
  sink_state :: 'k
  sink_on_start :: "run_info \<Rightarrow> 'k \<Rightarrow> takt_error + 'k"
  sink_consume :: "frame \<Rightarrow> 'k \<Rightarrow> takt_error + 'k"
  sink_on_finish :: "'k \<Rightarrow> takt_error + 'k"

text \<open>\<open>for (const auto& sink : sinks_) sink->f()\<close>.\<close>

fun each_sink :: "('k frame_sink \<Rightarrow> takt_error + 'k) \<Rightarrow> 'k frame_sink list \<Rightarrow> takt_error + 'k frame_sink list" where
  "each_sink f [] = Inr []"
| "each_sink f (k # ks) =
     bind_result (f k) (\<lambda>st. bind_result (each_sink f ks) (\<lambda>ks. Inr (k\<lparr>sink_state := st\<rparr> # ks)))"

definition sinks_start :: "run_info \<Rightarrow> 'k frame_sink list \<Rightarrow> takt_error + 'k frame_sink list" where
  "sinks_start info = each_sink (\<lambda>k. sink_on_start k info (sink_state k))"

definition sinks_consume :: "frame \<Rightarrow> 'k frame_sink list \<Rightarrow> takt_error + 'k frame_sink list" where
  "sinks_consume f = each_sink (\<lambda>k. sink_consume k f (sink_state k))"

definition sinks_finish :: "'k frame_sink list \<Rightarrow> takt_error + 'k frame_sink list" where
  "sinks_finish = each_sink (\<lambda>k. sink_on_finish k (sink_state k))"

section \<open>The pipeline object\<close>

record ('b, 'k) pipeline =
  pl_config :: pipeline_config
  pl_backend :: "'b backend"
  model_width :: int
  model_height :: int
  decode_threshold :: real
  pl_letterboxer :: letterboxer
  pl_decoder :: yolo_decoder
  pl_tracker :: byte_tracker
  pl_sinks :: "'k frame_sink list"
  pl_metrics :: pipeline_metrics
  pl_running :: bool
  pl_stop :: bool
  clock :: "nat \<Rightarrow> int"
  clock_reads :: nat

definition clock_now :: "('b, 'k) pipeline \<Rightarrow> int \<times> ('b, 'k) pipeline" where
  "clock_now p = (clock p (clock_reads p), p\<lparr>clock_reads := clock_reads p + 1\<rparr>)"

text \<open>\<open>static_cast<int>\<close> of a 64-bit value.\<close>

definition to_int32 :: "int \<Rightarrow> int" where
  "to_int32 x = (x + 2 ^ 31) mod 2 ^ 32 - 2 ^ 31"

definition input_dimension :: "'b backend \<Rightarrow> nat \<Rightarrow> takt_error + int" where
  "input_dimension b axis =
     (let shape = spec_shape (input_spec b)
      in if length shape \<noteq> 4 \<or> shape ! 1 \<noteq> 3
         then Inl (Invalid_argument ''Pipeline: backend input must be NCHW with 3 channels'')
         else if shape ! axis \<le> 0 then Inl (Invalid_argument ''Pipeline: backend input has a dynamic size'')
         else Inr (to_int32 (shape ! axis)))"

definition make_pipeline ::
  "rounding \<Rightarrow> (nat \<Rightarrow> int) \<Rightarrow> pipeline_config \<Rightarrow> 'b backend \<Rightarrow> takt_error + ('b, 'k) pipeline"
where
  "make_pipeline r clk cfg b =
     bind_result (input_dimension b 3) (\<lambda>width.
     bind_result (input_dimension b 2) (\<lambda>height.
     bind_result (make_letterboxer r width height 114) (\<lambda>lb.
     bind_result (yolo_layout_from_shape (spec_shape (output_spec b))) (\<lambda>layout.
     bind_result (make_decoder layout) (\<lambda>dec.
       if cfg_stage_queue_capacity cfg = 0 \<or> cfg_ingress_capacity cfg = 0
       then Inl (Invalid_argument ''Pipeline: queue capacities must be positive'')
       else Inr \<lparr>pl_config = cfg, pl_backend = b, model_width = width, model_height = height,
         decode_threshold = (if cfg_enable_tracking cfg
           then min (cfg_score_threshold cfg) (opt_low_threshold (cfg_tracker cfg))
           else cfg_score_threshold cfg),
         pl_letterboxer = lb, pl_decoder = dec, pl_tracker = make_tracker (cfg_tracker cfg),
         pl_sinks = [], pl_metrics = empty_metrics, pl_running = False, pl_stop = False,
         clock = clk, clock_reads = 0\<rparr>)))))"

definition add_sink :: "'k frame_sink option \<Rightarrow> ('b, 'k) pipeline \<Rightarrow> takt_error + ('b, 'k) pipeline" where
  "add_sink sink p =
     (if pl_running p then Inl (Logic_error ''Pipeline: cannot add sinks while running'')
      else Inr (case sink of None \<Rightarrow> p | Some k \<Rightarrow> p\<lparr>pl_sinks := pl_sinks p @ [k]\<rparr>))"

definition request_stop :: "('b, 'k) pipeline \<Rightarrow> ('b, 'k) pipeline" where
  "request_stop p = p\<lparr>pl_stop := True\<rparr>"

definition queue_slots :: "ingress_policy \<Rightarrow> u64 \<Rightarrow> u64" where
  "queue_slots policy cap = (if policy = kLatest then 3 else of_nat (bit_ceil (unat cap)))"

definition pool_size :: "pipeline_config \<Rightarrow> u64" where
  "pool_size cfg =
     (if 0 < cfg_pool_size cfg then cfg_pool_size cfg
      else let ingress_slots = queue_slots (cfg_ingress_policy cfg) (cfg_ingress_capacity cfg);
               per_stage = queue_slots (cfg_ingress_policy cfg) (cfg_stage_queue_capacity cfg);
               stage_slots = 3 * per_stage;
               kInHands = 5
           in ingress_slots + stage_slots + kInHands + 1)"

definition buffer_sizes :: "('b, 'k) pipeline \<Rightarrow> takt_error + frame_buffer_sizes" where
  "buffer_sizes p =
     bind_result (element_count (input_spec (pl_backend p))) (\<lambda>input.
     bind_result (element_count (output_spec (pl_backend p))) (\<lambda>output.
       Inr \<lparr>input_elements = input, output_elements = output,
            fb_max_detections = of_nat (max_detections (cfg_nms (pl_config p)))\<rparr>))"

section \<open>The stages\<close>

type_synonym ('b, 'k) stage_fn =
  "('b, 'k) pipeline \<Rightarrow> frame \<Rightarrow> (takt_error + ('b, 'k) pipeline \<times> frame) option"

definition timed :: "stage_id \<Rightarrow> ('b, 'k) stage_fn \<Rightarrow> ('b, 'k) stage_fn" where
  "timed s fn p f =
     (let (start, p) = clock_now p
      in then_run (fn p f) (\<lambda>(p, f).
           let (stop, p) = clock_now p; elapsed = stop - start
           in Some (Inr (p\<lparr>pl_metrics := record_stage s elapsed (pl_metrics p)\<rparr>,
                         f\<lparr>service_time := (service_time f)[to_index s := elapsed]\<rparr>))))"

definition preprocess_body :: "rounding \<Rightarrow> rounding \<Rightarrow> ('b, 'k) stage_fn" where
  "preprocess_body r d p f =
     Some (bind_result (letterbox_run r d (image_as_view (fr_image f)) (fr_input f) (pl_letterboxer p))
       (\<lambda>(lb, tensor, t). Inr (p\<lparr>pl_letterboxer := lb\<rparr>, f\<lparr>fr_input := tensor, fr_letterbox := t\<rparr>)))"

definition infer_body :: "('b, 'k) stage_fn" where
  "infer_body p f =
     Some (bind_result (backend_infer (pl_backend p) (fr_input f) (fr_output f))
       (\<lambda>(b, out). Inr (p\<lparr>pl_backend := b\<rparr>, f\<lparr>fr_output := out\<rparr>)))"

definition postprocess_body ::
  "(detection list \<Rightarrow> detection list) \<Rightarrow> rounding \<Rightarrow> ('b, 'k) stage_fn" where
  "postprocess_body srt r p f =
     Some (bind_result (decode r (pl_decoder p) (fr_output f) (decode_threshold p))
       (\<lambda>(dec, dets). Inr (p\<lparr>pl_decoder := dec\<rparr>,
          f\<lparr>detections := scale_to_source r (fr_letterbox f) (nms_apply srt r (cfg_nms (pl_config p)) dets)\<rparr>)))"

definition track_body :: "rounding \<Rightarrow> rounding \<Rightarrow> ('b, 'k) stage_fn" where
  "track_body r d p f =
     then_run (if cfg_enable_tracking (pl_config p)
               then then_run (tracker_update r d (detections f) (pl_tracker p))
                      (\<lambda>(bt, out). Some (Inr (p\<lparr>pl_tracker := bt\<rparr>, f\<lparr>tracks := out\<rparr>)))
               else Some (Inr (p, f)))
       (\<lambda>(p, f). Some (Inr (p,
          if decode_threshold p < cfg_score_threshold (pl_config p)
          then f\<lparr>detections := filter (\<lambda>x. \<not> det_score x \<le> cfg_score_threshold (pl_config p)) (detections f)\<rparr>
          else f)))"

definition deliver_body :: "('b, 'k) stage_fn" where
  "deliver_body p f = Some (bind_result (sinks_consume f (pl_sinks p)) (\<lambda>ks. Inr (p\<lparr>pl_sinks := ks\<rparr>, f)))"

definition preprocess :: "rounding \<Rightarrow> rounding \<Rightarrow> ('b, 'k) stage_fn" where
  "preprocess r d = timed kPreprocess (preprocess_body r d)"

definition infer :: "('b, 'k) stage_fn" where
  "infer = timed kInference infer_body"

definition postprocess :: "(detection list \<Rightarrow> detection list) \<Rightarrow> rounding \<Rightarrow> ('b, 'k) stage_fn" where
  "postprocess srt r = timed kPostprocess (postprocess_body srt r)"

definition track_stage :: "rounding \<Rightarrow> rounding \<Rightarrow> ('b, 'k) stage_fn" where
  "track_stage r d = timed kTracking (track_body r d)"

definition deliver :: "('b, 'k) stage_fn" where
  "deliver p f =
     then_run (timed kSink deliver_body p f) (\<lambda>(p, f).
       let (t, p) = clock_now p; m = pl_metrics p
       in Some (Inr (p\<lparr>pl_metrics := m\<lparr>end_to_end := record_latency (end_to_end m) (t - captured_at f),
                                        frames_completed := frames_completed m + 1\<rparr>\<rparr>, f)))"

section \<open>Begin and end of a run\<close>

text \<open>The warm-up inferences: \<open>n\<close> calls on a constant input.\<close>

fun warm_up :: "nat \<Rightarrow> real list \<Rightarrow> real list \<Rightarrow> 'b backend \<Rightarrow> takt_error + 'b backend" where
  "warm_up 0 inp out b = Inr b"
| "warm_up (Suc n) inp out b = bind_result (backend_infer b inp out) (\<lambda>(b, out). warm_up n inp out b)"

definition warm_up_backend :: "('b, 'k) pipeline \<Rightarrow> takt_error + ('b, 'k) pipeline" where
  "warm_up_backend p =
     (if cfg_warmup_iterations (pl_config p) > 0
      then bind_result (element_count (input_spec (pl_backend p))) (\<lambda>n_in.
           bind_result (element_count (output_spec (pl_backend p))) (\<lambda>n_out.
           bind_result (warm_up (nat (cfg_warmup_iterations (pl_config p))) (replicate (unat n_in) (1 / 2))
                          (replicate (unat n_out) 0) (pl_backend p)) (\<lambda>b.
             Inr (p\<lparr>pl_backend := b\<rparr>))))
      else Inr p)"

definition policy_name :: "('b, 'k) pipeline \<Rightarrow> string \<Rightarrow> string" where
  "policy_name p mode = (if mode = ''sequential'' then ''none'' else ingress_to_string (cfg_ingress_policy (pl_config p)))"

definition begin_run :: "'s frame_source \<Rightarrow> string \<Rightarrow> ('b, 'k) pipeline \<Rightarrow> takt_error + ('b, 'k) pipeline" where
  "begin_run source mode p =
     bind_result (warm_up_backend (p\<lparr>pl_metrics := metrics_reset (pl_metrics p), pl_tracker := reset_tracker (pl_tracker p)\<rparr>))
       (\<lambda>p. let (started, p) = clock_now p;
                info = \<lparr>info_started_at = started, info_backend = engine_name (pl_backend p),
                  info_source = src_describe source (src_state source), info_policy = policy_name p mode,
                  info_source_fps = src_nominal_fps source (src_state source),
                  info_model_width = model_width p, info_model_height = model_height p\<rparr>
            in bind_result (sinks_start info (pl_sinks p)) (\<lambda>ks. Inr (p\<lparr>pl_sinks := ks, pl_stop := False\<rparr>)))"

definition finish_run ::
  "rounding \<Rightarrow> 's frame_source \<Rightarrow> string \<Rightarrow> int \<Rightarrow> ('b, 'k) pipeline \<Rightarrow> takt_error + run_report \<times> ('b, 'k) pipeline"
where
  "finish_run d source mode started p =
     bind_result (sinks_finish (pl_sinks p)) (\<lambda>ks.
       let (t, p) = clock_now (p\<lparr>pl_sinks := ks\<rparr>);
           m = pl_metrics p;
           wall = fdiv d (d (of_int (t - started))) 1000000000
       in Inr (\<lparr>rep_mode = mode, rep_backend = engine_name (pl_backend p),
                rep_source = src_describe source (src_state source), rep_policy = policy_name p mode,
                rep_model_width = model_width p, rep_model_height = model_height p,
                rep_captured = frames_captured m, rep_dropped = frames_dropped m, rep_completed = frames_completed m,
                rep_wall_seconds = wall,
                rep_throughput_fps = (if 0 < wall then fdiv d (d (real (unat (frames_completed m)))) wall else 0),
                rep_stages = map (\<lambda>i. summarize d (stages m ! i)) [0..<kStageCount],
                rep_end_to_end = summarize d (end_to_end m)\<rparr>, p))"

section \<open>The sequential run\<close>

text \<open>
  \<open>RunGuard\<close>: the body runs with the flag set, and the flag is cleared at the end. (After an
  exception only the error is kept, not the pipeline.)
\<close>

definition run_guard ::
  "(('b, 'k) pipeline \<Rightarrow> (takt_error + 'x \<times> ('b, 'k) pipeline) option) \<Rightarrow> ('b, 'k) pipeline \<Rightarrow>
   (takt_error + 'x \<times> ('b, 'k) pipeline) option"
where
  "run_guard body p =
     (if pl_running p then Some (Inl (Logic_error ''Pipeline: run() is already in progress''))
      else then_run (body (p\<lparr>pl_running := True\<rparr>)) (\<lambda>(x, p). Some (Inr (x, p\<lparr>pl_running := False\<rparr>))))"

definition process_frame ::
  "(detection list \<Rightarrow> detection list) \<Rightarrow> rounding \<Rightarrow> rounding \<Rightarrow> ('b, 'k) stage_fn" where
  "process_frame srt r d p f =
     then_run (preprocess r d p f) (\<lambda>(p, f).
     then_run (infer p f) (\<lambda>(p, f).
     then_run (postprocess srt r p f) (\<lambda>(p, f).
     then_run (track_stage r d p f) (\<lambda>(p, f).
     deliver p f))))"

definition count_captured :: "('b, 'k) pipeline \<Rightarrow> ('b, 'k) pipeline" where
  "count_captured p = p\<lparr>pl_metrics := (pl_metrics p)\<lparr>frames_captured := frames_captured (pl_metrics p) + 1\<rparr>\<rparr>"

lemma then_run_mono [partial_function_mono]:
  assumes "mono_option F" and "\<And>x. mono_option (G x)"
  shows "mono_option (\<lambda>f. then_run (F f) (\<lambda>x. G x f))"
proof (rule monotoneI)
  fix f g :: "'a \<Rightarrow> 'b option" assume le: "option.le_fun f g"
  have F: "option_ord (F f) (F g)" and G: "option_ord (G x f) (G x g)" for x
    using assms le by (auto dest: monotoneD)
  show "option_ord (then_run (F f) (\<lambda>x. G x f)) (then_run (F g) (\<lambda>x. G x g))"
  proof (cases "F f = None")
    case False
    then have "F g = F f" using F by (auto simp: flat_ord_def)
    then show ?thesis using G by (auto simp: then_run_def flat_ord_def split: option.split sum.split)
  qed (simp add: flat_ord_def)
qed

text \<open>
  The loop. \<open>stops k\<close>: whether stop is requested at the \<open>k\<close>-th test of the condition. The single frame
  of the pool is written in place and recycled at the end of the iteration.
\<close>

partial_function (option) sequential_loop ::
  "(detection list \<Rightarrow> detection list) \<Rightarrow> rounding \<Rightarrow> rounding \<Rightarrow> (nat \<Rightarrow> bool) \<Rightarrow> nat \<Rightarrow> u64 \<Rightarrow> frame_pool \<Rightarrow>
   's frame_source \<Rightarrow> ('b, 'k) pipeline \<Rightarrow> (takt_error + 's frame_source \<times> ('b, 'k) pipeline) option"
where
  "sequential_loop srt r d stops k seq pool source p =
     (if stops k \<or> \<not> (cfg_max_frames (pl_config p) = 0 \<or> seq < cfg_max_frames (pl_config p))
      then Some (Inr (source, p))
      else let (fp, pool) = try_acquire pool; i = the fp
           in then_run (Some (source_read source (fr_image (storage pool ! i)))) (\<lambda>(more, img, source).
                if \<not> more then Some (Inr (source, p))
                else let (t, p) = clock_now p;
                         f = (storage pool ! i)\<lparr>fr_image := img, captured_at := t, sequence := seq\<rparr>
                     in then_run (process_frame srt r d (count_captured p) f) (\<lambda>(p, f).
                          sequential_loop srt r d stops (k + 1) (seq + 1)
                            (frame_recycler fp (pool\<lparr>storage := (storage pool)[i := f]\<rparr>)) source p)))"

definition run_sequential ::
  "(detection list \<Rightarrow> detection list) \<Rightarrow> rounding \<Rightarrow> rounding \<Rightarrow> (nat \<Rightarrow> bool) \<Rightarrow> 's frame_source \<Rightarrow>
   ('b, 'k) pipeline \<Rightarrow> (takt_error + run_report \<times> ('b, 'k) pipeline) option"
where
  "run_sequential srt r d stops source = run_guard (\<lambda>p.
     then_run (Some (begin_run source ''sequential'' p)) (\<lambda>p.
     then_run (Some (buffer_sizes p)) (\<lambda>sizes.
     then_run (Some (make_pool 1 sizes)) (\<lambda>pool.
       let (started, p) = clock_now p
       in then_run (sequential_loop srt r d stops 0 0 pool source p) (\<lambda>(source, p).
            Some (finish_run d source ''sequential'' started p))))))"

section \<open>What every stage keeps\<close>

definition pl_ok :: "rounding \<Rightarrow> rounding \<Rightarrow> ('b, 'k) pipeline \<Rightarrow> bool" where
  "pl_ok r d p \<longleftrightarrow> tracker_ok r (pl_tracker p) \<and> letterboxer_ok r d (pl_letterboxer p) \<and>
     metrics_ok (pl_metrics p) \<and> 0 < num_classes (decoder_layout (pl_decoder p))"

definition kept :: "('b, 'k) pipeline \<Rightarrow> frame \<Rightarrow> ('b, 'k) pipeline \<Rightarrow> frame \<Rightarrow> bool" where
  "kept p f p' f' \<longleftrightarrow> pl_config p' = pl_config p \<and> decode_threshold p' = decode_threshold p \<and>
     decoder_layout (pl_decoder p') = decoder_layout (pl_decoder p) \<and> pl_stop p' = pl_stop p \<and>
     pl_running p' = pl_running p \<and> model_width p' = model_width p \<and> model_height p' = model_height p \<and>
     frames_captured (pl_metrics p') = frames_captured (pl_metrics p) \<and>
     frames_dropped (pl_metrics p') = frames_dropped (pl_metrics p) \<and>
     sequence f' = sequence f \<and> captured_at f' = captured_at f \<and> fr_image f' = fr_image f"

definition counts_kept :: "('b, 'k) pipeline \<Rightarrow> ('b, 'k) pipeline \<Rightarrow> bool" where
  "counts_kept p p' \<longleftrightarrow> frames_completed (pl_metrics p') = frames_completed (pl_metrics p) \<and> pl_sinks p' = pl_sinks p"

lemma kept_refl: "kept p f p f" "counts_kept p p"
  by (simp_all add: kept_def counts_kept_def)

lemma kept_trans:
  "kept p f p1 f1 \<Longrightarrow> kept p1 f1 p2 f2 \<Longrightarrow> kept p f p2 f2"
  "counts_kept p p1 \<Longrightarrow> counts_kept p1 p2 \<Longrightarrow> counts_kept p p2"
  by (simp_all add: kept_def counts_kept_def)

text \<open>A stage returns on every input and, when it does not throw, keeps the above and ensures \<open>Q\<close>.\<close>

definition stage_ok ::
  "rounding \<Rightarrow> rounding \<Rightarrow> ('b, 'k) stage_fn \<Rightarrow>
   (('b, 'k) pipeline \<Rightarrow> frame \<Rightarrow> ('b, 'k) pipeline \<Rightarrow> frame \<Rightarrow> bool) \<Rightarrow> bool"
where
  "stage_ok r d fn Q \<longleftrightarrow> (\<forall>p f. pl_ok r d p \<longrightarrow> (\<exists>res. fn p f = Some res \<and>
     (\<forall>p' f'. res = Inr (p', f') \<longrightarrow> pl_ok r d p' \<and> kept p f p' f' \<and> Q p f p' f')))"

lemma stage_okI:
  assumes "\<And>p f. pl_ok r d p \<Longrightarrow> \<exists>res. fn p f = Some res"
    and "\<And>p f p' f'. pl_ok r d p \<Longrightarrow> fn p f = Some (Inr (p', f')) \<Longrightarrow> pl_ok r d p' \<and> kept p f p' f' \<and> Q p f p' f'"
  shows "stage_ok r d fn Q"
  using assms unfolding stage_ok_def by blast

lemma stage_okD:
  assumes "stage_ok r d fn Q" "pl_ok r d p"
  obtains e where "fn p f = Some (Inl e)"
  | p' f' where "fn p f = Some (Inr (p', f'))" "pl_ok r d p'" "kept p f p' f'" "Q p f p' f'"
  using assms unfolding stage_ok_def by (metis surj_pair sumE)

lemma stage_ok_seq:
  assumes "stage_ok r d fn Q" "stage_ok r d gn R"
  shows "stage_ok r d (\<lambda>p f. then_run (fn p f) (\<lambda>(p, f). gn p f))
    (\<lambda>p f p' f'. \<exists>p1 f1. kept p f p1 f1 \<and> Q p f p1 f1 \<and> R p1 f1 p' f')"
proof (rule stage_okI)
  fix p :: "('a, 'b) pipeline" and f assume ok: "pl_ok r d p"
  show "\<exists>res. then_run (fn p f) (\<lambda>(p, f). gn p f) = Some res"
  proof (rule stage_okD [OF assms(1) ok, of f])
    fix p1 f1 assume s: "fn p f = Some (Inr (p1, f1))" "pl_ok r d p1"
    then show ?thesis by (rule_tac stage_okD [OF assms(2) s(2), of f1]) auto
  qed auto
next
  fix p :: "('a, 'b) pipeline" and f p' f' assume ok: "pl_ok r d p"
    and s: "then_run (fn p f) (\<lambda>(p, f). gn p f) = Some (Inr (p', f'))"
  obtain p1 f1 where 1: "fn p f = Some (Inr (p1, f1))" "pl_ok r d p1" "kept p f p1 f1" "Q p f p1 f1"
    using s by (rule_tac stage_okD [OF assms(1) ok, of f]) auto
  obtain "pl_ok r d p'" "kept p1 f1 p' f'" "R p1 f1 p' f'"
    using s 1(1) by (rule_tac stage_okD [OF assms(2) 1(2), of f1]) auto
  with 1 show "pl_ok r d p' \<and> kept p f p' f' \<and> (\<exists>p1 f1. kept p f p1 f1 \<and> Q p f p1 f1 \<and> R p1 f1 p' f')"
    using kept_trans(1) by blast
qed

text \<open>Timing a stage only touches the clock, the stage's histogram and its service time.\<close>

definition untimed_facts ::
  "(('b, 'k) pipeline \<Rightarrow> frame \<Rightarrow> ('b, 'k) pipeline \<Rightarrow> frame \<Rightarrow> bool) \<Rightarrow> bool" where
  "untimed_facts Q \<longleftrightarrow> (\<forall>p f p' f' c c' s ns t. Q (p\<lparr>clock_reads := c\<rparr>) f p' f' \<longrightarrow>
     Q p f (p'\<lparr>clock_reads := c', pl_metrics := record_stage s ns (pl_metrics p')\<rparr>) (f'\<lparr>service_time := t\<rparr>))"

lemma timed_ok:
  assumes "stage_ok r d fn Q" "untimed_facts Q"
  shows "stage_ok r d (timed s fn) Q"
proof (rule stage_okI)
  fix p :: "('a, 'b) pipeline" and f assume "pl_ok r d p"
  then have ok: "pl_ok r d (p\<lparr>clock_reads := clock_reads p + 1\<rparr>)" by (simp add: pl_ok_def)
  show "\<exists>res. timed s fn p f = Some res"
    by (rule stage_okD [OF assms(1) ok, of f]) (auto simp: timed_def clock_now_def Let_def)
  fix p' f' assume "timed s fn p f = Some (Inr (p', f'))"
  then obtain p1 f1 where 1: "fn (p\<lparr>clock_reads := clock_reads p + 1\<rparr>) f = Some (Inr (p1, f1))"
    "pl_ok r d p1" "kept (p\<lparr>clock_reads := clock_reads p + 1\<rparr>) f p1 f1" "Q (p\<lparr>clock_reads := clock_reads p + 1\<rparr>) f p1 f1"
    and 2: "\<exists>ns t. p' = p1\<lparr>clock_reads := clock_reads p1 + 1, pl_metrics := record_stage s ns (pl_metrics p1)\<rparr> \<and>
      f' = f1\<lparr>service_time := t\<rparr>"
    by (rule_tac stage_okD [OF assms(1) ok, of f]) (auto simp: timed_def clock_now_def Let_def)
  then obtain ns t where e: "p' = p1\<lparr>clock_reads := clock_reads p1 + 1, pl_metrics := record_stage s ns (pl_metrics p1)\<rparr>"
    "f' = f1\<lparr>service_time := t\<rparr>" by blast
  have "Q p f p' f'" unfolding e using assms(2) 1(4) unfolding untimed_facts_def by blast
  then show "pl_ok r d p' \<and> kept p f p' f' \<and> Q p f p' f'"
    using 1(2,3) by (simp add: e pl_ok_def kept_def metrics_ok_def)
qed

lemma bind_Some_Inr: "Some (bind_result m g) = Some (Inr y) \<longleftrightarrow> (\<exists>x. m = Inr x \<and> g x = Inr y)"
  by (simp add: bind_result_Inr_iff)

section \<open>The five stages\<close>

definition inside_source :: "rounding \<Rightarrow> letterbox_transform \<Rightarrow> box \<Rightarrow> bool" where
  "inside_source r t b \<longleftrightarrow> 0 \<le> box_x1 b \<and> box_x1 b \<le> r (of_int (source_width t)) \<and>
     0 \<le> box_y1 b \<and> box_y1 b \<le> r (of_int (source_height t)) \<and>
     0 \<le> box_x2 b \<and> box_x2 b \<le> r (of_int (source_width t)) \<and>
     0 \<le> box_y2 b \<and> box_y2 b \<le> r (of_int (source_height t))"

text \<open>The only law of rounding needed here.\<close>

definition rounds_nonneg :: "rounding \<Rightarrow> bool" where
  "rounds_nonneg r \<longleftrightarrow> (\<forall>n \<ge> 0. 0 \<le> r (of_int n))"

lemma inside_to_source:
  assumes "0 \<le> r (of_int (source_width t))" "0 \<le> r (of_int (source_height t))"
  shows "inside_source r t (to_source r t b)"
  using fclamp_range [OF assms(1)] fclamp_range [OF assms(2)] by (simp add: inside_source_def to_source_def Let_def)

lemma compute_letterbox_source:
  "compute_letterbox r d sw sh tw th = Inr t \<Longrightarrow> source_width t = sw \<and> source_height t = sh \<and> 0 < sw \<and> 0 < sh"
  by (auto simp: compute_letterbox_def Let_def split: if_splits)

lemma letterbox_run_source:
  assumes "letterboxer_ok r d lb" "letterbox_run r d v out lb = Inr (lb', out', t)"
  shows "letterboxer_ok r d lb' \<and> source_width t = view_width v \<and> source_height t = view_height v \<and>
    0 < view_width v \<and> 0 < view_height v"
proof -
  have ne: "\<not> view_empty v" using assms(2) by (auto simp: letterbox_run_def)
  obtain lb1 where lb1: "prepare r d v lb = Inr lb1" "letterboxer_ok r d lb1"
    "tables_for r d (view_width v) (view_height v) (view_format v) lb1"
    using prepare_ok [OF assms(1) ne] by blast
  then have "lb' = lb1" "t = transform lb1"
    using assms(2) by (auto simp: letterbox_run_def Let_def bind_result_def split: if_splits)
  then show ?thesis using lb1 ne
    by (auto simp: tables_for_def dest!: compute_letterbox_source)
qed

lemma preprocess_ok:
  "stage_ok r d (preprocess r d) (\<lambda>p f p' f'. counts_kept p p' \<and>
     source_width (fr_letterbox f') = image_width (fr_image f) \<and> source_height (fr_letterbox f') = image_height (fr_image f) \<and>
     0 < image_width (fr_image f) \<and> 0 < image_height (fr_image f))"
  unfolding preprocess_def
proof (rule timed_ok, rule stage_okI)
  fix p :: "('a, 'b) pipeline" and f :: frame and p' f' assume ok: "pl_ok r d p"
    and s: "preprocess_body r d p f = Some (Inr (p', f'))"
  then obtain lb out t where l: "letterbox_run r d (image_as_view (fr_image f)) (fr_input f) (pl_letterboxer p) = Inr (lb, out, t)"
    "p' = p\<lparr>pl_letterboxer := lb\<rparr>" "f' = f\<lparr>fr_input := out, fr_letterbox := t\<rparr>"
    by (auto simp: preprocess_body_def bind_result_Inr_iff)
  from ok letterbox_run_source [OF _ l(1)]
  show "pl_ok r d p' \<and> kept p f p' f' \<and> counts_kept p p' \<and>
     source_width (fr_letterbox f') = image_width (fr_image f) \<and> source_height (fr_letterbox f') = image_height (fr_image f) \<and>
     0 < image_width (fr_image f) \<and> 0 < image_height (fr_image f)"
    by (auto simp: l pl_ok_def kept_def counts_kept_def image_as_view_def)
qed (auto simp: preprocess_body_def untimed_facts_def counts_kept_def)

lemma infer_ok:
  "stage_ok r d infer (\<lambda>p f p' f'. counts_kept p p' \<and> fr_letterbox f' = fr_letterbox f)"
  unfolding infer_def
  by (rule timed_ok, rule stage_okI)
    (auto simp: infer_body_def bind_result_Inr_iff pl_ok_def kept_def counts_kept_def untimed_facts_def)

lemma decoded_facts:
  assumes "decode r dec raw thr = Inr (dec', out)" "0 < num_classes (decoder_layout dec)"
  shows "decoder_layout dec' = decoder_layout dec \<and>
    (\<forall>x \<in> set out. thr < det_score x \<and> 0 \<le> det_class x \<and> det_class x < int (num_classes (decoder_layout dec)))"
proof -
  have "num_anchors (decoder_layout dec) * (4 + num_classes (decoder_layout dec)) \<le> length raw"
    using assms(1) by (auto simp: decode_def Let_def split: if_splits)
  from decode_spec_gen [OF this assms(2), of r thr] assms(1)
  show ?thesis using first_best_props(1) [OF assms(2)]
    by (auto simp: anchor_detections_def Let_def split: if_splits)
qed

definition detection_ok :: "('b, 'k) pipeline \<Rightarrow> real \<Rightarrow> detection \<Rightarrow> bool" where
  "detection_ok p thr x \<longleftrightarrow> thr < det_score x \<and> 0 \<le> det_class x \<and>
     det_class x < int (num_classes (decoder_layout (pl_decoder p)))"

lemma postprocess_ok:
  assumes "score_sort srt" and mono: "rounds_nonneg r"
  shows "stage_ok r d (postprocess srt r) (\<lambda>p f p' f'. counts_kept p p' \<and> fr_letterbox f' = fr_letterbox f \<and>
     length (detections f') \<le> max_detections (cfg_nms (pl_config p)) \<and>
     (\<forall>x \<in> set (detections f'). detection_ok p (decode_threshold p) x \<and>
        (0 \<le> source_width (fr_letterbox f) \<and> 0 \<le> source_height (fr_letterbox f) \<longrightarrow>
         inside_source r (fr_letterbox f) (det_box x))))"
  unfolding postprocess_def
proof (rule timed_ok, rule stage_okI)
  fix p :: "('a, 'b) pipeline" and f :: frame and p' f' assume ok: "pl_ok r d p"
    and s: "postprocess_body srt r p f = Some (Inr (p', f'))"
  then obtain dec dets where l: "decode r (pl_decoder p) (fr_output f) (decode_threshold p) = Inr (dec, dets)"
    "p' = p\<lparr>pl_decoder := dec\<rparr>"
    "f' = f\<lparr>detections := scale_to_source r (fr_letterbox f) (nms_apply srt r (cfg_nms (pl_config p)) dets)\<rparr>"
    by (auto simp: postprocess_body_def bind_result_Inr_iff)
  have sub: "set (nms_apply srt r (cfg_nms (pl_config p)) dets) \<subseteq> set dets"
    using score_sort.nms_subset [OF assms(1)] by (metis set_mset_mono set_mset_mset)
  have len: "length (nms_apply srt r (cfg_nms (pl_config p)) dets) \<le> max_detections (cfg_nms (pl_config p))"
    by (simp add: nms_apply_greedy_gen)
  from ok decoded_facts [OF l(1)] sub len mono [unfolded rounds_nonneg_def]
  show "pl_ok r d p' \<and> kept p f p' f' \<and> counts_kept p p' \<and> fr_letterbox f' = fr_letterbox f \<and>
     length (detections f') \<le> max_detections (cfg_nms (pl_config p)) \<and>
     (\<forall>x \<in> set (detections f'). detection_ok p (decode_threshold p) x \<and>
        (0 \<le> source_width (fr_letterbox f) \<and> 0 \<le> source_height (fr_letterbox f) \<longrightarrow>
         inside_source r (fr_letterbox f) (det_box x)))"
    by (auto simp: l pl_ok_def kept_def counts_kept_def scale_to_source_def detection_ok_def intro!: inside_to_source)
qed (auto simp: postprocess_body_def untimed_facts_def counts_kept_def detection_ok_def)

lemma track_ok:
  "stage_ok r d (track_stage r d) (\<lambda>p f p' f'. counts_kept p p' \<and> fr_letterbox f' = fr_letterbox f \<and>
     detections f' = filter (\<lambda>x. \<not> decode_threshold p < cfg_score_threshold (pl_config p) \<or>
       cfg_score_threshold (pl_config p) < det_score x) (detections f))"
  unfolding track_stage_def
proof (rule timed_ok, rule stage_okI)
  fix p :: "('a, 'b) pipeline" and f :: frame assume ok: "pl_ok r d p"
  then have "tracker_ok r (pl_tracker p)" by (simp add: pl_ok_def)
  from tracker_returns [OF this, of d "detections f"]
  obtain bt out where u: "tracker_update r d (detections f) (pl_tracker p) = Some (Inr (bt, out))" "tracker_ok r bt"
    by blast
  then show "\<exists>res. track_body r d p f = Some res" by (simp add: track_body_def)
  fix p' f' assume "track_body r d p f = Some (Inr (p', f'))"
  then show "pl_ok r d p' \<and> kept p f p' f' \<and> counts_kept p p' \<and> fr_letterbox f' = fr_letterbox f \<and>
     detections f' = filter (\<lambda>x. \<not> decode_threshold p < cfg_score_threshold (pl_config p) \<or>
       cfg_score_threshold (pl_config p) < det_score x) (detections f)"
    using u ok by (auto simp: track_body_def pl_ok_def kept_def counts_kept_def not_le split: if_splits)
qed (auto simp: untimed_facts_def counts_kept_def)

lemma deliver_ok:
  assumes "pl_ok r d p"
  shows "\<exists>res. deliver p f = Some res \<and> (\<forall>p' f'. res = Inr (p', f') \<longrightarrow> pl_ok r d p' \<and> kept p f p' f' \<and>
    frames_completed (pl_metrics p') = frames_completed (pl_metrics p) + 1 \<and>
    sinks_consume f (pl_sinks p) = Inr (pl_sinks p'))"
proof -
  have "stage_ok r d (timed kSink deliver_body) (\<lambda>p f p' f'.
      frames_completed (pl_metrics p') = frames_completed (pl_metrics p) \<and> sinks_consume f (pl_sinks p) = Inr (pl_sinks p'))"
    by (rule timed_ok, rule stage_okI)
      (auto simp: deliver_body_def bind_result_Inr_iff pl_ok_def kept_def untimed_facts_def)
  then show ?thesis
  proof (rule stage_okD [OF _ assms, of _ _ f])
    fix p1 f1 assume "timed kSink deliver_body p f = Some (Inr (p1, f1))" "pl_ok r d p1" "kept p f p1 f1"
      "frames_completed (pl_metrics p1) = frames_completed (pl_metrics p) \<and> sinks_consume f (pl_sinks p) = Inr (pl_sinks p1)"
    then show ?thesis
      by (auto simp: deliver_def clock_now_def Let_def pl_ok_def kept_def metrics_ok_def)
  qed (simp add: deliver_def)
qed

section \<open>One frame through all stages\<close>

definition inside_image :: "rounding \<Rightarrow> image \<Rightarrow> box \<Rightarrow> bool" where
  "inside_image r img b \<longleftrightarrow> 0 \<le> box_x1 b \<and> box_x1 b \<le> r (of_int (image_width img)) \<and>
     0 \<le> box_y1 b \<and> box_y1 b \<le> r (of_int (image_height img)) \<and>
     0 \<le> box_x2 b \<and> box_x2 b \<le> r (of_int (image_width img)) \<and>
     0 \<le> box_y2 b \<and> box_y2 b \<le> r (of_int (image_height img))"

text \<open>What a sink may rely on: \<open>g\<close> is the frame it gets for the captured frame \<open>f\<close>.\<close>

definition frame_ok :: "rounding \<Rightarrow> ('b, 'k) pipeline \<Rightarrow> frame \<Rightarrow> frame \<Rightarrow> bool" where
  "frame_ok r p f g \<longleftrightarrow> sequence g = sequence f \<and> captured_at g = captured_at f \<and> fr_image g = fr_image f \<and>
     length (detections g) \<le> max_detections (cfg_nms (pl_config p)) \<and>
     (\<forall>x \<in> set (detections g). detection_ok p (cfg_score_threshold (pl_config p)) x \<and>
        inside_image r (fr_image f) (det_box x))"

definition compute_frame ::
  "(detection list \<Rightarrow> detection list) \<Rightarrow> rounding \<Rightarrow> rounding \<Rightarrow> ('b, 'k) stage_fn" where
  "compute_frame srt r d p f =
     then_run (preprocess r d p f) (\<lambda>(p, f). then_run (infer p f) (\<lambda>(p, f).
     then_run (postprocess srt r p f) (\<lambda>(p, f). track_stage r d p f)))"

lemma process_frame_split:
  "process_frame srt r d p f = then_run (compute_frame srt r d p f) (\<lambda>(p, f). deliver p f)"
  by (auto simp: process_frame_def compute_frame_def then_run_def split: option.split sum.split prod.split)

lemma compute_frame_ok:
  assumes srt: "score_sort srt" and mono: "rounds_nonneg r"
  shows "stage_ok r d (compute_frame srt r d) (\<lambda>p f p' f'. counts_kept p p' \<and> frame_ok r p f f')"
proof (rule stage_okI)
  note post = postprocess_ok [OF srt mono]
  note all = stage_ok_seq [OF preprocess_ok stage_ok_seq [OF infer_ok stage_ok_seq [OF post track_ok]]]
  fix p :: "('a, 'b) pipeline" and f :: frame assume ok: "pl_ok r d p"
  show "\<exists>res. compute_frame srt r d p f = Some res"
    unfolding compute_frame_def by (rule stage_okD [OF all ok, of f]) auto
  fix p' f' assume s: "compute_frame srt r d p f = Some (Inr (p', f'))"
  then obtain p1 f1 p2 f2 p3 f3 where "pl_ok r d p'" "kept p f p' f'"
    and k: "kept p f p1 f1" "kept p1 f1 p2 f2" "kept p2 f2 p3 f3"
    and c: "counts_kept p p1" "counts_kept p1 p2" "counts_kept p2 p3" "counts_kept p3 p'"
    and Q: "source_width (fr_letterbox f1) = image_width (fr_image f)" "source_height (fr_letterbox f1) = image_height (fr_image f)"
      "0 < image_width (fr_image f)" "0 < image_height (fr_image f)"
      "fr_letterbox f2 = fr_letterbox f1"
      "length (detections f3) \<le> max_detections (cfg_nms (pl_config p2))"
      "\<forall>x \<in> set (detections f3). detection_ok p2 (decode_threshold p2) x \<and>
        (0 \<le> source_width (fr_letterbox f2) \<and> 0 \<le> source_height (fr_letterbox f2) \<longrightarrow>
         inside_source r (fr_letterbox f2) (det_box x))"
      "detections f' = filter (\<lambda>x. \<not> decode_threshold p3 < cfg_score_threshold (pl_config p3) \<or>
       cfg_score_threshold (pl_config p3) < det_score x) (detections f3)"
    unfolding compute_frame_def by (rule_tac stage_okD [OF all ok, of f]) auto
  have same: "kept p f p2 f2" "kept p f p3 f3" using k kept_trans(1) by blast+
  have "length (detections f') \<le> length (detections f3)" by (simp add: Q(8))
  moreover have "detection_ok p (cfg_score_threshold (pl_config p)) x \<and> inside_image r (fr_image f) (det_box x)"
    if "x \<in> set (detections f')" for x
    using that Q same by (auto simp: kept_def detection_ok_def inside_image_def inside_source_def)
  ultimately have "frame_ok r p f f'"
    using \<open>kept p f p' f'\<close> same Q(6) by (auto simp: frame_ok_def kept_def)
  moreover have "counts_kept p p'" using c kept_trans(2) by blast
  ultimately show "pl_ok r d p' \<and> kept p f p' f' \<and> counts_kept p p' \<and> frame_ok r p f f'"
    using \<open>pl_ok r d p'\<close> \<open>kept p f p' f'\<close> by blast
qed

lemma process_frame_ok:
  assumes "score_sort srt" "rounds_nonneg r" "pl_ok r d p"
  shows "\<exists>res. process_frame srt r d p f = Some res \<and> (\<forall>p' f'. res = Inr (p', f') \<longrightarrow>
    pl_ok r d p' \<and> kept p f p' f' \<and> frames_completed (pl_metrics p') = frames_completed (pl_metrics p) + 1 \<and>
    (\<exists>g. frame_ok r p f g \<and> sinks_consume g (pl_sinks p) = Inr (pl_sinks p')))"
proof (rule stage_okD [OF compute_frame_ok [OF assms(1,2), of d] assms(3), of f])
  fix p1 f1 assume 1: "compute_frame srt r d p f = Some (Inr (p1, f1))" "pl_ok r d p1" "kept p f p1 f1"
    "counts_kept p p1 \<and> frame_ok r p f f1"
  obtain res where 2: "deliver p1 f1 = Some res" "\<And>p' f'. res = Inr (p', f') \<Longrightarrow> pl_ok r d p' \<and> kept p1 f1 p' f' \<and>
    frames_completed (pl_metrics p') = frames_completed (pl_metrics p1) + 1 \<and>
    sinks_consume f1 (pl_sinks p1) = Inr (pl_sinks p')"
    using deliver_ok [OF 1(2), of f1] by blast
  have "process_frame srt r d p f = Some res" by (simp add: process_frame_split 1(1) 2(1))
  then show ?thesis using 1 2(2) kept_trans(1) by (fastforce simp: counts_kept_def)
qed (auto simp: process_frame_split)

section \<open>The sequential loop\<close>

fun consume_all :: "frame list \<Rightarrow> 'k frame_sink list \<Rightarrow> takt_error + 'k frame_sink list" where
  "consume_all [] ks = Inr ks"
| "consume_all (g # gs) ks = bind_result (sinks_consume g ks) (consume_all gs)"

text \<open>What a run that does not throw has done: the frames \<open>gs\<close> delivered, in order, and the counts.\<close>

definition delivered ::
  "rounding \<Rightarrow> rounding \<Rightarrow> u64 \<Rightarrow> frame list \<Rightarrow> ('b, 'k) pipeline \<Rightarrow> ('b, 'k) pipeline \<Rightarrow> bool" where
  "delivered r d seq gs p p' \<longleftrightarrow> pl_ok r d p' \<and> pl_config p' = pl_config p \<and>
     decoder_layout (pl_decoder p') = decoder_layout (pl_decoder p) \<and> pl_stop p' = pl_stop p \<and>
     pl_running p' = pl_running p \<and>
     frames_captured (pl_metrics p') = frames_captured (pl_metrics p) + of_nat (length gs) \<and>
     frames_completed (pl_metrics p') = frames_completed (pl_metrics p) + of_nat (length gs) \<and>
     frames_dropped (pl_metrics p') = frames_dropped (pl_metrics p) \<and>
     consume_all gs (pl_sinks p) = Inr (pl_sinks p') \<and>
     map sequence gs = map (\<lambda>i. seq + of_nat i) [0..<length gs] \<and>
     (\<forall>g \<in> set gs. frame_ok r p g g)"

lemma frame_ok_cong:
  "pl_config p' = pl_config p \<Longrightarrow> decoder_layout (pl_decoder p') = decoder_layout (pl_decoder p) \<Longrightarrow>
   frame_ok r p' = frame_ok r p"
  by (intro ext) (simp add: frame_ok_def detection_ok_def)

lemma frame_ok_clock [simp]: "frame_ok r (p\<lparr>clock_reads := c\<rparr>) = frame_ok r p"
  by (rule frame_ok_cong) simp_all

lemma delivered_Nil: "pl_ok r d p \<Longrightarrow> delivered r d seq [] p p"
  by (simp add: delivered_def)

lemma delivered_clock [simp]: "delivered r d seq gs (p\<lparr>clock_reads := c\<rparr>) p' = delivered r d seq gs p p'"
  by (simp add: delivered_def frame_ok_def detection_ok_def)

lemma delivered_Cons:
  assumes "pl_ok r d p1" "kept (count_captured p) f p1 f1"
    "frames_completed (pl_metrics p1) = frames_completed (pl_metrics p) + 1"
    "frame_ok r (count_captured p) f g" "sinks_consume g (pl_sinks p) = Inr (pl_sinks p1)"
    "sequence f = seq" "delivered r d (seq + 1) gs p1 p'"
  shows "delivered r d seq (g # gs) p p'"
proof -
  have "map (\<lambda>i. seq + of_nat i) [0..<Suc n] = seq # map (\<lambda>i. seq + 1 + of_nat i) [0..<n]" for n
    by (simp add: upt_conv_Cons map_Suc_upt [symmetric] add.assoc del: upt_Suc map_Suc_upt)
  moreover have "frame_ok r p1 = frame_ok r p" "frame_ok r (count_captured p) = frame_ok r p"
    using assms(2) by (auto intro!: frame_ok_cong simp: kept_def count_captured_def)
  moreover have "frame_ok r p g g" using assms(4) calculation(3) by (auto simp: frame_ok_def)
  ultimately show ?thesis
    using assms by (auto simp: delivered_def kept_def count_captured_def frame_ok_def)
qed

lemma sequential_loop_ok:
  assumes env: "score_sort srt" "rounds_nonneg r"
    and "pl_ok r d p" "pool_ok pool []" "0 < pool_capacity pool"
    and "stops (k + n) \<or> cfg_max_frames (pl_config p) \<noteq> 0 \<and> unat (cfg_max_frames (pl_config p)) \<le> unat seq + n"
  shows "\<exists>res. sequential_loop srt r d stops k seq pool source p = Some res \<and>
    (\<forall>source' p'. res = Inr (source', p') \<longrightarrow> (\<exists>gs. length gs \<le> n \<and> delivered r d seq gs p p'))"
  using assms(3-)
proof (induction n arbitrary: k seq pool source p)
  case 0
  then have "stops k \<or> \<not> (cfg_max_frames (pl_config p) = 0 \<or> seq < cfg_max_frames (pl_config p))"
    by (auto simp: u64_less_unat)
  then show ?case using delivered_Nil [OF 0(1)] by (subst sequential_loop.simps) (auto intro!: exI [of _ "[]"])
next
  case (Suc n)
  show ?case
  proof (cases "stops k \<or> \<not> (cfg_max_frames (pl_config p) = 0 \<or> seq < cfg_max_frames (pl_config p))")
    case True
    then show ?thesis using delivered_Nil [OF Suc.prems(1)] by (subst sequential_loop.simps) (auto intro!: exI [of _ "[]"])
  next
    case False
    have "free_frames pool \<noteq> []" using pool_ok_partition(3) [OF Suc.prems(2)] Suc.prems(3) by (auto simp: available_def)
    then obtain i pool1 where acq: "try_acquire pool = (Some i, pool1)" "take_locked pool = (Some i, pool1)"
      by (auto simp: try_acquire_def take_locked_def)
    have pool1: "pool_ok pool1 [i]" "pool_capacity pool1 = pool_capacity pool" "i < pool_capacity pool"
      using take_locked_ok [OF Suc.prems(2) \<open>free_frames pool \<noteq> []\<close> acq(2)] by auto
    show ?thesis
    proof (cases "source_read source (fr_image (storage pool1 ! i))")
      case (Inl e)
      then show ?thesis using False acq(1) by (subst sequential_loop.simps) auto
    next
      case (Inr res)
      then obtain more img source1 where rd: "source_read source (fr_image (storage pool1 ! i)) = Inr (more, img, source1)"
        by (cases res) auto
      show ?thesis
      proof (cases more)
        case False
        with rd \<open>\<not> (stops k \<or> _)\<close> show ?thesis
          using acq(1) delivered_Nil [OF Suc.prems(1)] by (subst sequential_loop.simps) (auto intro!: exI [of _ "[]"])
      next
        case True
        let ?p = "count_captured (p\<lparr>clock_reads := clock_reads p + 1\<rparr>)"
        let ?f = "(storage pool1 ! i)\<lparr>fr_image := img, captured_at := clock p (clock_reads p), sequence := seq\<rparr>"
        have ok: "pl_ok r d ?p" using Suc.prems(1) by (simp add: pl_ok_def count_captured_def metrics_ok_def)
        obtain res1 where pf: "process_frame srt r d ?p ?f = Some res1" and
          inr: "\<And>p' f'. res1 = Inr (p', f') \<Longrightarrow> pl_ok r d p' \<and> kept ?p ?f p' f' \<and>
            frames_completed (pl_metrics p') = frames_completed (pl_metrics ?p) + 1 \<and>
            (\<exists>g. frame_ok r ?p ?f g \<and> sinks_consume g (pl_sinks ?p) = Inr (pl_sinks p'))"
          using process_frame_ok [OF env ok, of ?f] by blast
        have step: "sequential_loop srt r d stops k seq pool source p =
            then_run (Some res1) (\<lambda>(p, f). sequential_loop srt r d stops (k + 1) (seq + 1)
              (frame_recycler (Some i) (pool1\<lparr>storage := (storage pool1)[i := f]\<rparr>)) source1 p)"
          using \<open>\<not> (stops k \<or> _)\<close> acq(1) rd True pf
          by (subst sequential_loop.simps) (simp add: clock_now_def)
        show ?thesis
        proof (cases res1)
          case (Inl e)
          then show ?thesis by (simp add: step)
        next
          case (Inr pf1)
          obtain p1 f1 where pf1: "pf1 = (p1, f1)" by fastforce
          have kp: "pl_ok r d p1" "kept ?p ?f p1 f1"
              "frames_completed (pl_metrics p1) = frames_completed (pl_metrics ?p) + 1"
              "\<exists>g. frame_ok r ?p ?f g \<and> sinks_consume g (pl_sinks ?p) = Inr (pl_sinks p1)"
            using inr [of p1 f1] by (simp_all add: Inr pf1)
          obtain g where g: "frame_ok r ?p ?f g" "sinks_consume g (pl_sinks ?p) = Inr (pl_sinks p1)" using kp(4) by blast
          let ?pool = "frame_recycler (Some i) (pool1\<lparr>storage := (storage pool1)[i := f1]\<rparr>)"
          have "i \<notin> set (free_frames pool1)" using pool_ok_partition(1) [OF pool1(1)] by auto
          then have w: "pool_ok (pool1\<lparr>storage := (storage pool1)[i := f1]\<rparr>) [i]"
            using pool1(1) by (auto simp: pool_ok_def pool_capacity_def update_nth)
          have pool2: "pool_ok ?pool []" "0 < pool_capacity ?pool"
            using recycle_ok [OF w, of i] pool1(2) Suc.prems(3)
            by (simp_all add: frame_recycler_def pool_capacity_def)
          have cfg: "pl_config p1 = pl_config p" using kp(2) by (simp add: kept_def count_captured_def)
          have seq: "unat (seq + 1) = unat seq + 1" if "cfg_max_frames (pl_config p) \<noteq> 0"
          proof -
            have "unat seq < unat (cfg_max_frames (pl_config p))"
              using False that \<open>\<not> (stops k \<or> _)\<close> by (simp add: u64_less_unat)
            then have "unat seq + 1 < 2 ^ 64" using unat_u64_less [of "cfg_max_frames (pl_config p)"] by linarith
            then show ?thesis by (subst unat_plus_u64) simp_all
          qed
          have bound: "stops (k + 1 + n) \<or> cfg_max_frames (pl_config p1) \<noteq> 0 \<and>
              unat (cfg_max_frames (pl_config p1)) \<le> unat (seq + 1) + n"
            using Suc.prems(4) seq by (auto simp: cfg)
          obtain res2 where r2: "sequential_loop srt r d stops (k + 1) (seq + 1) ?pool source1 p1 = Some res2"
            "\<And>source' p'. res2 = Inr (source', p') \<Longrightarrow> \<exists>gs. length gs \<le> n \<and> delivered r d (seq + 1) gs p1 p'"
            using Suc.IH [OF kp(1) pool2 bound, of source1] by blast
          have "\<exists>gs. length gs \<le> Suc n \<and> delivered r d seq gs p p'" if r: "res2 = Inr (source', p')" for source' p'
          proof -
            obtain gs where len: "length gs \<le> n" and gs: "delivered r d (seq + 1) gs p1 p'" using r2(2) [OF r] by blast
            have "delivered r d seq (g # gs) (p\<lparr>clock_reads := clock_reads p + 1\<rparr>) p'"
              by (rule delivered_Cons [OF kp(1,2) _ g(1) _ _ gs]) (use kp(3) g(2) in \<open>simp_all add: count_captured_def\<close>)
            then show ?thesis unfolding delivered_clock using len by (intro exI [of _ "g # gs"]) simp
          qed
          then show ?thesis using r2(1) by (simp add: step Inr pf1)
        qed
      qed
    qed
  qed
qed

lemma warm_up_kept:
  "warm_up_backend p = Inr p' \<Longrightarrow> \<exists>b. p' = p\<lparr>pl_backend := b\<rparr>"
  by (auto simp: warm_up_backend_def bind_result_Inr_iff split: if_splits) (metis (no_types) pipeline.surjective pipeline.update_convs(2))

lemma begin_run_result:
  assumes "begin_run source mode p = Inr p'" "pl_ok r d p"
  shows "pl_ok r d p' \<and> pl_config p' = pl_config p \<and> decoder_layout (pl_decoder p') = decoder_layout (pl_decoder p) \<and>
    pl_running p' = pl_running p \<and> \<not> pl_stop p' \<and> pl_metrics p' = metrics_reset (pl_metrics p) \<and>
    pl_tracker p' = reset_tracker (pl_tracker p) \<and> (\<exists>info. sinks_start info (pl_sinks p) = Inr (pl_sinks p'))"
  using assms by (auto simp: begin_run_def bind_result_Inr_iff clock_now_def Let_def pl_ok_def tracker_ok_init
      intro!: metrics_reset_ok(1) dest!: warm_up_kept)

lemma finish_run_result:
  assumes "finish_run d source mode started p = Inr (rep, p')"
  shows "sinks_finish (pl_sinks p) = Inr (pl_sinks p') \<and> pl_running p' = pl_running p \<and>
    rep_captured rep = frames_captured (pl_metrics p) \<and> rep_dropped rep = frames_dropped (pl_metrics p) \<and>
    rep_completed rep = frames_completed (pl_metrics p) \<and> rep_mode rep = mode"
  using assms by (auto simp: finish_run_def bind_result_Inr_iff clock_now_def Let_def)

lemma metrics_reset_counts [simp]:
  "frames_captured (metrics_reset m) = 0" "frames_dropped (metrics_reset m) = 0" "frames_completed (metrics_reset m) = 0"
  by (simp_all add: metrics_reset_def)

lemma make_pipeline_ok:
  assumes "make_pipeline r clk cfg b = Inr p"
  shows "pl_ok r d p \<and> \<not> pl_running p \<and> pl_config p = cfg \<and> pl_backend p = b"
  using assms
  by (auto simp: make_pipeline_def bind_result_Inr_iff pl_ok_def tracker_ok_init metrics_reset_ok make_decoder_def
      dest!: make_letterboxer_ok [where d = d] split: if_splits)

lemma rounds_nonneg_32: "rounds_nonneg round32"
  by (simp add: rounds_nonneg_def f32.nonneg)

section \<open>The properties\<close>

lemma sequential_run_result:
  assumes "score_sort srt" "rounds_nonneg r" "pl_ok r d p" "\<not> pl_running p"
    and "stops n \<or> cfg_max_frames (pl_config p) \<noteq> 0 \<and> n = unat (cfg_max_frames (pl_config p))"
  shows "\<exists>res. run_sequential srt r d stops source p = Some res \<and>
    (\<forall>rep p'. res = Inr (rep, p') \<longrightarrow> (\<exists>gs info ks ks'. length gs \<le> n \<and>
       rep_captured rep = of_nat (length gs) \<and> rep_completed rep = rep_captured rep \<and> rep_dropped rep = 0 \<and>
       map sequence gs = map of_nat [0..<length gs] \<and> (\<forall>g \<in> set gs. frame_ok r p g g) \<and>
       sinks_start info (pl_sinks p) = Inr ks \<and> consume_all gs ks = Inr ks' \<and> sinks_finish ks' = Inr (pl_sinks p') \<and>
       \<not> pl_running p'))"
proof (cases "begin_run source ''sequential'' (p\<lparr>pl_running := True\<rparr>)")
  case (Inl e)
  then show ?thesis using assms(4) by (simp add: run_sequential_def run_guard_def)
next
  case (Inr p1)
  have "pl_ok r d (p\<lparr>pl_running := True\<rparr>)" using assms(3) by (simp add: pl_ok_def)
  note b = begin_run_result [OF Inr this]
  show ?thesis
  proof (cases "bind_result (buffer_sizes p1) (make_pool 1)")
    case (Inl e)
    then show ?thesis using assms(4) Inr
      by (cases "buffer_sizes p1") (auto simp: run_sequential_def run_guard_def)
  next
    case (Inr pool)
    then obtain sizes where sz: "buffer_sizes p1 = Inr sizes" "make_pool 1 sizes = Inr pool"
      by (auto simp: bind_result_Inr_iff)
    let ?p = "p1\<lparr>clock_reads := clock_reads p1 + 1\<rparr>"
    have ok: "pl_ok r d ?p" using b by (auto simp: pl_ok_def)
    have pool: "pool_ok pool []" "0 < pool_capacity pool" using make_pool_ok [OF sz(2)] by auto
    have bound: "stops (0 + n) \<or> cfg_max_frames (pl_config ?p) \<noteq> 0 \<and> unat (cfg_max_frames (pl_config ?p)) \<le> unat (0 :: u64) + n"
      using assms(5) b by auto
    obtain res where loop: "sequential_loop srt r d stops 0 0 pool source ?p = Some res"
      and inr: "\<forall>source' p'. res = Inr (source', p') \<longrightarrow> (\<exists>gs. length gs \<le> n \<and> delivered r d 0 gs ?p p')"
      using sequential_loop_ok [where stops = stops and k = 0 and n = n and seq = 0 and source = source, OF assms(1,2) ok pool bound] by blast
    have run: "run_sequential srt r d stops source p = then_run (then_run (Some res) (\<lambda>(source, p).
        Some (finish_run d source ''sequential'' (clock p1 (clock_reads p1)) p))) (\<lambda>(x, p). Some (Inr (x, p\<lparr>pl_running := False\<rparr>)))"
      using assms(4) \<open>begin_run _ _ _ = Inr p1\<close> sz loop
      by (simp add: run_sequential_def run_guard_def clock_now_def)
    show ?thesis
    proof (cases res)
      case (Inl e)
      then show ?thesis by (simp add: run)
    next
      case (Inr sp)
      obtain source2 p2 where sp: "sp = (source2, p2)" by fastforce
      obtain gs where gs: "length gs \<le> n" "delivered r d 0 gs ?p p2" using inr Inr sp by blast
      show ?thesis
      proof (cases "finish_run d source2 ''sequential'' (clock p1 (clock_reads p1)) p2")
        case (Inl e)
        then show ?thesis by (simp add: run Inr sp)
      next
        case (Inr rp)
        obtain rep p3 where rp: "rp = (rep, p3)" by fastforce
        have "frame_ok r p = frame_ok r p1" using b by (intro frame_ok_cong [symmetric]) simp_all
        then show ?thesis
          using b gs finish_run_result [OF Inr [unfolded rp]] Inr rp \<open>res = Inr sp\<close> sp
          by (auto simp: run delivered_def intro!: exI [of _ gs])
      qed
    qed
  qed
qed

text \<open>
  C21: the sequential run returns whenever a frame limit is set or stop is requested at some
  point, whatever the sorting algorithm, the source, the sinks and the engine do. When nothing
  throws, exactly the frames it counts were captured and completed, none dropped, never more than
  the limit; the sinks got them one after the other in capture order between \<open>on_start\<close> and
  \<open>on_finish\<close>, and each carries at most \<open>max_detections\<close> detections, all above the score threshold, of
  a class of the model and inside the camera image.
\<close>

theorem sequential_run_correct:
  assumes "score_sort srt" "rounds_nonneg r" "pl_ok r d p" "\<not> pl_running p"
    and "stops n \<or> cfg_max_frames (pl_config p) \<noteq> 0 \<and> n = unat (cfg_max_frames (pl_config p))"
  shows "\<exists>res. run_sequential srt r d stops source p = Some res \<and>
    (\<forall>rep p'. res = Inr (rep, p') \<longrightarrow> (\<exists>gs info ks ks'. length gs \<le> n \<and>
       rep_captured rep = of_nat (length gs) \<and> rep_completed rep = rep_captured rep \<and> rep_dropped rep = 0 \<and>
       map sequence gs = map of_nat [0..<length gs] \<and> (\<forall>g \<in> set gs. frame_ok r p g g) \<and>
       sinks_start info (pl_sinks p) = Inr ks \<and> consume_all gs ks = Inr ks' \<and> sinks_finish ks' = Inr (pl_sinks p') \<and>
       \<not> pl_running p'))"
  using assms by (rule sequential_run_result)

definition dark_source :: "nat frame_source" where
  "dark_source = \<lparr>src_state = 5,
     src_read = (\<lambda>n img. Inr (0 < n, \<lparr>image_buffer = replicate 12 0, image_width = 2, image_height = 2, image_format = kBgr8\<rparr>, n - 1)),
     src_describe = (\<lambda>_. ''dark''), src_nominal_fps = (\<lambda>_. 0)\<rparr>"

lemma tiny_pipeline:
  "\<exists>fb p. make_fake_backend tiny_fake_options = Inr fb \<and>
    make_pipeline round32 clk (default_config round32\<lparr>cfg_max_frames := 2\<rparr>) (fake_as_backend round32 round64 fb) = Inr p"
  by (simp add: make_fake_backend_def tiny_fake_options_def make_pipeline_def input_dimension_def fake_as_backend_def
      to_int32_def make_letterboxer_def yolo_layout_from_shape_def make_decoder_def default_config_def Let_def)

theorem sequential_run_correct_witness:
  "\<exists>fb (p :: (fake_backend, unit) pipeline) res.
    make_pipeline round32 (\<lambda>_. 0) (default_config round32\<lparr>cfg_max_frames := 2\<rparr>) (fake_as_backend round32 round64 fb) = Inr p \<and>
    run_sequential sort_by_score round32 round64 (\<lambda>_. False) dark_source p = Some res"
proof -
  obtain fb and p :: "(fake_backend, unit) pipeline" where
    p: "make_pipeline round32 (\<lambda>_. 0) (default_config round32\<lparr>cfg_max_frames := 2\<rparr>) (fake_as_backend round32 round64 fb) = Inr p"
    using tiny_pipeline by blast
  note ok = make_pipeline_ok [OF p, of round64]
  have "\<exists>res. run_sequential sort_by_score round32 round64 (\<lambda>_. False) dark_source p = Some res"
    using sequential_run_correct [OF insertion.score_sort_axioms rounds_nonneg_32, of round64 p "\<lambda>_. False" 2 dark_source] ok
    by (auto simp: default_config_def)
  with p show ?thesis by blast
qed



end
