(* ===== verification/OnnxBackend.thy ===== *)
theory OnnxBackend
  imports Pipeline
begin

text \<open>
  \<open>infer/onnx_backend.hpp\<close>, \<open>src/infer/onnx_backend.cpp\<close>: inference with ONNX Runtime over the caller's
  buffers. The library is an argument: the record \<open>ort\<close> holds the calls the source makes, with
  \<open>'o\<close> for an open session; a result \<open>Inl msg\<close> is an \<open>Ort::Exception\<close>. The environment with its
  logger and the memory description are not state of the backend.
\<close>

section \<open>The library\<close>

record session_options =
  so_optimize_all :: bool
  so_sequential :: bool
  so_inter_threads :: int
  so_intra_threads :: "int option"
  so_allow_spinning :: bool
  so_cuda :: bool

datatype element_type = Float32_element | Other_element

record 'o ort =
  ort_cuda :: "string + unit"
  ort_open :: "string \<Rightarrow> session_options \<Rightarrow> string + 'o"
  ort_input_count :: "'o \<Rightarrow> nat"
  ort_output_count :: "'o \<Rightarrow> nat"
  ort_input_name :: "'o \<Rightarrow> string"
  ort_output_name :: "'o \<Rightarrow> string"
  ort_input_type :: "'o \<Rightarrow> element_type"
  ort_output_type :: "'o \<Rightarrow> element_type"
  ort_input_shape :: "'o \<Rightarrow> int list"
  ort_output_shape :: "'o \<Rightarrow> int list"
  ort_run_shape :: "'o \<Rightarrow> int list \<Rightarrow> real list \<Rightarrow> string + int list"
  ort_run :: "'o \<Rightarrow> int list \<Rightarrow> real list \<Rightarrow> int list \<Rightarrow> real list \<Rightarrow> string + real list"

text \<open>
  \<open>ort_run_shape\<close> is the shape of the first output of a run that allocates its outputs;
  \<open>ort_run s in_shape input out_shape output\<close> is the output tensor after a run on the caller's tensors.
\<close>

section \<open>Construction\<close>

record onnx_options =
  ox_model_path :: string
  ox_execution_provider :: string
  ox_intra_op_threads :: int
  ox_allow_spinning :: bool
  ox_default_input_size :: int

definition default_onnx_options :: onnx_options where
  "default_onnx_options = \<lparr>ox_model_path = [], ox_execution_provider = ''cpu'', ox_intra_op_threads = 0,
     ox_allow_spinning = False, ox_default_input_size = 640\<rparr>"

record 'o onnx_backend =
  ox_session :: 'o
  ox_input_spec :: tensor_spec
  ox_output_spec :: tensor_spec
  ox_input_elements :: u64
  ox_output_elements :: u64
  ox_name :: string

definition has_dynamic_dim :: "int list \<Rightarrow> bool" where
  "has_dynamic_dim shape \<longleftrightarrow> list_ex (\<lambda>d. d \<le> 0) shape"

definition shape_to_string :: "int list \<Rightarrow> string" where
  "shape_to_string shape =
     fold (\<lambda>i s. s @ (if i = 0 then [] else '', '') @ show_int (shape ! i)) [0..<length shape] ''['' @ '']''"

definition library_call :: "string \<Rightarrow> string + 'a \<Rightarrow> takt_error + 'a" where
  "library_call prefix res = map_sum (\<lambda>msg. Runtime_error (prefix @ msg)) id res"

text \<open>An \<open>Ort::Exception\<close> that is not caught.\<close>

definition uncaught :: "string + 'a \<Rightarrow> takt_error + 'a" where
  "uncaught res = map_sum Library_error id res"

definition configure_session :: "'o ort \<Rightarrow> onnx_options \<Rightarrow> takt_error + session_options \<times> string" where
  "configure_session lib opts =
     (let so = \<lparr>so_optimize_all = True, so_sequential = True, so_inter_threads = 1,
            so_intra_threads = (if 0 < ox_intra_op_threads opts then Some (ox_intra_op_threads opts) else None),
            so_allow_spinning = ox_allow_spinning opts, so_cuda = False\<rparr>
      in if ox_execution_provider opts = ''cpu'' then Inr (so, ''onnxruntime-cpu'')
         else if ox_execution_provider opts = ''cuda''
         then bind_result (library_call ''CUDA execution provider unavailable (use a GPU build of ONNX Runtime): '' (ort_cuda lib))
                (\<lambda>_. Inr (so\<lparr>so_cuda := True\<rparr>, ''onnxruntime-cuda''))
         else Inl (Invalid_argument (''OnnxBackend: unknown execution provider '' @ [CHR 0x27] @ ox_execution_provider opts @
                [CHR 0x27] @ '' (expected cpu or cuda)'')))"

definition resolve_input_shape :: "int \<Rightarrow> int list \<Rightarrow> int list" where
  "resolve_input_shape side shape =
     (let shape = (if shape ! 0 \<le> 0 then shape[0 := 1] else shape);
          shape = (if shape ! 1 \<le> 0 then shape[1 := 3] else shape)
      in fold (\<lambda>axis shape. if shape ! axis \<le> 0 then shape[axis := side] else shape) [2..<4] shape)"

definition make_onnx_backend :: "'o ort \<Rightarrow> onnx_options \<Rightarrow> takt_error + 'o onnx_backend" where
  "make_onnx_backend lib opts =
     bind_result (configure_session lib opts) (\<lambda>(so, name).
     bind_result (library_call (''OnnxBackend: failed to load '' @ [CHR 0x27] @ ox_model_path opts @ [CHR 0x27] @ '': '')
                    (ort_open lib (ox_model_path opts) so)) (\<lambda>s.
       if ort_input_count lib s \<noteq> 1 then Inl (Runtime_error ''OnnxBackend: expected a model with exactly one input'')
       else if ort_output_count lib s < 1 then Inl (Runtime_error ''OnnxBackend: model has no outputs'')
       else if ort_input_type lib s \<noteq> Float32_element
       then Inl (Runtime_error ''OnnxBackend: only float32 inputs are supported (export with half=False)'')
       else if length (ort_input_shape lib s) \<noteq> 4
       then Inl (Runtime_error (''OnnxBackend: expected an NCHW input, got '' @ shape_to_string (ort_input_shape lib s)))
       else
         let in_shape = resolve_input_shape (ox_default_input_size opts) (ort_input_shape lib s);
             in_spec = \<lparr>spec_name = ort_input_name lib s, spec_shape = in_shape\<rparr>
         in bind_result (element_count in_spec) (\<lambda>in_count.
              if ort_output_type lib s \<noteq> Float32_element then Inl (Runtime_error ''OnnxBackend: only float32 outputs are supported'')
              else bind_result
                (if has_dynamic_dim (ort_output_shape lib s)
                 then uncaught (ort_run_shape lib s in_shape (replicate (unat in_count) 0))
                 else Inr (ort_output_shape lib s)) (\<lambda>out_shape.
              let out_spec = \<lparr>spec_name = ort_output_name lib s, spec_shape = out_shape\<rparr>
              in bind_result (element_count out_spec) (\<lambda>out_count.
                   Inr \<lparr>ox_session = s, ox_input_spec = in_spec, ox_output_spec = out_spec, ox_input_elements = in_count,
                     ox_output_elements = out_count, ox_name = name\<rparr>)))))"

section \<open>Inference\<close>

text \<open>
  The tensors are the first \<open>input_elements\<close> and \<open>output_elements\<close> values of the caller's buffers.
\<close>

definition onnx_infer ::
  "'o ort \<Rightarrow> 'o onnx_backend \<Rightarrow> real list \<Rightarrow> real list \<Rightarrow> takt_error + 'o onnx_backend \<times> real list"
where
  "onnx_infer lib b inp out =
     (let n_in = unat (ox_input_elements b); n_out = unat (ox_output_elements b)
      in if length inp < n_in \<or> length out < n_out then Inl (Invalid_argument ''OnnxBackend::infer: tensor size mismatch'')
         else bind_result (uncaught (ort_run lib (ox_session b) (spec_shape (ox_input_spec b)) (take n_in inp)
                             (spec_shape (ox_output_spec b)) (take n_out out))) (\<lambda>tensor.
                Inr (b, tensor @ drop n_out out)))"

definition onnx_as_backend :: "'o ort \<Rightarrow> 'o onnx_backend \<Rightarrow> 'o onnx_backend backend" where
  "onnx_as_backend lib b = \<lparr>engine = b, engine_name = ox_name b, input_spec = ox_input_spec b,
     output_spec = ox_output_spec b, engine_infer = onnx_infer lib\<rparr>"

section \<open>What a constructed backend promises\<close>

definition onnx_ok :: "'o onnx_backend \<Rightarrow> bool" where
  "onnx_ok b \<longleftrightarrow> element_count (ox_input_spec b) = Inr (ox_input_elements b) \<and>
     element_count (ox_output_spec b) = Inr (ox_output_elements b)"

text \<open>A run on the caller's output tensor fills it and does not resize it (documented behaviour of \<open>Run\<close>).\<close>

definition fills_tensors :: "'o ort \<Rightarrow> bool" where
  "fills_tensors lib \<longleftrightarrow> (\<forall>s si i so out out'. ort_run lib s si i so out = Inr out' \<longrightarrow> length out' = length out)"

lemma element_count_pos:
  assumes "element_count spec = Inr n" shows "list_all (\<lambda>e. 0 < e) (spec_shape spec)"
proof -
  have "\<not> (\<exists>e \<in> set (spec_shape spec). e \<le> 0)"
    using assms count_elements_dynamic [of "spec_shape spec" "spec_name spec" 1] by (auto simp: element_count_def)
  then show ?thesis by (auto simp: list_all_iff not_le)
qed

lemma make_onnx_parts:
  assumes "make_onnx_backend lib opts = Inr b"
  obtains so where "configure_session lib opts = Inr (so, ox_name b)"
    "ort_open lib (ox_model_path opts) so = Inr (ox_session b)"
    "length (ort_input_shape lib (ox_session b)) = 4" "ort_input_count lib (ox_session b) = 1" "0 < ort_output_count lib (ox_session b)"
    "ox_input_spec b = \<lparr>spec_name = ort_input_name lib (ox_session b),
       spec_shape = resolve_input_shape (ox_default_input_size opts) (ort_input_shape lib (ox_session b))\<rparr>"
    "spec_name (ox_output_spec b) = ort_output_name lib (ox_session b)"
    "\<not> has_dynamic_dim (ort_output_shape lib (ox_session b)) \<Longrightarrow> spec_shape (ox_output_spec b) = ort_output_shape lib (ox_session b)"
    "onnx_ok b"
proof -
  obtain so s where "configure_session lib opts = Inr (so, ox_name b)" "ox_session b = s"
    "ort_open lib (ox_model_path opts) so = Inr s"
    "length (ort_input_shape lib s) = 4" "ort_input_count lib s = 1" "0 < ort_output_count lib s"
    "ox_input_spec b = \<lparr>spec_name = ort_input_name lib s, spec_shape = resolve_input_shape (ox_default_input_size opts) (ort_input_shape lib s)\<rparr>"
    "spec_name (ox_output_spec b) = ort_output_name lib s"
    "\<not> has_dynamic_dim (ort_output_shape lib s) \<longrightarrow> spec_shape (ox_output_spec b) = ort_output_shape lib s" "onnx_ok b"
    using assms
    by (auto simp: make_onnx_backend_def bind_result_Inr_iff library_call_def onnx_ok_def Let_def map_sum_def
        split: if_splits prod.splits sum.splits)
  then show thesis using that by blast
qed

lemma resolve_input_shape_nth:
  assumes "length shape = 4"
  shows "length (resolve_input_shape side shape) = 4"
    and "i < 4 \<Longrightarrow> resolve_input_shape side shape ! i = (if shape ! i \<le> 0 then [1, 3, side, side] ! i else shape ! i)"
proof -
  obtain a b c e where "shape = [a, b, c, e]"
    using assms by (auto simp: numeral_eq_Suc length_Suc_conv)
  then have eq: "resolve_input_shape side shape =
      [if a \<le> 0 then 1 else a, if b \<le> 0 then 3 else b, if c \<le> 0 then side else c, if e \<le> 0 then side else e]"
    by (simp add: resolve_input_shape_def upt_rec Let_def)
  then show "length (resolve_input_shape side shape) = 4" by simp
  show "resolve_input_shape side shape ! i = (if shape ! i \<le> 0 then [1, 3, side, side] ! i else shape ! i)" if "i < 4"
    using that \<open>shape = [a, b, c, e]\<close> unfolding eq by (auto simp: less_Suc_eq numeral_eq_Suc)
qed

interpretation onnx_engine: inference_engine "\<lambda>b. onnx_ok b \<and> fills_tensors lib" ox_input_spec ox_output_spec "onnx_infer lib" for lib
proof
  fix e :: "'a onnx_backend" and msg :: string and inp out :: "real list" and n m
  assume e: "onnx_ok e \<and> fills_tensors lib"
  then show "\<exists>n m. element_count (ox_input_spec e) = Inr n \<and> element_count (ox_output_spec e) = Inr m"
    by (simp add: onnx_ok_def)
  assume c: "element_count (ox_input_spec e) = Inr n" "element_count (ox_output_spec e) = Inr m"
  then have nm: "ox_input_elements e = n" "ox_output_elements e = m" using e by (simp_all add: onnx_ok_def)
  show "length inp < unat n \<or> length out < unat m \<Longrightarrow> \<exists>msg. onnx_infer lib e inp out = Inl (Invalid_argument msg)"
    using nm by (auto simp: onnx_infer_def)
  show "unat n \<le> length inp \<Longrightarrow> unat m \<le> length out \<Longrightarrow> onnx_infer lib e inp out \<noteq> Inl (Invalid_argument msg)"
    using nm by (auto simp: onnx_infer_def Let_def uncaught_def bind_result_Inl_iff map_sum_def split: sum.splits)
next
  fix e e' :: "'a onnx_backend" and inp out out' :: "real list"
  assume "onnx_ok e \<and> fills_tensors lib" "onnx_infer lib e inp out = Inr (e', out')"
  then show "(onnx_ok e' \<and> fills_tensors lib) \<and> ox_input_spec e' = ox_input_spec e \<and> ox_output_spec e' = ox_output_spec e \<and>
      length out' = length out"
    by (auto simp: onnx_infer_def Let_def uncaught_def bind_result_Inr_iff map_sum_def fills_tensors_def not_less
        split: if_splits sum.splits)
qed

section \<open>Warm-up with any engine\<close>

text \<open>
  The client of the contract: the warm-up of \<open>begin_run\<close> allocates tensors of the declared sizes
  once and calls \<open>infer\<close> on them again and again; no call is rejected for its sizes.
\<close>

context inference_engine
begin

lemma warm_up_keeps:
  assumes "engine_ok (engine b)" "engine_infer b = infer"
    and "element_count (in_spec (engine b)) = Inr n" "element_count (out_spec (engine b)) = Inr m"
    and "unat n \<le> length inp" "unat m \<le> length out"
  shows "case warm_up k inp out b of
      Inl e \<Rightarrow> \<nexists>msg. e = Invalid_argument msg
    | Inr b' \<Rightarrow> engine_ok (engine b') \<and> in_spec (engine b') = in_spec (engine b) \<and> out_spec (engine b') = out_spec (engine b) \<and>
        engine_infer b' = infer \<and> input_spec b' = input_spec b \<and> output_spec b' = output_spec b"
  using assms
proof (induction k arbitrary: b out)
  case (Suc k)
  show ?case
  proof (cases "infer (engine b) inp out")
    case (Inl e)
    then have "\<nexists>msg. e = Invalid_argument msg" using accepts_fitting [OF Suc.prems(1,3-6)] by blast
    then show ?thesis using Inl Suc.prems(2) by (simp add: backend_infer_def)
  next
    case (Inr res)
    obtain e' out' where res: "res = (e', out')" by (cases res)
    note K = keeps [OF Suc.prems(1) Inr [unfolded res]]
    have "case warm_up k inp out' (b\<lparr>engine := e'\<rparr>) of
      Inl e \<Rightarrow> \<nexists>msg. e = Invalid_argument msg
    | Inr b' \<Rightarrow> engine_ok (engine b') \<and> in_spec (engine b') = in_spec (engine (b\<lparr>engine := e'\<rparr>)) \<and>
        out_spec (engine b') = out_spec (engine (b\<lparr>engine := e'\<rparr>)) \<and>
        engine_infer b' = infer \<and> input_spec b' = input_spec (b\<lparr>engine := e'\<rparr>) \<and> output_spec b' = output_spec (b\<lparr>engine := e'\<rparr>)"
      by (rule Suc.IH) (use K Suc.prems in simp_all)
    then show ?thesis using Inr res Suc.prems(2) K by (auto simp: backend_infer_def split: sum.splits)
  qed
qed simp

end

section \<open>The properties\<close>

text \<open>
  C33: a backend that was constructed has static tensor shapes, whatever the model declares. The input
  is NCHW: an axis the model fixes keeps its size, a dynamic one becomes batch 1, three channels
  or the configured side; a static output shape is the model's. The stored element counts are
  those of the shapes.
\<close>

theorem onnx_construction:
  assumes "make_onnx_backend lib opts = Inr b"
  shows "length (spec_shape (ox_input_spec b)) = 4 \<and>
    list_all (\<lambda>e. 0 < e) (spec_shape (ox_input_spec b)) \<and> list_all (\<lambda>e. 0 < e) (spec_shape (ox_output_spec b)) \<and>
    (\<forall>i < 4. let declared = ort_input_shape lib (ox_session b) ! i; side = ox_default_input_size opts
       in spec_shape (ox_input_spec b) ! i = (if declared \<le> 0 then [1, 3, side, side] ! i else declared)) \<and>
    (list_all (\<lambda>e. 0 < e) (ort_output_shape lib (ox_session b)) \<longrightarrow> spec_shape (ox_output_spec b) = ort_output_shape lib (ox_session b)) \<and>
    element_count (ox_input_spec b) = Inr (ox_input_elements b) \<and> element_count (ox_output_spec b) = Inr (ox_output_elements b)"
proof -
  from make_onnx_parts [OF assms] obtain so where parts: "length (ort_input_shape lib (ox_session b)) = 4"
    "ox_input_spec b = \<lparr>spec_name = ort_input_name lib (ox_session b),
       spec_shape = resolve_input_shape (ox_default_input_size opts) (ort_input_shape lib (ox_session b))\<rparr>"
    "\<not> has_dynamic_dim (ort_output_shape lib (ox_session b)) \<Longrightarrow> spec_shape (ox_output_spec b) = ort_output_shape lib (ox_session b)"
    "onnx_ok b" by metis
  note R = resolve_input_shape_nth [OF parts(1), where side = "ox_default_input_size opts"]
  have counts: "element_count (ox_input_spec b) = Inr (ox_input_elements b)" "element_count (ox_output_spec b) = Inr (ox_output_elements b)"
    using parts(4) by (simp_all add: onnx_ok_def)
  have "\<not> has_dynamic_dim sh" if "list_all (\<lambda>e. 0 < e) sh" for sh
    using that by (auto simp: has_dynamic_dim_def list_all_iff list_ex_iff)
  then show ?thesis using parts(2,3) R counts element_count_pos [OF counts(1)] element_count_pos [OF counts(2)] by (simp add: Let_def)
qed

text \<open>A library whose models have a dynamic batch and eight anchors of two classes.\<close>

definition tiny_ort :: "unit ort" where
  "tiny_ort = \<lparr>ort_cuda = Inl ''no CUDA'', ort_open = (\<lambda>_ _. Inr ()), ort_input_count = (\<lambda>_. 1), ort_output_count = (\<lambda>_. 1),
     ort_input_name = (\<lambda>_. ''images''), ort_output_name = (\<lambda>_. ''output0''), ort_input_type = (\<lambda>_. Float32_element),
     ort_output_type = (\<lambda>_. Float32_element), ort_input_shape = (\<lambda>_. [-1, 3, 8, 8]), ort_output_shape = (\<lambda>_. [-1, 6, 8]),
     ort_run_shape = (\<lambda>_ _ _. Inr [1, 6, 8]), ort_run = (\<lambda>_ _ _ _ out. Inr (map (\<lambda>_. 0) out))\<rparr>"

lemma tiny_onnx: "\<exists>b. make_onnx_backend tiny_ort default_onnx_options = Inr b"
  by (simp add: make_onnx_backend_def configure_session_def default_onnx_options_def tiny_ort_def library_call_def
      resolve_input_shape_def element_count_def has_dynamic_dim_def uncaught_def upt_rec Let_def)

theorem onnx_construction_witness:
  "\<exists>b. make_onnx_backend tiny_ort default_onnx_options = Inr b \<and> spec_shape (ox_input_spec b) ! 0 = 1"
proof -
  obtain b where b: "make_onnx_backend tiny_ort default_onnx_options = Inr b" using tiny_onnx by blast
  from onnx_construction [OF b] have "spec_shape (ox_input_spec b) ! 0 = 1"
    by (elim conjE allE [of _ 0]) (simp add: tiny_ort_def Let_def)
  with b show ?thesis by blast
qed

text \<open>
  C32: inference with ONNX Runtime stays inside the caller's buffers. A buffer smaller than its
  tensor is an error before the library is called; otherwise the library gets exactly the tensors
  at the beginning of the buffers, what follows the output tensor is untouched, the length of the
  buffer and the backend do not change.
\<close>

theorem onnx_inference:
  assumes "make_onnx_backend lib opts = Inr b" "fills_tensors lib"
  shows "(case onnx_infer lib b inp out of
      Inl (Invalid_argument msg) \<Rightarrow> length inp < unat (ox_input_elements b) \<or> length out < unat (ox_output_elements b)
    | Inl e \<Rightarrow> \<exists>msg. e = Library_error msg
    | Inr (b', out') \<Rightarrow> unat (ox_input_elements b) \<le> length inp \<and> unat (ox_output_elements b) \<le> length out \<and>
        b' = b \<and> length out' = length out \<and> drop (unat (ox_output_elements b)) out' = drop (unat (ox_output_elements b)) out \<and>
        ort_run lib (ox_session b) (spec_shape (ox_input_spec b)) (take (unat (ox_input_elements b)) inp)
          (spec_shape (ox_output_spec b)) (take (unat (ox_output_elements b)) out) = Inr (take (unat (ox_output_elements b)) out'))"
proof -
  let ?in = "unat (ox_input_elements b)" and ?out = "unat (ox_output_elements b)"
  show ?thesis
  proof (cases "length inp < ?in \<or> length out < ?out")
    case False
    let ?run = "ort_run lib (ox_session b) (spec_shape (ox_input_spec b)) (take ?in inp) (spec_shape (ox_output_spec b)) (take ?out out)"
    show ?thesis
    proof (cases ?run)
      case (Inr t)
      then have "length t = ?out" using assms(2) False by (fastforce simp: fills_tensors_def)
      then show ?thesis using Inr False by (auto simp: onnx_infer_def uncaught_def Let_def not_less)
    qed (use False in \<open>auto simp: onnx_infer_def uncaught_def Let_def\<close>)
  qed (auto simp: onnx_infer_def)
qed

theorem onnx_inference_witness:
  "\<exists>b out'. make_onnx_backend tiny_ort default_onnx_options = Inr b \<and>
     onnx_infer tiny_ort b (replicate 192 0) (replicate 50 7) = Inr (b, out') \<and> drop 48 out' = [7, 7]"
proof -
  obtain b where b: "make_onnx_backend tiny_ort default_onnx_options = Inr b" using tiny_onnx by blast
  have n: "unat (ox_input_elements b) = 192" "unat (ox_output_elements b) = 48"
    using b by (auto simp: make_onnx_backend_def configure_session_def default_onnx_options_def tiny_ort_def library_call_def
      resolve_input_shape_def element_count_def has_dynamic_dim_def uncaught_def upt_rec Let_def)
  have "fills_tensors tiny_ort" by (simp add: fills_tensors_def tiny_ort_def)
  from onnx_inference [OF b this, of "replicate 192 0" "replicate 50 7"] b n show ?thesis
    by (auto simp: onnx_infer_def uncaught_def tiny_ort_def Let_def numeral_eq_Suc)
qed

end
