(* ===== verification/JsonText.thy ===== *)
theory JsonText
  imports Metrics
begin

text \<open>
  The JSON grammar the program's machine-readable outputs are measured against: JSON values, their
  text without spaces, and a reader. The reader is given fuel; the length of the text is enough. The theorem
  at the end applies it to the run report of \<open>metrics.cpp\<close>; the frame records of
  \<open>json_lines_sink.cpp\<close> use it too.
\<close>

section \<open>Values and their text\<close>

text \<open>A number is kept as the token that was printed.\<close>

datatype json =
    Jnum string
  | Jstr string
  | Jarr "json list"
  | Jobj "(string \<times> json) list"

fun separated :: "string list \<Rightarrow> string" where
  "separated [] = []"
| "separated [s] = s"
| "separated (s # ss) = s @ '','' @ separated ss"

fun render :: "json \<Rightarrow> string" where
  "render (Jnum t) = t"
| "render (Jstr s) = append_json_string [] s"
| "render (Jarr xs) = ''['' @ separated (map render xs) @ '']''"
| "render (Jobj ms) = ''{'' @ separated (map (\<lambda>(k, x). append_json_string [] k @ '':'' @ render x) ms) @ ''}''"

definition render_member :: "string \<times> json \<Rightarrow> string" where
  "render_member m = append_json_string [] (fst m) @ '':'' @ render (snd m)"

text \<open>An optional minus sign, an integer without leading zeros, an optional fraction.\<close>

definition json_number :: "string \<Rightarrow> bool" where
  "json_number t =
     (let u = (if t \<noteq> [] \<and> hd t = CHR ''-'' then tl t else t); whole = takeWhile is_digit u; rest = dropWhile is_digit u
      in whole \<noteq> [] \<and> (hd whole = CHR ''0'' \<longrightarrow> length whole = 1) \<and>
         (rest = [] \<or> (hd rest = CHR ''.'' \<and> tl rest \<noteq> [] \<and> list_all is_digit (tl rest))))"

fun json_ok :: "json \<Rightarrow> bool" where
  "json_ok (Jnum t) = json_number t"
| "json_ok (Jstr s) = True"
| "json_ok (Jarr xs) = list_all json_ok xs"
| "json_ok (Jobj ms) = list_all (\<lambda>(k, x). json_ok x) ms"

section \<open>The reader\<close>

definition number_char :: "char \<Rightarrow> bool" where
  "number_char c \<longleftrightarrow> is_digit c \<or> c = CHR ''-'' \<or> c = CHR ''.''"

definition read_number :: "string \<Rightarrow> (json \<times> string) option" where
  "read_number s = (let t = takeWhile number_char s in if json_number t then Some (Jnum t, dropWhile number_char s) else None)"

fun read_value :: "nat \<Rightarrow> string \<Rightarrow> (json \<times> string) option"
and read_elements :: "nat \<Rightarrow> string \<Rightarrow> (json list \<times> string) option"
and read_members :: "nat \<Rightarrow> string \<Rightarrow> ((string \<times> json) list \<times> string) option" where
  "read_value 0 s = None"
| "read_value (Suc n) s =
     (case s of
        [] \<Rightarrow> None
      | c # cs \<Rightarrow>
          if c = quote then map_option (apfst Jstr) (read_string cs)
          else if c = CHR ''['' then
            (if cs \<noteq> [] \<and> hd cs = CHR '']'' then Some (Jarr [], tl cs) else map_option (apfst Jarr) (read_elements n cs))
          else if c = CHR ''{'' then
            (if cs \<noteq> [] \<and> hd cs = CHR ''}'' then Some (Jobj [], tl cs) else map_option (apfst Jobj) (read_members n cs))
          else read_number s)"
| "read_elements 0 s = None"
| "read_elements (Suc n) s =
     (case read_value n s of
        None \<Rightarrow> None
      | Some (x, r) \<Rightarrow>
          (case r of
             [] \<Rightarrow> None
           | c # cs \<Rightarrow>
               if c = CHR '']'' then Some ([x], cs)
               else if c = CHR '','' then map_option (apfst ((#) x)) (read_elements n cs)
               else None))"
| "read_members 0 s = None"
| "read_members (Suc n) s =
     (case read_json_string s of
        None \<Rightarrow> None
      | Some (k, r) \<Rightarrow>
          (if r = [] \<or> hd r \<noteq> CHR '':'' then None
           else case read_value n (tl r) of
                  None \<Rightarrow> None
                | Some (x, r) \<Rightarrow>
                    (case r of
                       [] \<Rightarrow> None
                     | c # cs \<Rightarrow>
                         if c = CHR ''}'' then Some ([(k, x)], cs)
                         else if c = CHR '','' then map_option (apfst ((#) (k, x))) (read_members n cs)
                         else None)))"

text \<open>A document is one value and nothing after it.\<close>

definition read_json :: "string \<Rightarrow> json option" where
  "read_json s = (case read_value (length s) s of Some (j, []) \<Rightarrow> Some j | _ \<Rightarrow> None)"

section \<open>Reading what was printed\<close>

lemma json_number_chars:
  assumes "json_number t"
  shows "t \<noteq> []" "list_all number_char t"
proof -
  define u where "u = (if t \<noteq> [] \<and> hd t = CHR ''-'' then tl t else t)"
  have u: "takeWhile is_digit u \<noteq> []" "dropWhile is_digit u = [] \<or>
      (hd (dropWhile is_digit u) = CHR ''.'' \<and> list_all is_digit (tl (dropWhile is_digit u)))"
    using assms by (auto simp: json_number_def Let_def u_def)
  show "t \<noteq> []" using u(1) by (auto simp: u_def split: if_splits)
  have "list_all number_char (takeWhile is_digit u)"
    by (auto simp: list_all_iff number_char_def dest: set_takeWhileD)
  moreover have "list_all number_char (dropWhile is_digit u)"
  proof (cases "dropWhile is_digit u")
    case (Cons e es)
    then have "e = CHR ''.''" "list_all is_digit es" using u(2) by simp_all
    then show ?thesis using Cons by (simp add: list_all_iff number_char_def)
  next
    case Nil
    show ?thesis unfolding Nil by simp
  qed
  ultimately have "list_all number_char u" by (metis list_all_append takeWhile_dropWhile_id)
  moreover have "list_all number_char t \<longleftrightarrow> list_all number_char u"
    by (cases t) (auto simp: u_def number_char_def)
  ultimately show "list_all number_char t" by simp
qed

lemma read_printed_number:
  assumes "json_number t" "rest = [] \<or> \<not> number_char (hd rest)"
  shows "read_number (t @ rest) = Some (Jnum t, rest)"
proof -
  have "\<forall>c \<in> set t. number_char c" using json_number_chars(2) [OF assms(1)] by (simp add: list_all_iff)
  then have "takeWhile number_char (t @ rest) = t" "dropWhile number_char (t @ rest) = rest"
    using assms(2) by (cases rest; simp add: takeWhile_append2 dropWhile_append2)+
  then show ?thesis using assms(1) by (simp add: read_number_def)
qed

lemma render_not_Nil: "json_ok j \<Longrightarrow> render j \<noteq> []"
  by (cases j) (auto simp: append_json_string_def dest: json_number_chars(1))

lemma number_head:
  assumes "json_number t"
  shows "hd t \<noteq> quote" "hd t \<noteq> CHR ''[''" "hd t \<noteq> CHR ''{''" "hd t \<noteq> CHR '']''" "hd t \<noteq> CHR ''}''"
proof -
  have "number_char (hd t)" using json_number_chars [OF assms] by (cases t) simp_all
  then show "hd t \<noteq> quote" "hd t \<noteq> CHR ''[''" "hd t \<noteq> CHR ''{''" "hd t \<noteq> CHR '']''" "hd t \<noteq> CHR ''}''"
    by (auto simp: number_char_def is_digit_def quote_def)
qed

lemma separated_Cons: "separated (s # ss) = s @ (if ss = [] then [] else '','' @ separated ss)"
  by (cases ss) simp_all

lemma render_Jobj: "render (Jobj ms) = ''{'' @ separated (map render_member ms) @ ''}''"
  by (simp add: render_member_def [abs_def] case_prod_unfold)

declare render.simps(4) [simp del]

text \<open>Lists of values and of members, given that every value is read back.\<close>

lemma read_printed_elements:
  assumes "\<And>x n rest. x \<in> set xs \<Longrightarrow> length (render x) \<le> n \<Longrightarrow> rest = [] \<or> \<not> number_char (hd rest) \<Longrightarrow>
      read_value n (render x @ rest) = Some (x, rest)"
    and "xs \<noteq> []" "length (separated (map render xs)) < n"
  shows "read_elements n (separated (map render xs) @ CHR '']'' # rest) = Some (xs, rest)"
  using assms
proof (induction xs arbitrary: n)
  case (Cons x xs)
  obtain n' where n: "n = Suc n'" using Cons.prems(3) by (cases n) auto
  show ?case
  proof (cases "xs = []")
    case True
    have "read_value n' (render x @ CHR '']'' # rest) = Some (x, CHR '']'' # rest)"
      by (rule Cons.prems(1)) (use Cons.prems(3) n True in \<open>auto simp: number_char_def is_digit_def\<close>)
    then show ?thesis using n True by simp
  next
    case False
    let ?more = "separated (map render xs) @ CHR '']'' # rest"
    have len: "length (render x) \<le> n'" "length (separated (map render xs)) < n'"
      using Cons.prems(3) n False by (simp_all add: separated_Cons)
    have "read_value n' (render x @ CHR '','' # ?more) = Some (x, CHR '','' # ?more)"
      by (rule Cons.prems(1)) (use len in \<open>auto simp: number_char_def is_digit_def\<close>)
    moreover have "read_elements n' ?more = Some (xs, rest)"
      by (rule Cons.IH) (use Cons.prems(1) False len in auto)
    ultimately show ?thesis using n False by (simp add: separated_Cons)
  qed
qed simp

lemma read_printed_members:
  assumes "\<And>x n rest. x \<in> snd ` set ms \<Longrightarrow> length (render x) \<le> n \<Longrightarrow> rest = [] \<or> \<not> number_char (hd rest) \<Longrightarrow>
      read_value n (render x @ rest) = Some (x, rest)"
    and "ms \<noteq> []" "length (separated (map render_member ms)) < n"
  shows "read_members n (separated (map render_member ms) @ CHR ''}'' # rest) = Some (ms, rest)"
  using assms
proof (induction ms arbitrary: n)
  case (Cons m ms)
  obtain n' where n: "n = Suc n'" using Cons.prems(3) by (cases n) auto
  obtain k x where m: "m = (k, x)" by (cases m)
  have key: "read_json_string (append_json_string [] k @ u) = Some (k, u)" for u by (rule read_appended)
  show ?case
  proof (cases "ms = []")
    case True
    have "read_value n' (render x @ CHR ''}'' # rest) = Some (x, CHR ''}'' # rest)"
      by (rule Cons.prems(1)) (use Cons.prems(3) n m True in \<open>auto simp: number_char_def is_digit_def render_member_def\<close>)
    then show ?thesis using n m True by (simp add: render_member_def key)
  next
    case False
    let ?more = "separated (map render_member ms) @ CHR ''}'' # rest"
    have len: "length (render x) \<le> n'" "length (separated (map render_member ms)) < n'"
      using Cons.prems(3) n False m render_member_def [of m] by (simp_all add: separated_Cons)
    have "read_value n' (render x @ CHR '','' # ?more) = Some (x, CHR '','' # ?more)"
      by (rule Cons.prems(1)) (use m len in \<open>auto simp: number_char_def is_digit_def\<close>)
    moreover have "read_members n' ?more = Some (ms, rest)"
      by (rule Cons.IH) (use Cons.prems(1) False len in auto)
    ultimately show ?thesis using n m False render_member_def [of m] by (simp add: separated_Cons key)
  qed
qed simp

lemma render_head:
  assumes "json_ok j" shows "hd (render j) \<noteq> CHR '']''" "hd (render j) \<noteq> CHR ''}''"
  using assms number_head by (cases j; auto simp: append_json_string_def quote_def render_Jobj)+

lemma separated_head: "s \<noteq> [] \<Longrightarrow> separated (s # ss) \<noteq> [] \<and> hd (separated (s # ss)) = hd s"
  by (simp add: separated_Cons)

lemma read_rendered:
  "json_ok j \<Longrightarrow> length (render j) \<le> n \<Longrightarrow> rest = [] \<or> \<not> number_char (hd rest) \<Longrightarrow>
   read_value n (render j @ rest) = Some (j, rest)"
proof (induction j arbitrary: n rest)
  case (Jnum t)
  note t = json_number_chars(1) [of t] number_head [of t]
  obtain n' c cs where "n = Suc n'" "t = c # cs" using Jnum t(1) by (cases n; cases t) auto
  then show ?case using Jnum t read_printed_number [of t rest] by simp
next
  case (Jstr s)
  then obtain n' where "n = Suc n'" by (cases n) (auto simp: append_json_string_def)
  then show ?case by (simp add: append_json_string_def read_string_escaped)
next
  case (Jarr xs)
  obtain n' where n: "n = Suc n'" using Jarr.prems(2) by (cases n) auto
  show ?case
  proof (cases xs)
    case (Cons x xs')
    have ok: "json_ok x" using Jarr.prems(1) Cons by simp
    have "read_elements n' (separated (map render xs) @ CHR '']'' # rest) = Some (xs, rest)"
      by (rule read_printed_elements) (use Jarr n Cons in \<open>auto simp: list_all_iff\<close>)
    moreover have "separated (map render xs) \<noteq> []" "hd (separated (map render xs)) \<noteq> CHR '']''"
      using separated_head [OF render_not_Nil [OF ok]] render_head(1) [OF ok] Cons by simp_all
    ultimately show ?thesis using n by (simp add: quote_def)
  qed (simp add: n quote_def)
next
  case (Jobj ms)
  obtain n' where n: "n = Suc n'" using Jobj.prems(2) by (cases n) (auto simp: render_Jobj)
  show ?case
  proof (cases ms)
    case (Cons m ms')
    have "read_members n' (separated (map render_member ms) @ CHR ''}'' # rest) = Some (ms, rest)"
    proof (rule read_printed_members)
      fix x n and rest :: string assume x: "x \<in> snd ` set ms" "length (render x) \<le> n" "rest = [] \<or> \<not> number_char (hd rest)"
      then obtain k where k: "(k, x) \<in> set ms" by auto
      then have "json_ok x" using Jobj.prems(1) by (auto simp: list_all_iff)
      then show "read_value n (render x @ rest) = Some (x, rest)" using Jobj.IH [OF k] x by (auto simp: snds.simps)
    qed (use Jobj n Cons in \<open>auto simp: render_Jobj\<close>)
    moreover have "render_member m \<noteq> []" "hd (render_member m) \<noteq> CHR ''}''"
      by (simp_all add: render_member_def append_json_string_def quote_def)
    then have "separated (map render_member ms) \<noteq> []" "hd (separated (map render_member ms)) \<noteq> CHR ''}''"
      using separated_head [of "render_member m"] Cons by simp_all
    ultimately show ?thesis using n by (simp add: quote_def render_Jobj)
  qed (simp add: n quote_def render_Jobj)
qed

lemma read_json_render: "json_ok j \<Longrightarrow> read_json (render j) = Some j"
  using read_rendered [of j "length (render j)" "[]"] by (simp add: read_json_def)

section \<open>Printed numbers are JSON numbers\<close>

lemma show_nat_leading: "hd (show_nat n) = CHR ''0'' \<Longrightarrow> n = 0"
proof (induction n rule: show_nat.induct)
  case (1 n)
  show ?case
  proof (cases "n < 10")
    case True
    then have "digit_char n = CHR ''0''" using 1(2) by (simp add: show_nat.simps [of n])
    then have "(of_char (digit_char n) :: nat) = of_char (CHR ''0'')" by simp
    then show ?thesis using True by (simp add: of_digit_char)
  next
    case False
    then have "hd (show_nat (n div 10)) = CHR ''0''" using 1(2) by (subst (asm) show_nat.simps) simp
    then show ?thesis using 1(1) [OF False] False by simp
  qed
qed

lemma show_nat_single: "hd (show_nat n) = CHR ''0'' \<Longrightarrow> length (show_nat n) = 1"
  using show_nat_leading [of n] by (simp add: show_nat.simps [of 0])

lemma show_nat_head [simp]: "is_digit (hd (show_nat n))" "hd (show_nat n) \<noteq> CHR ''-''"
proof -
  show d: "is_digit (hd (show_nat n))" using show_nat_digits [of n] by (cases "show_nat n") auto
  show "hd (show_nat n) \<noteq> CHR ''-''" using d by (auto simp: is_digit_def)
qed

text \<open>A sign, a number, a fraction.\<close>

lemma json_numberI:
  assumes "sign = [] \<or> sign = ''-''" "rest = [] \<or> (\<exists>frac. rest = CHR ''.'' # frac \<and> frac \<noteq> [] \<and> list_all is_digit frac)"
  shows "json_number (sign @ show_nat n @ rest)"
proof -
  have d: "\<forall>c \<in> set (show_nat n). is_digit c" using show_nat_digits [of n] by (simp add: list_all_iff)
  have r: "rest = [] \<or> \<not> is_digit (hd rest)" using assms(2) by (auto simp: is_digit_def)
  have "takeWhile is_digit (show_nat n @ rest) = show_nat n" "dropWhile is_digit (show_nat n @ rest) = rest"
    using d r by (cases rest; simp add: takeWhile_append2 dropWhile_append2)+
  moreover have "(if sign @ show_nat n @ rest \<noteq> [] \<and> hd (sign @ show_nat n @ rest) = CHR ''-''
      then tl (sign @ show_nat n @ rest) else sign @ show_nat n @ rest) = show_nat n @ rest"
    using assms(1) by auto
  ultimately show ?thesis using assms(2) show_nat_single [of n] by (auto simp: json_number_def)
qed

lemma json_number_nat [simp]: "json_number (show_nat n)"
  using json_numberI [of "[]" "[]" n] by simp

lemma json_number_int [simp]: "json_number (show_int i)"
  using json_numberI [of "''-''" "[]"] by (simp add: show_int_def)

lemma json_number_fixed [simp]: "json_number (show_fixed n x)"
proof -
  define k where "k = nat (round_even (\<bar>x\<bar> * 10 ^ n))"
  define frac where "frac = show_nat (k mod 10 ^ n)"
  have "json_number ((if x < 0 then ''-'' else []) @ show_nat (k div 10 ^ n) @
      (if n = 0 then [] else CHR ''.'' # replicate (n - length frac) CHR ''0'' @ frac))"
    by (rule json_numberI) (auto simp: list_all_iff is_digit_def frac_def dest: show_nat_chars)
  then show ?thesis unfolding show_fixed_def Let_def k_def frac_def .
qed

section \<open>The run report\<close>

lemma plain_key:
  assumes "list_all (\<lambda>c. json_escape c = [c]) k"
  shows "append_json_string [] k @ CHR '':'' # s = json_key k @ s"
proof -
  have "concat (map json_escape k) = k" using assms by (induction k) simp_all
  then show ?thesis by (simp add: json_key_def append_json_string_def)
qed

definition summary_value :: "latency_summary \<Rightarrow> json" where
  "summary_value s = Jobj
     [(''count'', Jnum (show_nat (unat (sum_count s)))), (''mean_ms'', Jnum (show_fixed 4 (mean_ms s))),
      (''min_ms'', Jnum (show_fixed 4 (min_ms s))), (''p50_ms'', Jnum (show_fixed 4 (p50_ms s))),
      (''p90_ms'', Jnum (show_fixed 4 (p90_ms s))), (''p95_ms'', Jnum (show_fixed 4 (p95_ms s))),
      (''p99_ms'', Jnum (show_fixed 4 (p99_ms s))), (''p999_ms'', Jnum (show_fixed 4 (p999_ms s))),
      (''max_ms'', Jnum (show_fixed 4 (max_ms s)))]"

definition report_value :: "run_report \<Rightarrow> json" where
  "report_value rep = Jobj
     [(''mode'', Jstr (rep_mode rep)), (''backend'', Jstr (rep_backend rep)), (''source'', Jstr (rep_source rep)),
      (''policy'', Jstr (rep_policy rep)), (''model_width'', Jnum (show_int (rep_model_width rep))),
      (''model_height'', Jnum (show_int (rep_model_height rep))),
      (''frames_captured'', Jnum (show_nat (unat (rep_captured rep)))),
      (''frames_dropped'', Jnum (show_nat (unat (rep_dropped rep)))),
      (''frames_completed'', Jnum (show_nat (unat (rep_completed rep)))),
      (''wall_seconds'', Jnum (show_fixed 4 (rep_wall_seconds rep))),
      (''throughput_fps'', Jnum (show_fixed 3 (rep_throughput_fps rep))),
      (''stages'', Jobj (map (\<lambda>i. (stage_name (stage_ids ! i), summary_value (rep_stages rep ! i))) [0..<kStageCount])),
      (''end_to_end'', summary_value (rep_end_to_end rep))]"

lemma render_object:
  "render (Jobj []) = ''{}''"
  "render (Jobj (m # ms)) = ''{'' @ render_member m @ concat (map (\<lambda>m. '','' @ render_member m) ms) @ ''}''"
proof -
  have "separated (map render_member (m # ms)) = render_member m @ concat (map (\<lambda>m. '','' @ render_member m) ms)" for m ms
    by (induction ms arbitrary: m) (simp_all add: separated_Cons)
  then show "render (Jobj []) = ''{}''"
    "render (Jobj (m # ms)) = ''{'' @ render_member m @ concat (map (\<lambda>m. '','' @ render_member m) ms) @ ''}''"
    by (simp_all add: render_Jobj)
qed

lemma render_plain:
  "list_all (\<lambda>c. json_escape c = [c]) k \<Longrightarrow> render_member (k, x) = json_key k @ render x"
  by (simp add: render_member_def plain_key)

lemma render_summary: "render (summary_value s) = summary_to_json s"
  unfolding summary_value_def render_object summary_to_json_def append_summary_def
  by (simp add: render_plain json_escape_def quote_def backslash_def)

lemma stage_keys:
  "fold (append_stage rep) [0..<kStageCount] out = out @ separated (map (\<lambda>i.
     render_member (stage_name (stage_ids ! i), summary_value (rep_stages rep ! i))) [0..<kStageCount])"
proof -
  have "append_stage rep i out = out @ (if 0 < i then '','' else []) @
      render_member (stage_name (stage_ids ! i), summary_value (rep_stages rep ! i))" for i out
    by (simp add: append_stage_def append_json_string_def append_summary_def render_member_def render_summary summary_to_json_def)
  then show ?thesis by (simp add: kStageCount_def to_index_def upt_rec)
qed

lemma render_report: "render (report_value rep) = report_to_json rep"
  unfolding report_value_def render_object report_to_json_def Let_def stage_keys
  by (simp add: render_plain json_escape_def quote_def backslash_def append_summary_def render_summary summary_to_json_def
      append_json_string_def render_Jobj comp_def)

lemma report_value_ok: "json_ok (report_value rep)"
  by (simp add: report_value_def summary_value_def list_all_iff)

text \<open>
  C27: the JSON rendering of a run report is a JSON document, whatever bytes the names of the run
  contain (quotes, backslashes, control characters): a reader gets one object with the members in
  their order, each string as it was, each count and each latency as its decimal number.
\<close>

theorem report_is_json: "read_json (report_to_json rep) = Some (report_value rep)"
  using read_json_render [OF report_value_ok] by (simp add: render_report)

section \<open>Documents on lines\<close>

text \<open>The text of a value is one line: a newline inside a string is escaped.\<close>

lemma escaped_one_line: "CHR 0x0A \<notin> set (append_json_string [] s)"
proof -
  have "CHR 0x0A \<notin> set (json_escape c)" for c
    by (cases "c = CHR 0x0A") (auto simp: json_escape_def quote_def backslash_def hex4_def hex_digit_def
        simp flip: of_char_eq_iff [where 'a = nat])
  then show ?thesis by (auto simp: append_json_string_def quote_def)
qed

lemma separated_chars: "set (separated ss) \<subseteq> \<Union> (set ` set ss) \<union> {CHR '',''}"
  by (induction ss rule: separated.induct) auto

lemma render_one_line: "json_ok j \<Longrightarrow> CHR 0x0A \<notin> set (render j)"
proof (induction j)
  case (Jnum t)
  then have "list_all number_char t" by (simp add: json_number_chars)
  then show ?case by (auto simp: list_all_iff number_char_def is_digit_def)
next
  case (Jstr s)
  show ?case by (simp add: escaped_one_line)
next
  case (Jarr xs)
  then have "CHR 0x0A \<notin> \<Union> (set ` set (map render xs))" by (auto simp: list_all_iff)
  then show ?case using separated_chars [of "map render xs"] by auto
next
  case (Jobj ms)
  have "CHR 0x0A \<notin> set (render_member m)" if "m \<in> set ms" for m
    using that Jobj.IH [of m "snd m"] Jobj.prems escaped_one_line
    by (cases m) (auto simp: render_member_def list_all_iff)
  then show ?case using separated_chars [of "map render_member ms"] by (auto simp: render_Jobj)
qed

fun text_lines :: "string \<Rightarrow> string list" where
  "text_lines [] = []"
| "text_lines (c # s) =
     (if c = CHR 0x0A then [] # text_lines s
      else case text_lines s of [] \<Rightarrow> [[c]] | l # ls \<Rightarrow> (c # l) # ls)"

lemma text_lines_line: "CHR 0x0A \<notin> set l \<Longrightarrow> text_lines (l @ CHR 0x0A # s) = l # text_lines s"
  by (induction l) auto

lemma text_lines_documents:
  "list_all json_ok js \<Longrightarrow> map read_json (text_lines (concat (map (\<lambda>j. render j @ [CHR 0x0A]) js))) = map Some js"
  by (induction js) (simp_all add: text_lines_line render_one_line read_json_render)

end
