(* ===== verification/Sources.thy ===== *)
theory Sources
  imports Pipeline
begin

text \<open>
  The camera simulator \<open>src/io/synthetic_source.cpp\<close>: the pacing grid of a free-running camera and the
  coloured blocks it draws. \<open>std::cos\<close> and \<open>std::sin\<close> are arguments (their rounding is up to the
  C library), the clock is an argument of every \<open>read\<close>, and the instant a \<open>read\<close> sleeps until is
  part of its result. \<open>describe\<close> prints with \<open>{:g}\<close>, which is an argument as well.
\<close>

section \<open>Pacing\<close>

text \<open>
  Frames are due on a grid of the given period; a consumer that falls behind by more than a period
  gets its frame at once and the grid is re-anchored. The result is the instant to sleep until
  and the next deadline. \<open>OpenCvSource\<close> paces files with the same lines.
\<close>

definition pace :: "int \<Rightarrow> bool \<Rightarrow> int \<Rightarrow> int \<Rightarrow> int \<times> int" where
  "pace period first t next_deadline =
     (let due = (if first \<or> t > next_deadline + period then t else next_deadline) in (due, due + period))"

text \<open>Conversion to an integer type truncates towards zero.\<close>

definition truncate_real :: "real \<Rightarrow> int" where
  "truncate_real x = (if 0 \<le> x then \<lfloor>x\<rfloor> else \<lceil>x\<rceil>)"

text \<open>\<open>duration_cast<Nanos>(duration<double>(1.0 / fps))\<close>.\<close>

definition period_of_fps :: "rounding \<Rightarrow> real \<Rightarrow> int" where
  "period_of_fps d fps = truncate_real (fmul d (fdiv d 1 fps) 1000000000)"

section \<open>Drawing\<close>

definition clamp_int :: "int \<Rightarrow> int \<Rightarrow> int \<Rightarrow> int" where
  "clamp_int v lo hi = (if v < lo then lo else if hi < v then hi else v)"

text \<open>\<open>memcpy\<close> of three bytes.\<close>

definition put_pixel :: "u8 list \<Rightarrow> nat \<Rightarrow> u8 list \<Rightarrow> u8 list" where
  "put_pixel bgr i buf = buf[i := bgr ! 0, i + 1 := bgr ! 1, i + 2 := bgr ! 2]"

definition fill_rect :: "int \<Rightarrow> int \<Rightarrow> int \<Rightarrow> int \<Rightarrow> u8 list \<Rightarrow> image \<Rightarrow> image" where
  "fill_rect x0 y0 x1 y1 bgr img =
     (let x0 = clamp_int x0 0 (image_width img);
          x1 = clamp_int x1 0 (image_width img);
          y0 = clamp_int y0 0 (image_height img);
          y1 = clamp_int y1 0 (image_height img)
      in img\<lparr>image_buffer :=
           fold (\<lambda>y. fold (\<lambda>x. put_pixel bgr (image_row img y + nat (x * 3))) [x0..x1 - 1]) [y0..y1 - 1]
             (image_buffer img)\<rparr>)"

definition kPalette :: "u8 list list" where
  "kPalette = [[60, 180, 255], [80, 220, 120], [230, 120, 60], [200, 90, 220], [70, 200, 230], [240, 200, 80]]"

section \<open>The source\<close>

record synthetic_options =
  syn_width :: int
  syn_height :: int
  syn_fps :: real
  syn_frame_count :: u64
  syn_num_objects :: int

definition default_synthetic_options :: synthetic_options where
  "default_synthetic_options = \<lparr>syn_width = 1280, syn_height = 720, syn_fps = 30, syn_frame_count = 0, syn_num_objects = 4\<rparr>"

record synthetic_source =
  syn_options :: synthetic_options
  syn_produced :: u64
  syn_next_deadline :: int

definition make_synthetic :: "synthetic_options \<Rightarrow> takt_error + synthetic_source" where
  "make_synthetic opts =
     (if syn_width opts \<le> 0 \<or> syn_height opts \<le> 0 \<or> syn_fps opts < 0
      then Inl (Invalid_argument ''SyntheticSource: invalid options'')
      else Inr \<lparr>syn_options = opts, syn_produced = 0, syn_next_deadline = 0\<rparr>)"

record libm =
  libm_cos :: "real \<Rightarrow> real"
  libm_sin :: "real \<Rightarrow> real"

text \<open>The rectangle of object \<open>k\<close> at time \<open>t\<close>: left, top, right, bottom.\<close>

definition object_rect :: "rounding \<Rightarrow> libm \<Rightarrow> synthetic_options \<Rightarrow> real \<Rightarrow> int \<Rightarrow> int \<times> int \<times> int \<times> int" where
  "object_rect d m opts t k =
     (let w = d (of_int (syn_width opts)); h = d (of_int (syn_height opts));
          phase = fadd d t (fdiv d (fmul d (fmul d (d (of_int k)) 2) (d pi)) (d (of_int (max 1 (syn_num_objects opts)))));
          cx = fmul d w (fadd d (d (5 / 10)) (fmul d (d (35 / 100)) (libm_cos m phase)));
          cy = fmul d h (fadd d (d (5 / 10)) (fmul d (d (30 / 100)) (libm_sin m (fmul d (d (13 / 10)) phase))));
          half_w = fmul d w (fadd d (d (4 / 100)) (fmul d (d (1 / 100)) (d (of_int k))));
          half_h = fmul d h (d (7 / 100))
      in (truncate_real (fsub d cx half_w), truncate_real (fsub d cy half_h), truncate_real (fadd d cx half_w), truncate_real (fadd d cy half_h)))"

definition draw_object :: "rounding \<Rightarrow> libm \<Rightarrow> synthetic_options \<Rightarrow> real \<Rightarrow> int \<Rightarrow> image \<Rightarrow> image" where
  "draw_object d m opts t k img =
     (let (x0, y0, x1, y1) = object_rect d m opts t k
      in fill_rect x0 y0 x1 y1 (kPalette ! (nat k mod length kPalette)) img)"

text \<open>The result: whether there was a frame, the image, the source and the instant it slept until.\<close>

definition synthetic_read ::
  "rounding \<Rightarrow> libm \<Rightarrow> int \<Rightarrow> image \<Rightarrow> synthetic_source \<Rightarrow> takt_error + bool \<times> image \<times> synthetic_source \<times> int option"
where
  "synthetic_read d m t img src =
     (let opts = syn_options src
      in if syn_frame_count opts \<noteq> 0 \<and> syn_frame_count opts \<le> syn_produced src then Inr (False, img, src, None)
         else
           let (wake, src) =
                 (if 0 < syn_fps opts
                  then let (due, nxt) = pace (period_of_fps d (syn_fps opts)) (syn_produced src = 0) t (syn_next_deadline src)
                       in (Some due, src\<lparr>syn_next_deadline := nxt\<rparr>)
                  else (None, src))
           in bind_result (reshape (syn_width opts) (syn_height opts) kBgr8 img) (\<lambda>img.
                let img = img\<lparr>image_buffer := replicate (length (image_buffer img)) 28\<rparr>;
                    t = fdiv d (d (real (unat (syn_produced src)))) 60;
                    img = fold (draw_object d m opts t) [0..syn_num_objects opts - 1] img
                in Inr (True, img, src\<lparr>syn_produced := syn_produced src + 1\<rparr>, wake)))"

definition synthetic_describe :: "(real \<Rightarrow> string) \<Rightarrow> synthetic_source \<Rightarrow> string" where
  "synthetic_describe show_g src =
     ''synthetic '' @ show_int (syn_width (syn_options src)) @ ''x'' @ show_int (syn_height (syn_options src)) @ ''@'' @
     show_g (syn_fps (syn_options src)) @ ''fps''"

text \<open>As a source of the pipeline, on the clock \<open>clk\<close>: the state counts the reads of the clock.\<close>

definition synthetic_frame_source ::
  "rounding \<Rightarrow> libm \<Rightarrow> (real \<Rightarrow> string) \<Rightarrow> (nat \<Rightarrow> int) \<Rightarrow> synthetic_source \<Rightarrow> (synthetic_source \<times> nat) frame_source"
where
  "synthetic_frame_source d m show_g clk src =
     \<lparr>src_state = (src, 0),
      src_read = (\<lambda>(src, n) img. map_sum id (\<lambda>(got, img, src, _). (got, img, (src, n + 1))) (synthetic_read d m (clk n) img src)),
      src_describe = (\<lambda>(src, _). synthetic_describe show_g src),
      src_nominal_fps = (\<lambda>(src, _). syn_fps (syn_options src))\<rparr>"

section \<open>Pixels\<close>

text \<open>The three bytes of pixel \<open>i\<close> of a buffer, and of the pixel at column \<open>x\<close> of row \<open>y\<close>.\<close>

definition cell :: "u8 list \<Rightarrow> nat \<Rightarrow> u8 list" where
  "cell buf i = map (\<lambda>c. buf ! (3 * i + c)) [0..<3]"

definition pixel :: "image \<Rightarrow> int \<Rightarrow> int \<Rightarrow> u8 list" where
  "pixel img x y = cell (image_buffer img) (nat (y * image_width img + x))"

lemma cell_eq: "cell buf i = [buf ! (3 * i), buf ! (3 * i + 1), buf ! (3 * i + 2)]"
  by (simp add: cell_def upt_rec)

lemma length_put_pixel [simp]: "length (put_pixel bgr i buf) = length buf"
  by (simp add: put_pixel_def)

lemma cell_put_pixel:
  assumes "length bgr = 3" "3 * j + 2 < length buf"
  shows "cell (put_pixel bgr (3 * j) buf) i = (if i = j then bgr else cell buf i)"
proof -
  have "bgr = [bgr ! 0, bgr ! 1, bgr ! 2]"
    using assms(1) by (auto intro!: nth_equalityI simp: less_Suc_eq numeral_3_eq_3 numeral_2_eq_2)
  moreover have "3 * i \<noteq> 3 * j + 1" "3 * i \<noteq> 3 * j + 2" "3 * i + 1 \<noteq> 3 * j + 2" "3 * i + 1 \<noteq> 3 * j" "3 * i + 2 \<noteq> 3 * j" "3 * i + 2 \<noteq> 3 * j + 1"
    by presburger+
  ultimately show ?thesis using assms(2) by (simp add: cell_eq put_pixel_def nth_list_update_if)
qed

lemma cell_fold_put:
  assumes "length bgr = 3" "\<And>j. j \<in> set js \<Longrightarrow> 3 * j + 2 < length buf"
  shows "length (fold (\<lambda>j. put_pixel bgr (3 * j)) js buf) = length buf"
    and "cell (fold (\<lambda>j. put_pixel bgr (3 * j)) js buf) i = (if i \<in> set js then bgr else cell buf i)"
proof -
  have "length (fold (\<lambda>j. put_pixel bgr (3 * j)) js buf) = length buf \<and>
    cell (fold (\<lambda>j. put_pixel bgr (3 * j)) js buf) i = (if i \<in> set js then bgr else cell buf i)"
    using assms(2)
  proof (induction js arbitrary: buf)
    case (Cons j js)
    then show ?case using cell_put_pixel [OF assms(1), of j buf i] by auto
  qed simp
  then show "length (fold (\<lambda>j. put_pixel bgr (3 * j)) js buf) = length buf"
    "cell (fold (\<lambda>j. put_pixel bgr (3 * j)) js buf) i = (if i \<in> set js then bgr else cell buf i)" by simp_all
qed

lemma pixel_index:
  fixes x y w h :: int
  assumes "0 \<le> x" "x < w" "0 \<le> y" "y < h"
  shows "3 * nat (y * w + x) + 2 < nat (h * (w * 3))"
proof -
  have "y * w + x < (y + 1) * w" using assms by (simp add: distrib_right)
  also have "\<dots> \<le> h * w" using assms by (intro mult_right_mono) auto
  finally have "y * w + x + 1 \<le> h * w" by simp
  moreover have "0 \<le> y * w + x" using assms by simp
  ultimately show ?thesis by (simp add: nat_less_iff algebra_simps)
qed

lemma pixel_inj:
  fixes x y x' y' w :: int
  assumes "0 \<le> x" "x < w" "0 \<le> x'" "x' < w" "0 \<le> y" "0 \<le> y'" "nat (y * w + x) = nat (y' * w + x')"
  shows "x = x' \<and> y = y'"
proof -
  have e: "x + y * w = x' + y' * w"
    using assms by (metis add.commute add_nonneg_nonneg eq_nat_nat_iff mult_nonneg_nonneg order.strict_implies_order order_le_less_trans)
  have "y = y'" using arg_cong [OF e, of "\<lambda>z. z div w"] assms by simp
  then show ?thesis using e by simp
qed

lemma fold_concat_map: "fold f (concat (map g xs)) = fold (\<lambda>x. fold f (g x)) xs"
  by (induction xs) simp_all

text \<open>Filling a rectangle: exactly the pixels inside it change.\<close>

lemma fill_rect_pixel:
  assumes ok: "image_ok img" "image_format img = kBgr8" and bgr: "length bgr = 3"
  shows "image_ok (fill_rect x0 y0 x1 y1 bgr img)" "image_format (fill_rect x0 y0 x1 y1 bgr img) = kBgr8"
    "image_width (fill_rect x0 y0 x1 y1 bgr img) = image_width img" "image_height (fill_rect x0 y0 x1 y1 bgr img) = image_height img"
    and "0 \<le> x \<Longrightarrow> x < image_width img \<Longrightarrow> 0 \<le> y \<Longrightarrow> y < image_height img \<Longrightarrow>
      pixel (fill_rect x0 y0 x1 y1 bgr img) x y = (if x0 \<le> x \<and> x < x1 \<and> y0 \<le> y \<and> y < y1 then bgr else pixel img x y)"
proof -
  let ?w = "image_width img" and ?h = "image_height img"
  let ?x0 = "clamp_int x0 0 ?w" and ?x1 = "clamp_int x1 0 ?w" and ?y0 = "clamp_int y0 0 ?h" and ?y1 = "clamp_int y1 0 ?h"
  have wh: "0 \<le> ?w" "0 \<le> ?h" and len: "int (length (image_buffer img)) = ?h * (?w * 3)"
    using ok by (simp_all add: image_ok_def image_stride_def channel_count_def)
  define js where "js = concat (map (\<lambda>y. map (\<lambda>x. nat (y * ?w + x)) [?x0..?x1 - 1]) [?y0..?y1 - 1])"
  have off: "image_row img y + nat (x * 3) = 3 * nat (y * ?w + x)" if "0 \<le> x" "0 \<le> y" for x y
    using that wh ok(2) by (simp add: image_row_def image_stride_def channel_count_def nat_mult_distrib nat_add_distrib)
  have lo: "0 \<le> ?x0" "0 \<le> ?y0" and hi: "?x1 \<le> ?w" "?y1 \<le> ?h" using wh by (simp_all add: clamp_int_def)
  have inner: "fold (\<lambda>x. put_pixel bgr (image_row img y + nat (x * 3))) [?x0..?x1 - 1] =
      fold (\<lambda>j. put_pixel bgr (3 * j)) (map (\<lambda>x. nat (y * ?w + x)) [?x0..?x1 - 1])" if "0 \<le> y" for y
    unfolding fold_map comp_def by (rule ext, rule fold_cong) (use off that lo in auto)
  have "fold (\<lambda>y. fold (\<lambda>x. put_pixel bgr (image_row img y + nat (x * 3))) [?x0..?x1 - 1]) [?y0..?y1 - 1] =
      fold (\<lambda>j. put_pixel bgr (3 * j)) js"
    unfolding js_def fold_concat_map
    by (rule ext, rule fold_cong) (use inner lo in \<open>auto simp: fold_map comp_def\<close>)
  then have buf: "image_buffer (fill_rect x0 y0 x1 y1 bgr img) = fold (\<lambda>j. put_pixel bgr (3 * j)) js (image_buffer img)"
    by (simp add: fill_rect_def Let_def)
  have js: "3 * j + 2 < length (image_buffer img)" if j: "j \<in> set js" for j
  proof -
    obtain x y where "j = nat (y * ?w + x)" "x \<in> {?x0..?x1 - 1}" "y \<in> {?y0..?y1 - 1}"
      using j by (fastforce simp: js_def)
    then show ?thesis using pixel_index [of x ?w y ?h] len lo hi by auto
  qed
  show dims: "image_format (fill_rect x0 y0 x1 y1 bgr img) = kBgr8"
    "image_width (fill_rect x0 y0 x1 y1 bgr img) = ?w" "image_height (fill_rect x0 y0 x1 y1 bgr img) = ?h"
    using ok(2) by (simp_all add: fill_rect_def Let_def)
  show "image_ok (fill_rect x0 y0 x1 y1 bgr img)"
    using ok(1) dims buf cell_fold_put(1) [OF bgr js] ok(2) by (simp add: image_ok_def image_stride_def)
  assume xy: "0 \<le> x" "x < ?w" "0 \<le> y" "y < ?h"
  have "nat (y * ?w + x) \<in> set js \<longleftrightarrow> ?x0 \<le> x \<and> x < ?x1 \<and> ?y0 \<le> y \<and> y < ?y1"
  proof
    assume "nat (y * ?w + x) \<in> set js"
    then obtain x' y' where e: "nat (y * ?w + x) = nat (y' * ?w + x')" "?x0 \<le> x'" "x' < ?x1" "?y0 \<le> y'" "y' < ?y1"
      by (auto simp: js_def)
    have "0 \<le> x'" "x' < ?w" "0 \<le> y'" using e lo hi by linarith+
    then show "?x0 \<le> x \<and> x < ?x1 \<and> ?y0 \<le> y \<and> y < ?y1" using pixel_inj [of x ?w x' y y'] xy e by auto
  qed (auto simp: js_def intro!: bexI [of _ y] imageI)
  also have "\<dots> \<longleftrightarrow> x0 \<le> x \<and> x < x1 \<and> y0 \<le> y \<and> y < y1" using xy by (auto simp: clamp_int_def)
  finally show "pixel (fill_rect x0 y0 x1 y1 bgr img) x y = (if x0 \<le> x \<and> x < x1 \<and> y0 \<le> y \<and> y < y1 then bgr else pixel img x y)"
    using cell_fold_put(2) [OF bgr js, of js "nat (y * ?w + x)"] by (simp add: pixel_def buf dims)
qed

section \<open>What a read delivers\<close>

lemma draw_object_pixel:
  assumes "image_ok img" "image_format img = kBgr8"
  shows "image_ok (draw_object d m opts t k img)" "image_format (draw_object d m opts t k img) = kBgr8"
    "image_width (draw_object d m opts t k img) = image_width img" "image_height (draw_object d m opts t k img) = image_height img"
    and "0 \<le> x \<Longrightarrow> x < image_width img \<Longrightarrow> 0 \<le> y \<Longrightarrow> y < image_height img \<Longrightarrow>
      pixel (draw_object d m opts t k img) x y =
        (case object_rect d m opts t k of (x0, y0, x1, y1) \<Rightarrow>
           if x0 \<le> x \<and> x < x1 \<and> y0 \<le> y \<and> y < y1 then kPalette ! (nat k mod length kPalette) else pixel img x y)"
proof -
  have "length (kPalette ! (nat k mod length kPalette)) = 3"
  proof -
    have "kPalette ! (nat k mod length kPalette) \<in> set kPalette" by (intro nth_mem) (simp add: kPalette_def)
    then show ?thesis by (auto simp: kPalette_def)
  qed
  note f = fill_rect_pixel [OF assms this]
  show "image_ok (draw_object d m opts t k img)" "image_format (draw_object d m opts t k img) = kBgr8"
    "image_width (draw_object d m opts t k img) = image_width img" "image_height (draw_object d m opts t k img) = image_height img"
    using f(1-4) by (simp_all add: draw_object_def split: prod.split)
  show "0 \<le> x \<Longrightarrow> x < image_width img \<Longrightarrow> 0 \<le> y \<Longrightarrow> y < image_height img \<Longrightarrow>
      pixel (draw_object d m opts t k img) x y =
        (case object_rect d m opts t k of (x0, y0, x1, y1) \<Rightarrow>
           if x0 \<le> x \<and> x < x1 \<and> y0 \<le> y \<and> y < y1 then kPalette ! (nat k mod length kPalette) else pixel img x y)"
    using f(5) by (simp add: draw_object_def split: prod.split)
qed

text \<open>The picture: the topmost object over the dark background.\<close>

definition covers :: "rounding \<Rightarrow> libm \<Rightarrow> synthetic_options \<Rightarrow> real \<Rightarrow> int \<Rightarrow> int \<Rightarrow> int \<Rightarrow> bool" where
  "covers d m opts t x y k \<longleftrightarrow> (case object_rect d m opts t k of (x0, y0, x1, y1) \<Rightarrow> x0 \<le> x \<and> x < x1 \<and> y0 \<le> y \<and> y < y1)"

definition scene :: "rounding \<Rightarrow> libm \<Rightarrow> synthetic_options \<Rightarrow> real \<Rightarrow> int \<Rightarrow> int \<Rightarrow> u8 list" where
  "scene d m opts t x y =
     (case filter (covers d m opts t x y) [0..syn_num_objects opts - 1] of
        [] \<Rightarrow> [28, 28, 28]
      | ks \<Rightarrow> kPalette ! (nat (last ks) mod length kPalette))"

lemma draw_objects_pixel:
  assumes "image_ok img" "image_format img = kBgr8"
  shows "image_ok (fold (draw_object d m opts t) ks img) \<and> image_format (fold (draw_object d m opts t) ks img) = kBgr8 \<and>
    image_width (fold (draw_object d m opts t) ks img) = image_width img \<and>
    image_height (fold (draw_object d m opts t) ks img) = image_height img \<and>
    (0 \<le> x \<and> x < image_width img \<and> 0 \<le> y \<and> y < image_height img \<longrightarrow>
      pixel (fold (draw_object d m opts t) ks img) x y =
        (case filter (covers d m opts t x y) ks of [] \<Rightarrow> pixel img x y | cs \<Rightarrow> kPalette ! (nat (last cs) mod length kPalette)))"
  using assms
proof (induction ks arbitrary: img)
  case (Cons k ks)
  note o = draw_object_pixel [OF Cons.prems, where d = d and m = m and opts = opts and t = t and k = k]
  show ?case using Cons.IH [OF o(1,2)] o(3-5)
    by (auto simp: covers_def split: list.splits prod.splits if_splits)
qed simp

lemma blank_pixel:
  assumes "image_ok img" "image_format img = kBgr8" "0 \<le> x" "x < image_width img" "0 \<le> y" "y < image_height img"
  shows "pixel (img\<lparr>image_buffer := replicate (length (image_buffer img)) 28\<rparr>) x y = [28, 28, 28]"
proof -
  have "int (length (image_buffer img)) = image_height img * (image_width img * 3)"
    using assms(1,2) by (simp add: image_ok_def image_stride_def channel_count_def)
  then have "3 * nat (y * image_width img + x) + 2 < length (image_buffer img)"
    using pixel_index [OF assms(3-6)] by linarith
  then show ?thesis by (simp add: pixel_def cell_eq)
qed

lemma synthetic_read_result:
  assumes "synthetic_read d m t img src = Inr (got, img', src', wake)"
  shows "got \<longleftrightarrow> syn_frame_count (syn_options src) = 0 \<or> syn_produced src < syn_frame_count (syn_options src)"
    "syn_options src' = syn_options src"
    "\<not> got \<Longrightarrow> src' = src \<and> img' = img \<and> wake = None"
    "got \<Longrightarrow> syn_produced src' = syn_produced src + 1"
    "got \<Longrightarrow> image_ok img' \<and> image_format img' = kBgr8 \<and> image_width img' = syn_width (syn_options src) \<and>
      image_height img' = syn_height (syn_options src)"
    "got \<Longrightarrow> 0 \<le> x \<Longrightarrow> x < image_width img' \<Longrightarrow> 0 \<le> y \<Longrightarrow> y < image_height img' \<Longrightarrow>
      pixel img' x y = scene d m (syn_options src) (d (d (real (unat (syn_produced src))) / 60)) x y"
    "got \<Longrightarrow> 0 < syn_fps (syn_options src) \<Longrightarrow> wake = Some (fst (pace (period_of_fps d (syn_fps (syn_options src)))
      (syn_produced src = 0) t (syn_next_deadline src))) \<and>
      syn_next_deadline src' = the wake + period_of_fps d (syn_fps (syn_options src))"
proof -
  let ?o = "syn_options src"
  show more: "got \<longleftrightarrow> syn_frame_count ?o = 0 \<or> syn_produced src < syn_frame_count ?o"
    using assms by (auto simp: synthetic_read_def Let_def bind_result_Inr_iff split: if_splits prod.splits)
  show "\<not> got \<Longrightarrow> src' = src \<and> img' = img \<and> wake = None" "syn_options src' = syn_options src"
    "got \<Longrightarrow> syn_produced src' = syn_produced src + 1"
    using assms by (auto simp: synthetic_read_def Let_def bind_result_Inr_iff split: if_splits prod.splits)
  show "got \<Longrightarrow> 0 < syn_fps ?o \<Longrightarrow> wake = Some (fst (pace (period_of_fps d (syn_fps ?o))
      (syn_produced src = 0) t (syn_next_deadline src))) \<and> syn_next_deadline src' = the wake + period_of_fps d (syn_fps ?o)"
    using assms by (auto simp: synthetic_read_def Let_def bind_result_Inr_iff pace_def split: if_splits)
  let ?t = "d (d (real (unat (syn_produced src))) / 60)"
  have img: "\<exists>img1. reshape (syn_width ?o) (syn_height ?o) kBgr8 img = Inr img1 \<and>
      img' = fold (draw_object d m ?o ?t) [0..syn_num_objects ?o - 1] (img1\<lparr>image_buffer := replicate (length (image_buffer img1)) 28\<rparr>)"
    if got
    using assms that by (auto simp: synthetic_read_def Let_def bind_result_Inr_iff fops split: if_splits prod.splits)
  show "image_ok img' \<and> image_format img' = kBgr8 \<and> image_width img' = syn_width ?o \<and> image_height img' = syn_height ?o"
    if g: got
  proof -
    obtain img1 where r: "reshape (syn_width ?o) (syn_height ?o) kBgr8 img = Inr img1" and i: "img' = fold (draw_object d m ?o ?t)
        [0..syn_num_objects ?o - 1] (img1\<lparr>image_buffer := replicate (length (image_buffer img1)) 28\<rparr>)" using img [OF g] by blast
    have "image_ok (img1\<lparr>image_buffer := replicate (length (image_buffer img1)) 28\<rparr>)"
      using reshape_ok [OF r] by (simp add: image_ok_def image_stride_def)
    from draw_objects_pixel [OF this, of d m ?o ?t] show ?thesis using reshape_ok [OF r] i by simp
  qed
  show "pixel img' x y = scene d m ?o ?t x y" if g: got and xy: "0 \<le> x" "x < image_width img'" "0 \<le> y" "y < image_height img'"
  proof -
    obtain img1 where r: "reshape (syn_width ?o) (syn_height ?o) kBgr8 img = Inr img1" and i: "img' = fold (draw_object d m ?o ?t)
        [0..syn_num_objects ?o - 1] (img1\<lparr>image_buffer := replicate (length (image_buffer img1)) 28\<rparr>)" using img [OF g] by blast
    let ?b = "img1\<lparr>image_buffer := replicate (length (image_buffer img1)) 28\<rparr>"
    have b: "image_ok ?b" "image_format ?b = kBgr8" using reshape_ok [OF r] by (simp_all add: image_ok_def image_stride_def)
    note dp = draw_objects_pixel [OF b, of d m ?o ?t "[0..syn_num_objects ?o - 1]" x y, folded i]
    have dim: "image_width img' = image_width img1" "image_height img' = image_height img1" using dp by simp_all
    have "pixel ?b x y = [28, 28, 28]" by (rule blank_pixel) (use reshape_ok [OF r] xy dim in simp_all)
    then show ?thesis using dp xy dim by (simp add: scene_def split: list.splits)
  qed
qed

section \<open>A stream of reads\<close>

text \<open>Reads at the clock readings \<open>ts\<close>: whether there was a frame, and the instant slept until.\<close>

fun synthetic_reads :: "rounding \<Rightarrow> libm \<Rightarrow> int list \<Rightarrow> image \<Rightarrow> synthetic_source \<Rightarrow> (bool \<times> int option) list" where
  "synthetic_reads d m [] img src = []"
| "synthetic_reads d m (t # ts) img src =
     (case synthetic_read d m t img src of
        Inl e \<Rightarrow> []
      | Inr (got, img, src, wake) \<Rightarrow> (got, wake) # synthetic_reads d m ts img src)"

lemma synthetic_read_ok:
  assumes "0 \<le> syn_width (syn_options src)" "0 \<le> syn_height (syn_options src)"
  obtains got img' src' wake where "synthetic_read d m t img src = Inr (got, img', src', wake)"
proof (cases "synthetic_read d m t img src")
  case (Inl e)
  then show ?thesis using assms by (auto simp: synthetic_read_def reshape_def Let_def split: if_splits prod.splits)
next
  case (Inr res)
  then show ?thesis by (cases res) (rule that, simp)
qed

lemma pace_spaced:
  assumes "0 \<le> period" "pace period first t nd = (due, nxt)"
  shows "nxt = due + period" "t \<le> due + period" "\<not> first \<Longrightarrow> nd \<le> due" "\<not> first \<Longrightarrow> t \<le> nd + period \<Longrightarrow> due = nd"
  using assms by (auto simp: pace_def Let_def split: if_splits)

lemma period_nonneg:
  assumes "float_rounding d" "0 < fps"
  shows "0 \<le> period_of_fps d fps"
proof -
  have "0 \<le> d (1 / fps)" by (rule float_rounding.nonneg [OF assms(1)]) (use assms(2) in simp)
  then have "0 \<le> d (1 / fps) * 1000000000" by simp
  then have "0 \<le> d (d (1 / fps) * 1000000000)" by (rule float_rounding.nonneg [OF assms(1)])
  then show ?thesis by (simp add: period_of_fps_def truncate_real_def fops)
qed

text \<open>
  A free-running camera: a frame never comes before the deadline that the previous one set, one
  period later, and a late consumer waits at most until one period after it asked.
\<close>

fun well_paced :: "int \<Rightarrow> int option \<Rightarrow> int list \<Rightarrow> (bool \<times> int option) list \<Rightarrow> bool" where
  "well_paced p deadline [] [] = True"
| "well_paced p deadline (t # ts) ((got, wake) # rs) =
     (if got then wake \<noteq> None \<and> t \<le> the wake + p \<and> (deadline = None \<or> the deadline \<le> the wake) \<and>
        well_paced p (Some (the wake + p)) ts rs
      else wake = None \<and> well_paced p deadline ts rs)"
| "well_paced p deadline _ _ = False"

lemma synthetic_reads_facts:
  assumes "0 < syn_width opts" "0 < syn_height opts" "0 < syn_fps opts" "float_rounding d"
    and "syn_options src = opts" "syn_produced src = of_nat k" "k + length ts < 2 ^ 64"
    and "syn_frame_count opts = 0 \<or> k \<le> unat (syn_frame_count opts)"
    and "deadline = (if k = 0 then None else Some (syn_next_deadline src))"
  shows "well_paced (period_of_fps d (syn_fps opts)) deadline ts (synthetic_reads d m ts img src)"
    "map fst (synthetic_reads d m ts img src) =
       map (\<lambda>i. syn_frame_count opts = 0 \<or> i < unat (syn_frame_count opts)) [k..<k + length ts]"
proof -
  let ?p = "period_of_fps d (syn_fps opts)" and ?live = "\<lambda>i. syn_frame_count opts = 0 \<or> i < unat (syn_frame_count opts)"
  have p: "0 \<le> ?p" by (rule period_nonneg [OF assms(4,3)])
  have "well_paced ?p deadline ts (synthetic_reads d m ts img src) \<and>
    (\<forall>got \<in> set (map fst (synthetic_reads d m ts img src)). got \<longrightarrow> ?live k) \<and>
    map fst (synthetic_reads d m ts img src) = map ?live [k..<k + length ts]"
    using assms(5-9)
  proof (induction ts arbitrary: img src k deadline)
    case (Cons t ts)
    obtain got img' src' wake where r: "synthetic_read d m t img src = Inr (got, img', src', wake)"
      by (rule synthetic_read_ok [of src d m t img]) (use assms(1,2) Cons.prems(1) in simp_all)
    note R = synthetic_read_result [OF r, unfolded Cons.prems(1)]
    have k: "unat (of_nat k :: u64) = k" using Cons.prems(3) by (simp add: unat_of_nat_u64)
    have got: "got \<longleftrightarrow> ?live k" using R(1) k by (simp add: Cons.prems(2) u64_less_unat)
    have upt: "[k..<k + length (t # ts)] = k # [Suc k..<Suc k + length ts]" by (simp add: upt_rec)
    show ?case
    proof (cases got)
      case True
      obtain due where w: "wake = Some due" "pace ?p (syn_produced src = 0) t (syn_next_deadline src) = (due, due + ?p)"
        "syn_next_deadline src' = due + ?p"
        using R(7) [OF True assms(3)] by (auto simp: pace_def Let_def)
      note P = pace_spaced [OF p w(2)]
      have "(syn_produced src = 0) = (k = 0)" by (subst unat_eq_zero [symmetric]) (simp only: Cons.prems(2) k)
      then have spaced: "0 < k \<Longrightarrow> syn_next_deadline src \<le> due" using P(3) by simp
      have 1: "syn_options src' = opts" "syn_produced src' = of_nat (Suc k)" using R(2,4) True Cons.prems(2) by simp_all
      have 2: "Suc k + length ts < 2 ^ 64" using Cons.prems(3) by simp
      have 3: "syn_frame_count opts = 0 \<or> Suc k \<le> unat (syn_frame_count opts)" using got True by auto
      have 4: "Some (due + ?p) = (if Suc k = 0 then None else Some (syn_next_deadline src'))" using w(3) by simp
      note IH = Cons.IH [OF 1 2 3 4, of img']
      have "?live k" using got True by simp
      then show ?thesis using IH r True w(1) P(2) spaced Cons.prems(5) unfolding upt by simp
    next
      case False
      have src: "src' = src" "wake = None" using R(3) False by simp_all
      have F: "map ?live [a..<b] = map (\<lambda>_. False) [a..<b]" if "k \<le> a" for a b
        by (rule map_cong) (use got False that in auto)
      then have dead: "map ?live [Suc k..<Suc k + length ts] = map ?live [k..<k + length ts]"
        using F [of "Suc k" "Suc k + length ts"] F [of k "k + length ts"] by (simp add: map_replicate_const del: upt_Suc)
      have "k + length ts < 2 ^ 64" using Cons.prems(3) by simp
      note IH = Cons.IH [OF Cons.prems(1,2) this Cons.prems(4,5), of img']
      show ?thesis using IH r False src got dead unfolding upt by simp
    qed
  qed simp
  then show "well_paced ?p deadline ts (synthetic_reads d m ts img src)"
    "map fst (synthetic_reads d m ts img src) = map ?live [k..<k + length ts]" by simp_all
qed

section \<open>The properties\<close>

text \<open>
  C30: what \<open>read\<close> of the camera simulator delivers. There is a frame as long as the frame count is
  not used up; it is a BGR image of the configured size, and each of its pixels shows the topmost
  object that covers it, or the dark background, at the time of the frame. No write leaves the
  image, however far an object is outside.
\<close>

theorem synthetic_picture:
  assumes "synthetic_read d m t img src = Inr (got, img', src', wake)"
  shows "(got \<longleftrightarrow> syn_frame_count (syn_options src) = 0 \<or> syn_produced src < syn_frame_count (syn_options src)) \<and>
    (got \<longrightarrow> image_ok img' \<and> image_format img' = kBgr8 \<and> image_width img' = syn_width (syn_options src) \<and>
       image_height img' = syn_height (syn_options src) \<and>
       (\<forall>x y. 0 \<le> x \<and> x < image_width img' \<and> 0 \<le> y \<and> y < image_height img' \<longrightarrow>
          pixel img' x y = scene d m (syn_options src) (d (d (real (unat (syn_produced src))) / 60)) x y))"
  using synthetic_read_result [OF assms] by blast

definition exact_libm :: libm where
  "exact_libm = \<lparr>libm_cos = cos, libm_sin = sin\<rparr>"

theorem synthetic_picture_witness:
  "\<exists>img' src' wake. synthetic_read exact_rounding exact_libm 7 empty_image
      \<lparr>syn_options = default_synthetic_options\<lparr>syn_num_objects := 0\<rparr>, syn_produced = 3, syn_next_deadline = 0\<rparr> = Inr (True, img', src', wake) \<and>
    image_width img' = 1280 \<and> pixel img' 5 9 = [28, 28, 28]"
proof -
  let ?src = "\<lparr>syn_options = default_synthetic_options\<lparr>syn_num_objects := 0\<rparr>, syn_produced = 3, syn_next_deadline = 0\<rparr>"
  obtain got img' src' wake where r: "synthetic_read exact_rounding exact_libm 7 empty_image ?src = Inr (got, img', src', wake)"
    by (rule synthetic_read_ok [of ?src]) (simp_all add: default_synthetic_options_def)
  from synthetic_picture [OF r] r show ?thesis
    by (auto simp: default_synthetic_options_def scene_def)
qed



end
