(* ===== verification/Overlay.thy ===== *)
theory Overlay
  imports JsonText Sources "HOL-Library.AList"
begin

text \<open>
  \<open>io/overlay.hpp\<close>, \<open>src/io/overlay.cpp\<close>: boxes, labels, motion trails and the telemetry panel drawn onto a
  frame. A canvas is its size and the drawing calls made on it, in order. The calls of OpenCV
  that return something are in the record \<open>drawing\<close>. \<open>d\<close> rounds double, \<open>r\<close> rounds float.
\<close>

section \<open>Drawing\<close>

type_synonym point = "int \<times> int"
type_synonym scalar = "real \<times> real \<times> real"

datatype draw_call =
    Draw_rectangle point point scalar int
  | Fill_rectangle int int int int scalar
  | Put_text string point real scalar
  | Draw_line point point scalar int
  | Darken int int

record canvas =
  canvas_rows :: int
  canvas_cols :: int
  drawn :: "draw_call list"

definition draw :: "draw_call \<Rightarrow> canvas \<Rightarrow> canvas" where
  "draw c cv = cv\<lparr>drawn := drawn cv @ [c]\<rparr>"

text \<open>\<open>getTextSize\<close> (width, height, baseline) and the conversion of the HSV pixel \<open>(hue, 200, 255)\<close>.\<close>

record drawing =
  text_size :: "string \<Rightarrow> real \<Rightarrow> int \<times> int \<times> int"
  hue_to_bgr :: "real \<Rightarrow> scalar"

definition color_for :: "rounding \<Rightarrow> drawing \<Rightarrow> int \<Rightarrow> scalar" where
  "color_for d dr ident =
     (let x = fmul d (of_int ident) (d (618033988749895 / 1000000000000000))
      in hue_to_bgr dr (fmul d (x - of_int (truncate_real x)) 180))"

definition to_point :: "real \<Rightarrow> real \<Rightarrow> point" where
  "to_point x y = (to_int32 (lround x), to_int32 (lround y))"

definition draw_label :: "drawing \<Rightarrow> string \<Rightarrow> point \<Rightarrow> scalar \<Rightarrow> real \<Rightarrow> canvas \<Rightarrow> canvas" where
  "draw_label dr txt anchor color scale cv =
     (let (w, h, baseline) = text_size dr txt scale;
          ytop = max 0 (snd anchor - h - baseline - 4);
          cv = draw (Fill_rectangle (fst anchor) ytop (w + 6) (h + baseline + 4) color) cv
      in draw (Put_text txt (fst anchor + 3, ytop + h + 2) scale (20, 20, 20)) cv)"

definition kHudStages :: "stage_id list" where
  "kHudStages = [kPreprocess, kInference, kPostprocess, kTracking]"

text \<open>The panel shows the stages before the sink, each once, in the order a frame passes them.\<close>

lemma hud_stages: "sorted kHudStages" "distinct kHudStages" "set kHudStages = {..<kSink}"
proof -
  have "s \<in> set kHudStages \<longleftrightarrow> s < kSink" for s
    by (cases s) (simp_all add: kHudStages_def less_stage_id_def to_index_def)
  then show "set kHudStages = {..<kSink}" by auto
qed (simp_all add: kHudStages_def less_eq_stage_id_def to_index_def)

definition kStageColors :: "scalar list" where
  "kStageColors = [(235, 180, 60), (80, 120, 250), (90, 210, 120), (200, 110, 220)]"

section \<open>Class names\<close>

definition coco_class_names :: "string list" where
  "coco_class_names =
     [''person'', ''bicycle'', ''car'', ''motorcycle'', ''airplane'', ''bus'', ''train'', ''truck'', ''boat'', ''traffic light'',
      ''fire hydrant'', ''stop sign'', ''parking meter'', ''bench'', ''bird'', ''cat'', ''dog'', ''horse'', ''sheep'', ''cow'',
      ''elephant'', ''bear'', ''zebra'', ''giraffe'', ''backpack'', ''umbrella'', ''handbag'', ''tie'', ''suitcase'', ''frisbee'',
      ''skis'', ''snowboard'', ''sports ball'', ''kite'', ''baseball bat'', ''baseball glove'', ''skateboard'', ''surfboard'',
      ''tennis racket'', ''bottle'', ''wine glass'', ''cup'', ''fork'', ''knife'', ''spoon'', ''bowl'', ''banana'', ''apple'',
      ''sandwich'', ''orange'', ''broccoli'', ''carrot'', ''hot dog'', ''pizza'', ''donut'', ''cake'', ''chair'', ''couch'',
      ''potted plant'', ''bed'', ''dining table'', ''toilet'', ''tv'', ''laptop'', ''mouse'', ''remote'', ''keyboard'',
      ''cell phone'', ''microwave'', ''oven'', ''toaster'', ''sink'', ''refrigerator'', ''book'', ''clock'', ''vase'',
      ''scissors'', ''teddy bear'', ''hair drier'', ''toothbrush'']"

text \<open>\<open>files\<close> is the file system: the content of every readable file. \<open>std::getline\<close> splits as \<open>text_lines\<close>.\<close>

definition load_class_names :: "(string \<Rightarrow> string option) \<Rightarrow> string \<Rightarrow> takt_error + string list" where
  "load_class_names files path =
     (case files path of
        None \<Rightarrow> Inl (Runtime_error (''cannot open class names file '' @ path))
      | Some content \<Rightarrow>
          Inr (filter (\<lambda>line. line \<noteq> [])
            (map (\<lambda>line. if line \<noteq> [] \<and> List.last line = CHR 0x0D then butlast line else line) (text_lines content))))"

section \<open>The renderer\<close>

record overlay_options =
  class_names :: "string list"
  opt_draw_hud :: bool
  opt_draw_trails :: bool
  opt_trail_length :: u64

definition default_overlay_options :: overlay_options where
  "default_overlay_options = \<lparr>class_names = [], opt_draw_hud = True, opt_draw_trails = True, opt_trail_length = 40\<rparr>"

text \<open>The maps from track identities are association lists; time points are nanoseconds.\<close>

record overlay =
  ov_options :: overlay_options
  ov_info :: run_info
  ov_trails :: "(int \<times> point list) list"
  ov_last_seen :: "(int \<times> u64) list"
  ov_last_frame_time :: int
  ov_last_refresh :: int
  ov_fps :: real
  ov_hud_lines :: "string list"
  ov_stage_p50 :: "real list"

definition no_info :: run_info where
  "no_info = \<lparr>info_started_at = 0, info_backend = [], info_source = [], info_policy = [], info_source_fps = 0,
     info_model_width = 0, info_model_height = 0\<rparr>"

definition make_overlay :: "overlay_options \<Rightarrow> overlay" where
  "make_overlay opts = \<lparr>ov_options = opts, ov_info = no_info, ov_trails = [], ov_last_seen = [], ov_last_frame_time = 0,
     ov_last_refresh = 0, ov_fps = 0, ov_hud_lines = [], ov_stage_p50 = []\<rparr>"

definition overlay_on_start :: "run_info \<Rightarrow> overlay \<Rightarrow> overlay" where
  "overlay_on_start info ov = ov\<lparr>ov_info := info, ov_trails := [], ov_last_seen := [], ov_fps := 0, ov_last_frame_time := 0,
     ov_last_refresh := 0, ov_hud_lines := [], ov_stage_p50 := replicate (length kHudStages) 0\<rparr>"

definition label_for :: "overlay \<Rightarrow> int \<Rightarrow> string" where
  "label_for ov c =
     (if 0 \<le> c \<and> c < int (length (class_names (ov_options ov))) then class_names (ov_options ov) ! nat c
      else ''class '' @ show_int c)"

text \<open>\<open>metrics\<close> is what \<open>info_.metrics\<close> points to at the time of the call, if anything.\<close>

definition update_telemetry :: "rounding \<Rightarrow> int \<Rightarrow> pipeline_metrics option \<Rightarrow> frame \<Rightarrow> overlay \<Rightarrow> overlay" where
  "update_telemetry d t metrics f ov =
     (let dt = fdiv d (d (of_int (t - ov_last_frame_time ov))) 1000000000;
          fps = (if ov_last_frame_time ov \<noteq> 0 \<and> 0 < dt
                 then (if ov_fps ov = 0 then fdiv d 1 dt
                       else fadd d (fmul d (d (9 / 10)) (ov_fps ov)) (fdiv d (d (1 / 10)) dt))
                 else ov_fps ov);
          ov = ov\<lparr>ov_fps := fps, ov_last_frame_time := t\<rparr>
      in case metrics of
           None \<Rightarrow> ov
         | Some m \<Rightarrow>
             if t - ov_last_refresh ov < 250000000 \<and> ov_hud_lines ov \<noteq> [] then ov
             else
               let p50 = map (\<lambda>st. percentile_ms d (stage st m) (d (1 / 2))) kHudStages;
                   captured = frames_captured m; dropped = frames_dropped m;
                   drop_pct = (if 0 < captured then fdiv d (fmul d 100 (d (real (unat dropped)))) (d (real (unat captured))) else 0);
                   info = ov_info ov
               in ov\<lparr>ov_last_refresh := t, ov_stage_p50 := p50, ov_hud_lines :=
                   [''takt-vision | '' @ info_backend info @ '' | '' @ show_int (info_model_width info) @ ''x'' @
                      show_int (info_model_height info) @ '' | policy: '' @ info_policy info,
                    ''FPS '' @ pad_left 5 (show_fixed 1 fps) @ ''   end-to-end p50 '' @
                      pad_left 6 (show_fixed 1 (percentile_ms d (end_to_end m) (d (1 / 2)))) @ '' ms   p99 '' @
                      pad_left 6 (show_fixed 1 (percentile_ms d (end_to_end m) (d (99 / 100)))) @ '' ms'',
                    ''stage p50 (ms): pre '' @ show_fixed 1 (p50 ! 0) @ ''  infer '' @ show_fixed 1 (p50 ! 1) @
                      ''  post '' @ show_fixed 2 (p50 ! 2) @ ''  track '' @ show_fixed 2 (p50 ! 3),
                    ''frame '' @ show_nat (unat (sequence f)) @ ''   dropped '' @ show_nat (unat dropped) @ '' ('' @
                      show_fixed 1 drop_pct @ ''%)'']\<rparr>)"

text \<open>\<open>canvas(Rect)\<close> throws when the region is not inside the canvas.\<close>

definition roi :: "int \<Rightarrow> int \<Rightarrow> canvas \<Rightarrow> takt_error + unit" where
  "roi w h cv =
     (if 0 \<le> w \<and> w \<le> canvas_cols cv \<and> 0 \<le> h \<and> h \<le> canvas_rows cv then Inr ()
      else Inl (Library_error ''cv::Mat: region outside the image''))"

definition draw_bar :: "rounding \<Rightarrow> int \<Rightarrow> int \<Rightarrow> int \<Rightarrow> real \<Rightarrow> overlay \<Rightarrow> nat \<Rightarrow> int \<times> canvas \<Rightarrow> int \<times> canvas" where
  "draw_bar d bar_width bar_y bar_height sum_p50 ov i st =
     (let (x, cv) = st;
          w = to_int32 (lround (fdiv d (fmul d (of_int bar_width) (ov_stage_p50 ov ! i)) sum_p50))
      in (x + w, if 0 < w then draw (Fill_rectangle x bar_y w bar_height (kStageColors ! i)) cv else cv))"

definition draw_hud :: "rounding \<Rightarrow> nat \<Rightarrow> overlay \<Rightarrow> canvas \<Rightarrow> takt_error + canvas" where
  "draw_hud d visible ov cv =
     (let scale = max (d (36 / 100)) (fdiv d (of_int (canvas_rows cv)) 1500);
          line_height = to_int32 (lround (fdiv d (fmul d 26 scale) (d (55 / 100))));
          panel_width = min (canvas_cols cv) (to_int32 (lround (fdiv d (fmul d 640 scale) (d (55 / 100)))));
          bar_height = line_height div 2;
          panel_height = line_height * (int (length (ov_hud_lines ov)) + 1) + bar_height + 16
      in bind_result (roi panel_width (min (canvas_rows cv) panel_height) cv) (\<lambda>_.
         let cv = draw (Darken panel_width (min (canvas_rows cv) panel_height)) cv;
             (y, cv) = fold (\<lambda>line (y, cv). (y + line_height, draw (Put_text line (12, y) scale (240, 240, 240)) cv))
                         (ov_hud_lines ov) (line_height, cv);
             cv = draw (Put_text (''objects '' @ show_nat visible) (12, y) scale (240, 240, 240)) cv;
             sum_p50 = foldl (fadd d) 0 (ov_stage_p50 ov)
         in Inr (if sum_p50 \<le> 0 then cv
                 else snd (fold (draw_bar d (panel_width - 24) (y + 8) bar_height sum_p50 ov) [0..<length (ov_stage_p50 ov)] (12, cv)))))"

section \<open>Rendering a frame\<close>

definition label_scale_of :: "rounding \<Rightarrow> canvas \<Rightarrow> real" where
  "label_scale_of d cv = max (d (4 / 10)) (fdiv d (of_int (canvas_rows cv)) 1600)"

definition thickness_of :: "canvas \<Rightarrow> int" where
  "thickness_of cv = max 2 (canvas_rows cv div 360)"

text \<open>A box with its label.\<close>

definition draw_object_box :: "rounding \<Rightarrow> drawing \<Rightarrow> box \<Rightarrow> int \<Rightarrow> string \<Rightarrow> canvas \<Rightarrow> canvas" where
  "draw_object_box d dr b key txt cv =
     (let color = color_for d dr key
      in draw_label dr txt (to_point (box_x1 b) (box_y1 b)) color (label_scale_of d cv)
           (draw (Draw_rectangle (to_point (box_x1 b) (box_y1 b)) (to_point (box_x2 b) (box_y2 b)) color (thickness_of cv)) cv))"

text \<open>\<open>push_back\<close> and the loop of \<open>pop_front\<close>.\<close>

definition push_trail :: "u64 \<Rightarrow> point \<Rightarrow> point list \<Rightarrow> point list" where
  "push_trail n p ps = (let ps = ps @ [p] in drop (length ps - unat n) ps)"

definition extend_trail :: "rounding \<Rightarrow> u64 \<Rightarrow> tracked_object \<Rightarrow> overlay \<Rightarrow> overlay" where
  "extend_trail r seq tr ov =
     (let old = (case map_of (ov_trails ov) (obj_track_id tr) of None \<Rightarrow> [] | Some ps \<Rightarrow> ps);
          p = to_point (box_center_x r (obj_box tr)) (box_y2 (obj_box tr))
      in ov\<lparr>ov_trails := AList.update (obj_track_id tr) (push_trail (opt_trail_length (ov_options ov)) p old) (ov_trails ov),
            ov_last_seen := AList.update (obj_track_id tr) seq (ov_last_seen ov)\<rparr>)"

definition render_track :: "rounding \<Rightarrow> rounding \<Rightarrow> drawing \<Rightarrow> u64 \<Rightarrow> tracked_object \<Rightarrow> overlay \<times> canvas \<Rightarrow> overlay \<times> canvas" where
  "render_track r d dr seq tr st =
     (let (ov, cv) = st;
          cv = draw_object_box d dr (obj_box tr) (obj_track_id tr)
                 (''#'' @ show_int (obj_track_id tr) @ '' '' @ label_for ov (obj_class tr) @ '' '' @ show_fixed 2 (obj_score tr)) cv
      in (if opt_draw_trails (ov_options ov) then extend_trail r seq tr ov else ov, cv))"

definition render_detection :: "rounding \<Rightarrow> drawing \<Rightarrow> overlay \<Rightarrow> detection \<Rightarrow> canvas \<Rightarrow> canvas" where
  "render_detection d dr ov dt =
     draw_object_box d dr (det_box dt) (det_class dt + 1) (label_for ov (det_class dt) @ '' '' @ show_fixed 2 (det_score dt))"

text \<open>One step of the loop over the trails: forget the track or draw its trail.\<close>

definition visit_trail :: "rounding \<Rightarrow> drawing \<Rightarrow> u64 \<Rightarrow> int \<Rightarrow> overlay \<times> canvas \<Rightarrow> overlay \<times> canvas" where
  "visit_trail d dr seq key st =
     (let (ov, cv) = st;
          seen = (case map_of (ov_last_seen ov) key of None \<Rightarrow> 0 | Some s \<Rightarrow> s);
          ov = ov\<lparr>ov_last_seen := AList.update key seen (ov_last_seen ov)\<rparr>
      in if seen + 30 < seq
         then (ov\<lparr>ov_last_seen := AList.delete key (ov_last_seen ov), ov_trails := AList.delete key (ov_trails ov)\<rparr>, cv)
         else
           let points = the (map_of (ov_trails ov) key); color = color_for d dr key;
               thick = max 1 (thickness_of cv - 1)
           in (ov, fold (\<lambda>i. draw (Draw_line (points ! (i - 1)) (points ! i) color thick)) [1..<length points] cv))"

text \<open>\<open>order\<close> is the order in which the hash map \<open>trails_\<close> visits its keys.\<close>

definition render_frame ::
  "rounding \<Rightarrow> rounding \<Rightarrow> drawing \<Rightarrow> (int list \<Rightarrow> int list) \<Rightarrow> int \<Rightarrow> pipeline_metrics option \<Rightarrow> frame \<Rightarrow> overlay \<Rightarrow> canvas \<Rightarrow>
   takt_error + overlay \<times> canvas"
where
  "render_frame r d dr order t metrics f ov cv =
     (let ov = update_telemetry d t metrics f ov;
          (ov, cv) = (if tracks f \<noteq> [] then fold (render_track r d dr (sequence f)) (tracks f) (ov, cv)
                      else (ov, fold (render_detection d dr ov) (detections f) cv));
          visible = (if tracks f \<noteq> [] then length (tracks f) else length (detections f));
          (ov, cv) = (if opt_draw_trails (ov_options ov)
                      then fold (visit_trail d dr (sequence f)) (order (map fst (ov_trails ov))) (ov, cv) else (ov, cv))
      in if opt_draw_hud (ov_options ov) then bind_result (draw_hud d visible ov cv) (\<lambda>cv. Inr (ov, cv)) else Inr (ov, cv))"

section \<open>Class name files\<close>

lemma text_lines_joined:
  assumes "list_all (\<lambda>l. CHR 0x0A \<notin> set l) ls"
  shows "text_lines (concat (map (\<lambda>l. l @ [CHR 0x0A]) ls)) = ls"
  using assms by (induction ls) (simp_all add: text_lines_line)

text \<open>
  A class names file gives back the names it lists, one per line, with line feeds or with
  carriage return and line feed at the ends of its lines.
\<close>

theorem class_names_roundtrip:
  assumes "eol = [CHR 0x0A] \<or> eol = [CHR 0x0D, CHR 0x0A]"
    and "list_all (\<lambda>n. n \<noteq> [] \<and> CHR 0x0A \<notin> set n \<and> List.last n \<noteq> CHR 0x0D) names"
    and "files path = Some (concat (map (\<lambda>n. n @ eol) names))"
  shows "load_class_names files path = Inr names"
proof -
  obtain cr where eol: "eol = cr @ [CHR 0x0A]" "cr = [] \<or> cr = [CHR 0x0D]" using assms(1) by auto
  have "concat (map (\<lambda>n. n @ eol) names) = concat (map (\<lambda>l. l @ [CHR 0x0A]) (map (\<lambda>n. n @ cr) names))"
    by (simp add: eol(1) comp_def)
  moreover have "list_all (\<lambda>l. CHR 0x0A \<notin> set l) (map (\<lambda>n. n @ cr) names)" using assms(2) eol(2) by (auto simp: list_all_iff)
  ultimately have lines: "text_lines (concat (map (\<lambda>n. n @ eol) names)) = map (\<lambda>n. n @ cr) names"
    by (simp only: text_lines_joined)
  have "filter (\<lambda>l. l \<noteq> []) (map (\<lambda>l. if l \<noteq> [] \<and> List.last l = CHR 0x0D then butlast l else l) (map (\<lambda>n. n @ cr) names)) = names"
    using assms(2) eol(2) by (induction names) auto
  then show ?thesis by (simp add: load_class_names_def assms(3) lines)
qed

theorem class_names_roundtrip_witness:
  "load_class_names (\<lambda>_. Some (''cat'' @ [CHR 0x0D, CHR 0x0A] @ ''hot dog'' @ [CHR 0x0D, CHR 0x0A])) ''names.txt'' = Inr [''cat'', ''hot dog'']"
  using class_names_roundtrip [of "[CHR 0x0D, CHR 0x0A]" "[''cat'', ''hot dog'']"] by simp

section \<open>Trails\<close>

text \<open>The hash map and its companion \<open>last_seen_\<close> have the same keys.\<close>

definition trails_ok :: "overlay \<Rightarrow> bool" where
  "trails_ok ov \<longleftrightarrow> distinct (map fst (ov_trails ov)) \<and> dom (map_of (ov_trails ov)) = dom (map_of (ov_last_seen ov))"

text \<open>What the renderer knows of a track: its points and when it was seen.\<close>

definition trail_view :: "overlay \<Rightarrow> int \<Rightarrow> (point list \<times> u64) option" where
  "trail_view ov k = map_option (\<lambda>ps. (ps, the (map_of (ov_last_seen ov) k))) (map_of (ov_trails ov) k)"

text \<open>The same knowledge after a frame, computed for one track alone.\<close>

definition see_object :: "rounding \<Rightarrow> u64 \<Rightarrow> u64 \<Rightarrow> int \<Rightarrow> tracked_object \<Rightarrow> (point list \<times> u64) option \<Rightarrow> (point list \<times> u64) option" where
  "see_object r n seq k tr st =
     (if obj_track_id tr = k
      then Some (push_trail n (to_point (box_center_x r (obj_box tr)) (box_y2 (obj_box tr))) (case st of None \<Rightarrow> [] | Some (ps, _) \<Rightarrow> ps), seq)
      else st)"

definition forget_old :: "u64 \<Rightarrow> (point list \<times> u64) option \<Rightarrow> (point list \<times> u64) option" where
  "forget_old seq st = (case st of None \<Rightarrow> None | Some (ps, seen) \<Rightarrow> if seen + 30 < seq then None else st)"

definition trail_after :: "rounding \<Rightarrow> u64 \<Rightarrow> int \<Rightarrow> frame \<Rightarrow> (point list \<times> u64) option \<Rightarrow> (point list \<times> u64) option" where
  "trail_after r n k f st = forget_old (sequence f) (fold (see_object r n (sequence f) k) (tracks f) st)"

lemma extend_trail_view:
  assumes "trails_ok ov"
  shows "trails_ok (extend_trail r seq tr ov)" "ov_options (extend_trail r seq tr ov) = ov_options ov"
    and "trail_view (extend_trail r seq tr ov) k = see_object r (opt_trail_length (ov_options ov)) seq k tr (trail_view ov k)"
  using assms
  by (auto simp: trails_ok_def extend_trail_def trail_view_def see_object_def Let_def distinct_update update_conv' split: option.splits)

lemma extend_trails_view:
  assumes "trails_ok ov"
  shows "trails_ok (fold (extend_trail r seq) trs ov) \<and> ov_options (fold (extend_trail r seq) trs ov) = ov_options ov \<and>
    trail_view (fold (extend_trail r seq) trs ov) k = fold (see_object r (opt_trail_length (ov_options ov)) seq k) trs (trail_view ov k)"
  using assms by (induction trs arbitrary: ov) (simp_all add: extend_trail_view)

lemma render_tracks_state:
  "opt_draw_trails (ov_options ov) \<Longrightarrow> fst (fold (render_track r d dr seq) trs (ov, cv)) = fold (extend_trail r seq) trs ov"
proof (induction trs arbitrary: ov cv)
  case (Cons tr trs)
  have "ov_options (extend_trail r seq tr ov) = ov_options ov" by (simp add: extend_trail_def Let_def)
  then show ?case using Cons by (simp add: render_track_def Let_def)
qed simp

lemma visit_trail_view:
  assumes "trails_ok ov" "key \<in> dom (map_of (ov_trails ov))" "visit_trail d dr seq key (ov, cv) = (ov', cv')"
  shows "trails_ok ov'" "trail_view ov' k = (if k = key then forget_old seq (trail_view ov k) else trail_view ov k)"
    "ov_options ov' = ov_options ov"
proof -
  have "key \<in> dom (map_of (ov_last_seen ov))" using assms(1,2) by (simp add: trails_ok_def)
  then obtain seen where s: "map_of (ov_last_seen ov) key = Some seen" by blast
  obtain ps where p: "map_of (ov_trails ov) key = Some ps" using assms(2) by blast
  have st: "ov' = (if seen + 30 < seq
      then ov\<lparr>ov_last_seen := AList.delete key (AList.update key seen (ov_last_seen ov)), ov_trails := AList.delete key (ov_trails ov)\<rparr>
      else ov\<lparr>ov_last_seen := AList.update key seen (ov_last_seen ov)\<rparr>)"
    using assms(3) s by (auto simp: visit_trail_def Let_def split: if_splits)
  show "trails_ok ov'"
    using assms(1) s unfolding st by (auto simp: trails_ok_def distinct_delete delete_conv' update_conv')
  show "trail_view ov' k = (if k = key then forget_old seq (trail_view ov k) else trail_view ov k)"
    using s p unfolding st by (auto simp: trail_view_def forget_old_def delete_conv' update_conv')
  show "ov_options ov' = ov_options ov" unfolding st by simp
qed

lemma visit_trails_view:
  assumes "trails_ok ov" "distinct keys" "set keys \<subseteq> dom (map_of (ov_trails ov))" "fold (visit_trail d dr seq) keys (ov, cv) = (ov', cv')"
  shows "trails_ok ov' \<and> ov_options ov' = ov_options ov \<and>
    trail_view ov' k = (if k \<in> set keys then forget_old seq (trail_view ov k) else trail_view ov k)"
  using assms
proof (induction keys arbitrary: ov cv)
  case (Cons key keys)
  obtain ov1 cv1 where v: "visit_trail d dr seq key (ov, cv) = (ov1, cv1)" by (cases "visit_trail d dr seq key (ov, cv)") auto
  have key: "key \<in> dom (map_of (ov_trails ov))" using Cons.prems(3) by simp
  note V = visit_trail_view [OF Cons.prems(1) key v]
  have seen: "j \<in> dom (map_of (ov_trails w)) \<longleftrightarrow> trail_view w j \<noteq> None" for j w by (auto simp: trail_view_def)
  have "set keys \<subseteq> dom (map_of (ov_trails ov1))"
  proof
    fix j assume "j \<in> set keys"
    then have "j \<noteq> key" "j \<in> dom (map_of (ov_trails ov))" using Cons.prems(2,3) by auto
    then show "j \<in> dom (map_of (ov_trails ov1))" using V(2) [of j] seen by simp
  qed
  from Cons.IH [OF V(1) _ this] have "trails_ok ov' \<and> ov_options ov' = ov_options ov1 \<and>
      trail_view ov' k = (if k \<in> set keys then forget_old seq (trail_view ov1 k) else trail_view ov1 k)"
    using Cons.prems(2,4) v by simp
  then show ?case using V Cons.prems(2) by auto
qed simp

lemma update_telemetry_keeps:
  "ov_trails (update_telemetry d t metrics f ov) = ov_trails ov"
  "ov_last_seen (update_telemetry d t metrics f ov) = ov_last_seen ov"
  "ov_options (update_telemetry d t metrics f ov) = ov_options ov"
  "length (ov_hud_lines (update_telemetry d t metrics f ov)) \<in> {length (ov_hud_lines ov), 4}"
  by (simp_all add: update_telemetry_def Let_def split: option.split)

definition permutes_keys :: "(int list \<Rightarrow> int list) \<Rightarrow> bool" where
  "permutes_keys order \<longleftrightarrow> (\<forall>ks. mset (order ks) = mset ks)"

lemma render_frame_trails:
  assumes "trails_ok ov" "opt_draw_trails (ov_options ov)" "permutes_keys order"
    and "render_frame r d dr order t metrics f ov cv = Inr (ov', cv')"
  shows "trails_ok ov'" "ov_options ov' = ov_options ov"
    "trail_view ov' k = trail_after r (opt_trail_length (ov_options ov)) k f (trail_view ov k)"
proof -
  let ?ov1 = "update_telemetry d t metrics f ov"
  have 1: "trails_ok ?ov1" "ov_options ?ov1 = ov_options ov" "trail_view ?ov1 k = trail_view ov k"
    using assms(1) by (simp_all add: trails_ok_def trail_view_def update_telemetry_keeps)
  define boxes where "boxes = (if tracks f \<noteq> [] then fold (render_track r d dr (sequence f)) (tracks f) (?ov1, cv)
      else (?ov1, fold (render_detection d dr ?ov1) (detections f) cv))"
  obtain ov2 cv2 where b: "boxes = (ov2, cv2)" by (cases boxes)
  have "ov2 = fold (extend_trail r (sequence f)) (tracks f) ?ov1"
  proof (cases "tracks f = []")
    case False
    then show ?thesis
      using b render_tracks_state [of ?ov1 r d dr "sequence f" "tracks f" cv] 1(2) assms(2) by (simp add: boxes_def)
  qed (use b in \<open>simp add: boxes_def\<close>)
  then have 2: "trails_ok ov2" "ov_options ov2 = ov_options ov"
    "trail_view ov2 k = fold (see_object r (opt_trail_length (ov_options ov)) (sequence f) k) (tracks f) (trail_view ov k)"
    using extend_trails_view [OF 1(1), of r "sequence f" "tracks f" k] 1(2,3) by simp_all
  let ?keys = "order (map fst (ov_trails ov2))"
  obtain ov3 cv3 where v: "fold (visit_trail d dr (sequence f)) ?keys (ov2, cv2) = (ov3, cv3)"
    by (cases "fold (visit_trail d dr (sequence f)) ?keys (ov2, cv2)")
  have keys: "distinct ?keys" "set ?keys = dom (map_of (ov_trails ov2))"
  proof -
    have m: "mset ?keys = mset (map fst (ov_trails ov2))" using assms(3) by (simp add: permutes_keys_def)
    show "distinct ?keys" using 2(1) mset_eq_imp_distinct_iff [OF m] by (simp add: trails_ok_def)
    show "set ?keys = dom (map_of (ov_trails ov2))" using mset_eq_setD [OF m] by (simp add: dom_map_of_conv_image_fst)
  qed
  have 3: "trails_ok ov3 \<and> ov_options ov3 = ov_options ov2 \<and>
      trail_view ov3 k = (if k \<in> set ?keys then forget_old (sequence f) (trail_view ov2 k) else trail_view ov2 k)"
    by (rule visit_trails_view [OF 2(1) keys(1) _ v]) (simp add: keys(2))
  have "trail_view ov2 k = None" if "k \<notin> set ?keys" using that keys(2) by (auto simp: trail_view_def)
  then have view: "trail_view ov3 k = forget_old (sequence f) (trail_view ov2 k)" using 3 by (auto simp: forget_old_def)
  have "ov' = ov3"
    using assms(2,4) b v 2(2) unfolding render_frame_def boxes_def [symmetric] Let_def
    by (auto simp: bind_result_Inr_iff split: if_splits)
  then show "trails_ok ov'" "ov_options ov' = ov_options ov"
    "trail_view ov' k = trail_after r (opt_trail_length (ov_options ov)) k f (trail_view ov k)"
    using 3 2 view by (simp_all add: trail_after_def)
qed

text \<open>Frames rendered one after the other; \<open>(t, m, cv)\<close> is the time, the metrics and the canvas of each.\<close>

fun render_all ::
  "rounding \<Rightarrow> rounding \<Rightarrow> drawing \<Rightarrow> (int list \<Rightarrow> int list) \<Rightarrow> (int \<times> pipeline_metrics option \<times> canvas \<times> frame) list \<Rightarrow> overlay \<Rightarrow>
   takt_error + overlay"
where
  "render_all r d dr order [] ov = Inr ov"
| "render_all r d dr order ((t, m, cv, f) # fs) ov =
     bind_result (render_frame r d dr order t m f ov cv) (\<lambda>(ov, cv). render_all r d dr order fs ov)"

lemma render_all_trails:
  assumes "trails_ok ov" "opt_draw_trails (ov_options ov)" "permutes_keys order" "render_all r d dr order fs ov = Inr ov'"
  shows "trails_ok ov' \<and> trail_view ov' k =
    fold (\<lambda>(_, _, _, f). trail_after r (opt_trail_length (ov_options ov)) k f) fs (trail_view ov k)"
  using assms
proof (induction fs arbitrary: ov)
  case (Cons x fs)
  obtain t m cv f where x: "x = (t, m, cv, f)" by (cases x)
  obtain ov1 cv1 where r: "render_frame r d dr order t m f ov cv = Inr (ov1, cv1)" "render_all r d dr order fs ov1 = Inr ov'"
    using Cons.prems(4) by (auto simp: x bind_result_Inr_iff)
  note R = render_frame_trails [OF Cons.prems(1-3) r(1)]
  show ?case using Cons.IH [OF R(1) _ Cons.prems(3) r(2)] R Cons.prems(2) x by simp
qed simp

text \<open>The points kept are never more than the option allows.\<close>

lemma length_push_trail: "length (push_trail n p ps) \<le> unat n"
  by (simp add: push_trail_def Let_def)

lemma trail_after_short:
  assumes "case st of None \<Rightarrow> True | Some (ps, _) \<Rightarrow> length ps \<le> unat n"
  shows "case trail_after r n k f st of None \<Rightarrow> True | Some (ps, seen) \<Rightarrow> length ps \<le> unat n \<and> \<not> seen + 30 < sequence f"
proof -
  have "case fold (see_object r n seq k) trs st of None \<Rightarrow> True | Some (ps, _) \<Rightarrow> length ps \<le> unat n" for trs seq
    using assms
  proof (induction trs arbitrary: st)
    case (Cons tr trs)
    have "case see_object r n seq k tr st of None \<Rightarrow> True | Some (ps, _) \<Rightarrow> length ps \<le> unat n"
      using Cons.prems length_push_trail by (auto simp: see_object_def)
    then show ?case using Cons.IH by simp
  qed simp
  from this [of "sequence f" "tracks f"] show ?thesis
    by (auto simp: trail_after_def forget_old_def split: option.splits)
qed

text \<open>
  C26: the motion trails do not depend on the order in which the hash map is visited. From the start
  of a run, whatever an earlier run left behind, the trail of a track is the one computed for that
  track alone: its last bottom centres, at most \<open>trail_length\<close> of them, forgotten once a frame
  comes more than 30 frames after the last one that showed it.
\<close>

theorem overlay_trails:
  assumes "permutes_keys order" "ov_options ov0 = opts" "opt_draw_trails opts"
    and "render_all r d dr order fs (overlay_on_start info ov0) = Inr ov"
  shows "map_of (ov_trails ov) k =
      map_option fst (fold (\<lambda>(_, _, _, f). trail_after r (opt_trail_length opts) k f) fs None) \<and>
    distinct (map fst (ov_trails ov)) \<and> list_all (\<lambda>(_, ps). length ps \<le> unat (opt_trail_length opts)) (ov_trails ov)"
proof -
  let ?n = "opt_trail_length opts" and ?ov = "overlay_on_start info ov0"
  have start: "trails_ok ?ov" "ov_options ?ov = opts" "trail_view ?ov j = None" for j
    using assms(2) by (simp_all add: overlay_on_start_def trails_ok_def trail_view_def)
  have R: "trails_ok ov \<and> trail_view ov j = fold (\<lambda>(_, _, _, f). trail_after r ?n j f) fs None" for j
    using render_all_trails [OF start(1) _ assms(1,4), of j] start(2,3) assms(3) by simp
  have short: "case fold (\<lambda>(_, _, _, f). trail_after r ?n j f) fs st of None \<Rightarrow> True | Some (ps, _) \<Rightarrow> length ps \<le> unat ?n"
    if "case st of None \<Rightarrow> True | Some (ps, _) \<Rightarrow> length ps \<le> unat ?n" for j st
    using that
  proof (induction fs arbitrary: st)
    case (Cons x fs)
    obtain t m cv f where x: "x = (t, m, cv, f)" by (cases x)
    have "case trail_after r ?n j f st of None \<Rightarrow> True | Some (ps, _) \<Rightarrow> length ps \<le> unat ?n"
      using trail_after_short [OF Cons.prems, where r = r and k = j and f = f] by (auto split: option.splits)
    then show ?case using Cons.IH x by simp
  qed simp
  have "length ps \<le> unat ?n" if m: "map_of (ov_trails ov) j = Some ps" for j ps
  proof -
    obtain seen where "fold (\<lambda>(_, _, _, f). trail_after r ?n j f) fs None = Some (ps, seen)"
      using R [of j] m by (auto simp: trail_view_def intro: sym)
    then show ?thesis using short [of None j] by simp
  qed
  moreover have "distinct (map fst (ov_trails ov))" using R by (simp add: trails_ok_def)
  moreover have "map_of (ov_trails ov) k = map_option fst (trail_view ov k)"
    by (cases "map_of (ov_trails ov) k") (simp_all add: trail_view_def)
  ultimately show ?thesis using R [of k] by (auto simp: list_all_iff map_of_eq_Some_iff)
qed

section \<open>The telemetry panel\<close>

lemma hud_extent:
  assumes "double_rounding d" "0 \<le> rows" "rows < 2 ^ 31" "c \<le> (640 :: nat)"
  shows "0 \<le> to_int32 (lround (fdiv d (fmul d (real c) (max (d (36 / 100)) (fdiv d (of_int rows) 1500))) (d (55 / 100))))"
proof -
  have p: "precise_rounding d 53 1022" using assms(1) by (simp add: double_rounding_def)
  then have f: "float_rounding d" by (simp add: precise_rounding_def)
  note nonneg = float_rounding.nonneg [OF f] and le = float_rounding.le_rounded [OF f] and exact = precise_rounding.exact_nat [OF p]
  let ?s = "max (d (36 / 100)) (d (of_int rows / 1500))"
  have s: "0 \<le> ?s" using nonneg [of "36 / 100"] by simp
  have "d (36 / 100) \<le> 1" using float_rounding.le_one [OF f] by simp
  moreover have "d (of_int rows / 1500) \<le> real 1431656"
    by (rule le) (use assms(3) exact [of 1431656] in simp_all)
  ultimately have s_up: "?s \<le> 1431656" by simp
  have "real c * ?s \<le> 640 * 1431656" by (rule mult_mono) (use assms(4) s s_up in simp_all)
  then have "d (real c * ?s) \<le> real 916259840" by (intro le) (use exact [of 916259840] in simp_all)
  then have num: "0 \<le> d (real c * ?s)" "d (real c * ?s) \<le> 916259840" using nonneg s by simp_all
  have "\<bar>d (55 / 100) - 55 / 100\<bar> \<le> \<bar>55 / 100\<bar> / 2 ^ 53 + 2 / 2 ^ 1022" by (rule precise_rounding.abs_error [OF p])
  also have "\<dots> \<le> (1 / 100 :: real)" by simp
  finally have den: "1 / 2 \<le> d (55 / 100)" unfolding abs_le_iff by linarith
  have "d (real c * ?s) / d (55 / 100) \<le> 916259840 / (1 / 2)" by (rule frac_le) (use num den in simp_all)
  then have "d (d (real c * ?s) / d (55 / 100)) \<le> real 1832519680" by (intro le) (use exact [of 1832519680] in simp_all)
  moreover have "0 \<le> d (d (real c * ?s) / d (55 / 100))" using nonneg num den by simp
  ultimately have "0 \<le> lround (d (d (real c * ?s) / d (55 / 100)))" "lround (d (d (real c * ?s) / d (55 / 100))) \<le> 1832519680"
    by (simp_all add: lround_def floor_le_iff)
  then show ?thesis by (simp add: fops to_int32_def)
qed

lemma drawn_draw [simp]: "drawn (draw c cv) = drawn cv @ [c]"
  by (simp add: draw_def)

lemma drawn_lines:
  "\<exists>rest. drawn (snd (fold (\<lambda>line (y, cv). (y + lh, draw (Put_text line (12, y) s c) cv)) ls (y, cv))) = drawn cv @ rest"
proof (induction ls arbitrary: y cv)
  case (Cons l ls)
  from Cons.IH [of "y + lh" "draw (Put_text l (12, y) s c) cv"] show ?case by (auto simp del: fold_simps simp: fold.simps)
qed simp

lemma drawn_bars:
  "\<exists>rest. drawn (snd (fold (draw_bar d bw y0 bh sp ov) is (x, cv))) = drawn cv @ rest"
proof (induction "is" arbitrary: x cv)
  case (Cons i "is")
  obtain x' cv' where b: "draw_bar d bw y0 bh sp ov i (x, cv) = (x', cv')" by (cases "draw_bar d bw y0 bh sp ov i (x, cv)")
  then have "\<exists>rest. drawn cv' = drawn cv @ rest" by (auto simp: draw_bar_def Let_def split: if_splits)
  with Cons.IH [of x' cv'] b show ?case by auto
qed simp

lemma hud_fits:
  assumes "double_rounding d" "0 \<le> canvas_rows cv" "canvas_rows cv < 2 ^ 31" "0 \<le> canvas_cols cv"
  shows "\<exists>w h rest cv'. draw_hud d visible ov cv = Inr cv' \<and> drawn cv' = drawn cv @ Darken w h # rest \<and>
    0 \<le> w \<and> w \<le> canvas_cols cv \<and> 0 \<le> h \<and> h \<le> canvas_rows cv"
proof -
  define scale where "scale = max (d (36 / 100)) (fdiv d (of_int (canvas_rows cv)) 1500)"
  define lh where "lh = to_int32 (lround (fdiv d (fmul d 26 scale) (d (55 / 100))))"
  define pw where "pw = min (canvas_cols cv) (to_int32 (lround (fdiv d (fmul d 640 scale) (d (55 / 100)))))"
  define ph where "ph = min (canvas_rows cv) (lh * (int (length (ov_hud_lines ov)) + 1) + lh div 2 + 16)"
  have "0 \<le> lh" using hud_extent [OF assms(1-3), of 26] by (simp add: lh_def scale_def)
  moreover have "0 \<le> to_int32 (lround (fdiv d (fmul d 640 scale) (d (55 / 100))))"
    using hud_extent [OF assms(1-3), of 640] by (simp add: scale_def)
  ultimately have region: "0 \<le> pw" "pw \<le> canvas_cols cv" "0 \<le> ph" "ph \<le> canvas_rows cv"
    using assms(2,4) by (simp_all add: pw_def ph_def)
  define cv1 where "cv1 = draw (Darken pw ph) cv"
  obtain y cv2 where lines: "fold (\<lambda>line (y, cv). (y + lh, draw (Put_text line (12, y) scale (240, 240, 240)) cv)) (ov_hud_lines ov) (lh, cv1) = (y, cv2)"
    by (cases "fold (\<lambda>line (y, cv). (y + lh, draw (Put_text line (12, y) scale (240, 240, 240)) cv)) (ov_hud_lines ov) (lh, cv1)")
  define cv3 where "cv3 = draw (Put_text (''objects '' @ show_nat visible) (12, y) scale (240, 240, 240)) cv2"
  define sp where "sp = foldl (fadd d) 0 (ov_stage_p50 ov)"
  define cv4 where "cv4 = (if sp \<le> 0 then cv3
    else snd (fold (draw_bar d (pw - 24) (y + 8) (lh div 2) sp ov) [0..<length (ov_stage_p50 ov)] (12, cv3)))"
  have hud: "draw_hud d visible ov cv = Inr cv4"
    using region lines unfolding draw_hud_def Let_def roi_def scale_def [symmetric] lh_def [symmetric] pw_def [symmetric]
      ph_def [symmetric] cv1_def [symmetric] cv4_def cv3_def sp_def
    by simp
  have "\<exists>rest4. drawn cv4 = drawn cv3 @ rest4"
    using drawn_bars [of d "pw - 24" "y + 8" "lh div 2" sp ov "[0..<length (ov_stage_p50 ov)]" 12 cv3] by (simp add: cv4_def)
  moreover obtain rest2 where "drawn cv2 = drawn cv1 @ rest2"
    using drawn_lines [of lh scale "(240, 240, 240)" "ov_hud_lines ov" lh cv1] lines by auto
  ultimately have "\<exists>rest. drawn cv4 = drawn cv @ Darken pw ph # rest" by (auto simp: cv1_def cv3_def)
  with hud region show ?thesis by blast
qed

definition canvas_size :: "canvas \<Rightarrow> int \<times> int" where
  "canvas_size cv = (canvas_rows cv, canvas_cols cv)"

lemma canvas_size_draw [simp]: "canvas_size (draw c cv) = canvas_size cv"
  by (simp add: canvas_size_def draw_def)

lemma canvas_size_object [simp]: "canvas_size (draw_object_box d dr b key txt cv) = canvas_size cv"
  by (simp add: draw_object_box_def draw_label_def Let_def split: prod.split)

lemma canvas_size_fold:
  assumes "\<And>x cv. canvas_size (g x cv) = canvas_size cv"
  shows "canvas_size (fold g xs cv) = canvas_size cv"
  using assms by (induction xs arbitrary: cv) simp_all

lemma canvas_size_fold_state:
  assumes "\<And>x ov cv. canvas_size (snd (g x (ov, cv))) = canvas_size cv"
  shows "canvas_size (snd (fold g xs (ov, cv))) = canvas_size cv"
proof (induction xs arbitrary: ov cv)
  case (Cons x xs)
  obtain ov1 cv1 where "g x (ov, cv) = (ov1, cv1)" by (cases "g x (ov, cv)")
  then show ?case using Cons.IH [of ov1 cv1] assms [of x ov cv] by simp
qed simp

lemma canvas_size_render_track: "canvas_size (snd (render_track r d dr seq tr (ov, cv))) = canvas_size cv"
  by (simp add: render_track_def Let_def)

lemma canvas_size_visit_trail: "canvas_size (snd (visit_trail d dr seq key (ov, cv))) = canvas_size cv"
  by (simp add: visit_trail_def Let_def canvas_size_fold)

lemma render_frame_total:
  assumes "double_rounding d" "0 \<le> canvas_rows cv" "canvas_rows cv < 2 ^ 31" "0 \<le> canvas_cols cv"
  shows "\<exists>ov' cv'. render_frame r d dr order t metrics f ov cv = Inr (ov', cv')"
proof -
  let ?ov1 = "update_telemetry d t metrics f ov"
  define boxes where "boxes = (if tracks f \<noteq> [] then fold (render_track r d dr (sequence f)) (tracks f) (?ov1, cv)
      else (?ov1, fold (render_detection d dr ?ov1) (detections f) cv))"
  obtain ov2 cv2 where b: "boxes = (ov2, cv2)" by (cases boxes)
  have "canvas_size (snd boxes) = canvas_size cv"
    by (simp add: boxes_def canvas_size_fold_state canvas_size_render_track canvas_size_fold render_detection_def)
  then have 2: "canvas_size cv2 = canvas_size cv" using b by simp
  define trails where "trails = (if opt_draw_trails (ov_options ov2)
      then fold (visit_trail d dr (sequence f)) (order (map fst (ov_trails ov2))) (ov2, cv2) else (ov2, cv2))"
  obtain ov3 cv3 where v: "trails = (ov3, cv3)" by (cases trails)
  have "canvas_size (snd trails) = canvas_size cv2"
    by (simp add: trails_def canvas_size_fold_state canvas_size_visit_trail)
  then have 3: "canvas_rows cv3 = canvas_rows cv" "canvas_cols cv3 = canvas_cols cv"
    using 2 v by (simp_all add: canvas_size_def)
  let ?n = "if tracks f \<noteq> [] then length (tracks f) else length (detections f)"
  obtain cv4 where "draw_hud d ?n ov3 cv3 = Inr cv4" using hud_fits [OF assms(1), of cv3 ?n ov3] assms(2-4) 3 by auto
  then show ?thesis
    using b v unfolding render_frame_def boxes_def [symmetric] Let_def by (auto simp: trails_def)
qed

text \<open>
  Rendering throws nothing, on canvases of any size OpenCV can have: the region that is darkened
  for the telemetry panel is always inside the canvas, however small the canvas or large the panel.
\<close>

theorem render_total:
  assumes "double_rounding d"
    and "list_all (\<lambda>(_, _, cv, _). 0 \<le> canvas_rows cv \<and> canvas_rows cv < 2 ^ 31 \<and> 0 \<le> canvas_cols cv) fs"
  shows "\<exists>ov'. render_all r d dr order fs ov = Inr ov'"
  using assms(2)
proof (induction fs arbitrary: ov)
  case (Cons x fs)
  obtain t m cv f where x: "x = (t, m, cv, f)" by (cases x)
  obtain ov1 cv1 where "render_frame r d dr order t m f ov cv = Inr (ov1, cv1)"
    using render_frame_total [OF assms(1), of cv r dr order t m f ov] Cons.prems x by auto
  then show ?case using Cons x by simp
qed simp

text \<open>One track in the first frame, nothing in a frame 31 later.\<close>

definition seen_track :: tracked_object where
  "seen_track = \<lparr>obj_track_id = 5, obj_box = \<lparr>box_x1 = 2, box_y1 = 2, box_x2 = 6, box_y2 = 8\<rparr>, obj_score = 1, obj_class = 0, obj_age_frames = 1\<rparr>"

definition plain_drawing :: drawing where
  "plain_drawing = \<lparr>text_size = (\<lambda>s _. (int (length s) * 8, 10, 3)), hue_to_bgr = (\<lambda>_. (0, 0, 0))\<rparr>"

definition two_rendered :: "u64 \<Rightarrow> (int \<times> pipeline_metrics option \<times> canvas \<times> frame) list" where
  "two_rendered n =
     [(7, None, \<lparr>canvas_rows = 9, canvas_cols = 9, drawn = []\<rparr>, empty_frame\<lparr>tracks := [seen_track], sequence := 1\<rparr>),
      (8, Some empty_metrics, \<lparr>canvas_rows = 1, canvas_cols = 3, drawn = []\<rparr>, empty_frame\<lparr>sequence := n\<rparr>)]"

theorem render_total_witness:
  "\<exists>ov'. render_all round32 round64 plain_drawing rev (two_rendered 31) (make_overlay default_overlay_options) = Inr ov'"
  by (rule render_total) (use f64.double_rounding_axioms in \<open>simp_all add: two_rendered_def\<close>)

lemma two_rendered_run: "\<exists>ov. render_all exact_rounding exact_rounding plain_drawing rev (two_rendered n) ov0 = Inr ov"
proof -
  have d: "double_rounding exact_rounding" by (rule exact64.double_rounding_axioms)
  let ?cv = "\<lambda>a b. \<lparr>canvas_rows = a, canvas_cols = b, drawn = []\<rparr>"
  obtain ov1 cv1 where 1: "render_frame exact_rounding exact_rounding plain_drawing rev 7 None
      (empty_frame\<lparr>tracks := [seen_track], sequence := 1\<rparr>) ov0 (?cv 9 9) = Inr (ov1, cv1)"
    using render_frame_total [OF d, of "?cv 9 9" exact_rounding plain_drawing rev 7 None] by fastforce
  obtain ov2 cv2 where 2: "render_frame exact_rounding exact_rounding plain_drawing rev 8 (Some empty_metrics)
      (empty_frame\<lparr>sequence := n\<rparr>) ov1 (?cv 1 3) = Inr (ov2, cv2)"
    using render_frame_total [OF d, of "?cv 1 3" exact_rounding plain_drawing rev 8 "Some empty_metrics"] by fastforce
  show ?thesis by (simp add: two_rendered_def 1 2)
qed

theorem overlay_trails_witness:
  "\<exists>ov ov'. render_all exact_rounding exact_rounding plain_drawing rev (two_rendered 31) (overlay_on_start no_info (make_overlay default_overlay_options)) = Inr ov \<and>
    map_of (ov_trails ov) 5 = Some [(4, 8)] \<and>
    render_all exact_rounding exact_rounding plain_drawing rev (two_rendered 32) (overlay_on_start no_info (make_overlay default_overlay_options)) = Inr ov' \<and>
    map_of (ov_trails ov') 5 = None"
proof -
  let ?start = "overlay_on_start no_info (make_overlay default_overlay_options)"
  obtain ov where 31: "render_all exact_rounding exact_rounding plain_drawing rev (two_rendered 31) ?start = Inr ov"
    using two_rendered_run by blast
  obtain ov' where 32: "render_all exact_rounding exact_rounding plain_drawing rev (two_rendered 32) ?start = Inr ov'"
    using two_rendered_run by blast
  have perm: "permutes_keys rev" by (simp add: permutes_keys_def)
  note facts = two_rendered_def trail_after_def see_object_def forget_old_def seen_track_def push_trail_def to_point_def
    box_center_x_def fops lround_def to_int32_def default_overlay_options_def make_overlay_def empty_frame_def Let_def
  have "map_of (ov_trails ov) 5 = Some [(4, 8)]"
    using overlay_trails [OF perm refl _ 31, of 5] by (simp add: facts)
  moreover have "map_of (ov_trails ov') 5 = None"
    using overlay_trails [OF perm refl _ 32, of 5] by (simp add: facts)
  ultimately show ?thesis using 31 32 by blast
qed

end
