(* ===== verification/CameraSource.thy ===== *)
theory CameraSource
  imports Sources
begin

text \<open>
  \<open>src/io/opencv_source.cpp\<close>: cameras, video files, streams and still images behind \<open>FrameSource\<close>.
  OpenCV is an argument: the record \<open>opencv\<close> holds the calls the source makes, with the state \<open>'c\<close>
  of a \<open>cv::VideoCapture\<close>. A \<open>cv::Mat\<close> is its type and its rows of bytes. Paths are POSIX paths.
\<close>

section \<open>Kinds of URIs\<close>

definition is_camera_index :: "string \<Rightarrow> bool" where
  "is_camera_index uri \<longleftrightarrow> uri \<noteq> [] \<and> list_all is_digit uri"

text \<open>\<open>std::tolower\<close> in the C locale.\<close>

definition to_lower :: "char \<Rightarrow> char" where
  "to_lower c = (if 65 \<le> (of_char c :: nat) \<and> (of_char c :: nat) \<le> 90 then char_of ((of_char c :: nat) + 32) else c)"

text \<open>\<open>path::filename\<close> and \<open>path::extension\<close>: a leading dot does not start an extension.\<close>

definition path_filename :: "string \<Rightarrow> string" where
  "path_filename p = rev (takeWhile (\<lambda>c. c \<noteq> CHR ''/'') (rev p))"

definition path_extension :: "string \<Rightarrow> string" where
  "path_extension p =
     (let name = path_filename p; ext = takeWhile (\<lambda>c. c \<noteq> CHR ''.'') (rev name); stem = drop (length ext + 1) (rev name)
      in if name = ''..'' \<or> CHR ''.'' \<notin> set name \<or> stem = [] then [] else CHR ''.'' # rev ext)"

definition is_still_image :: "string \<Rightarrow> bool" where
  "is_still_image uri =
     (map to_lower (path_extension uri) \<in> {''.jpg'', ''.jpeg'', ''.png'', ''.bmp'', ''.tif'', ''.tiff'', ''.webp''})"

section \<open>Pictures of OpenCV\<close>

datatype mat_kind = CV_8UC1 | CV_8UC3 | CV_8UC4 | Other_kind

record mat =
  mat_rows :: int
  mat_cols :: int
  mat_type :: mat_kind
  mat_data :: "u8 list list"

definition mat_empty :: "mat \<Rightarrow> bool" where
  "mat_empty m \<longleftrightarrow> mat_rows m \<le> 0 \<or> mat_cols m \<le> 0"

definition no_mat :: mat where
  "no_mat = \<lparr>mat_rows = 0, mat_cols = 0, mat_type = CV_8UC1, mat_data = []\<rparr>"

record 'c opencv =
  cv_imread :: "string \<Rightarrow> mat"
  cv_no_capture :: 'c
  cv_open_camera :: "int \<Rightarrow> 'c"
  cv_open_gstreamer :: "string \<Rightarrow> 'c"
  cv_open :: "string \<Rightarrow> 'c"
  cv_set_width :: "int \<Rightarrow> 'c \<Rightarrow> 'c"
  cv_set_height :: "int \<Rightarrow> 'c \<Rightarrow> 'c"
  cv_is_opened :: "'c \<Rightarrow> bool"
  cv_fps :: "'c \<Rightarrow> real"
  cv_read :: "'c \<Rightarrow> mat \<Rightarrow> bool \<times> mat \<times> 'c"
  cv_rewind :: "'c \<Rightarrow> 'c"
  cv_gray_to_bgr :: "mat \<Rightarrow> mat"
  cv_bgra_to_bgr :: "mat \<Rightarrow> mat"

text \<open>\<open>memcpy\<close> of \<open>bs\<close> to offset \<open>i\<close>.\<close>

definition write_bytes :: "nat \<Rightarrow> u8 list \<Rightarrow> u8 list \<Rightarrow> u8 list" where
  "write_bytes i bs buf = take i buf @ bs @ drop (i + length bs) buf"

definition copy_rows :: "mat \<Rightarrow> image \<Rightarrow> image" where
  "copy_rows bgr img =
     img\<lparr>image_buffer := fold (\<lambda>y. write_bytes (image_row img y) (take (nat (mat_cols bgr) * 3) (mat_data bgr ! nat y)))
            [0..mat_rows bgr - 1] (image_buffer img)\<rparr>"

definition copy_to_image :: "'c opencv \<Rightarrow> mat \<Rightarrow> image \<Rightarrow> takt_error + image" where
  "copy_to_image cv m img =
     bind_result
       (if mat_type m = CV_8UC1 then Inr (cv_gray_to_bgr cv m)
        else if mat_type m = CV_8UC4 then Inr (cv_bgra_to_bgr cv m)
        else if mat_type m \<noteq> CV_8UC3 then Inl (Runtime_error ''OpenCvSource: unsupported pixel type'')
        else Inr m) (\<lambda>bgr.
     bind_result (reshape (mat_cols bgr) (mat_rows bgr) kBgr8 img) (\<lambda>img. Inr (copy_rows bgr img)))"

section \<open>The source\<close>

record opencv_options =
  opt_uri :: string
  opt_realtime :: bool
  opt_loop :: bool
  opt_request_width :: int
  opt_request_height :: int

definition default_opencv_options :: opencv_options where
  "default_opencv_options = \<lparr>opt_uri = ''0'', opt_realtime = True, opt_loop = False, opt_request_width = 0, opt_request_height = 0\<rparr>"

record 'c opencv_source =
  cam_options :: opencv_options
  cam_capture :: 'c
  cam_still :: mat
  cam_frame :: mat
  cam_is_still :: bool
  cam_still_delivered :: bool
  cam_is_camera :: bool
  cam_fps :: real
  cam_period :: int
  cam_next_deadline :: int
  cam_frames_read :: u64

text \<open>\<open>std::stoi\<close> on digits: numbers above the largest \<open>int\<close> throw.\<close>

definition stoi_digits :: "string \<Rightarrow> takt_error + int" where
  "stoi_digits s = (if int (read_nat s) \<le> 2147483647 then Inr (int (read_nat s)) else Inl (Out_of_range ''stoi''))"

definition open_capture :: "'c opencv \<Rightarrow> opencv_options \<Rightarrow> takt_error + bool \<times> 'c" where
  "open_capture cv opts =
     (let uri = opt_uri opts
      in if is_camera_index uri
         then bind_result (stoi_digits uri) (\<lambda>n.
                let c = cv_open_camera cv n;
                    c = (if 0 < opt_request_width opts then cv_set_width cv (opt_request_width opts) c else c);
                    c = (if 0 < opt_request_height opts then cv_set_height cv (opt_request_height opts) c else c)
                in Inr (True, c))
         else if CHR ''!'' \<in> set uri then Inr (False, cv_open_gstreamer cv uri)
         else Inr (False, cv_open cv uri))"

definition make_opencv_source :: "rounding \<Rightarrow> 'c opencv \<Rightarrow> opencv_options \<Rightarrow> takt_error + 'c opencv_source" where
  "make_opencv_source d cv opts =
     (let uri = opt_uri opts;
          fresh = \<lparr>cam_options = opts, cam_capture = cv_no_capture cv, cam_still = no_mat, cam_frame = no_mat,
            cam_is_still = False, cam_still_delivered = False, cam_is_camera = False, cam_fps = 0, cam_period = 0,
            cam_next_deadline = 0, cam_frames_read = 0\<rparr>
      in if is_still_image uri
         then let m = cv_imread cv uri
              in if mat_empty m then Inl (Runtime_error (''OpenCvSource: cannot read image '' @ uri))
                 else Inr (fresh\<lparr>cam_still := m, cam_is_still := True\<rparr>)
         else bind_result (open_capture cv opts) (\<lambda>(camera, c).
                if \<not> cv_is_opened cv c then Inl (Runtime_error (''OpenCvSource: cannot open '' @ uri))
                else let f = cv_fps cv c;
                         fps = (if \<not> (0 < f \<and> f < 1000) then 30 else f);
                         period = (if \<not> camera \<and> opt_realtime opts then period_of_fps d fps else 0)
                     in Inr (fresh\<lparr>cam_capture := c, cam_is_camera := camera, cam_fps := fps, cam_period := period\<rparr>)))"

text \<open>One attempt to decode a frame.\<close>

definition next_frame :: "'c opencv \<Rightarrow> 'c opencv_source \<Rightarrow> bool \<times> 'c opencv_source" where
  "next_frame cv src =
     (let (ok, m, c) = cv_read cv (cam_capture src) (cam_frame src)
      in (ok \<and> \<not> mat_empty m, src\<lparr>cam_frame := m, cam_capture := c\<rparr>))"

definition opencv_read ::
  "'c opencv \<Rightarrow> int \<Rightarrow> image \<Rightarrow> 'c opencv_source \<Rightarrow> takt_error + bool \<times> image \<times> 'c opencv_source \<times> int option"
where
  "opencv_read cv t img src =
     (if cam_is_still src
      then if cam_still_delivered src \<and> \<not> opt_loop (cam_options src) then Inr (False, img, src, None)
           else bind_result (copy_to_image cv (cam_still src) img) (\<lambda>img.
                  Inr (True, img, src\<lparr>cam_still_delivered := True\<rparr>, None))
      else
        let (wake, src) =
              (if 0 < cam_period src
               then let (due, nxt) = pace (cam_period src) (cam_frames_read src = 0) t (cam_next_deadline src)
                    in (Some due, src\<lparr>cam_next_deadline := nxt\<rparr>)
               else (None, src));
            (ok, src) = next_frame cv src;
            (ok, src) =
              (if ok then (True, src)
               else if \<not> opt_loop (cam_options src) \<or> cam_is_camera src then (False, src)
               else next_frame cv (src\<lparr>cam_capture := cv_rewind cv (cam_capture src)\<rparr>))
        in if \<not> ok then Inr (False, img, src, wake)
           else bind_result (copy_to_image cv (cam_frame src) img) (\<lambda>img.
                  Inr (True, img, src\<lparr>cam_frames_read := cam_frames_read src + 1\<rparr>, wake)))"

definition opencv_describe :: "'c opencv_source \<Rightarrow> string" where
  "opencv_describe src =
     (if cam_is_still src
      then ''image '' @ opt_uri (cam_options src) @ '' ('' @ show_int (mat_cols (cam_still src)) @ ''x'' @
        show_int (mat_rows (cam_still src)) @ '')''
      else (if cam_is_camera src then ''camera'' else ''video'') @ '' '' @ opt_uri (cam_options src) @ '' @'' @
        show_fixed 1 (cam_fps src) @ ''fps'' @ (if 0 < cam_period src then '' (paced)'' else ''''))"

definition opencv_nominal_fps :: "'c opencv_source \<Rightarrow> real" where
  "opencv_nominal_fps src = (if cam_is_still src then 0 else cam_fps src)"

definition opencv_frame_source ::
  "'c opencv \<Rightarrow> (nat \<Rightarrow> int) \<Rightarrow> 'c opencv_source \<Rightarrow> ('c opencv_source \<times> nat) frame_source"
where
  "opencv_frame_source cv clk src =
     \<lparr>src_state = (src, 0),
      src_read = (\<lambda>(src, n) img. map_sum id (\<lambda>(got, img, src, _). (got, img, (src, n + 1))) (opencv_read cv (clk n) img src)),
      src_describe = (\<lambda>(src, _). opencv_describe src),
      src_nominal_fps = (\<lambda>(src, _). opencv_nominal_fps src)\<rparr>"

section \<open>Copying a picture\<close>

text \<open>A BGR picture whose rows are complete (they may be padded).\<close>

definition mat_ok :: "mat \<Rightarrow> bool" where
  "mat_ok m \<longleftrightarrow> 0 \<le> mat_rows m \<and> 0 \<le> mat_cols m \<and> length (mat_data m) = nat (mat_rows m) \<and>
     list_all (\<lambda>row. nat (mat_cols m) * 3 \<le> length row) (mat_data m)"

definition as_bgr :: "'c opencv \<Rightarrow> mat \<Rightarrow> mat" where
  "as_bgr cv m = (if mat_type m = CV_8UC1 then cv_gray_to_bgr cv m else if mat_type m = CV_8UC4 then cv_bgra_to_bgr cv m else m)"

definition mat_pixel :: "mat \<Rightarrow> int \<Rightarrow> int \<Rightarrow> u8 list" where
  "mat_pixel m x y = map (\<lambda>c. mat_data m ! nat y ! (3 * nat x + c)) [0..<3]"

lemma length_write_bytes: "i + length bs \<le> length buf \<Longrightarrow> length (write_bytes i bs buf) = length buf"
  by (simp add: write_bytes_def)

lemma nth_write_bytes:
  assumes "i + length bs \<le> length buf"
  shows "write_bytes i bs buf ! j = (if i \<le> j \<and> j < i + length bs then bs ! (j - i) else buf ! j)"
  using assms by (auto simp: write_bytes_def nth_append)

lemma nth_write_row:
  assumes "y < h" "h * w \<le> length buf" "length bs = w" "z < h" "k < w"
  shows "write_bytes (y * w) bs buf ! (z * w + k) = (if z = y then bs ! k else buf ! (z * w + k))"
proof -
  have fits: "y * w + length bs \<le> length buf"
    using mult_le_mono1 [of "Suc y" h w] assms(1-3) by simp
  consider "z < y" | "z = y" | "y < z" by linarith
  then show ?thesis
  proof cases
    case 1
    then have "Suc z * w \<le> y * w" by (intro mult_le_mono1) simp
    then show ?thesis using 1 assms(3,5) by (simp add: nth_write_bytes [OF fits])
  next
    case 2
    then show ?thesis using assms(3,5) by (simp add: nth_write_bytes [OF fits])
  next
    case 3
    then have "Suc y * w \<le> z * w" by (intro mult_le_mono1) simp
    then show ?thesis using 3 assms(3,5) by (simp add: nth_write_bytes [OF fits])
  qed
qed

lemma write_rows:
  assumes "h * w \<le> length buf" "\<And>y. y \<in> set ys \<Longrightarrow> y < h \<and> length (row y) = w"
  shows "length (fold (\<lambda>y. write_bytes (y * w) (row y)) ys buf) = length buf"
    and "z < h \<Longrightarrow> k < w \<Longrightarrow> fold (\<lambda>y. write_bytes (y * w) (row y)) ys buf ! (z * w + k) =
      (if z \<in> set ys then row z ! k else buf ! (z * w + k))"
proof -
  have "length (fold (\<lambda>y. write_bytes (y * w) (row y)) ys buf) = length buf \<and>
    (z < h \<and> k < w \<longrightarrow> fold (\<lambda>y. write_bytes (y * w) (row y)) ys buf ! (z * w + k) =
      (if z \<in> set ys then row z ! k else buf ! (z * w + k)))"
    using assms
  proof (induction ys arbitrary: buf)
    case (Cons y ys)
    have y: "y < h" "length (row y) = w" using Cons.prems(2) by simp_all
    have "y * w + w \<le> length buf" using mult_le_mono1 [of "Suc y" h w] y(1) Cons.prems(1) by simp
    then have len: "length (write_bytes (y * w) (row y) buf) = length buf" using y(2) by (intro length_write_bytes) simp
    show ?case
      using Cons.IH [of "write_bytes (y * w) (row y) buf"] Cons.prems nth_write_row [OF y(1) Cons.prems(1) y(2), of z k] len
      by auto
  qed simp
  then show "length (fold (\<lambda>y. write_bytes (y * w) (row y)) ys buf) = length buf"
    "z < h \<Longrightarrow> k < w \<Longrightarrow> fold (\<lambda>y. write_bytes (y * w) (row y)) ys buf ! (z * w + k) =
      (if z \<in> set ys then row z ! k else buf ! (z * w + k))" by simp_all
qed

lemma copy_rows_result:
  assumes m: "mat_ok m" and img: "image_ok img" "image_format img = kBgr8" "image_width img = mat_cols m" "image_height img = mat_rows m"
  shows "image_ok (copy_rows m img)"
    and "0 \<le> x \<Longrightarrow> x < mat_cols m \<Longrightarrow> 0 \<le> y \<Longrightarrow> y < mat_rows m \<Longrightarrow> pixel (copy_rows m img) x y = mat_pixel m x y"
proof -
  let ?h = "nat (mat_rows m)" and ?w = "nat (mat_cols m) * 3" and ?row = "\<lambda>y. take (nat (mat_cols m) * 3) (mat_data m ! y)"
  have dims: "0 \<le> mat_rows m" "0 \<le> mat_cols m" using m by (simp_all add: mat_ok_def)
  have off: "image_row img y = nat y * ?w" if "0 \<le> y" for y
    using that img dims by (simp add: image_row_def image_stride_def channel_count_def nat_mult_distrib)
  have "fold (\<lambda>y. write_bytes (image_row img y) (?row (nat y))) [0..mat_rows m - 1] =
      fold (\<lambda>y. write_bytes (y * ?w) (?row y)) (map nat [0..mat_rows m - 1])"
    unfolding fold_map comp_def by (rule ext, rule fold_cong) (use off in auto)
  moreover have "map nat [0..mat_rows m - 1] = [0..<?h]"
    using dims by (intro nth_equalityI) auto
  ultimately have buf: "image_buffer (copy_rows m img) = fold (\<lambda>y. write_bytes (y * ?w) (?row y)) [0..<?h] (image_buffer img)"
    by (simp add: copy_rows_def)
  have "int (length (image_buffer img)) = mat_rows m * (mat_cols m * 3)"
    using img by (simp add: image_ok_def image_stride_def channel_count_def)
  then have "length (image_buffer img) = nat (mat_rows m * (mat_cols m * 3))" by (metis nat_int)
  then have room: "?h * ?w \<le> length (image_buffer img)" using dims by (simp add: nat_mult_distrib)
  have rows: "y < ?h \<and> length (?row y) = ?w" if "y \<in> set [0..<?h]" for y
    using that m by (simp add: mat_ok_def list_all_length)
  have len: "length (image_buffer (copy_rows m img)) = length (image_buffer img)"
    unfolding buf by (rule write_rows(1) [OF room rows])
  note wr = write_rows(2) [OF room rows]
  show "image_ok (copy_rows m img)"
    using img(1) len by (simp add: image_ok_def image_stride_def) (simp add: copy_rows_def)
  assume xy: "0 \<le> x" "x < mat_cols m" "0 \<le> y" "y < mat_rows m"
  have at: "3 * nat (y * mat_cols m + x) + c = nat y * ?w + (3 * nat x + c)" for c
    using xy by (simp add: nat_add_distrib nat_mult_distrib)
  have c: "3 * nat x + c < ?w" if "c < 3" for c using that xy by linarith
  have "image_buffer (copy_rows m img) ! (3 * nat (y * mat_cols m + x) + c) = mat_data m ! nat y ! (3 * nat x + c)" if "c < 3" for c
    unfolding at buf using wr [OF _ _ c [OF that], of "[0..<?h]" "nat y"] xy c [OF that] by simp
  then show "pixel (copy_rows m img) x y = mat_pixel m x y"
    using img(3) by (simp add: pixel_def cell_def mat_pixel_def copy_rows_def)
qed

lemma copy_to_image_result:
  assumes "copy_to_image cv m img = Inr img'" "mat_ok (as_bgr cv m)"
  shows "mat_type m \<noteq> Other_kind" "image_ok img'" "image_format img' = kBgr8"
    "image_width img' = mat_cols (as_bgr cv m)" "image_height img' = mat_rows (as_bgr cv m)"
    "0 \<le> x \<Longrightarrow> x < image_width img' \<Longrightarrow> 0 \<le> y \<Longrightarrow> y < image_height img' \<Longrightarrow> pixel img' x y = mat_pixel (as_bgr cv m) x y"
proof -
  obtain img1 where k: "mat_type m \<noteq> Other_kind"
    and r: "reshape (mat_cols (as_bgr cv m)) (mat_rows (as_bgr cv m)) kBgr8 img = Inr img1" "img' = copy_rows (as_bgr cv m) img1"
    using assms(1) by (cases "mat_type m") (auto simp: copy_to_image_def as_bgr_def bind_result_Inr_iff)
  note R = reshape_ok [OF r(1)]
  note C = copy_rows_result [OF assms(2), of img1]
  show "mat_type m \<noteq> Other_kind" by (rule k)
  show "image_ok img'" using C(1) R r(2) by simp
  show dims: "image_format img' = kBgr8" "image_width img' = mat_cols (as_bgr cv m)" "image_height img' = mat_rows (as_bgr cv m)"
    using R r(2) by (simp_all add: copy_rows_def)
  show "0 \<le> x \<Longrightarrow> x < image_width img' \<Longrightarrow> 0 \<le> y \<Longrightarrow> y < image_height img' \<Longrightarrow> pixel img' x y = mat_pixel (as_bgr cv m) x y"
    using C(2) R r(2) dims by simp
qed

section \<open>The stream of a file\<close>

text \<open>A picture the source can deliver, and the image that shows it.\<close>

definition deliverable :: "'c opencv \<Rightarrow> mat \<Rightarrow> bool" where
  "deliverable cv m \<longleftrightarrow> mat_type m \<noteq> Other_kind \<and> \<not> mat_empty m \<and> mat_ok (as_bgr cv m)"

definition displays :: "image \<Rightarrow> mat \<Rightarrow> bool" where
  "displays img m \<longleftrightarrow> image_ok img \<and> image_format img = kBgr8 \<and> image_width img = mat_cols m \<and> image_height img = mat_rows m \<and>
     (\<forall>x y. 0 \<le> x \<and> x < image_width img \<and> 0 \<le> y \<and> y < image_height img \<longrightarrow> pixel img x y = mat_pixel m x y)"

lemma deliverable_copied:
  assumes "deliverable cv m"
  obtains img' where "copy_to_image cv m img = Inr img'" "displays img' (as_bgr cv m)"
proof -
  have m: "mat_type m \<noteq> Other_kind" "mat_ok (as_bgr cv m)" using assms by (simp_all add: deliverable_def)
  have "\<exists>img'. copy_to_image cv m img = Inr img'"
    using m by (cases "mat_type m") (auto simp: copy_to_image_def as_bgr_def reshape_def mat_ok_def)
  then obtain img' where c: "copy_to_image cv m img = Inr img'" by blast
  show ?thesis
  proof (rule that [OF c])
    show "displays img' (as_bgr cv m)"
      using copy_to_image_result [OF c m(2)] by (simp add: displays_def)
  qed
qed

text \<open>
  What a capture does, for a file of the pictures \<open>ms\<close>: \<open>pos\<close> is the number of pictures decoded.
  This is the documented behaviour of \<open>VideoCapture::read\<close> and of setting \<open>CAP_PROP_POS_FRAMES\<close>.
\<close>

definition plays :: "'c opencv \<Rightarrow> mat list \<Rightarrow> ('c \<Rightarrow> nat) \<Rightarrow> bool" where
  "plays cv ms pos \<longleftrightarrow>
     (\<forall>c m. pos c < length ms \<longrightarrow> (\<exists>c'. cv_read cv c m = (True, ms ! pos c, c') \<and> pos c' = pos c + 1)) \<and>
     (\<forall>c m. pos c = length ms \<longrightarrow> (\<exists>m' c'. cv_read cv c m = (False, m', c') \<and> pos c' = length ms)) \<and>
     (\<forall>c. pos (cv_rewind cv c) = 0) \<and> (\<forall>uri. pos (cv_open cv uri) = 0 \<and> pos (cv_open_gstreamer cv uri) = 0)"

text \<open>Reads at the times \<open>ts\<close>, each into an image of its own, until one delivers no frame.\<close>

fun opencv_reads :: "'c opencv \<Rightarrow> (int \<times> image) list \<Rightarrow> 'c opencv_source \<Rightarrow> image list" where
  "opencv_reads cv [] src = []"
| "opencv_reads cv ((t, img) # ts) src =
     (case opencv_read cv t img src of
        Inl e \<Rightarrow> []
      | Inr (got, img, src, wake) \<Rightarrow> if got then img # opencv_reads cv ts src else [])"

definition file_source :: "opencv_options \<Rightarrow> 'c opencv_source \<Rightarrow> bool" where
  "file_source opts src \<longleftrightarrow> cam_options src = opts \<and> \<not> cam_is_still src \<and> \<not> cam_is_camera src"

lemma next_frame_plays:
  assumes "plays cv ms pos" "list_all (deliverable cv) ms" "pos (cam_capture src) \<le> length ms" "next_frame cv src = (ok, src')"
  shows "ok \<longleftrightarrow> pos (cam_capture src) < length ms"
    and "ok \<Longrightarrow> cam_frame src' = ms ! pos (cam_capture src) \<and> pos (cam_capture src') = pos (cam_capture src) + 1"
    and "file_source opts src' = file_source opts src" "cam_frames_read src' = cam_frames_read src"
    and "\<not> ok \<Longrightarrow> pos (cam_capture src') = length ms"
proof -
  let ?c = "cam_capture src" and ?m = "cam_frame src"
  obtain got m c where r: "cv_read cv ?c ?m = (got, m, c)" by (cases "cv_read cv ?c ?m") auto
  have s: "ok = (got \<and> \<not> mat_empty m)" "src' = src\<lparr>cam_frame := m, cam_capture := c\<rparr>"
    using assms(4) r by (auto simp: next_frame_def)
  show "file_source opts src' = file_source opts src" "cam_frames_read src' = cam_frames_read src"
    using s by (simp_all add: file_source_def)
  have "(pos ?c < length ms \<and> got \<and> m = ms ! pos ?c \<and> pos c = pos ?c + 1) \<or> (pos ?c = length ms \<and> \<not> got \<and> pos c = length ms)"
  proof (cases "pos ?c < length ms")
    case True
    then obtain c' where "cv_read cv ?c ?m = (True, ms ! pos ?c, c')" "pos c' = pos ?c + 1"
      using assms(1) unfolding plays_def by blast
    then show ?thesis using True r by simp
  next
    case False
    then have "pos ?c = length ms" using assms(3) by simp
    then obtain m' c' where "cv_read cv ?c ?m = (False, m', c')" "pos c' = length ms"
      using assms(1) unfolding plays_def by blast
    then show ?thesis using \<open>pos ?c = length ms\<close> r by simp
  qed
  moreover have "\<not> mat_empty (ms ! i)" if "i < length ms" for i
    using assms(2) that by (simp add: list_all_length deliverable_def)
  ultimately show "ok \<longleftrightarrow> pos (cam_capture src) < length ms"
    "ok \<Longrightarrow> cam_frame src' = ms ! pos (cam_capture src) \<and> pos (cam_capture src') = pos (cam_capture src) + 1"
    "\<not> ok \<Longrightarrow> pos (cam_capture src') = length ms"
    using s by auto
qed

text \<open>A read of a file: the next picture; at the end, the first one again or no frame.\<close>

lemma opencv_read_file:
  assumes p: "plays cv ms pos" "list_all (deliverable cv) ms" "ms \<noteq> []" and src: "file_source opts src" "pos (cam_capture src) \<le> length ms"
  defines "i \<equiv> if pos (cam_capture src) < length ms then pos (cam_capture src) else 0"
  shows "pos (cam_capture src) < length ms \<or> opt_loop opts \<Longrightarrow>
      \<exists>img' src' wake. opencv_read cv t img src = Inr (True, img', src', wake) \<and> displays img' (as_bgr cv (ms ! i)) \<and>
        file_source opts src' \<and> pos (cam_capture src') = i + 1"
    and "\<not> (pos (cam_capture src) < length ms \<or> opt_loop opts) \<Longrightarrow>
      \<exists>src' wake. opencv_read cv t img src = Inr (False, img, src', wake)"
proof -
  have kind: "\<not> cam_is_still src" "\<not> cam_is_camera src" "cam_options src = opts" using src(1) by (simp_all add: file_source_def)
  define woken where "woken = (if 0 < cam_period src
               then let (due, nxt) = pace (cam_period src) (cam_frames_read src = 0) t (cam_next_deadline src)
                    in (Some due, src\<lparr>cam_next_deadline := nxt\<rparr>)
               else (None, src))"
  obtain wake src1 where w: "woken = (wake, src1)" by (cases woken) auto
  have "cam_capture src1 = cam_capture src \<and> file_source opts src1 = file_source opts src"
    using w by (auto simp: woken_def file_source_def Let_def split: if_splits prod.splits)
  then have s1: "pos (cam_capture src1) = pos (cam_capture src)" "file_source opts src1" using src by simp_all
  obtain ok2 src2 where n2: "next_frame cv src1 = (ok2, src2)" by (cases "next_frame cv src1") auto
  have le1: "pos (cam_capture src1) \<le> length ms" using s1 src by simp
  note N2 = next_frame_plays [OF p(1,2) le1 n2]
  have f2: "file_source opts src2" using N2(3) s1(2) by simp
  let ?src3 = "src2\<lparr>cam_capture := cv_rewind cv (cam_capture src2)\<rparr>"
  obtain ok4 src4 where n4: "next_frame cv ?src3 = (ok4, src4)" by (cases "next_frame cv ?src3") auto
  have p3: "pos (cam_capture ?src3) = 0" using p(1) by (simp add: plays_def)
  then have le3: "pos (cam_capture ?src3) \<le> length ms" by simp
  note N4 = next_frame_plays [OF p(1,2) le3 n4]
  have f4: "file_source opts src4" using N4(3) [of opts] f2 by (simp add: file_source_def)
  define final where "final = (if ok2 then (True, src2)
    else if \<not> opt_loop (cam_options src2) \<or> cam_is_camera src2 then (False, src2) else next_frame cv ?src3)"
  obtain ok5 src5 where fin: "final = (ok5, src5)" by (cases final) auto
  have read: "opencv_read cv t img src = (if \<not> ok5 then Inr (False, img, src5, wake)
           else bind_result (copy_to_image cv (cam_frame src5) img) (\<lambda>img.
                  Inr (True, img, src5\<lparr>cam_frames_read := cam_frames_read src5 + 1\<rparr>, wake)))"
    using kind(1) w [unfolded woken_def] n2 fin [unfolded final_def] unfolding opencv_read_def by (simp add: Let_def)
  have opts2: "cam_options src2 = opts" "\<not> cam_is_camera src2" using f2 by (simp_all add: file_source_def)
  show "\<exists>src' wake. opencv_read cv t img src = Inr (False, img, src', wake)"
    if "\<not> (pos (cam_capture src) < length ms \<or> opt_loop opts)"
    using that fin N2(1) s1 opts2 read by (auto simp: final_def)
  assume more: "pos (cam_capture src) < length ms \<or> opt_loop opts"
  have "ok5 \<and> cam_frame src5 = ms ! i \<and> pos (cam_capture src5) = i + 1 \<and> file_source opts src5"
  proof (cases "pos (cam_capture src) < length ms")
    case True
    then show ?thesis using fin N2(1,2) s1 f2 by (auto simp: final_def i_def)
  next
    case False
    then have "(ok5, src5) = (ok4, src4)" using more fin N2(1) s1 opts2 n4 by (simp add: final_def)
    then show ?thesis using N4(1,2) p3 p(3) f4 False by (simp add: i_def)
  qed
  then have 5: "ok5" "cam_frame src5 = ms ! i" "pos (cam_capture src5) = i + 1" "file_source opts src5" by simp_all
  have "i < length ms" using p(3) by (simp add: i_def)
  then have "deliverable cv (ms ! i)" using p(2) by (simp add: list_all_length)
  from deliverable_copied [OF this, of img] obtain img' where
    "copy_to_image cv (ms ! i) img = Inr img'" "displays img' (as_bgr cv (ms ! i))" .
  then show "\<exists>img' src' wake. opencv_read cv t img src = Inr (True, img', src', wake) \<and> displays img' (as_bgr cv (ms ! i)) \<and>
        file_source opts src' \<and> pos (cam_capture src') = i + 1"
    using read 5 by (auto simp: file_source_def)
qed

lemma looping_reads:
  assumes p: "plays cv ms pos" "list_all (deliverable cv) ms" "ms \<noteq> []" and loop: "opt_loop opts"
    and src: "file_source opts src" "pos (cam_capture src) \<le> length ms" "pos (cam_capture src) mod length ms = q mod length ms"
  shows "list_all2 displays (opencv_reads cv ts src) (map (\<lambda>k. as_bgr cv (ms ! (k mod length ms))) [q..<q + length ts])"
  using src
proof (induction ts arbitrary: src q)
  case (Cons r ts)
  obtain t img where r: "r = (t, img)" by (cases r) auto
  define i where "i = (if pos (cam_capture src) < length ms then pos (cam_capture src) else 0)"
  have i: "i < length ms" "i = q mod length ms" using Cons.prems(2,3) p(3) by (auto simp: i_def)
  obtain img' src' wake where R: "opencv_read cv t img src = Inr (True, img', src', wake)" "displays img' (as_bgr cv (ms ! i))"
    "file_source opts src'" "pos (cam_capture src') = i + 1"
    using opencv_read_file(1) [OF p Cons.prems(1,2), of t img] loop unfolding i_def by blast
  have "pos (cam_capture src') \<le> length ms" "pos (cam_capture src') mod length ms = Suc q mod length ms"
    using R(4) i by (simp_all add: mod_Suc_eq)
  from Cons.IH [OF R(3) this] have "list_all2 displays (opencv_reads cv ts src')
      (map (\<lambda>k. as_bgr cv (ms ! (k mod length ms))) [Suc q..<Suc q + length ts])" .
  moreover have "[q..<q + length (r # ts)] = q # [Suc q..<Suc q + length ts]" by (simp add: upt_rec)
  ultimately show ?case using R(1,2) r i(2) by simp
qed simp

lemma single_pass_reads:
  assumes p: "plays cv ms pos" "list_all (deliverable cv) ms" "ms \<noteq> []" and loop: "\<not> opt_loop opts"
    and src: "file_source opts src" "pos (cam_capture src) \<le> length ms"
  shows "list_all2 displays (opencv_reads cv ts src) (map (as_bgr cv) (take (length ts) (drop (pos (cam_capture src)) ms)))"
  using src
proof (induction ts arbitrary: src)
  case (Cons r ts)
  obtain t img where r: "r = (t, img)" by (cases r) auto
  show ?case
  proof (cases "pos (cam_capture src) < length ms")
    case True
    obtain img' src' wake where R: "opencv_read cv t img src = Inr (True, img', src', wake)"
      "displays img' (as_bgr cv (ms ! pos (cam_capture src)))" "file_source opts src'" "pos (cam_capture src') = pos (cam_capture src) + 1"
      using opencv_read_file(1) [OF p Cons.prems(1,2), of t img] True by auto
    have "pos (cam_capture src') \<le> length ms" using R(4) True by simp
    from Cons.IH [OF R(3) this] show ?thesis
      using R r by (simp add: Cons_nth_drop_Suc [OF True, symmetric])
  next
    case False
    then obtain src' wake where "opencv_read cv t img src = Inr (False, img, src', wake)"
      using opencv_read_file(2) [OF p Cons.prems(1,2), of t img] loop by blast
    then show ?thesis using False r by simp
  qed
qed simp

lemma still_reads:
  assumes "cam_is_still src" "deliverable cv (cam_still src)"
  shows "list_all2 displays (opencv_reads cv ts src) (replicate
     (if opt_loop (cam_options src) then length ts else if cam_still_delivered src then 0 else min 1 (length ts))
     (as_bgr cv (cam_still src)))"
  using assms
proof (induction ts arbitrary: src)
  case (Cons r ts)
  obtain t img where r: "r = (t, img)" by (cases r) auto
  obtain img' where c: "copy_to_image cv (cam_still src) img = Inr img'" "displays img' (as_bgr cv (cam_still src))"
    by (rule deliverable_copied [OF Cons.prems(2), of img])
  let ?src' = "src\<lparr>cam_still_delivered := True\<rparr>"
  show ?case
  proof (cases "cam_still_delivered src \<and> \<not> opt_loop (cam_options src)")
    case True
    then show ?thesis using r Cons.prems(1) by (simp add: opencv_read_def)
  next
    case False
    then have "opencv_read cv t img src = Inr (True, img', ?src', None)"
      using Cons.prems(1) c(1) by (simp add: opencv_read_def)
    then show ?thesis using Cons.IH [of ?src'] Cons.prems c(2) r False by auto
  qed
qed simp

text \<open>
  C29: the stream of \<open>OpenCvSource\<close>. From its construction a video file delivers its pictures in
  order, each copied pixel by pixel into a BGR image: once and then the end of the stream, or with
  \<open>loop\<close> again and again from the first one. A still image is delivered once, or for ever with \<open>loop\<close>.
\<close>

theorem opencv_stream:
  assumes "make_opencv_source d cv opts = Inr src" "\<not> is_camera_index (opt_uri opts)"
    and "if is_still_image (opt_uri opts) then ms = [cv_imread cv (opt_uri opts)] else plays cv ms pos"
    and "list_all (deliverable cv) ms" "ms \<noteq> []"
  shows "list_all2 displays (opencv_reads cv ts src) (map (as_bgr cv)
    (if opt_loop opts then map (\<lambda>k. ms ! (k mod length ms)) [0..<length ts] else take (length ts) ms))"
proof (cases "is_still_image (opt_uri opts)")
  case True
  have src: "cam_is_still src" "cam_still src = cv_imread cv (opt_uri opts)" "cam_options src = opts" "\<not> cam_still_delivered src"
    using assms(1) True by (auto simp: make_opencv_source_def Let_def split: if_splits)
  have ms: "ms = [cam_still src]" using assms(3) True src(2) by simp
  then have dl: "deliverable cv (cam_still src)" using assms(4) by simp
  have "map (\<lambda>k. as_bgr cv (cam_still src)) [0..<length ts] = replicate (length ts) (as_bgr cv (cam_still src))"
    by (simp add: map_replicate_const)
  moreover have "take (length ts) [cam_still src] = replicate (min 1 (length ts)) (cam_still src)" by (cases ts) simp_all
  ultimately show ?thesis using still_reads [OF src(1) dl, of ts] src(3,4) ms by (auto simp: comp_def)
next
  case False
  have pl: "plays cv ms pos" using assms(3) False by simp
  have cap: "cam_capture src = (if CHR ''!'' \<in> set (opt_uri opts) then cv_open_gstreamer cv (opt_uri opts) else cv_open cv (opt_uri opts))"
    and src: "file_source opts src"
    using assms(1,2) False
    by (auto simp: make_opencv_source_def open_capture_def file_source_def Let_def bind_result_Inr_iff split: if_splits)
  have "pos (cam_capture src) = 0" using pl cap by (simp add: plays_def)
  then show ?thesis
    using looping_reads [OF pl assms(4,5) _ src, of 0 ts] single_pass_reads [OF pl assms(4,5) _ src, of ts] by (simp add: comp_def)
qed

text \<open>A capture that plays two pictures of one pixel.\<close>

definition one_pixel :: "u8 \<Rightarrow> mat" where
  "one_pixel b = \<lparr>mat_rows = 1, mat_cols = 1, mat_type = CV_8UC3, mat_data = [[b, b, b]]\<rparr>"

definition two_pictures :: "nat opencv" where
  "two_pictures = \<lparr>cv_imread = (\<lambda>_. no_mat), cv_no_capture = 0, cv_open_camera = (\<lambda>_. 0), cv_open_gstreamer = (\<lambda>_. 0),
     cv_open = (\<lambda>_. 0), cv_set_width = (\<lambda>_ c. c), cv_set_height = (\<lambda>_ c. c), cv_is_opened = (\<lambda>_. True), cv_fps = (\<lambda>_. 25),
     cv_read = (\<lambda>c m. if c < 2 then (True, map one_pixel [1, 2] ! c, c + 1) else (False, m, c)), cv_rewind = (\<lambda>_. 0),
     cv_gray_to_bgr = (\<lambda>m. m), cv_bgra_to_bgr = (\<lambda>m. m)\<rparr>"

theorem opencv_stream_witness:
  "\<exists>src. make_opencv_source exact_rounding two_pictures (default_opencv_options\<lparr>opt_uri := ''a.mp4'', opt_loop := True\<rparr>) = Inr src \<and>
    list_all2 displays (opencv_reads two_pictures (replicate 3 (0, empty_image)) src) [one_pixel 1, one_pixel 2, one_pixel 1]"
proof -
  let ?opts = "default_opencv_options\<lparr>opt_uri := ''a.mp4'', opt_loop := True\<rparr>" and ?ms = "map one_pixel [1, 2]"
  have uri: "\<not> is_still_image ''a.mp4''" "\<not> is_camera_index ''a.mp4''" by code_simp+
  obtain src where s: "make_opencv_source exact_rounding two_pictures ?opts = Inr src"
    using uri by (simp add: make_opencv_source_def open_capture_def two_pictures_def default_opencv_options_def Let_def)
  have "plays two_pictures ?ms (\<lambda>c. min c 2)"
    by (auto simp: plays_def two_pictures_def min_def)
  moreover have "list_all (deliverable two_pictures) ?ms"
    by (simp add: deliverable_def one_pixel_def mat_empty_def mat_ok_def as_bgr_def)
  ultimately have "list_all2 displays (opencv_reads two_pictures (replicate 3 (0, empty_image)) src)
     (map (as_bgr two_pictures) (map (\<lambda>k. ?ms ! (k mod length ?ms)) [0..<3]))"
    using opencv_stream [OF s, of ?ms "\<lambda>c. min c 2" "replicate 3 (0, empty_image)"] uri by (simp add: default_opencv_options_def)
  then show ?thesis using s by (simp add: upt_rec as_bgr_def one_pixel_def)
qed

end
