(* ===== verification/OverlaySink.thy ===== *)
theory OverlaySink
  imports Overlay CameraSource
begin

text \<open>
  \<open>io/overlay_sink.hpp\<close>, \<open>src/io/overlay_sink.cpp\<close>: the annotated frames go to a video file, an image file
  and a preview window. What the sink does to the outside world is its list of effects, in order;
  the answers of OpenCV (does a video writer open, does \<open>imwrite\<close> throw) are in the record \<open>highgui\<close>.
  A canvas is drawn on a copy of the frame's image.
\<close>

section \<open>State and effects\<close>

datatype fourcc = MJPG | MP4V

datatype sink_effect =
    Open_writer string fourcc real int int
  | Write_frame canvas
  | Release_writer
  | Write_image string canvas
  | Show_window string canvas
  | Destroy_window string
  | On_quit

record highgui =
  writer_opens :: "string \<Rightarrow> bool"
  imwrite_throws :: "string \<Rightarrow> bool"

record overlay_sink_options =
  sk_video_path :: string
  sk_image_path :: string
  sk_show_window :: bool
  sk_video_fps :: real
  sk_window_title :: string
  sk_overlay :: overlay_options
  sk_on_quit :: bool

definition default_sink_options :: overlay_sink_options where
  "default_sink_options = \<lparr>sk_video_path = [], sk_image_path = [], sk_show_window = False, sk_video_fps = 0,
     sk_window_title = ''takt-vision'', sk_overlay = default_overlay_options, sk_on_quit = False\<rparr>"

record overlay_sink =
  os_options :: overlay_sink_options
  os_renderer :: overlay
  os_writer_open :: bool
  os_fps :: real
  os_quit_requested :: bool
  os_window_open :: bool
  os_effects :: "sink_effect list"

definition make_overlay_sink :: "overlay_sink_options \<Rightarrow> overlay_sink" where
  "make_overlay_sink opts = \<lparr>os_options = opts, os_renderer = make_overlay (sk_overlay opts), os_writer_open = False,
     os_fps = 30, os_quit_requested = False, os_window_open = False, os_effects = []\<rparr>"

definition emit :: "sink_effect \<Rightarrow> overlay_sink \<Rightarrow> overlay_sink" where
  "emit e s = s\<lparr>os_effects := os_effects s @ [e]\<rparr>"

section \<open>Operations\<close>

definition overlay_sink_on_start :: "run_info \<Rightarrow> overlay_sink \<Rightarrow> overlay_sink" where
  "overlay_sink_on_start info s =
     s\<lparr>os_renderer := overlay_on_start info (os_renderer s),
       os_fps := (if 0 < sk_video_fps (os_options s) then sk_video_fps (os_options s)
                  else if 0 < info_source_fps info then info_source_fps info else 30),
       os_quit_requested := False\<rparr>"

definition write_video :: "highgui \<Rightarrow> canvas \<Rightarrow> overlay_sink \<Rightarrow> takt_error + overlay_sink" where
  "write_video gui cv s =
     (let path = sk_video_path (os_options s)
      in if path = [] then Inr s
         else bind_result
           (if os_writer_open s then Inr s
            else let codec = (if map to_lower (path_extension path) = ''.avi'' then MJPG else MP4V)
                 in if \<not> writer_opens gui path then Inl (Runtime_error (''OverlaySink: cannot open video writer for '' @ path))
                    else Inr (emit (Open_writer path codec (os_fps s) (canvas_cols cv) (canvas_rows cv)) (s\<lparr>os_writer_open := True\<rparr>)))
           (\<lambda>s. Inr (emit (Write_frame cv) s)))"

definition write_still :: "highgui \<Rightarrow> canvas \<Rightarrow> overlay_sink \<Rightarrow> takt_error + overlay_sink" where
  "write_still gui cv s =
     (let path = sk_image_path (os_options s)
      in if path = [] then Inr s
         else if imwrite_throws gui path then Inl (Library_error ''cv::imwrite'')
         else Inr (emit (Write_image path cv) s))"

text \<open>\<open>key\<close> is the result of \<open>waitKey\<close>: 113 is \<open>q\<close>, 27 is Esc.\<close>

definition preview :: "int \<Rightarrow> canvas \<Rightarrow> overlay_sink \<Rightarrow> overlay_sink" where
  "preview key cv s =
     (if sk_show_window (os_options s)
      then let s = emit (Show_window (sk_window_title (os_options s)) cv) s; s = s\<lparr>os_window_open := True\<rparr>
           in if (key = 113 \<or> key = 27) \<and> \<not> os_quit_requested s
              then let s = s\<lparr>os_quit_requested := True\<rparr> in if sk_on_quit (os_options s) then emit On_quit s else s
              else s
      else s)"

definition overlay_sink_consume ::
  "rounding \<Rightarrow> rounding \<Rightarrow> drawing \<Rightarrow> (int list \<Rightarrow> int list) \<Rightarrow> highgui \<Rightarrow> int \<Rightarrow> pipeline_metrics option \<Rightarrow> int \<Rightarrow>
   frame \<Rightarrow> overlay_sink \<Rightarrow> takt_error + overlay_sink"
where
  "overlay_sink_consume r d dr order gui t metrics key f s =
     (let cv = \<lparr>canvas_rows = image_height (fr_image f), canvas_cols = image_width (fr_image f), drawn = []\<rparr>
      in bind_result (render_frame r d dr order t metrics f (os_renderer s) cv) (\<lambda>(ov, cv).
         bind_result (write_video gui cv (s\<lparr>os_renderer := ov\<rparr>)) (\<lambda>s.
         bind_result (write_still gui cv s) (\<lambda>s. Inr (preview key cv s)))))"

definition overlay_sink_on_finish :: "overlay_sink \<Rightarrow> overlay_sink" where
  "overlay_sink_on_finish s =
     (let s = (if os_writer_open s then (emit Release_writer s)\<lparr>os_writer_open := False\<rparr> else s)
      in if os_window_open s then (emit (Destroy_window (sk_window_title (os_options s))) s)\<lparr>os_window_open := False\<rparr> else s)"

section \<open>The effects of a run\<close>

text \<open>The inputs of \<open>consume\<close>: time, metrics, key and frame.\<close>

type_synonym sink_input = "int \<times> pipeline_metrics option \<times> int \<times> frame"

fun consume_inputs ::
  "rounding \<Rightarrow> rounding \<Rightarrow> drawing \<Rightarrow> (int list \<Rightarrow> int list) \<Rightarrow> highgui \<Rightarrow> sink_input list \<Rightarrow> overlay_sink \<Rightarrow> takt_error + overlay_sink"
where
  "consume_inputs r d dr order gui [] s = Inr s"
| "consume_inputs r d dr order gui ((t, m, key, f) # xs) s =
     bind_result (overlay_sink_consume r d dr order gui t m key f s) (consume_inputs r d dr order gui xs)"

definition quit_key :: "sink_input \<Rightarrow> bool" where
  "quit_key x = (case x of (_, _, key, _) \<Rightarrow> key = 113 \<or> key = 27)"

fun of_writer :: "sink_effect \<Rightarrow> bool" where
  "of_writer (Open_writer _ _ _ _ _) = True"
| "of_writer (Write_frame _) = True"
| "of_writer Release_writer = True"
| "of_writer _ = False"

fun of_window :: "sink_effect \<Rightarrow> bool" where
  "of_window (Show_window _ _) = True"
| "of_window (Destroy_window _) = True"
| "of_window _ = False"

text \<open>What one frame adds.\<close>

lemma consume_effects:
  assumes "overlay_sink_consume r d dr order gui t m key f s = Inr s'"
  defines "opts \<equiv> os_options s"
  shows "os_options s' = opts" "os_writer_open s' = (os_writer_open s \<or> sk_video_path opts \<noteq> [])"
    "os_window_open s' = (os_window_open s \<or> sk_show_window opts)"
    "os_quit_requested s' = (os_quit_requested s \<or> sk_show_window opts \<and> (key = 113 \<or> key = 27))"
    "\<exists>cv codec fps w h es. os_effects s' = os_effects s @ es \<and>
       filter of_writer es = (if sk_video_path opts = [] then []
         else (if os_writer_open s then [] else [Open_writer (sk_video_path opts) codec fps w h]) @ [Write_frame cv]) \<and>
       filter of_window es = (if sk_show_window opts then [Show_window (sk_window_title opts) cv] else []) \<and>
       filter ((=) On_quit) es =
         (if sk_show_window opts \<and> sk_on_quit opts \<and> (key = 113 \<or> key = 27) \<and> \<not> os_quit_requested s then [On_quit] else [])"
proof -
  obtain ov cv s1 s2 where s1: "write_video gui cv (s\<lparr>os_renderer := ov\<rparr>) = Inr s1" and s2: "write_still gui cv s1 = Inr s2"
    and s': "s' = preview key cv s2"
    using assms(1) by (auto simp: overlay_sink_consume_def Let_def bind_result_Inr_iff)
  have 1: "os_options s1 = opts" "os_writer_open s1 = (os_writer_open s \<or> sk_video_path opts \<noteq> [])"
    "os_window_open s1 = os_window_open s" "os_quit_requested s1 = os_quit_requested s"
    "\<exists>codec fps w h. os_effects s1 = os_effects s @ (if sk_video_path opts = [] then []
         else (if os_writer_open s then [] else [Open_writer (sk_video_path opts) codec fps w h]) @ [Write_frame cv])"
    using s1 by (auto simp: write_video_def emit_def opts_def Let_def split: if_splits)
  have 2: "os_options s2 = opts" "os_writer_open s2 = os_writer_open s1" "os_window_open s2 = os_window_open s1"
    "os_quit_requested s2 = os_quit_requested s1"
    "os_effects s2 = os_effects s1 @ (if sk_image_path opts = [] then [] else [Write_image (sk_image_path opts) cv])"
    using s2 1(1) by (auto simp: write_still_def emit_def Let_def split: if_splits)
  have 3: "os_options s' = opts" "os_writer_open s' = os_writer_open s2" "os_window_open s' = (os_window_open s2 \<or> sk_show_window opts)"
    "os_quit_requested s' = (os_quit_requested s2 \<or> sk_show_window opts \<and> (key = 113 \<or> key = 27))"
    "os_effects s' = os_effects s2 @ (if sk_show_window opts then Show_window (sk_window_title opts) cv #
       (if sk_on_quit opts \<and> (key = 113 \<or> key = 27) \<and> \<not> os_quit_requested s2 then [On_quit] else []) else [])"
    using s' 2(1) by (auto simp: preview_def emit_def Let_def)
  show "os_options s' = opts" "os_writer_open s' = (os_writer_open s \<or> sk_video_path opts \<noteq> [])"
    "os_window_open s' = (os_window_open s \<or> sk_show_window opts)"
    "os_quit_requested s' = (os_quit_requested s \<or> sk_show_window opts \<and> (key = 113 \<or> key = 27))"
    using 1 2 3 by simp_all
  obtain codec fps w h where e: "os_effects s1 = os_effects s @ (if sk_video_path opts = [] then []
         else (if os_writer_open s then [] else [Open_writer (sk_video_path opts) codec fps w h]) @ [Write_frame cv])"
    using 1(5) by blast
  show "\<exists>cv codec fps w h es. os_effects s' = os_effects s @ es \<and>
       filter of_writer es = (if sk_video_path opts = [] then []
         else (if os_writer_open s then [] else [Open_writer (sk_video_path opts) codec fps w h]) @ [Write_frame cv]) \<and>
       filter of_window es = (if sk_show_window opts then [Show_window (sk_window_title opts) cv] else []) \<and>
       filter ((=) On_quit) es =
         (if sk_show_window opts \<and> sk_on_quit opts \<and> (key = 113 \<or> key = 27) \<and> \<not> os_quit_requested s then [On_quit] else [])"
    by (intro exI [of _ cv] exI [of _ codec] exI [of _ fps] exI [of _ w] exI [of _ h] exI conjI, subst 3(5), subst 2(5), subst e,
        simp only: append_assoc) (simp_all add: 1(4) 2(4))
qed

text \<open>What a sequence of frames adds.\<close>

lemma consume_inputs_effects:
  assumes "consume_inputs r d dr order gui xs s = Inr s'"
  shows "os_options s' = os_options s \<and>
    os_writer_open s' = (os_writer_open s \<or> sk_video_path (os_options s) \<noteq> [] \<and> xs \<noteq> []) \<and>
    os_window_open s' = (os_window_open s \<or> sk_show_window (os_options s) \<and> xs \<noteq> []) \<and>
    (\<exists>cvs codec fps w h es. os_effects s' = os_effects s @ es \<and> length cvs = length xs \<and>
       filter of_writer es = (if sk_video_path (os_options s) = [] \<or> xs = [] then []
         else (if os_writer_open s then [] else [Open_writer (sk_video_path (os_options s)) codec fps w h]) @ map Write_frame cvs) \<and>
       filter of_window es = (if sk_show_window (os_options s) then map (Show_window (sk_window_title (os_options s))) cvs else []) \<and>
       filter ((=) On_quit) es = (if sk_show_window (os_options s) \<and> sk_on_quit (os_options s) \<and> \<not> os_quit_requested s \<and>
         list_ex quit_key xs then [On_quit] else []))"
  using assms
proof (induction xs arbitrary: s)
  case (Cons x xs)
  obtain t m key f where x: "x = (t, m, key, f)" by (cases x)
  obtain s1 where s1: "overlay_sink_consume r d dr order gui t m key f s = Inr s1" "consume_inputs r d dr order gui xs s1 = Inr s'"
    using Cons.prems by (auto simp: x bind_result_Inr_iff)
  note E = consume_effects [OF s1(1)]
  obtain cv codec fps w h es where one: "os_effects s1 = os_effects s @ es"
    "filter of_writer es = (if sk_video_path (os_options s) = [] then []
         else (if os_writer_open s then [] else [Open_writer (sk_video_path (os_options s)) codec fps w h]) @ [Write_frame cv])"
    "filter of_window es = (if sk_show_window (os_options s) then [Show_window (sk_window_title (os_options s)) cv] else [])"
    "filter ((=) On_quit) es = (if sk_show_window (os_options s) \<and> sk_on_quit (os_options s) \<and> (key = 113 \<or> key = 27) \<and>
       \<not> os_quit_requested s then [On_quit] else [])"
    using E(5) by blast
  obtain cvs codec' fps' w' h' es' where more: "os_effects s' = os_effects s1 @ es'" "length cvs = length xs"
    "filter of_writer es' = (if sk_video_path (os_options s1) = [] \<or> xs = [] then []
         else (if os_writer_open s1 then [] else [Open_writer (sk_video_path (os_options s1)) codec' fps' w' h']) @ map Write_frame cvs)"
    "filter of_window es' = (if sk_show_window (os_options s1) then map (Show_window (sk_window_title (os_options s1))) cvs else [])"
    "filter ((=) On_quit) es' = (if sk_show_window (os_options s1) \<and> sk_on_quit (os_options s1) \<and> \<not> os_quit_requested s1 \<and>
         list_ex quit_key xs then [On_quit] else [])"
    and flags: "os_options s' = os_options s1" "os_writer_open s' = (os_writer_open s1 \<or> sk_video_path (os_options s1) \<noteq> [] \<and> xs \<noteq> [])"
    "os_window_open s' = (os_window_open s1 \<or> sk_show_window (os_options s1) \<and> xs \<noteq> [])"
    using Cons.IH [OF s1(2)] by blast
  have "\<exists>cvs codec fps w h es. os_effects s' = os_effects s @ es \<and> length cvs = length (x # xs) \<and>
       filter of_writer es = (if sk_video_path (os_options s) = [] \<or> x # xs = [] then []
         else (if os_writer_open s then [] else [Open_writer (sk_video_path (os_options s)) codec fps w h]) @ map Write_frame cvs) \<and>
       filter of_window es = (if sk_show_window (os_options s) then map (Show_window (sk_window_title (os_options s))) cvs else []) \<and>
       filter ((=) On_quit) es = (if sk_show_window (os_options s) \<and> sk_on_quit (os_options s) \<and> \<not> os_quit_requested s \<and>
         list_ex quit_key (x # xs) then [On_quit] else [])"
  proof (rule exI [of _ "cv # cvs"], rule exI [of _ codec], rule exI [of _ fps], rule exI [of _ w], rule exI [of _ h],
      rule exI [of _ "es @ es'"], intro conjI)
    show "os_effects s' = os_effects s @ es @ es'" using one(1) more(1) by simp
    show "length (cv # cvs) = length (x # xs)" using more(2) by simp
    show "filter of_writer (es @ es') = (if sk_video_path (os_options s) = [] \<or> x # xs = [] then []
         else (if os_writer_open s then [] else [Open_writer (sk_video_path (os_options s)) codec fps w h]) @ map Write_frame (cv # cvs))"
      using one(2) more(2,3) E(1,2) by (cases xs) auto
    show "filter of_window (es @ es') =
        (if sk_show_window (os_options s) then map (Show_window (sk_window_title (os_options s))) (cv # cvs) else [])"
      using one(3) more(4) E(1) by simp
    show "filter ((=) On_quit) (es @ es') = (if sk_show_window (os_options s) \<and> sk_on_quit (os_options s) \<and> \<not> os_quit_requested s \<and>
         list_ex quit_key (x # xs) then [On_quit] else [])"
      using one(4) more(5) E(1,4) x by (auto simp: quit_key_def)
  qed
  then show ?case using flags E(1-3) by auto
qed simp

text \<open>
  C28: what the overlay sink does to the outside world in a run that does not throw. The video file
  is opened once, before the first frame, gets every frame in order and is released at the end;
  the preview shows every frame and its window is destroyed at the end; \<open>on_quit\<close> is called at most
  once, and exactly if a quit key was pressed in the preview.
\<close>

theorem overlay_sink_run:
  assumes "consume_inputs r d dr order gui xs (overlay_sink_on_start info (make_overlay_sink opts)) = Inr s"
  shows "\<exists>cvs codec fps w h. length cvs = length xs \<and>
    filter of_writer (os_effects (overlay_sink_on_finish s)) = (if sk_video_path opts = [] \<or> xs = [] then []
      else [Open_writer (sk_video_path opts) codec fps w h] @ map Write_frame cvs @ [Release_writer]) \<and>
    filter of_window (os_effects (overlay_sink_on_finish s)) = (if \<not> sk_show_window opts \<or> xs = [] then []
      else map (Show_window (sk_window_title opts)) cvs @ [Destroy_window (sk_window_title opts)]) \<and>
    length (filter ((=) On_quit) (os_effects (overlay_sink_on_finish s))) =
      (if sk_show_window opts \<and> sk_on_quit opts \<and> list_ex quit_key xs then 1 else 0) \<and>
    \<not> os_writer_open (overlay_sink_on_finish s) \<and> \<not> os_window_open (overlay_sink_on_finish s)"
proof -
  let ?s0 = "overlay_sink_on_start info (make_overlay_sink opts)"
  have s0: "os_options ?s0 = opts" "\<not> os_writer_open ?s0" "\<not> os_window_open ?s0" "\<not> os_quit_requested ?s0" "os_effects ?s0 = []"
    by (simp_all add: overlay_sink_on_start_def make_overlay_sink_def)
  obtain cvs codec fps w h es where E: "length cvs = length xs" "os_effects s = os_effects ?s0 @ es"
    "filter of_writer es = (if sk_video_path (os_options ?s0) = [] \<or> xs = [] then []
         else (if os_writer_open ?s0 then [] else [Open_writer (sk_video_path (os_options ?s0)) codec fps w h]) @ map Write_frame cvs)"
    "filter of_window es = (if sk_show_window (os_options ?s0) then map (Show_window (sk_window_title (os_options ?s0))) cvs else [])"
    "filter ((=) On_quit) es = (if sk_show_window (os_options ?s0) \<and> sk_on_quit (os_options ?s0) \<and> \<not> os_quit_requested ?s0 \<and>
         list_ex quit_key xs then [On_quit] else [])"
    and F: "os_options s = os_options ?s0" "os_writer_open s = (os_writer_open ?s0 \<or> sk_video_path (os_options ?s0) \<noteq> [] \<and> xs \<noteq> [])"
    "os_window_open s = (os_window_open ?s0 \<or> sk_show_window (os_options ?s0) \<and> xs \<noteq> [])"
    using consume_inputs_effects [OF assms] by blast
  note E = E [unfolded s0(1,5) append_Nil] and F = F [unfolded s0(1)]
  show ?thesis
    by (rule exI [of _ cvs], rule exI [of _ codec], rule exI [of _ fps], rule exI [of _ w], rule exI [of _ h])
      (use E F s0(2-4) in \<open>auto simp: overlay_sink_on_finish_def emit_def Let_def\<close>)
qed

theorem overlay_sink_run_witness:
  "\<exists>s gui. let opts = default_sink_options\<lparr>sk_show_window := True, sk_on_quit := True\<rparr>;
        xs = [(5, None, 113, empty_frame\<lparr>fr_image := empty_image\<lparr>image_width := 4, image_height := 3\<rparr>\<rparr>), (9, None, 27, empty_frame)]
    in consume_inputs round32 round64 plain_drawing rev gui xs (overlay_sink_on_start no_info (make_overlay_sink opts)) = Inr s \<and>
       length (filter ((=) On_quit) (os_effects (overlay_sink_on_finish s))) = 1"
proof -
  let ?opts = "default_sink_options\<lparr>sk_show_window := True, sk_on_quit := True\<rparr>"
  let ?gui = "\<lparr>writer_opens = (\<lambda>_. True), imwrite_throws = (\<lambda>_. False)\<rparr>"
  let ?f = "empty_frame\<lparr>fr_image := empty_image\<lparr>image_width := 4, image_height := 3\<rparr>\<rparr>"
  let ?xs = "[(5, None, 113, ?f), (9, None, 27, empty_frame)] :: sink_input list"
  let ?s0 = "overlay_sink_on_start no_info (make_overlay_sink ?opts)"
  have step: "\<exists>s'. overlay_sink_consume round32 round64 plain_drawing rev ?gui t m key f s = Inr s' \<and> os_options s' = ?opts"
    if s: "os_options s = ?opts" and f: "f = ?f \<or> f = empty_frame" for t m key f s
  proof -
    let ?cv = "\<lparr>canvas_rows = image_height (fr_image f), canvas_cols = image_width (fr_image f), drawn = []\<rparr>"
    obtain ov cv where "render_frame round32 round64 plain_drawing rev t m f (os_renderer s) ?cv = Inr (ov, cv)"
      using render_frame_total [OF f64.double_rounding_axioms, of ?cv round32 plain_drawing rev t m f "os_renderer s"] f
      by (auto simp: empty_frame_def empty_image_def)
    then show ?thesis
      using s by (simp add: overlay_sink_consume_def write_video_def write_still_def preview_def emit_def default_sink_options_def Let_def)
  qed
  obtain s1 where s1: "overlay_sink_consume round32 round64 plain_drawing rev ?gui 5 None 113 ?f ?s0 = Inr s1" "os_options s1 = ?opts"
    using step [of ?s0 ?f 5 None 113] by (auto simp: overlay_sink_on_start_def make_overlay_sink_def)
  obtain s2 where s2: "overlay_sink_consume round32 round64 plain_drawing rev ?gui 9 None 27 empty_frame s1 = Inr s2"
    using step [OF s1(2), of empty_frame 9 None 27] by auto
  have run: "consume_inputs round32 round64 plain_drawing rev ?gui ?xs ?s0 = Inr s2" using s1 s2 by simp
  from overlay_sink_run [OF run] run show ?thesis
    by (intro exI [of _ s2] exI [of _ ?gui]) (auto simp: quit_key_def default_sink_options_def)
qed

end
