(* ===== verification/JsonLinesSink.thy ===== *)
theory JsonLinesSink
  imports JsonText Pipeline
begin

text \<open>
  \<open>io/json_lines_sink.hpp\<close>, \<open>src/io/json_lines_sink.cpp\<close>: one JSON object per frame and line. The
  stream \<open>out_\<close> is the bytes written to it and the number of them that were flushed; a write error
  (a full disk) sets a flag of the stream nobody reads and is not in the model. \<open>d\<close> rounds double.
\<close>

section \<open>The sink\<close>

text \<open>\<open>to_ms\<close> of \<open>core/clock.hpp\<close>, from nanoseconds.\<close>

definition to_ms :: "rounding \<Rightarrow> int \<Rightarrow> real" where
  "to_ms d ns = fdiv d (d (of_int ns)) 1000000"

record json_lines_sink =
  jl_out :: string
  jl_flushed :: nat
  jl_line :: string
  jl_started_at :: int

text \<open>\<open>opens\<close> tells which files the program may create.\<close>

definition make_json_lines_sink :: "(string \<Rightarrow> bool) \<Rightarrow> string \<Rightarrow> takt_error + json_lines_sink" where
  "make_json_lines_sink opens path =
     (if \<not> opens path then Inl (Runtime_error (''JsonLinesSink: cannot open '' @ path))
      else Inr \<lparr>jl_out = [], jl_flushed = 0, jl_line = [], jl_started_at = 0\<rparr>)"

definition json_lines_on_start :: "run_info \<Rightarrow> json_lines_sink \<Rightarrow> json_lines_sink" where
  "json_lines_on_start info s = s\<lparr>jl_started_at := info_started_at info\<rparr>"

definition box_text :: "box \<Rightarrow> string" where
  "box_text b = json_key ''box'' @ ''['' @ show_fixed 1 (box_x1 b) @ '','' @ show_fixed 1 (box_y1 b) @ '','' @
     show_fixed 1 (box_x2 b) @ '','' @ show_fixed 1 (box_y2 b) @ '']}''"

definition append_detection :: "frame \<Rightarrow> nat \<Rightarrow> string \<Rightarrow> string" where
  "append_detection f i line =
     (let dt = detections f ! i
      in line @ (if i = 0 then [] else '','') @ ''{'' @ json_key ''cls'' @ show_int (det_class dt) @
         '','' @ json_key ''score'' @ show_fixed 4 (det_score dt) @ '','' @ box_text (det_box dt))"

definition append_track :: "frame \<Rightarrow> nat \<Rightarrow> string \<Rightarrow> string" where
  "append_track f i line =
     (let tr = tracks f ! i
      in line @ (if i = 0 then [] else '','') @ ''{'' @ json_key ''id'' @ show_int (obj_track_id tr) @
         '','' @ json_key ''cls'' @ show_int (obj_class tr) @
         '','' @ json_key ''score'' @ show_fixed 4 (obj_score tr) @
         '','' @ json_key ''age'' @ show_int (obj_age_frames tr) @ '','' @ box_text (obj_box tr))"

definition json_lines_consume :: "rounding \<Rightarrow> int \<Rightarrow> frame \<Rightarrow> json_lines_sink \<Rightarrow> json_lines_sink" where
  "json_lines_consume d t f s =
     (let stage_ms = (\<lambda>st. to_ms d (service_time f ! to_index st));
          line = ''{'' @ json_key ''seq'' @ show_nat (unat (sequence f)) @
            '','' @ json_key ''t_ms'' @ show_fixed 3 (to_ms d (captured_at f - jl_started_at s)) @
            '','' @ json_key ''e2e_ms'' @ show_fixed 3 (to_ms d (t - captured_at f)) @
            '','' @ json_key ''stage_ms'' @ ''{'' @ json_key ''pre'' @ show_fixed 3 (stage_ms kPreprocess) @
            '','' @ json_key ''infer'' @ show_fixed 3 (stage_ms kInference) @
            '','' @ json_key ''post'' @ show_fixed 3 (stage_ms kPostprocess) @
            '','' @ json_key ''track'' @ show_fixed 3 (stage_ms kTracking) @ ''},'' @ json_key ''detections'' @ ''['';
          line = fold (append_detection f) [0..<length (detections f)] line;
          line = line @ ''],'' @ json_key ''tracks'' @ ''['';
          line = fold (append_track f) [0..<length (tracks f)] line;
          line = line @ '']}'' @ [CHR 0x0A]
      in s\<lparr>jl_line := line, jl_out := jl_out s @ line\<rparr>)"

definition json_lines_on_finish :: "json_lines_sink \<Rightarrow> json_lines_sink" where
  "json_lines_on_finish s = s\<lparr>jl_flushed := length (jl_out s)\<rparr>"

text \<open>The sink behind \<open>FrameSink\<close>; \<open>clk n\<close> is the result of its \<open>n\<close>-th call of \<open>now()\<close>.\<close>

definition json_lines_frame_sink :: "rounding \<Rightarrow> (nat \<Rightarrow> int) \<Rightarrow> json_lines_sink \<Rightarrow> (json_lines_sink \<times> nat) frame_sink" where
  "json_lines_frame_sink d clk s =
     \<lparr>sink_state = (s, 0),
      sink_on_start = (\<lambda>info (s, n). Inr (json_lines_on_start info s, n)),
      sink_consume = (\<lambda>f (s, n). Inr (json_lines_consume d (clk n) f s, n + 1)),
      sink_on_finish = (\<lambda>(s, n). Inr (json_lines_on_finish s, n))\<rparr>"

section \<open>What a line says\<close>

definition box_value :: "box \<Rightarrow> json" where
  "box_value b = Jarr (map (\<lambda>v. Jnum (show_fixed 1 v)) [box_x1 b, box_y1 b, box_x2 b, box_y2 b])"

definition detection_value :: "detection \<Rightarrow> json" where
  "detection_value dt = Jobj [(''cls'', Jnum (show_int (det_class dt))), (''score'', Jnum (show_fixed 4 (det_score dt))),
     (''box'', box_value (det_box dt))]"

definition track_value :: "tracked_object \<Rightarrow> json" where
  "track_value tr = Jobj [(''id'', Jnum (show_int (obj_track_id tr))), (''cls'', Jnum (show_int (obj_class tr))),
     (''score'', Jnum (show_fixed 4 (obj_score tr))), (''age'', Jnum (show_int (obj_age_frames tr))),
     (''box'', box_value (obj_box tr))]"

text \<open>The record of the frame \<open>f\<close>, written at time \<open>t\<close> of a run that started at \<open>t0\<close>.\<close>

definition frame_value :: "rounding \<Rightarrow> int \<Rightarrow> int \<Rightarrow> frame \<Rightarrow> json" where
  "frame_value d t0 t f = Jobj
     [(''seq'', Jnum (show_nat (unat (sequence f)))), (''t_ms'', Jnum (show_fixed 3 (to_ms d (captured_at f - t0)))),
      (''e2e_ms'', Jnum (show_fixed 3 (to_ms d (t - captured_at f)))),
      (''stage_ms'', Jobj (map (\<lambda>(k, st). (k, Jnum (show_fixed 3 (to_ms d (service_time f ! to_index st)))))
         [(''pre'', kPreprocess), (''infer'', kInference), (''post'', kPostprocess), (''track'', kTracking)])),
      (''detections'', Jarr (map detection_value (detections f))), (''tracks'', Jarr (map track_value (tracks f)))]"

lemma frame_value_ok: "json_ok (frame_value d t0 t f)"
  by (simp add: frame_value_def detection_value_def track_value_def box_value_def list_all_iff)

lemma separated_snoc: "separated (ss @ [s]) = separated ss @ (if ss = [] then [] else '','') @ s"
  by (induction ss) (simp_all add: separated_Cons)

lemma fold_separated:
  assumes "\<And>i line. g i line = line @ (if i = 0 then [] else '','') @ h i"
  shows "fold g [0..<n] line = line @ separated (map h [0..<n])"
  by (induction n) (simp_all add: assms separated_snoc)

lemma render_box: "box_text b = json_key ''box'' @ render (box_value b) @ ''}''"
  by (simp add: box_text_def box_value_def)

lemma render_detection:
  "append_detection f i line = line @ (if i = 0 then [] else '','') @ render (detection_value (detections f ! i))"
  unfolding detection_value_def render_object append_detection_def Let_def
  by (simp add: render_plain json_escape_def quote_def backslash_def render_box)

lemma render_track:
  "append_track f i line = line @ (if i = 0 then [] else '','') @ render (track_value (tracks f ! i))"
  unfolding track_value_def render_object append_track_def Let_def
  by (simp add: render_plain json_escape_def quote_def backslash_def render_box)

lemma render_list: "separated (map (\<lambda>i. render (g (xs ! i))) [0..<length xs]) = separated (map render (map g xs))"
  by (rule arg_cong [of _ _ separated]) (auto intro: nth_equalityI)

lemma consume_appends:
  "json_lines_consume d t f s =
     (let line = render (frame_value d (jl_started_at s) t f) @ [CHR 0x0A] in s\<lparr>jl_line := line, jl_out := jl_out s @ line\<rparr>)"
  unfolding json_lines_consume_def frame_value_def render_object Let_def
    fold_separated [of "append_detection f", OF render_detection] fold_separated [of "append_track f", OF render_track] render_list
  by (simp add: render_plain json_escape_def quote_def backslash_def render_object)

lemma json_lines_consumed:
  assumes "sink_state k = (s, n)" "k = json_lines_frame_sink d clk s0\<lparr>sink_state := (s, n)\<rparr>"
  shows "\<exists>k' s'. consume_all fs [k] = Inr [k'] \<and> k' = json_lines_frame_sink d clk s0\<lparr>sink_state := (s', n + length fs)\<rparr> \<and>
    jl_started_at s' = jl_started_at s \<and>
    jl_out s' = jl_out s @ concat (map (\<lambda>j. render j @ [CHR 0x0A])
      (map (\<lambda>i. frame_value d (jl_started_at s) (clk (n + i)) (fs ! i)) [0..<length fs]))"
  using assms
proof (induction fs arbitrary: k s n)
  case (Cons f fs)
  let ?s = "json_lines_consume d (clk n) f s"
  let ?k = "json_lines_frame_sink d clk s0\<lparr>sink_state := (?s, Suc n)\<rparr>"
  have step: "sinks_consume f [k] = Inr [?k]"
    using Cons.prems by (simp add: sinks_consume_def json_lines_frame_sink_def)
  have "sink_state ?k = (?s, Suc n)" by simp
  from Cons.IH [OF this refl] obtain k' s' where IH: "consume_all fs [?k] = Inr [k']"
    "k' = json_lines_frame_sink d clk s0\<lparr>sink_state := (s', Suc n + length fs)\<rparr>" "jl_started_at s' = jl_started_at ?s"
    "jl_out s' = jl_out ?s @ concat (map (\<lambda>j. render j @ [CHR 0x0A])
      (map (\<lambda>i. frame_value d (jl_started_at ?s) (clk (Suc n + i)) (fs ! i)) [0..<length fs]))" by blast
  have s: "jl_started_at ?s = jl_started_at s" "jl_out ?s = jl_out s @ render (frame_value d (jl_started_at s) (clk n) f) @ [CHR 0x0A]"
    by (simp_all add: consume_appends Let_def)
  have "map (\<lambda>i. frame_value d (jl_started_at s) (clk (n + i)) ((f # fs) ! i)) [0..<length (f # fs)] =
      frame_value d (jl_started_at s) (clk n) f # map (\<lambda>i. frame_value d (jl_started_at s) (clk (Suc n + i)) (fs ! i)) [0..<length fs]"
    by (simp add: upt_conv_Cons map_Suc_upt [symmetric] comp_def del: upt_Suc map_Suc_upt)
  then show ?case using step IH s by (intro exI [of _ k'] exI [of _ s']) simp
qed auto

text \<open>
  The file of a run with the JSON lines sink. Opened, started, fed with the frames \<open>fs\<close> and
  finished, it has exactly one line per frame, in order, every byte flushed; each line is a JSON
  document with the sequence number, the times, all detections and all tracks of its frame.
\<close>

theorem json_lines_file:
  assumes "make_json_lines_sink opens path = Inr s"
  shows "\<exists>k s'. bind_result (sinks_start info [json_lines_frame_sink d clk s]) (\<lambda>ks. bind_result (consume_all fs ks) sinks_finish) = Inr [k] \<and>
    sink_state k = (s', length fs) \<and> jl_flushed s' = length (jl_out s') \<and>
    map read_json (text_lines (jl_out s')) =
      map (\<lambda>i. Some (frame_value d (info_started_at info) (clk i) (fs ! i))) [0..<length fs]"
proof -
  have s: "jl_out s = []" using assms by (auto simp: make_json_lines_sink_def split: if_splits)
  let ?s = "json_lines_on_start info s"
  let ?k = "json_lines_frame_sink d clk s\<lparr>sink_state := (?s, 0)\<rparr>"
  have start: "sinks_start info [json_lines_frame_sink d clk s] = Inr [?k]"
    by (simp add: sinks_start_def json_lines_frame_sink_def)
  have "sink_state ?k = (?s, 0)" by simp
  from json_lines_consumed [OF this refl, of fs] obtain k' s' where run: "consume_all fs [?k] = Inr [k']"
    "k' = json_lines_frame_sink d clk s\<lparr>sink_state := (s', length fs)\<rparr>"
    "jl_out s' = concat (map (\<lambda>j. render j @ [CHR 0x0A])
      (map (\<lambda>i. frame_value d (info_started_at info) (clk i) (fs ! i)) [0..<length fs]))"
    using s by (auto simp: json_lines_on_start_def)
  let ?k' = "k'\<lparr>sink_state := (json_lines_on_finish s', length fs)\<rparr>"
  have fin: "sinks_finish [k'] = Inr [?k']"
    using run(2) by (simp add: sinks_finish_def json_lines_frame_sink_def)
  have "map read_json (text_lines (jl_out s')) = map Some (map (\<lambda>i. frame_value d (info_started_at info) (clk i) (fs ! i)) [0..<length fs])"
    unfolding run(3) by (rule text_lines_documents) (simp add: list_all_iff frame_value_ok)
  then show ?thesis using start run(1) fin by (simp add: json_lines_on_finish_def comp_def)
qed

definition dark_info :: run_info where
  "dark_info = \<lparr>info_started_at = 3, info_backend = ''fake'', info_source = ''dark'', info_policy = ''latest'',
     info_source_fps = 0, info_model_width = 8, info_model_height = 8\<rparr>"

theorem json_lines_file_witness:
  "\<exists>s k s'. make_json_lines_sink (\<lambda>_. True) ''a.jsonl'' = Inr s \<and>
    bind_result (sinks_start dark_info [json_lines_frame_sink round64 (\<lambda>_. 7) s])
      (\<lambda>ks. bind_result (consume_all [empty_frame, empty_frame] ks) sinks_finish) = Inr [k] \<and>
    sink_state k = (s', 2) \<and> length (text_lines (jl_out s')) = 2"
proof -
  obtain s where s: "make_json_lines_sink (\<lambda>_. True) ''a.jsonl'' = Inr s" by (simp add: make_json_lines_sink_def)
  from json_lines_file [OF s, of dark_info round64 "\<lambda>_. 7" "[empty_frame, empty_frame]"] s show ?thesis
    by (auto dest: arg_cong [of _ _ length])
qed

end
