(* ===== verification/AppSupport.thy ===== *)
theory AppSupport
  imports OnnxBackend OverlaySink JsonLinesSink "HOL-Library.Signed_Division"
begin

text \<open>
  \<open>apps/app_support.hpp\<close>, \<open>apps/app_support.cpp\<close>: the engine and the source the command line asks for. What
  the executable runs on is one argument, the record \<open>machine\<close>: the build flags, the libraries,
  the files, the clocks. \<open>r\<close> rounds float, \<open>d\<close> double.
\<close>

section \<open>The machine\<close>

record ('o, 'c) machine =
  with_onnxruntime :: bool
  with_opencv :: bool
  m_ort :: "'o ort"
  m_opencv :: "'c opencv"
  m_libm :: libm
  m_format_g :: "real \<Rightarrow> string"
  m_opens :: "string \<Rightarrow> bool"
  m_files :: "string \<Rightarrow> string option"
  m_drawing :: drawing
  m_trail_order :: "int list \<Rightarrow> int list"
  m_highgui :: highgui
  m_clock :: "nat \<Rightarrow> int"
  m_source_clock :: "nat \<Rightarrow> int"
  m_sink_clock :: "nat \<Rightarrow> int"
  m_keys :: "nat \<Rightarrow> int"
  m_live_metrics :: "nat \<Rightarrow> pipeline_metrics option"

text \<open>
  The last five give the results of the successive calls of \<open>now()\<close>, of \<open>waitKey\<close>, and of the reads of the
  live metrics.
\<close>

record backend_settings =
  bs_kind :: string
  bs_model :: string
  bs_execution_provider :: string
  bs_threads :: int
  bs_spin :: bool
  bs_fake_input :: int
  bs_fake_classes :: int
  bs_fake_latency_ms :: real
  bs_fake_jitter_ms :: real

definition default_backend_settings :: backend_settings where
  "default_backend_settings = \<lparr>bs_kind = [], bs_model = [], bs_execution_provider = ''cpu'', bs_threads = 0, bs_spin = False,
     bs_fake_input = 640, bs_fake_classes = 80, bs_fake_latency_ms = 15, bs_fake_jitter_ms = 0\<rparr>"

record source_settings =
  ss_uri :: string
  ss_realtime :: bool
  ss_loop :: bool
  ss_synthetic_width :: int
  ss_synthetic_height :: int
  ss_synthetic_fps :: real

definition default_source_settings :: source_settings where
  "default_source_settings = \<lparr>ss_uri = ''synthetic'', ss_realtime = True, ss_loop = False, ss_synthetic_width = 1280,
     ss_synthetic_height = 720, ss_synthetic_fps = 30\<rparr>"

section \<open>One engine type for both engines\<close>

text \<open>What \<open>Backend\<close> erases is a fake or an ONNX backend; a call is dispatched on it.\<close>

type_synonym 'o any_engine = "fake_backend + 'o onnx_backend"

definition any_input_spec :: "'o any_engine \<Rightarrow> tensor_spec" where
  "any_input_spec e = (case e of Inl fb \<Rightarrow> fk_input_spec fb | Inr b \<Rightarrow> ox_input_spec b)"

definition any_output_spec :: "'o any_engine \<Rightarrow> tensor_spec" where
  "any_output_spec e = (case e of Inl fb \<Rightarrow> fk_output_spec fb | Inr b \<Rightarrow> ox_output_spec b)"

definition any_infer ::
  "rounding \<Rightarrow> rounding \<Rightarrow> 'o ort \<Rightarrow> 'o any_engine \<Rightarrow> real list \<Rightarrow> real list \<Rightarrow> takt_error + 'o any_engine \<times> real list"
where
  "any_infer r d lib e inp out =
     (case e of
        Inl fb \<Rightarrow> map_sum id (apfst Inl) (fake_infer r d fb inp out)
      | Inr b \<Rightarrow> map_sum id (apfst Inr) (onnx_infer lib b inp out))"

definition erase_backend :: "rounding \<Rightarrow> rounding \<Rightarrow> 'o ort \<Rightarrow> 'o any_engine \<Rightarrow> 'o any_engine backend" where
  "erase_backend r d lib e =
     \<lparr>engine = e, engine_name = (case e of Inl fb \<Rightarrow> ''fake'' | Inr b \<Rightarrow> ox_name b),
      input_spec = any_input_spec e, output_spec = any_output_spec e, engine_infer = any_infer r d lib\<rparr>"

section \<open>Engine and source from the settings\<close>

definition from_ms :: "rounding \<Rightarrow> real \<Rightarrow> int" where
  "from_ms d ms = truncate_real (fmul d ms 1000)"

definition fake_settings :: "rounding \<Rightarrow> backend_settings \<Rightarrow> fake_options" where
  "fake_settings d bs =
     (let s = bs_fake_input bs
      in default_fake_options\<lparr>fk_input_width := s, fk_input_height := s, fk_num_classes := bs_fake_classes bs,
           fk_num_anchors := (s sdiv 8) * (s sdiv 8) + (s sdiv 16) * (s sdiv 16) + (s sdiv 32) * (s sdiv 32),
           fk_latency := from_ms d (bs_fake_latency_ms bs), fk_jitter := from_ms d (bs_fake_jitter_ms bs)\<rparr>)"

definition backend_kind :: "backend_settings \<Rightarrow> string" where
  "backend_kind bs = (if bs_kind bs = [] then (if bs_model bs = [] then ''fake'' else ''onnx'') else bs_kind bs)"

definition make_backend ::
  "rounding \<Rightarrow> rounding \<Rightarrow> ('o, 'c) machine \<Rightarrow> backend_settings \<Rightarrow> takt_error + 'o any_engine backend"
where
  "make_backend r d w bs =
     (if backend_kind bs = ''fake''
      then bind_result (make_fake_backend (fake_settings d bs)) (\<lambda>fb. Inr (erase_backend r d (m_ort w) (Inl fb)))
      else if backend_kind bs = ''onnx''
      then (if with_onnxruntime w
            then (if bs_model bs = [] then Inl (Invalid_argument ''--model is required for the onnx backend'')
                  else bind_result (make_onnx_backend (m_ort w)
                         (default_onnx_options\<lparr>ox_model_path := bs_model bs, ox_execution_provider := bs_execution_provider bs,
                            ox_intra_op_threads := bs_threads bs, ox_allow_spinning := bs_spin bs\<rparr>))
                         (\<lambda>b. Inr (erase_backend r d (m_ort w) (Inr b))))
            else Inl (Invalid_argument ''this build has no ONNX Runtime backend (TAKT_WITH_ONNXRUNTIME=OFF)''))
      else Inl (Invalid_argument (''unknown backend '' @ [CHR 0x27] @ backend_kind bs @ [CHR 0x27] @ '' (expected onnx or fake)'')))"

type_synonym 'c any_source = "(synthetic_source \<times> nat) + ('c opencv_source \<times> nat)"

definition any_frame_source :: "rounding \<Rightarrow> ('o, 'c) machine \<Rightarrow> 'c any_source \<Rightarrow> 'c any_source frame_source" where
  "any_frame_source d w st =
     \<lparr>src_state = st,
      src_read = (\<lambda>st img. case st of
          Inl (s, n) \<Rightarrow> map_sum id (\<lambda>(got, img, s, _). (got, img, Inl (s, n + 1))) (synthetic_read d (m_libm w) (m_source_clock w n) img s)
        | Inr (s, n) \<Rightarrow> map_sum id (\<lambda>(got, img, s, _). (got, img, Inr (s, n + 1))) (opencv_read (m_opencv w) (m_source_clock w n) img s)),
      src_describe = (\<lambda>st. case st of Inl (s, n) \<Rightarrow> synthetic_describe (m_format_g w) s | Inr (s, n) \<Rightarrow> opencv_describe s),
      src_nominal_fps = (\<lambda>st. case st of Inl (s, n) \<Rightarrow> syn_fps (syn_options s) | Inr (s, n) \<Rightarrow> opencv_nominal_fps s)\<rparr>"

definition make_source ::
  "rounding \<Rightarrow> ('o, 'c) machine \<Rightarrow> source_settings \<Rightarrow> takt_error + 'c any_source frame_source"
where
  "make_source d w ss =
     (if ss_uri ss = ''synthetic''
      then bind_result (make_synthetic (default_synthetic_options\<lparr>syn_width := ss_synthetic_width ss,
                          syn_height := ss_synthetic_height ss,
                          syn_fps := (if ss_realtime ss then ss_synthetic_fps ss else 0)\<rparr>))
             (\<lambda>s. Inr (any_frame_source d w (Inl (s, 0))))
      else if with_opencv w
      then bind_result (make_opencv_source d (m_opencv w) (default_opencv_options\<lparr>opt_uri := ss_uri ss,
                          opt_realtime := ss_realtime ss, opt_loop := ss_loop ss\<rparr>))
             (\<lambda>s. Inr (any_frame_source d w (Inr (s, 0))))
      else Inl (Invalid_argument ''this build has no OpenCV; only --source synthetic is available''))"

definition build_features :: "('o, 'c) machine \<Rightarrow> string" where
  "build_features w = ''core'' @ (if with_onnxruntime w then '' onnxruntime'' else []) @ (if with_opencv w then '' opencv'' else [])"

section \<open>The contract of the erased engine\<close>

definition any_ok :: "'o ort \<Rightarrow> 'o any_engine \<Rightarrow> bool" where
  "any_ok lib e \<longleftrightarrow> (case e of Inl fb \<Rightarrow> fake_ok fb | Inr b \<Rightarrow> onnx_ok b \<and> fills_tensors lib)"

interpretation any_engine: inference_engine "any_ok lib" any_input_spec any_output_spec "any_infer r d lib" for r d lib
proof
  fix e :: "'a any_engine" and msg :: string and inp out :: "real list" and n m
  assume e: "any_ok lib e"
  show "\<exists>n m. element_count (any_input_spec e) = Inr n \<and> element_count (any_output_spec e) = Inr m"
    using e fake_engine.static_shapes onnx_engine.static_shapes
    by (auto simp: any_ok_def any_input_spec_def any_output_spec_def split: sum.splits)
  assume c: "element_count (any_input_spec e) = Inr n" "element_count (any_output_spec e) = Inr m"
  show "length inp < unat n \<or> length out < unat m \<Longrightarrow> \<exists>msg. any_infer r d lib e inp out = Inl (Invalid_argument msg)"
  proof (cases e)
    case (Inl fb)
    assume small: "length inp < unat n \<or> length out < unat m"
    obtain msg where "fake_infer r d fb inp out = Inl (Invalid_argument msg)"
      using fake_engine.rejects_small [OF _ _ _ small, of fb r d] e c Inl by (auto simp: any_ok_def any_input_spec_def any_output_spec_def)
    then show ?thesis using Inl by (simp add: any_infer_def)
  next
    case (Inr b)
    assume small: "length inp < unat n \<or> length out < unat m"
    obtain msg where "onnx_infer lib b inp out = Inl (Invalid_argument msg)"
      using onnx_engine.rejects_small [OF _ _ _ small, of b lib] e c Inr by (auto simp: any_ok_def any_input_spec_def any_output_spec_def)
    then show ?thesis using Inr by (simp add: any_infer_def)
  qed
  show "any_infer r d lib e inp out \<noteq> Inl (Invalid_argument msg)" if fit: "unat n \<le> length inp" "unat m \<le> length out"
  proof (cases e)
    case (Inl fb)
    have "fake_infer r d fb inp out \<noteq> Inl (Invalid_argument msg)"
      by (rule fake_engine.accepts_fitting [OF _ _ _ fit]) (use e c Inl in \<open>simp_all add: any_ok_def any_input_spec_def any_output_spec_def\<close>)
    then show ?thesis using Inl by (cases "fake_infer r d fb inp out") (simp_all add: any_infer_def)
  next
    case (Inr b)
    have "onnx_infer lib b inp out \<noteq> Inl (Invalid_argument msg)"
      by (rule onnx_engine.accepts_fitting [OF _ _ _ fit]) (use e c Inr in \<open>simp_all add: any_ok_def any_input_spec_def any_output_spec_def\<close>)
    then show ?thesis using Inr by (cases "onnx_infer lib b inp out") (simp_all add: any_infer_def)
  qed
next
  fix e e' :: "'a any_engine" and inp out out' :: "real list"
  assume e: "any_ok lib e" and run: "any_infer r d lib e inp out = Inr (e', out')"
  show "any_ok lib e' \<and> any_input_spec e' = any_input_spec e \<and> any_output_spec e' = any_output_spec e \<and> length out' = length out"
  proof (cases e)
    case (Inl fb)
    obtain fb' where fb': "fake_infer r d fb inp out = Inr (fb', out')" "e' = Inl fb'"
      using run Inl by (cases "fake_infer r d fb inp out") (auto simp: any_infer_def)
    have "fake_ok fb" using e Inl by (simp add: any_ok_def)
    from fake_engine.keeps [OF this fb'(1)] show ?thesis
      using Inl fb'(2) by (simp add: any_ok_def any_input_spec_def any_output_spec_def)
  next
    case (Inr b)
    obtain b' where b': "onnx_infer lib b inp out = Inr (b', out')" "e' = Inr b'"
      using run Inr by (cases "onnx_infer lib b inp out") (auto simp: any_infer_def)
    have "onnx_ok b \<and> fills_tensors lib" using e Inr by (simp add: any_ok_def)
    from onnx_engine.keeps [OF this b'(1)] show ?thesis
      using Inr b'(2) by (simp add: any_ok_def any_input_spec_def any_output_spec_def)
  qed
qed

lemma make_backend_result:
  assumes "make_backend r d w bs = Inr b" "fills_tensors (m_ort w)"
  shows "any_ok (m_ort w) (engine b)" "b = erase_backend r d (m_ort w) (engine b)"
proof -
  have "any_ok (m_ort w) (engine b) \<and> b = erase_backend r d (m_ort w) (engine b)"
  proof (cases "backend_kind bs = ''fake''")
    case True
    then obtain fb where "make_fake_backend (fake_settings d bs) = Inr fb" "b = erase_backend r d (m_ort w) (Inl fb)"
      using assms(1) by (auto simp: make_backend_def bind_result_Inr_iff)
    then show ?thesis by (simp add: any_ok_def make_fake_ok erase_backend_def)
  next
    case False
    then obtain opts ob where "make_onnx_backend (m_ort w) opts = Inr ob" "b = erase_backend r d (m_ort w) (Inr ob)"
      using assms(1) by (auto simp: make_backend_def bind_result_Inr_iff split: if_splits)
    moreover from make_onnx_parts [OF calculation(1)] have "onnx_ok ob" by metis
    ultimately show ?thesis using assms(2) by (simp add: any_ok_def erase_backend_def)
  qed
  then show "any_ok (m_ort w) (engine b)" "b = erase_backend r d (m_ort w) (engine b)" by auto
qed

section \<open>The properties\<close>

text \<open>
  The warm-up of a pipeline never fails for the size of a tensor, whichever engine the command line
  selects: the buffers that \<open>begin_run\<close> allocates from the specifications fit every call, and the
  specifications are the same afterwards.
\<close>

theorem warm_up_fits:
  assumes "make_backend r d w bs = Inr b" "fills_tensors (m_ort w)" "pl_backend p = b"
  shows "case warm_up_backend p of
      Inl e \<Rightarrow> \<nexists>msg. e = Invalid_argument msg
    | Inr p' \<Rightarrow> input_spec (pl_backend p') = input_spec b \<and> output_spec (pl_backend p') = output_spec b"
proof -
  let ?e = "engine b"
  note B = make_backend_result [OF assms(1,2)]
  obtain n m where c: "element_count (any_input_spec ?e) = Inr n" "element_count (any_output_spec ?e) = Inr m"
    using any_engine.static_shapes [OF B(1)] by blast
  have specs: "input_spec b = any_input_spec ?e" "output_spec b = any_output_spec ?e" "engine_infer b = any_infer r d (m_ort w)"
    by (subst B(2), simp add: erase_backend_def)+
  have "case warm_up k (replicate (unat n) (1 / 2)) (replicate (unat m) 0) b of
      Inl e \<Rightarrow> \<nexists>msg. e = Invalid_argument msg
    | Inr b' \<Rightarrow> any_ok (m_ort w) (engine b') \<and> any_input_spec (engine b') = any_input_spec ?e \<and> any_output_spec (engine b') = any_output_spec ?e \<and>
        engine_infer b' = any_infer r d (m_ort w) \<and> input_spec b' = input_spec b \<and> output_spec b' = output_spec b" for k
    by (rule any_engine.warm_up_keeps [OF B(1) specs(3) c]) simp_all
  from this [of "nat (cfg_warmup_iterations (pl_config p))"] show ?thesis
    using c assms(3) specs(1,2) by (auto simp: warm_up_backend_def split: sum.splits)
qed

text \<open>A machine with both libraries on which every file can be written and none be read.\<close>

definition tiny_machine :: "(unit, nat) machine" where
  "tiny_machine = \<lparr>with_onnxruntime = True, with_opencv = True, m_ort = tiny_ort, m_opencv = two_pictures, m_libm = exact_libm,
     m_format_g = show_fixed 0, m_opens = (\<lambda>_. True), m_files = (\<lambda>_. None), m_drawing = plain_drawing, m_trail_order = rev,
     m_highgui = \<lparr>writer_opens = (\<lambda>_. True), imwrite_throws = (\<lambda>_. False)\<rparr>, m_clock = int, m_source_clock = int, m_sink_clock = int,
     m_keys = (\<lambda>_. -1), m_live_metrics = (\<lambda>_. None)\<rparr>"

theorem warm_up_fits_witness:
  "\<exists>b (p :: (unit any_engine, unit) pipeline) p'. make_backend round32 round64 tiny_machine (default_backend_settings\<lparr>bs_model := ''yolo.onnx''\<rparr>) = Inr b \<and>
     make_pipeline round32 int (default_config round32\<lparr>cfg_warmup_iterations := 1\<rparr>) b = Inr p \<and>
     warm_up_backend p = Inr p' \<and> input_spec (pl_backend p') = input_spec b"
proof -
  let ?bs = "default_backend_settings\<lparr>bs_model := ''yolo.onnx''\<rparr>" and ?cfg = "default_config round32\<lparr>cfg_warmup_iterations := 1\<rparr>"
  let ?opts = "default_onnx_options\<lparr>ox_model_path := ''yolo.onnx''\<rparr>"
  obtain ob where ob: "make_onnx_backend tiny_ort ?opts = Inr ob"
    "spec_shape (ox_input_spec ob) = [1, 3, 8, 8]" "spec_shape (ox_output_spec ob) = [1, 6, 8]"
    by (simp add: make_onnx_backend_def configure_session_def default_onnx_options_def tiny_ort_def library_call_def
      resolve_input_shape_def element_count_def has_dynamic_dim_def uncaught_def upt_rec Let_def)
  let ?b = "erase_backend round32 round64 tiny_ort (Inr ob)"
  have b: "make_backend round32 round64 tiny_machine ?bs = Inr ?b"
    using ob(1) by (simp add: make_backend_def backend_kind_def default_backend_settings_def tiny_machine_def default_onnx_options_def)
  have "\<exists>p :: (unit any_engine, unit) pipeline. make_pipeline round32 int ?cfg ?b = Inr p \<and> pl_backend p = ?b \<and> pl_config p = ?cfg"
    using ob(2,3) by (simp add: make_pipeline_def input_dimension_def erase_backend_def any_input_spec_def any_output_spec_def to_int32_def
        make_letterboxer_def yolo_layout_from_shape_def make_decoder_def default_config_def Let_def)
  then obtain p :: "(unit any_engine, unit) pipeline" where p: "make_pipeline round32 int ?cfg ?b = Inr p" "pl_backend p = ?b" "pl_config p = ?cfg"
    by blast
  have lib: "fills_tensors (m_ort tiny_machine)" by (simp add: fills_tensors_def tiny_ort_def tiny_machine_def)
  from make_onnx_parts [OF ob(1)] have "onnx_ok ob" by metis
  then have "\<exists>p'. warm_up_backend p = Inr p'"
    using p(2,3) by (simp add: warm_up_backend_def erase_backend_def any_input_spec_def any_output_spec_def any_infer_def onnx_ok_def
        backend_infer_def onnx_infer_def uncaught_def tiny_ort_def)
  with warm_up_fits [OF b lib p(2)] b p(1) show ?thesis by auto
qed

text \<open>
  The fake engine the command line configures is read as it is written, for every input size whose
  anchors outnumber the rows of the head: the layout inferred from its output shape has the
  configured classes and anchors.
\<close>

theorem fake_head_recognised:
  assumes "make_backend r d w bs = Inr b" "backend_kind bs = ''fake''"
    and "4 + bs_fake_classes bs < fk_num_anchors (fake_settings d bs)"
  shows "yolo_layout_from_shape (spec_shape (output_spec b)) =
    Inr \<lparr>num_anchors = nat (fk_num_anchors (fake_settings d bs)), num_classes = nat (bs_fake_classes bs), channels_first = True\<rparr>"
proof -
  obtain fb where fb: "make_fake_backend (fake_settings d bs) = Inr fb" "b = erase_backend r d (m_ort w) (Inl fb)"
    using assms(1,2) by (auto simp: make_backend_def bind_result_Inr_iff)
  have "0 < bs_fake_classes bs" "spec_shape (fk_output_spec fb) = [1, 4 + bs_fake_classes bs, fk_num_anchors (fake_settings d bs)]"
    using fb(1) by (auto simp: make_fake_backend_def fake_settings_def Let_def split: if_splits)
  then show ?thesis
    using fb(2) assms(3) by (simp add: erase_backend_def any_output_spec_def yolo_layout_from_shape_def Let_def nat_add_distrib)
qed

theorem fake_head_recognised_witness:
  "\<exists>b. make_backend round32 round64 tiny_machine default_backend_settings = Inr b \<and>
     yolo_layout_from_shape (spec_shape (output_spec b)) = Inr \<lparr>num_anchors = 8400, num_classes = 80, channels_first = True\<rparr>"
proof -
  have s: "backend_kind default_backend_settings = ''fake''" "fk_num_anchors (fake_settings round64 default_backend_settings) = 8400"
    "bs_fake_classes default_backend_settings = 80"
    by (simp_all add: backend_kind_def fake_settings_def default_backend_settings_def signed_divide_int_def Let_def)
  obtain b where b: "make_backend round32 round64 tiny_machine default_backend_settings = Inr b"
    by (simp add: make_backend_def backend_kind_def make_fake_backend_def fake_settings_def default_fake_options_def default_backend_settings_def signed_divide_int_def Let_def)
  from fake_head_recognised [OF b s(1)] b s show ?thesis by simp
qed


end
