(* ===== verification/PipelineRun.thy ===== *)
theory PipelineRun
  imports Pipeline
begin

text \<open>
  \<open>Pipeline::run\<close> of \<open>src/pipeline/pipeline.cpp\<close>: the capture loop on the calling thread, the four stage
  threads of \<open>run_stage\<close>, the queues between them, stop requests and \<open>abort\<close>.

  The threads interleave at the granularity of their calls: one test, one \<open>acquire\<close>, one \<open>read\<close>, one
  \<open>push\<close>, one \<open>pop\<close>, one stage body. The hand-offs and the pool are atomic objects here; their own
  interleavings are the subject of \<open>SpscRing\<close>, \<open>LatestSlot\<close> and \<open>FramePool\<close>. Two stage bodies that
  overlap in time touch disjoint objects apart from the atomic metrics. \<open>abort\<close> and the stop callback
  close their queues one by one (\<open>rs_closing\<close>), interleaved with everything else. A step that would
  block is not enabled.

  Queue 0 is \<open>ingress\<close>, 1 \<open>to_infer\<close>, 2 \<open>to_post\<close>, 3 \<open>to_sink\<close>; worker \<open>k\<close> consumes queue \<open>k\<close>: 0
  preprocess, 1 inference, 2 postprocess and tracking, 3 sink. \<open>rs_delivered\<close> and \<open>rs_reads\<close> are ghosts:
  the frames the sinks consumed and the number of frames read, unbounded.
\<close>

section \<open>The threads\<close>

datatype capture_pc = C_test | C_acquire | C_read nat | C_push nat | C_close | C_exit

datatype worker_pc = W_pop | W_body nat | W_push nat | W_close | W_exit

record ('b, 'k, 's) run_state =
  rs_pipe :: "('b, 'k) pipeline"
  rs_source :: "'s frame_source"
  rs_pool :: frame_pool
  rs_queue :: "nat \<Rightarrow> hand_off"
  rs_capture :: capture_pc
  rs_worker :: "nat \<Rightarrow> worker_pc"
  rs_sequence :: u64
  rs_error :: "takt_error option"
  rs_aborted :: bool
  rs_closing :: "nat list"
  rs_delivered :: "frame list"
  rs_reads :: nat

definition internal_policy :: "pipeline_config \<Rightarrow> ingress_policy" where
  "internal_policy cfg = (if cfg_ingress_policy cfg = kLatest then kLatest else kBlock)"

definition make_queues :: "pipeline_config \<Rightarrow> nat \<Rightarrow> hand_off" where
  "make_queues cfg k =
     (if k = 0 then make_hand_off (cfg_ingress_policy cfg) (cfg_ingress_capacity cfg)
      else make_hand_off (internal_policy cfg) (cfg_stage_queue_capacity cfg))"

definition start_run :: "('b, 'k) pipeline \<Rightarrow> 's frame_source \<Rightarrow> takt_error + ('b, 'k, 's) run_state" where
  "start_run p source =
     bind_result (buffer_sizes p) (\<lambda>sizes.
     bind_result (make_pool (pool_size (pl_config p)) sizes) (\<lambda>pool.
       Inr \<lparr>rs_pipe = p, rs_source = source, rs_pool = pool, rs_queue = make_queues (pl_config p),
            rs_capture = C_test, rs_worker = (\<lambda>_. W_pop), rs_sequence = 0, rs_error = None,
            rs_aborted = False, rs_closing = [], rs_delivered = [], rs_reads = 0\<rparr>))"

definition abort_run :: "takt_error \<Rightarrow> ('b, 'k, 's) run_state \<Rightarrow> ('b, 'k, 's) run_state" where
  "abort_run e s =
     s\<lparr>rs_error := (case rs_error s of None \<Rightarrow> Some e | Some first \<Rightarrow> Some first), rs_aborted := True,
       rs_pipe := request_stop (rs_pipe s), rs_closing := rs_closing s @ [0, 0, 1, 2, 3]\<rparr>"

definition close_queue :: "nat \<Rightarrow> ('b, 'k, 's) run_state \<Rightarrow> ('b, 'k, 's) run_state" where
  "close_queue k s = s\<lparr>rs_queue := (rs_queue s)(k := hand_off_close (rs_queue s k))\<rparr>"

definition put_frame :: "nat \<Rightarrow> frame \<Rightarrow> frame_pool \<Rightarrow> frame_pool" where
  "put_frame i f p = p\<lparr>storage := (storage p)[i := f]\<rparr>"

definition count_dropped :: "('b, 'k) pipeline \<Rightarrow> ('b, 'k) pipeline" where
  "count_dropped p = p\<lparr>pl_metrics := (pl_metrics p)\<lparr>frames_dropped := frames_dropped (pl_metrics p) + 1\<rparr>\<rparr>"

definition capture_read :: "nat \<Rightarrow> ('b, 'k, 's) run_state \<Rightarrow> ('b, 'k, 's) run_state" where
  "capture_read i s =
     (let f = storage (rs_pool s) ! i
      in case source_read (rs_source s) (fr_image f) of
           Inl e \<Rightarrow> abort_run e (s\<lparr>rs_pool := frame_recycler (Some i) (rs_pool s), rs_capture := C_close\<rparr>)
         | Inr (got, img, source) \<Rightarrow>
             let f = f\<lparr>fr_image := img\<rparr>; s = s\<lparr>rs_source := source\<rparr>
             in if got
                then let (t, p) = clock_now (rs_pipe s)
                     in s\<lparr>rs_pipe := p,
                          rs_pool := put_frame i (f\<lparr>captured_at := t, sequence := rs_sequence s\<rparr>) (rs_pool s),
                          rs_sequence := rs_sequence s + 1, rs_capture := C_push i, rs_reads := rs_reads s + 1\<rparr>
                else s\<lparr>rs_pool := frame_recycler (Some i) (put_frame i f (rs_pool s)), rs_capture := C_close\<rparr>)"

definition capture_push :: "nat \<Rightarrow> ('b, 'k, 's) run_state \<Rightarrow> ('b, 'k, 's) run_state option" where
  "capture_push i s =
     (let (res, ho, pool) = hand_off_push False (Some i) (rs_queue s 0) (rs_pool s);
          s = s\<lparr>rs_queue := (rs_queue s)(0 := ho), rs_pool := pool\<rparr>
      in case res of
           None \<Rightarrow> None
         | Some result \<Rightarrow>
             if result = kClosed then Some (s\<lparr>rs_capture := C_close\<rparr>)
             else let p = count_captured (rs_pipe s);
                      p = (if result \<noteq> kAccepted then count_dropped p else p)
                  in Some (s\<lparr>rs_pipe := p, rs_capture := C_test\<rparr>))"

definition capture_step :: "('b, 'k, 's) run_state \<Rightarrow> ('b, 'k, 's) run_state option" where
  "capture_step s =
     (case rs_capture s of
        C_test \<Rightarrow>
          let limit = cfg_max_frames (pl_config (rs_pipe s))
          in Some (s\<lparr>rs_capture := if \<not> pl_stop (rs_pipe s) \<and> \<not> rs_aborted s \<and> (limit = 0 \<or> rs_sequence s < limit)
                                   then C_acquire else C_close\<rparr>)
      | C_acquire \<Rightarrow>
          (case acquire (pl_stop (rs_pipe s)) (rs_pool s) of
             None \<Rightarrow> None
           | Some (fp, pool) \<Rightarrow>
               Some (s\<lparr>rs_pool := pool, rs_capture := (case fp of None \<Rightarrow> C_close | Some i \<Rightarrow> C_read i)\<rparr>))
      | C_read i \<Rightarrow> Some (capture_read i s)
      | C_push i \<Rightarrow> capture_push i s
      | C_close \<Rightarrow> Some ((close_queue 0 s)\<lparr>rs_capture := C_exit\<rparr>)
      | C_exit \<Rightarrow> None)"

definition stage_body ::
  "(detection list \<Rightarrow> detection list) \<Rightarrow> rounding \<Rightarrow> rounding \<Rightarrow> nat \<Rightarrow> ('b, 'k) stage_fn" where
  "stage_body srt r d k =
     (if k = 0 then preprocess r d
      else if k = 1 then infer
      else if k = 2 then (\<lambda>p f. then_run (postprocess srt r p f) (\<lambda>(p, f). track_stage r d p f))
      else deliver)"

definition set_worker :: "nat \<Rightarrow> worker_pc \<Rightarrow> ('b, 'k, 's) run_state \<Rightarrow> ('b, 'k, 's) run_state" where
  "set_worker k pc s = s\<lparr>rs_worker := (rs_worker s)(k := pc)\<rparr>"

definition worker_pop :: "nat \<Rightarrow> ('b, 'k, 's) run_state \<Rightarrow> ('b, 'k, 's) run_state option" where
  "worker_pop k s =
     (let (res, ho) = hand_off_pop (rs_queue s k); s = s\<lparr>rs_queue := (rs_queue s)(k := ho)\<rparr>
      in case res of
           None \<Rightarrow> None
         | Some None \<Rightarrow> Some (set_worker k W_close s)
         | Some (Some fp) \<Rightarrow> Some (set_worker k (W_body (the fp)) s))"

definition worker_body ::
  "(detection list \<Rightarrow> detection list) \<Rightarrow> rounding \<Rightarrow> rounding \<Rightarrow> nat \<Rightarrow> nat \<Rightarrow> ('b, 'k, 's) run_state \<Rightarrow>
   ('b, 'k, 's) run_state option"
where
  "worker_body srt r d k i s =
     (let f = storage (rs_pool s) ! i
      in if rs_aborted s then Some (set_worker k W_pop (s\<lparr>rs_pool := frame_recycler (Some i) (rs_pool s)\<rparr>))
         else case stage_body srt r d k (rs_pipe s) f of
                None \<Rightarrow> None
              | Some (Inl e) \<Rightarrow>
                  Some (abort_run e (set_worker k W_close (s\<lparr>rs_pool := frame_recycler (Some i) (rs_pool s)\<rparr>)))
              | Some (Inr (p, g)) \<Rightarrow>
                  let s = s\<lparr>rs_pipe := p, rs_pool := put_frame i g (rs_pool s)\<rparr>
                  in if k < 3 then Some (set_worker k (W_push i) s)
                     else Some (set_worker k W_pop
                       (s\<lparr>rs_pool := frame_recycler (Some i) (rs_pool s), rs_delivered := rs_delivered s @ [f]\<rparr>)))"

definition worker_push :: "nat \<Rightarrow> nat \<Rightarrow> ('b, 'k, 's) run_state \<Rightarrow> ('b, 'k, 's) run_state option" where
  "worker_push k i s =
     (let (res, ho, pool) = hand_off_push False (Some i) (rs_queue s (k + 1)) (rs_pool s);
          s = s\<lparr>rs_queue := (rs_queue s)(k + 1 := ho), rs_pool := pool\<rparr>
      in case res of
           None \<Rightarrow> None
         | Some result \<Rightarrow>
             Some (set_worker k W_pop (if is_drop result then s\<lparr>rs_pipe := count_dropped (rs_pipe s)\<rparr> else s)))"

definition worker_step ::
  "(detection list \<Rightarrow> detection list) \<Rightarrow> rounding \<Rightarrow> rounding \<Rightarrow> nat \<Rightarrow> ('b, 'k, 's) run_state \<Rightarrow>
   ('b, 'k, 's) run_state option"
where
  "worker_step srt r d k s =
     (case rs_worker s k of
        W_pop \<Rightarrow> worker_pop k s
      | W_body i \<Rightarrow> worker_body srt r d k i s
      | W_push i \<Rightarrow> worker_push k i s
      | W_close \<Rightarrow> Some (set_worker k W_exit (if k < 3 then close_queue (k + 1) s else s))
      | W_exit \<Rightarrow> None)"

datatype run_action = Capture | Worker nat | Close_next | Stop_request

fun run_act ::
  "(detection list \<Rightarrow> detection list) \<Rightarrow> rounding \<Rightarrow> rounding \<Rightarrow> run_action \<Rightarrow> ('b, 'k, 's) run_state \<Rightarrow>
   ('b, 'k, 's) run_state option"
where
  "run_act srt r d Capture s = capture_step s"
| "run_act srt r d (Worker k) s = (if k < 4 then worker_step srt r d k s else None)"
| "run_act srt r d Close_next s =
     (case rs_closing s of [] \<Rightarrow> None | k # ks \<Rightarrow> Some (close_queue k (s\<lparr>rs_closing := ks\<rparr>)))"
| "run_act srt r d Stop_request s =
     (if pl_stop (rs_pipe s) then None
      else Some (s\<lparr>rs_pipe := request_stop (rs_pipe s), rs_closing := rs_closing s @ [0]\<rparr>))"

inductive run_step ::
  "(detection list \<Rightarrow> detection list) \<Rightarrow> rounding \<Rightarrow> rounding \<Rightarrow> ('b, 'k, 's) run_state \<Rightarrow> ('b, 'k, 's) run_state \<Rightarrow> bool"
  for srt r d where
  "run_act srt r d a s = Some s' \<Longrightarrow> run_step srt r d s s'"

inductive_cases run_stepE: "run_step srt r d s s'"

definition run_over :: "('b, 'k, 's) run_state \<Rightarrow> bool" where
  "run_over s \<longleftrightarrow> rs_capture s = C_exit \<and> (\<forall>k < 4. rs_worker s k = W_exit)"

text \<open>
  What comes before the threads start and after they are joined. After a failure the sinks are
  finished and the first error is rethrown.
\<close>

definition enter_run ::
  "'s frame_source \<Rightarrow> ('b, 'k) pipeline \<Rightarrow> takt_error + int \<times> ('b, 'k, 's) run_state"
where
  "enter_run source p =
     (if pl_running p then Inl (Logic_error ''Pipeline: run() is already in progress'')
      else bind_result (begin_run source ''pipelined'' (p\<lparr>pl_running := True\<rparr>)) (\<lambda>p.
           bind_result (start_run p source) (\<lambda>s.
             let (started, p) = clock_now (rs_pipe s) in Inr (started, s\<lparr>rs_pipe := p\<rparr>))))"

definition leave_run ::
  "rounding \<Rightarrow> int \<Rightarrow> ('b, 'k, 's) run_state \<Rightarrow> takt_error + run_report \<times> ('b, 'k) pipeline"
where
  "leave_run d started s =
     (case rs_error s of
        Some e \<Rightarrow> bind_result (sinks_finish (pl_sinks (rs_pipe s))) (\<lambda>_. Inl e)
      | None \<Rightarrow> bind_result (finish_run d (rs_source s) ''pipelined'' started (rs_pipe s)) (\<lambda>(rep, p).
                  Inr (rep, p\<lparr>pl_running := False\<rparr>)))"

text \<open>\<open>run\<close>: the results it can have under some interleaving of its threads.\<close>

inductive run ::
  "(detection list \<Rightarrow> detection list) \<Rightarrow> rounding \<Rightarrow> rounding \<Rightarrow> 's frame_source \<Rightarrow> ('b, 'k) pipeline \<Rightarrow>
   takt_error + run_report \<times> ('b, 'k) pipeline \<Rightarrow> bool"
  for srt r d source p where
  not_started: "enter_run source p = Inl e \<Longrightarrow> run srt r d source p (Inl e)"
| finished: "enter_run source p = Inr (started, s0) \<Longrightarrow> (run_step srt r d)\<^sup>*\<^sup>* s0 s \<Longrightarrow> run_over s \<Longrightarrow>
    run srt r d source p (leave_run d started s)"

inductive_cases runE: "run srt r d source p res"

section \<open>Where the frames are\<close>

text \<open>
  \<open>line s\<close>: the frames in flight after their capture, oldest first; \<open>holders s\<close>: every frame that a
  live \<open>FramePtr\<close> owns.
\<close>

fun worker_frames :: "worker_pc \<Rightarrow> nat list" where
  "worker_frames (W_body i) = [i]"
| "worker_frames (W_push i) = [i]"
| "worker_frames _ = []"

definition segment :: "nat \<Rightarrow> ('b, 'k, 's) run_state \<Rightarrow> nat list" where
  "segment k s = worker_frames (rs_worker s k) @ queued (rs_queue s k)"

definition flight :: "('b, 'k, 's) run_state \<Rightarrow> nat list" where
  "flight s = segment 3 s @ segment 2 s @ segment 1 s @ segment 0 s"

definition pushing :: "('b, 'k, 's) run_state \<Rightarrow> nat list" where
  "pushing s = (case rs_capture s of C_push i \<Rightarrow> [i] | _ \<Rightarrow> [])"

definition reading :: "('b, 'k, 's) run_state \<Rightarrow> nat list" where
  "reading s = (case rs_capture s of C_read i \<Rightarrow> [i] | _ \<Rightarrow> [])"

definition holders :: "('b, 'k, 's) run_state \<Rightarrow> nat list" where
  "holders s = flight s @ pushing s @ reading s"

lemma four: "k < 4 \<longleftrightarrow> k = 0 \<or> k = 1 \<or> k = 2 \<or> k = (3::nat)"
  by arith

section \<open>What a push or a pop does\<close>

definition latest_one :: "hand_off \<Rightarrow> bool" where
  "latest_one ho \<longleftrightarrow> (ho_policy ho = kLatest \<longrightarrow> length (queued ho) \<le> 1)"

lemma hand_off_latest: "hand_off_ok ho \<Longrightarrow> latest_one ho"
  by (auto simp: hand_off_ok_def latest_one_def queued_def storage_queue_def split: ho_storage.splits option.splits)

definition ho_closed :: "hand_off \<Rightarrow> bool" where
  "ho_closed ho \<longleftrightarrow> storage_closed (ho_storage ho)"

definition ho_room :: "hand_off \<Rightarrow> nat" where
  "ho_room ho = storage_room (ho_storage ho)"

text \<open>What a call never changes.\<close>

definition same_ho :: "hand_off \<Rightarrow> hand_off \<Rightarrow> bool" where
  "same_ho ho ho' \<longleftrightarrow> hand_off_ok ho' \<and> ho_policy ho' = ho_policy ho \<and> ho_closed ho' = ho_closed ho \<and> ho_room ho' = ho_room ho"

datatype push_effect = Blocked | Closed | Accepted | Replaced nat | Rejected

definition push_effect_of ::
  "nat \<Rightarrow> hand_off \<Rightarrow> frame_pool \<Rightarrow> hand_off_result option \<Rightarrow> hand_off \<Rightarrow> frame_pool \<Rightarrow> push_effect \<Rightarrow> bool"
where
  "push_effect_of i ho p res ho' p' e \<longleftrightarrow> same_ho ho ho' \<and>
     (case e of
        Blocked \<Rightarrow> res = None \<and> p' = p \<and> queued ho' = queued ho \<and> \<not> ho_closed ho \<and> ho_room ho \<le> length (queued ho) \<and>
          ho_policy ho = kBlock
      | Closed \<Rightarrow> res = Some kClosed \<and> p' = recycle i p \<and> queued ho' = queued ho \<and> ho_closed ho
      | Accepted \<Rightarrow> res = Some kAccepted \<and> p' = p \<and> queued ho' = queued ho @ [i] \<and> \<not> ho_closed ho
      | Replaced j \<Rightarrow> res = Some kReplacedStale \<and> p' = recycle j p \<and> queued ho = [j] \<and> queued ho' = [i] \<and> \<not> ho_closed ho \<and>
          ho_policy ho = kLatest
      | Rejected \<Rightarrow> res = Some kDroppedIncoming \<and> p' = recycle i p \<and> queued ho' = queued ho \<and> \<not> ho_closed ho \<and>
          ho_policy ho = kDropNewest)"

lemma push_effects:
  assumes "hand_off_ok ho" "hand_off_push False (Some i) ho p = (res, ho', p')"
  obtains e where "push_effect_of i ho p res ho' p' e"
proof -
  from push_refines [OF assms] obtain released where
    ok: "same_ho ho ho'" and
    spec: "(res, queued ho', released) = push_spec (ho_policy ho) (ho_room ho) (ho_closed ho) i (queued ho)"
    and p': "p' = fold recycle released p"
    by (auto simp: same_ho_def ho_room_def ho_closed_def)
  have one: "ho_policy ho = kLatest \<Longrightarrow> queued ho = [] \<or> (\<exists>j. queued ho = [j])"
    using hand_off_latest [OF assms(1)] by (cases "queued ho") (auto simp: latest_one_def)
  consider "ho_closed ho" | "\<not> ho_closed ho" "ho_policy ho = kLatest" "queued ho = []"
    | j where "\<not> ho_closed ho" "ho_policy ho = kLatest" "queued ho = [j]"
    | "\<not> ho_closed ho" "ho_policy ho \<noteq> kLatest" "length (queued ho) < ho_room ho"
    | "\<not> ho_closed ho" "ho_policy ho = kBlock" "ho_room ho \<le> length (queued ho)"
    | "\<not> ho_closed ho" "ho_policy ho = kDropNewest" "ho_room ho \<le> length (queued ho)"
    using one by (metis ingress_policy.exhaust not_le)
  then show thesis
  proof cases
    case 1
    then show ?thesis using spec ok p' by (intro that [of Closed]) (simp add: push_effect_of_def push_spec_def)
  next
    case 2
    then show ?thesis using spec ok p' by (intro that [of Accepted]) (simp add: push_effect_of_def push_spec_def)
  next
    case (3 j)
    then show ?thesis using spec ok p' by (intro that [of "Replaced j"]) (simp add: push_effect_of_def push_spec_def)
  next
    case 4
    then show ?thesis using spec ok p' by (intro that [of Accepted]) (simp add: push_effect_of_def push_spec_def)
  next
    case 5
    then show ?thesis using spec ok p' by (intro that [of Blocked]) (simp add: push_effect_of_def push_spec_def)
  next
    case 6
    then show ?thesis using spec ok p' by (intro that [of Rejected]) (simp add: push_effect_of_def push_spec_def)
  qed
qed

lemma pop_effects:
  assumes "hand_off_ok ho" "hand_off_pop ho = (res, ho')"
  obtains "res = None" "same_ho ho ho'" "queued ho = []" "queued ho' = []" "\<not> ho_closed ho"
  | "res = Some None" "same_ho ho ho'" "queued ho = []" "queued ho' = []" "ho_closed ho"
  | i where "res = Some (Some (Some i))" "same_ho ho ho'" "queued ho = i # queued ho'"
proof -
  from pop_refines [OF assms] have ok: "same_ho ho ho'" and ne: "res \<noteq> Some (Some None)"
    and spec: "(map_option (map_option the) res, queued ho') = pop_spec (ho_closed ho) (queued ho)"
    by (auto simp: same_ho_def ho_room_def ho_closed_def)
  show thesis
  proof (cases "queued ho")
    case Nil
    then show ?thesis using ok spec that(1,2) by (auto simp: pop_spec_def split: if_splits)
  next
    case (Cons i q)
    then show ?thesis using ok spec ne that(3) [of i] by (auto simp: pop_spec_def) (metis option.exhaust_sel)
  qed
qed

lemma close_effects:
  assumes "hand_off_ok ho"
  shows "hand_off_ok (hand_off_close ho)" "ho_policy (hand_off_close ho) = ho_policy ho" "ho_closed (hand_off_close ho)"
    "ho_room (hand_off_close ho) = ho_room ho" "queued (hand_off_close ho) = queued ho"
  using assms by (auto simp: hand_off_close_def hand_off_ok_def queued_def storage_queue_def storage_closed_def
      ho_closed_def ho_room_def storage_room_def split: ho_storage.splits)

section \<open>What a step does to the frames\<close>

definition line :: "('b, 'k, 's) run_state \<Rightarrow> nat list" where
  "line s = flight s @ pushing s"

datatype frame_effect =
    Keep
  | Drop nat
  | Acquire nat
  | Unread nat frame
  | Read nat frame
  | Rewrite nat frame
  | Deliver nat frame

definition has_effect :: "('b, 'k, 's) run_state \<Rightarrow> ('b, 'k, 's) run_state \<Rightarrow> frame_effect \<Rightarrow> bool" where
  "has_effect s s' e \<longleftrightarrow>
     (case e of
        Keep \<Rightarrow> line s' = line s \<and> reading s' = reading s \<and> rs_pool s' = rs_pool s
      | Drop x \<Rightarrow> (\<exists>xs ys. line s = xs @ x # ys \<and> line s' = xs @ ys) \<and> reading s' = reading s \<and>
          rs_pool s' = recycle x (rs_pool s)
      | Acquire i \<Rightarrow> line s' = line s \<and> reading s = [] \<and> reading s' = [i] \<and> free_frames (rs_pool s) \<noteq> [] \<and>
          take_locked (rs_pool s) = (Some i, rs_pool s')
      | Unread i f \<Rightarrow> line s' = line s \<and> reading s = [i] \<and> reading s' = [] \<and>
          rs_pool s' = recycle i (put_frame i f (rs_pool s))
      | Read i f \<Rightarrow> line s' = line s @ [i] \<and> reading s = [i] \<and> reading s' = [] \<and>
          rs_pool s' = put_frame i f (rs_pool s) \<and> sequence f = rs_sequence s
      | Rewrite i g \<Rightarrow> line s' = line s \<and> reading s' = reading s \<and> i \<in> set (line s) \<and>
          rs_pool s' = put_frame i g (rs_pool s) \<and> sequence g = sequence (storage (rs_pool s) ! i)
      | Deliver i g \<Rightarrow> line s = i # line s' \<and> reading s' = reading s \<and>
          rs_pool s' = recycle i (put_frame i g (rs_pool s))) \<and>
     (if \<exists>i f. e = Read i f then rs_sequence s' = rs_sequence s + 1 \<and> rs_reads s' = rs_reads s + 1
      else rs_sequence s' = rs_sequence s \<and> rs_reads s' = rs_reads s) \<and>
     rs_delivered s' = rs_delivered s @ (case e of Deliver i g \<Rightarrow> [storage (rs_pool s) ! i] | _ \<Rightarrow> [])"

text \<open>Effects that change no frame that stays in the line.\<close>

fun steady :: "frame_effect \<Rightarrow> bool" where
  "steady (Rewrite i g) = False"
| "steady _ = True"

lemma effectI: "has_effect s s' e \<Longrightarrow> steady e \<Longrightarrow> \<exists>e. has_effect s s' e \<and> steady e"
  by blast

lemma put_frame_id: "put_frame i (storage p ! i) p = p"
  by (simp add: put_frame_def)

lemma abort_run_sel [simp]:
  "rs_source (abort_run e s) = rs_source s" "rs_pool (abort_run e s) = rs_pool s" "rs_queue (abort_run e s) = rs_queue s"
  "rs_capture (abort_run e s) = rs_capture s" "rs_worker (abort_run e s) = rs_worker s"
  "rs_sequence (abort_run e s) = rs_sequence s" "rs_reads (abort_run e s) = rs_reads s" "rs_delivered (abort_run e s) = rs_delivered s"
  "rs_aborted (abort_run e s)" "rs_closing (abort_run e s) = rs_closing s @ [0, 0, 1, 2, 3]"
  "rs_pipe (abort_run e s) = request_stop (rs_pipe s)"
  by (simp_all add: abort_run_def)

lemma set_worker_sel [simp]:
  "rs_source (set_worker k pc s) = rs_source s" "rs_pool (set_worker k pc s) = rs_pool s" "rs_queue (set_worker k pc s) = rs_queue s"
  "rs_capture (set_worker k pc s) = rs_capture s" "rs_worker (set_worker k pc s) = (rs_worker s)(k := pc)"
  "rs_sequence (set_worker k pc s) = rs_sequence s" "rs_reads (set_worker k pc s) = rs_reads s" "rs_delivered (set_worker k pc s) = rs_delivered s"
  "rs_aborted (set_worker k pc s) = rs_aborted s" "rs_closing (set_worker k pc s) = rs_closing s"
  "rs_pipe (set_worker k pc s) = rs_pipe s"
  by (simp_all add: set_worker_def)

lemma close_queue_sel [simp]:
  "rs_source (close_queue k s) = rs_source s" "rs_pool (close_queue k s) = rs_pool s"
  "rs_queue (close_queue k s) = (rs_queue s)(k := hand_off_close (rs_queue s k))"
  "rs_capture (close_queue k s) = rs_capture s" "rs_worker (close_queue k s) = rs_worker s"
  "rs_sequence (close_queue k s) = rs_sequence s" "rs_reads (close_queue k s) = rs_reads s" "rs_delivered (close_queue k s) = rs_delivered s"
  "rs_aborted (close_queue k s) = rs_aborted s" "rs_closing (close_queue k s) = rs_closing s"
  "rs_pipe (close_queue k s) = rs_pipe s"
  by (simp_all add: close_queue_def)

definition queues_ok :: "('b, 'k, 's) run_state \<Rightarrow> bool" where
  "queues_ok s \<longleftrightarrow> (\<forall>k < 4. hand_off_ok (rs_queue s k) \<and> 0 < ho_room (rs_queue s k))"

lemma queues_okD: "queues_ok s \<Longrightarrow> k < 4 \<Longrightarrow> hand_off_ok (rs_queue s k)"
  by (simp add: queues_ok_def)

lemma flight_split:
  fixes s :: "('b, 'k, 's) run_state"
  assumes "k < 4"
  obtains pre post where "flight s = pre @ segment k s @ post"
    and "\<And>s' :: ('b, 'k, 's) run_state. (\<And>j. j \<noteq> k \<Longrightarrow> segment j s' = segment j s) \<Longrightarrow> flight s' = pre @ segment k s' @ post"
proof -
  consider "k = 0" | "k = 1" | "k = 2" | "k = 3" using assms by arith
  then show thesis
  proof cases
    case 1
    then show ?thesis by (intro that [of "segment 3 s @ segment 2 s @ segment 1 s" "[]"]) (simp_all add: flight_def)
  next
    case 2
    then show ?thesis by (intro that [of "segment 3 s @ segment 2 s" "segment 0 s"]) (simp_all add: flight_def)
  next
    case 3
    then show ?thesis by (intro that [of "segment 3 s" "segment 1 s @ segment 0 s"]) (simp_all add: flight_def)
  next
    case 4
    then show ?thesis by (intro that [of "[]" "segment 2 s @ segment 1 s @ segment 0 s"]) (simp_all add: flight_def)
  qed
qed

lemma flight_split2:
  fixes s :: "('b, 'k, 's) run_state"
  assumes "k < 3"
  obtains pre post where "flight s = pre @ segment (k + 1) s @ segment k s @ post"
    and "\<And>s' :: ('b, 'k, 's) run_state. (\<And>j. j \<noteq> k \<Longrightarrow> j \<noteq> k + 1 \<Longrightarrow> segment j s' = segment j s) \<Longrightarrow>
      flight s' = pre @ segment (k + 1) s' @ segment k s' @ post"
proof -
  consider "k = 0" | "k = 1" | "k = 2" using assms by arith
  then show thesis
  proof cases
    case 1
    then show ?thesis by (intro that [of "segment 3 s @ segment 2 s" "[]"]) (simp_all add: flight_def)
  next
    case 2
    then show ?thesis by (intro that [of "segment 3 s" "segment 0 s"]) (simp_all add: flight_def numeral_2_eq_2)
  next
    case 3
    then show ?thesis by (intro that [of "[]" "segment 1 s @ segment 0 s"]) (simp_all add: flight_def numeral_3_eq_3)
  qed
qed

text \<open>A step of worker \<open>k\<close> that touches only its own segment, seen in the line of frames.\<close>

lemma flight_local:
  fixes s s' :: "('b, 'k, 's) run_state"
  assumes "k < 4" "rs_worker s' = (rs_worker s)(k := pc')" "rs_queue s' = (rs_queue s)(k := ho)"
  shows "worker_frames pc' @ queued ho = segment k s \<Longrightarrow> flight s' = flight s"
    and "rs_worker s k = pc \<Longrightarrow> worker_frames pc = [i] \<Longrightarrow> worker_frames pc' = [] \<Longrightarrow> queued ho = queued (rs_queue s k) \<Longrightarrow>
      \<exists>xs ys. flight s = xs @ i # ys \<and> flight s' = xs @ ys"
    and "k = 3 \<Longrightarrow> rs_worker s k = pc \<Longrightarrow> worker_frames pc = [i] \<Longrightarrow> worker_frames pc' = [] \<Longrightarrow>
      queued ho = queued (rs_queue s k) \<Longrightarrow> flight s = i # flight s'"
proof -
  have other: "segment j s' = segment j s" if "j \<noteq> k" for j
    using that assms by (simp add: segment_def)
  have own: "segment k s' = worker_frames pc' @ queued ho" using assms by (simp add: segment_def)
  obtain pre post where f: "flight s = pre @ segment k s @ post" "flight s' = pre @ segment k s' @ post"
    using flight_split [OF assms(1), of s] other by metis
  show "worker_frames pc' @ queued ho = segment k s \<Longrightarrow> flight s' = flight s" using f own by simp
  show "rs_worker s k = pc \<Longrightarrow> worker_frames pc = [i] \<Longrightarrow> worker_frames pc' = [] \<Longrightarrow> queued ho = queued (rs_queue s k) \<Longrightarrow>
      \<exists>xs ys. flight s = xs @ i # ys \<and> flight s' = xs @ ys"
    using f own by (intro exI [of _ pre] exI [of _ "queued ho @ post"]) (simp add: segment_def)
  show "k = 3 \<Longrightarrow> rs_worker s k = pc \<Longrightarrow> worker_frames pc = [i] \<Longrightarrow> worker_frames pc' = [] \<Longrightarrow>
      queued ho = queued (rs_queue s k) \<Longrightarrow> flight s = i # flight s'"
    using assms other by (simp add: flight_def segment_def)
qed

text \<open>The same for a push from worker \<open>k\<close> to queue \<open>k + 1\<close>.\<close>

lemma flight_push:
  fixes s s' :: "('b, 'k, 's) run_state"
  assumes "k < 3" "rs_worker s k = W_push i" "rs_worker s' = (rs_worker s)(k := W_pop)"
    "rs_queue s' = (rs_queue s)(k + 1 := ho)"
  shows "queued ho = queued (rs_queue s (k + 1)) @ [i] \<Longrightarrow> flight s' = flight s"
    and "queued ho = queued (rs_queue s (k + 1)) \<Longrightarrow> \<exists>xs ys. flight s = xs @ i # ys \<and> flight s' = xs @ ys"
    and "queued (rs_queue s (k + 1)) = [j] \<Longrightarrow> queued ho = [i] \<Longrightarrow> \<exists>xs ys. flight s = xs @ j # ys \<and> flight s' = xs @ ys"
proof -
  have other: "segment j s' = segment j s" if "j \<noteq> k" "j \<noteq> k + 1" for j
    using that assms by (simp add: segment_def)
  let ?w = "worker_frames (rs_worker s (k + 1))" and ?q = "queued (rs_queue s k)"
  obtain pre post where f: "flight s = pre @ (?w @ queued (rs_queue s (k + 1))) @ ([i] @ ?q) @ post"
    "flight s' = pre @ (?w @ queued ho) @ ?q @ post"
  proof (rule flight_split2 [OF assms(1), of s])
    fix pre post assume f: "flight s = pre @ segment (k + 1) s @ segment k s @ post"
      "\<And>s' :: ('b, 'k, 's) run_state. (\<And>j. j \<noteq> k \<Longrightarrow> j \<noteq> k + 1 \<Longrightarrow> segment j s' = segment j s) \<Longrightarrow>
        flight s' = pre @ segment (k + 1) s' @ segment k s' @ post"
    from f(1) f(2) [of s', OF other] show thesis
      using assms(2-) by (intro that [of pre post]) (simp_all add: segment_def)
  qed
  show "queued ho = queued (rs_queue s (k + 1)) @ [i] \<Longrightarrow> flight s' = flight s" using f by simp
  show "queued ho = queued (rs_queue s (k + 1)) \<Longrightarrow> \<exists>xs ys. flight s = xs @ i # ys \<and> flight s' = xs @ ys"
    using f by (intro exI [of _ "pre @ ?w @ queued ho"] exI [of _ "?q @ post"]) simp
  show "queued (rs_queue s (k + 1)) = [j] \<Longrightarrow> queued ho = [i] \<Longrightarrow> \<exists>xs ys. flight s = xs @ j # ys \<and> flight s' = xs @ ys"
    using f by (intro exI [of _ "pre @ ?w"] exI [of _ "i # ?q @ post"]) simp
qed

section \<open>Every step has one of the effects\<close>

lemma lineI: "flight s' = flight s \<Longrightarrow> rs_capture s' = rs_capture s \<Longrightarrow> line s' = line s \<and> reading s' = reading s"
  by (simp add: line_def pushing_def reading_def)

lemma line_removeI:
  "\<exists>xs ys. flight s = xs @ x # ys \<and> flight s' = xs @ ys \<Longrightarrow> rs_capture s' = rs_capture s \<Longrightarrow>
   (\<exists>xs ys. line s = xs @ x # ys \<and> line s' = xs @ ys) \<and> reading s' = reading s"
  by (fastforce simp: line_def pushing_def reading_def)

lemma flight_same: "rs_queue s' = rs_queue s \<Longrightarrow> rs_worker s' = rs_worker s \<Longrightarrow> flight s' = flight s"
  by (simp add: flight_def segment_def)

lemma capture_effect:
  assumes "queues_ok s" "capture_step s = Some s'"
  shows "\<exists>e. has_effect s s' e \<and> steady e"
proof (cases "rs_capture s")
  case C_test
  then have "has_effect s s' Keep"
    using assms by (auto simp: capture_step_def has_effect_def Let_def line_def pushing_def reading_def flight_def segment_def)
  then show ?thesis by (rule effectI) simp
next
  case C_acquire
  show ?thesis
  proof (cases "free_frames (rs_pool s) = []")
    case True
    then have "has_effect s s' Keep"
      using C_acquire assms(2)
      by (auto simp: capture_step_def acquire_def has_effect_def line_def pushing_def reading_def flight_def segment_def split: if_splits)
    then show ?thesis by (rule effectI) simp
  next
    case False
    then have "has_effect s s' (Acquire (last (free_frames (rs_pool s))))"
      using C_acquire assms(2)
      by (auto simp: capture_step_def acquire_def take_locked_def has_effect_def line_def pushing_def reading_def flight_def segment_def)
    then show ?thesis by (rule effectI) simp
  qed
next
  case (C_read i)
  let ?f = "storage (rs_pool s) ! i"
  show ?thesis
  proof (cases "source_read (rs_source s) (fr_image ?f)")
    case (Inl e)
    then have "has_effect s s' (Unread i ?f)"
      using C_read assms(2)
      by (auto simp: capture_step_def capture_read_def has_effect_def line_def pushing_def reading_def flight_def segment_def
          put_frame_id frame_recycler_def)
    then show ?thesis by (rule effectI) simp
  next
    case (Inr res)
    obtain got img src where res: "res = (got, img, src)" by (cases res)
    show ?thesis
    proof (cases got)
      case False
      then have "has_effect s s' (Unread i (?f\<lparr>fr_image := img\<rparr>))"
        using C_read assms(2) Inr res
        by (auto simp: capture_step_def capture_read_def has_effect_def line_def pushing_def reading_def flight_def segment_def
            frame_recycler_def Let_def)
      then show ?thesis by (rule effectI) simp
    next
      case True
      then have "has_effect s s' (Read i (?f\<lparr>fr_image := img, captured_at := fst (clock_now (rs_pipe s)), sequence := rs_sequence s\<rparr>))"
        using C_read assms(2) Inr res
        by (auto simp: capture_step_def capture_read_def has_effect_def line_def pushing_def reading_def flight_def segment_def
            clock_now_def Let_def)
      then show ?thesis by (rule effectI) simp
    qed
  qed
next
  case (C_push i)
  obtain res ho pool where p: "hand_off_push False (Some i) (rs_queue s 0) (rs_pool s) = (res, ho, pool)"
    by (metis prod_cases3)
  have line: "line s = flight s @ [i]" using C_push by (simp add: line_def pushing_def)
  obtain e where e: "push_effect_of i (rs_queue s 0) (rs_pool s) res ho pool e"
    using push_effects [OF queues_okD [OF assms(1)] p] by auto
  have s': "rs_worker s' = rs_worker s" "rs_queue s' = (rs_queue s)(0 := ho)" "rs_pool s' = pool" "res \<noteq> None"
    "rs_sequence s' = rs_sequence s" "rs_reads s' = rs_reads s" "rs_delivered s' = rs_delivered s"
    "reading s' = []" "pushing s' = []" "reading s = []"
    using C_push assms(2) p
    by (auto simp: capture_step_def capture_push_def reading_def pushing_def Let_def split: option.splits if_splits)
  have f: "flight s' = segment 3 s @ segment 2 s @ segment 1 s @ worker_frames (rs_worker s 0) @ queued ho"
    using s' by (simp add: flight_def segment_def)
  have fs: "flight s = segment 3 s @ segment 2 s @ segment 1 s @ worker_frames (rs_worker s 0) @ queued (rs_queue s 0)"
    by (simp add: flight_def segment_def)
  have gone: "\<exists>xs ys. line s = xs @ i # ys \<and> line s' = xs @ ys" if "queued ho = queued (rs_queue s 0)"
    using that f fs line s' by (intro exI [of _ "flight s"] exI [of _ "[]"]) (simp add: line_def)
  show ?thesis
  proof (cases e)
    case Blocked
    then show ?thesis using e s' by (simp add: push_effect_of_def)
  next
    case Closed
    then have "has_effect s s' (Drop i)" using e s' gone by (simp add: push_effect_of_def has_effect_def)
    then show ?thesis by (rule effectI) simp
  next
    case Accepted
    then have "has_effect s s' Keep" using e s' f fs line by (simp add: push_effect_of_def has_effect_def line_def)
    then show ?thesis by (rule effectI) simp
  next
    case (Replaced j)
    then have "\<exists>xs ys. line s = xs @ j # ys \<and> line s' = xs @ ys"
      using e f fs line s'
      by (intro exI [of _ "segment 3 s @ segment 2 s @ segment 1 s @ worker_frames (rs_worker s 0)"] exI [of _ "[i]"])
        (simp add: line_def push_effect_of_def)
    then have "has_effect s s' (Drop j)" using Replaced e s' by (simp add: push_effect_of_def has_effect_def)
    then show ?thesis by (rule effectI) simp
  next
    case Rejected
    then have "has_effect s s' (Drop i)" using e s' gone by (simp add: push_effect_of_def has_effect_def)
    then show ?thesis by (rule effectI) simp
  qed
next
  case C_close
  have "queued (hand_off_close (rs_queue s 0)) = queued (rs_queue s 0)"
    using close_effects(5) [OF queues_okD [OF assms(1)]] by simp
  then have "has_effect s s' Keep"
    using C_close assms by (auto simp: capture_step_def has_effect_def line_def pushing_def reading_def flight_def segment_def)
  then show ?thesis by (rule effectI) simp
next
  case C_exit
  then show ?thesis using assms(2) by (simp add: capture_step_def)
qed

text \<open>What worker \<open>k\<close> may rely on for the frames that reach it, \<open>p\<close> being the pipeline of the run.\<close>

definition frame_facts :: "rounding \<Rightarrow> ('b, 'k) pipeline \<Rightarrow> nat \<Rightarrow> frame \<Rightarrow> bool" where
  "frame_facts r p k f \<longleftrightarrow>
     (if k = 0 then True
      else if k < 3
      then source_width (fr_letterbox f) = image_width (fr_image f) \<and>
        source_height (fr_letterbox f) = image_height (fr_image f) \<and>
        0 < image_width (fr_image f) \<and> 0 < image_height (fr_image f)
      else frame_ok r p f f)"

definition environment_ok :: "(detection list \<Rightarrow> detection list) \<Rightarrow> rounding \<Rightarrow> bool" where
  "environment_ok srt r \<longleftrightarrow> score_sort srt \<and> rounds_nonneg r"

lemma post_track_ok:
  assumes "environment_ok srt r"
  shows "stage_ok r d (\<lambda>p f. then_run (postprocess srt r p f) (\<lambda>(p, f). track_stage r d p f))
    (\<lambda>p f p' f'. counts_kept p p' \<and> (frame_facts r p 2 f \<longrightarrow> frame_facts r p 3 f'))"
proof (rule stage_okI)
  have srt: "score_sort srt" "rounds_nonneg r" using assms by (simp_all add: environment_ok_def)
  note both = stage_ok_seq [OF postprocess_ok [OF srt] track_ok, of d]
  fix p :: "('a, 'b) pipeline" and f :: frame assume ok: "pl_ok r d p"
  show "\<exists>res. then_run (postprocess srt r p f) (\<lambda>(p, f). track_stage r d p f) = Some res"
    by (rule stage_okD [OF both ok, of f]) auto
  fix p' f' assume s: "then_run (postprocess srt r p f) (\<lambda>(p, f). track_stage r d p f) = Some (Inr (p', f'))"
  then obtain p3 f3 where "pl_ok r d p'" and k: "kept p f p' f'" "kept p f p3 f3"
    and c: "counts_kept p p3" "counts_kept p3 p'"
    and Q: "length (detections f3) \<le> max_detections (cfg_nms (pl_config p))"
      "\<forall>x \<in> set (detections f3). detection_ok p (decode_threshold p) x \<and>
        (0 \<le> source_width (fr_letterbox f) \<and> 0 \<le> source_height (fr_letterbox f) \<longrightarrow>
         inside_source r (fr_letterbox f) (det_box x))"
      "detections f' = filter (\<lambda>x. \<not> decode_threshold p3 < cfg_score_threshold (pl_config p3) \<or>
       cfg_score_threshold (pl_config p3) < det_score x) (detections f3)"
    by (rule_tac stage_okD [OF both ok, of f]) auto
  have "length (detections f') \<le> length (detections f3)" by (simp add: Q(3))
  then have "length (detections f') \<le> max_detections (cfg_nms (pl_config p))" using Q(1) by (rule le_trans)
  moreover have "detection_ok p (cfg_score_threshold (pl_config p)) x \<and> inside_image r (fr_image f) (det_box x)"
    if "x \<in> set (detections f')" "frame_facts r p 2 f" for x
    using that Q(2,3) k by (auto simp: kept_def detection_ok_def inside_image_def inside_source_def frame_facts_def)
  ultimately have "frame_facts r p 2 f \<longrightarrow> frame_facts r p 3 f'"
    using k(1) by (auto simp: frame_facts_def frame_ok_def kept_def)
  moreover have "counts_kept p p'" using c kept_trans(2) by blast
  ultimately show "pl_ok r d p' \<and> kept p f p' f' \<and> counts_kept p p' \<and> (frame_facts r p 2 f \<longrightarrow> frame_facts r p 3 f')"
    using \<open>pl_ok r d p'\<close> k(1) by blast
qed

lemma stage_body_ok:
  assumes "environment_ok srt r" "pl_ok r d p" "k < 4"
  obtains e where "stage_body srt r d k p f = Some (Inl e)"
  | p' f' where "stage_body srt r d k p f = Some (Inr (p', f'))" "pl_ok r d p'" "kept p f p' f'" "k < 3"
      "counts_kept p p'" "frame_facts r p k f \<Longrightarrow> frame_facts r p (k + 1) f'"
  | p' f' where "stage_body srt r d k p f = Some (Inr (p', f'))" "pl_ok r d p'" "kept p f p' f'" "k = 3"
      "frames_completed (pl_metrics p') = frames_completed (pl_metrics p) + 1"
      "sinks_consume f (pl_sinks p) = Inr (pl_sinks p')"
proof -
  consider "k = 0" | "k = 1" | "k = 2" | "k = 3" using assms(3) by arith
  then show thesis
  proof cases
    case 1
    show ?thesis
      by (rule stage_okD [OF preprocess_ok assms(2), of f])
        (use 1 that(1,2) in \<open>auto simp: stage_body_def frame_facts_def kept_def\<close>)
  next
    case 2
    show ?thesis
      by (rule stage_okD [OF infer_ok assms(2), of f])
        (use 2 that(1,2) in \<open>auto simp: stage_body_def frame_facts_def kept_def\<close>)
  next
    case 3
    show ?thesis
      by (rule stage_okD [OF post_track_ok [OF assms(1)] assms(2), of f])
        (use 3 that(1,2) in \<open>auto simp: stage_body_def numeral_3_eq_3 numeral_2_eq_2\<close>)
  next
    case 4
    obtain res where "deliver p f = Some res" "\<And>p' f'. res = Inr (p', f') \<Longrightarrow> pl_ok r d p' \<and> kept p f p' f' \<and>
      frames_completed (pl_metrics p') = frames_completed (pl_metrics p) + 1 \<and> sinks_consume f (pl_sinks p) = Inr (pl_sinks p')"
      using deliver_ok [OF assms(2), of f] by blast
    then show ?thesis using 4 that(1,3) by (cases res) (auto simp: stage_body_def)
  qed
qed

lemma worker_push_result:
  assumes "worker_step srt r d k s = Some s'" "rs_worker s k = W_push i"
    "hand_off_push False (Some i) (rs_queue s (k + 1)) (rs_pool s) = (res, ho, pool)"
  obtains x where "res = Some x" "s' = set_worker k W_pop (s\<lparr>rs_queue := (rs_queue s)(k + 1 := ho), rs_pool := pool,
    rs_pipe := if is_drop x then count_dropped (rs_pipe s) else rs_pipe s\<rparr>)"
proof -
  obtain x where x: "res = Some x"
    using assms by (cases res) (simp_all add: worker_step_def worker_push_def Let_def)
  show thesis
    by (rule that [OF x]) (use assms x in \<open>cases "is_drop x"; simp add: worker_step_def worker_push_def\<close>)
qed

lemma worker_effect:
  assumes "queues_ok s" "environment_ok srt r" "pl_ok r d (rs_pipe s)" "k < 4" "worker_step srt r d k s = Some s'"
    and "worker_frames (rs_worker s 3) = [] \<or> rs_worker s 3 = W_body (hd (worker_frames (rs_worker s 3)))"
  shows "(\<exists>e. has_effect s s' e \<and> steady e) \<or>
    (\<exists>i g. rs_worker s k = W_body i \<and> rs_worker s' k = W_push i \<and> has_effect s s' (Rewrite i g))"
proof (cases "rs_worker s k")
  case W_pop
  obtain res ho where p: "hand_off_pop (rs_queue s k) = (res, ho)" by fastforce
  show ?thesis
  proof (rule pop_effects [OF queues_okD [OF assms(1,4)] p])
    assume "res = None"
    then show ?thesis using W_pop assms(5) p by (simp add: worker_step_def worker_pop_def)
  next
    assume e: "res = Some None" "queued (rs_queue s k) = []" "queued ho = []"
    then have s': "rs_worker s' = (rs_worker s)(k := W_close)" "rs_queue s' = (rs_queue s)(k := ho)"
      "rs_capture s' = rs_capture s" "rs_pool s' = rs_pool s" "rs_sequence s' = rs_sequence s" "rs_reads s' = rs_reads s"
      "rs_delivered s' = rs_delivered s"
      using W_pop assms(5) p by (auto simp: worker_step_def worker_pop_def)
    have "flight s' = flight s" by (rule flight_local(1) [OF assms(4) s'(1,2)]) (simp add: e W_pop segment_def)
    from lineI [OF this s'(3)] have "has_effect s s' Keep" using s' by (simp add: has_effect_def)
    then show ?thesis by (rule disjI1 [OF effectI]) simp
  next
    fix i assume e: "res = Some (Some (Some i))" "queued (rs_queue s k) = i # queued ho"
    then have s': "rs_worker s' = (rs_worker s)(k := W_body i)" "rs_queue s' = (rs_queue s)(k := ho)"
      "rs_capture s' = rs_capture s" "rs_pool s' = rs_pool s" "rs_sequence s' = rs_sequence s" "rs_reads s' = rs_reads s"
      "rs_delivered s' = rs_delivered s"
      using W_pop assms(5) p by (auto simp: worker_step_def worker_pop_def)
    have "flight s' = flight s" by (rule flight_local(1) [OF assms(4) s'(1,2)]) (simp add: e W_pop segment_def)
    from lineI [OF this s'(3)] have "has_effect s s' Keep" using s' by (simp add: has_effect_def)
    then show ?thesis by (rule disjI1 [OF effectI]) simp
  qed
next
  case (W_body i)
  let ?f = "storage (rs_pool s) ! i"
  have drop: ?thesis
    if "rs_worker s' = (rs_worker s)(k := pc)" "worker_frames pc = []" "rs_queue s' = rs_queue s" "rs_capture s' = rs_capture s"
      "rs_pool s' = recycle i (rs_pool s)" "rs_sequence s' = rs_sequence s" "rs_reads s' = rs_reads s" "rs_delivered s' = rs_delivered s" for pc
  proof -
    have "\<exists>xs ys. flight s = xs @ i # ys \<and> flight s' = xs @ ys"
      using that W_body by (intro flight_local(2) [OF assms(4), of s' s pc "rs_queue s k"]) auto
    from line_removeI [OF this that(4)] have "has_effect s s' (Drop i)" using that by (simp add: has_effect_def)
    then show ?thesis by (rule disjI1 [OF effectI]) simp
  qed
  show ?thesis
  proof (cases "rs_aborted s")
    case True
    then show ?thesis using W_body assms(5)
      by (intro drop [of W_pop]) (auto simp: worker_step_def worker_body_def frame_recycler_def)
  next
    case False
    show ?thesis
    proof (rule stage_body_ok [OF assms(2-4), of ?f])
      fix e assume "stage_body srt r d k (rs_pipe s) ?f = Some (Inl e)"
      then show ?thesis using W_body assms(5) False
        by (intro drop [of W_close]) (auto simp: worker_step_def worker_body_def frame_recycler_def)
    next
      fix p' g assume b: "stage_body srt r d k (rs_pipe s) ?f = Some (Inr (p', g))" "kept (rs_pipe s) ?f p' g" "k < 3"
      then have s': "rs_worker s' = (rs_worker s)(k := W_push i)" "rs_queue s' = (rs_queue s)(k := rs_queue s k)"
        "rs_capture s' = rs_capture s" "rs_pool s' = put_frame i g (rs_pool s)" "rs_sequence s' = rs_sequence s"
        "rs_reads s' = rs_reads s" "rs_delivered s' = rs_delivered s"
        using W_body assms(5) False by (auto simp: worker_step_def worker_body_def)
      have "flight s' = flight s" by (rule flight_local(1) [OF assms(4) s'(1,2)]) (simp add: W_body segment_def)
      moreover have "i \<in> set (line s)"
        using assms(4) W_body unfolding four by (auto simp: line_def flight_def segment_def)
      ultimately have "has_effect s s' (Rewrite i g)" using s' b(2) lineI [of s' s] by (simp add: has_effect_def kept_def)
      then show ?thesis using W_body s'(1) by auto
    next
      fix p' g assume b: "stage_body srt r d k (rs_pipe s) ?f = Some (Inr (p', g))" "kept (rs_pipe s) ?f p' g" "k = 3"
      then have s': "rs_worker s' = (rs_worker s)(k := W_pop)" "rs_queue s' = (rs_queue s)(k := rs_queue s k)"
        "rs_capture s' = rs_capture s" "rs_pool s' = recycle i (put_frame i g (rs_pool s))" "rs_sequence s' = rs_sequence s"
        "rs_reads s' = rs_reads s" "rs_delivered s' = rs_delivered s @ [?f]"
        using W_body assms(5) False by (auto simp: worker_step_def worker_body_def frame_recycler_def Let_def)
      have "flight s = i # flight s'"
        by (rule flight_local(3) [OF assms(4) s'(1,2) b(3) W_body]) simp_all
      then have "has_effect s s' (Deliver i g)"
        using s' by (simp add: has_effect_def line_def pushing_def reading_def)
      then show ?thesis by (rule disjI1 [OF effectI]) simp
    qed
  qed
next
  case (W_push i)
  obtain res ho pool where p: "hand_off_push False (Some i) (rs_queue s (k + 1)) (rs_pool s) = (res, ho, pool)"
    by (metis prod_cases3)
  show ?thesis
  proof (cases "k < 3")
    case False
    then have "k = 3" using assms(4) by simp
    then show ?thesis using assms(6) W_push by simp
  next
    case True
    then have k1: "k + 1 < 4" by simp
    obtain e where e: "push_effect_of i (rs_queue s (k + 1)) (rs_pool s) res ho pool e"
      using push_effects [OF queues_okD [OF assms(1) k1] p] by auto
    have s': "rs_worker s' = (rs_worker s)(k := W_pop)" "rs_queue s' = (rs_queue s)(k + 1 := ho)"
      "rs_pool s' = pool" "res \<noteq> None" "rs_capture s' = rs_capture s"
      "rs_sequence s' = rs_sequence s" "rs_reads s' = rs_reads s" "rs_delivered s' = rs_delivered s"
      by (rule worker_push_result [OF assms(5) W_push p], simp)+
    note f = flight_push [OF True W_push s'(1,2)]
    show ?thesis
    proof (cases e)
      case Blocked
      then show ?thesis using e s' by (simp add: push_effect_of_def)
    next
      case Closed
      then have "has_effect s s' (Drop i)"
        using e s' line_removeI [OF f(2) s'(5)] by (simp add: push_effect_of_def has_effect_def)
      then show ?thesis by (rule disjI1 [OF effectI]) simp
    next
      case Accepted
      then have "has_effect s s' Keep" using e s' f(1) lineI [OF _ s'(5)] by (simp add: push_effect_of_def has_effect_def)
      then show ?thesis by (rule disjI1 [OF effectI]) simp
    next
      case (Replaced j)
      then have "has_effect s s' (Drop j)"
        using e s' line_removeI [OF f(3) s'(5)] by (simp add: push_effect_of_def has_effect_def)
      then show ?thesis by (rule disjI1 [OF effectI]) simp
    next
      case Rejected
      then have "has_effect s s' (Drop i)"
        using e s' line_removeI [OF f(2) s'(5)] by (simp add: push_effect_of_def has_effect_def)
      then show ?thesis by (rule disjI1 [OF effectI]) simp
    qed
  qed
next
  case W_close
  have "queued (hand_off_close (rs_queue s (k + 1))) = queued (rs_queue s (k + 1))" if "k < 3"
    using that close_effects(5) [OF queues_okD [OF assms(1)]] by simp
  then have "flight s' = flight s" "rs_capture s' = rs_capture s"
    using W_close assms(4,5) unfolding four
    by (auto simp: worker_step_def flight_def segment_def numeral_2_eq_2 numeral_3_eq_3)
  then have "has_effect s s' Keep"
    using W_close assms(5) lineI [of s' s] by (auto simp: worker_step_def has_effect_def)
  then show ?thesis by (rule disjI1 [OF effectI]) simp
next
  case W_exit
  then show ?thesis using assms(5) by (simp add: worker_step_def)
qed

section \<open>Ownership and order\<close>

definition seq_of :: "frame_pool \<Rightarrow> nat \<Rightarrow> nat" where
  "seq_of p i = unat (sequence (storage p ! i))"

definition order_of :: "('b, 'k, 's) run_state \<Rightarrow> nat list" where
  "order_of s = map (\<lambda>f. unat (sequence f)) (rs_delivered s) @ map (seq_of (rs_pool s)) (line s)"

definition frames_inv :: "('b, 'k, 's) run_state \<Rightarrow> bool" where
  "frames_inv s \<longleftrightarrow> pool_ok (rs_pool s) (line s @ reading s) \<and> rs_sequence s = of_nat (rs_reads s) \<and>
     (rs_reads s < 2 ^ 64 \<longrightarrow> sorted_wrt (<) (order_of s) \<and> (\<forall>n \<in> set (order_of s). n < rs_reads s))"

lemma put_frame_ok:
  assumes "pool_ok p hs" "i \<in> set hs"
  shows "pool_ok (put_frame i f p) hs" "pool_capacity (put_frame i f p) = pool_capacity p"
    "storage (put_frame i f p) ! i = f"
proof -
  have "i \<notin> set (free_frames p)" using pool_ok_partition(1) [OF assms(1)] assms(2) by auto
  then show "pool_ok (put_frame i f p) hs"
    using assms(1) by (auto simp: pool_ok_def put_frame_def pool_capacity_def update_nth)
  have "i < pool_capacity p" using pool_ok_partition(2) [OF assms(1)] assms(2) by auto
  then show "storage (put_frame i f p) ! i = f" by (simp add: put_frame_def pool_capacity_def)
qed (simp add: put_frame_def pool_capacity_def)

lemma seq_of_other [simp]: "j \<noteq> i \<Longrightarrow> seq_of (put_frame i f p) j = seq_of p j" "j \<noteq> i \<Longrightarrow> seq_of (recycle i p) j = seq_of p j"
  by (simp_all add: seq_of_def put_frame_def recycle_def Let_def)

lemma map_seq_of_other:
  assumes "i \<notin> set is"
  shows "map (seq_of (put_frame i f p)) is = map (seq_of p) is" "map (seq_of (recycle i p)) is = map (seq_of p) is"
proof -
  have "j \<noteq> i" if "j \<in> set is" for j using assms that by blast
  then show "map (seq_of (put_frame i f p)) is = map (seq_of p) is" "map (seq_of (recycle i p)) is = map (seq_of p) is"
    by (simp_all cong: map_cong)
qed

lemma pool_ok_rotate: "pool_ok p (xs @ x # ys) \<Longrightarrow> pool_ok p (x # xs @ ys)"
  by (erule pool_ok_perm) simp

lemma effect_frames:
  assumes e: "has_effect s s' e" and inv: "frames_inv s"
  shows "frames_inv s'" "pool_capacity (rs_pool s') = pool_capacity (rs_pool s)"
proof -
  let ?p = "rs_pool s"
  have pool: "pool_ok ?p (line s @ reading s)" and seq: "rs_sequence s = of_nat (rs_reads s)"
    and ord: "rs_reads s < 2 ^ 64 \<Longrightarrow> sorted_wrt (<) (order_of s) \<and> (\<forall>n \<in> set (order_of s). n < rs_reads s)"
    using inv by (simp_all add: frames_inv_def)
  have dist: "distinct (line s @ reading s)" using pool_ok_partition(1) [OF pool] by simp
  have "frames_inv s' \<and> pool_capacity (rs_pool s') = pool_capacity ?p"
  proof (cases e)
    case Keep
    then show ?thesis using e inv by (simp add: has_effect_def frames_inv_def order_of_def)
  next
    case (Drop x)
    then obtain xs ys where l: "line s = xs @ x # ys" "line s' = xs @ ys" and s': "reading s' = reading s"
      "rs_pool s' = recycle x ?p" "rs_sequence s' = rs_sequence s" "rs_reads s' = rs_reads s" "rs_delivered s' = rs_delivered s"
      using e by (auto simp: has_effect_def)
    have "pool_ok ?p (x # (xs @ ys) @ reading s)" using pool pool_ok_rotate [of ?p xs x "ys @ reading s"] l by simp
    from recycle_head [OF this] recycle_ok(2) [OF this, of x]
    have "pool_ok (rs_pool s') (line s' @ reading s')" "pool_capacity (rs_pool s') = pool_capacity ?p"
      using l s' by simp_all
    moreover have "order_of s = map (\<lambda>f. unat (sequence f)) (rs_delivered s) @ map (seq_of ?p) xs @ seq_of ?p x # map (seq_of ?p) ys"
      "order_of s' = map (\<lambda>f. unat (sequence f)) (rs_delivered s) @ map (seq_of ?p) xs @ map (seq_of ?p) ys"
      using dist l s' by (simp_all add: order_of_def map_seq_of_other)
    ultimately show ?thesis using ord seq s' by (auto simp: frames_inv_def sorted_wrt_append)
  next
    case (Acquire i)
    then have s': "line s' = line s" "reading s = []" "reading s' = [i]" "free_frames ?p \<noteq> []" "take_locked ?p = (Some i, rs_pool s')"
      "rs_sequence s' = rs_sequence s" "rs_reads s' = rs_reads s" "rs_delivered s' = rs_delivered s"
      using e by (auto simp: has_effect_def)
    from take_locked_ok [OF pool s'(4,5)]
    have t: "pool_ok (rs_pool s') (i # line s)" "storage (rs_pool s') = storage ?p" "pool_capacity (rs_pool s') = pool_capacity ?p"
      using s' by auto
    have "pool_ok (rs_pool s') (line s' @ reading s')" by (rule pool_ok_perm [OF t(1)]) (simp add: s')
    moreover have "order_of s' = order_of s" using s' t(2) by (simp add: order_of_def seq_of_def [abs_def])
    ultimately show ?thesis using inv s' t(3) by (simp add: frames_inv_def)
  next
    case (Unread i f)
    then have s': "line s' = line s" "reading s = [i]" "reading s' = []" "rs_pool s' = recycle i (put_frame i f ?p)"
      "rs_sequence s' = rs_sequence s" "rs_reads s' = rs_reads s" "rs_delivered s' = rs_delivered s"
      using e by (auto simp: has_effect_def)
    have p: "pool_ok ?p (i # line s)" by (rule pool_ok_perm [OF pool]) (simp add: s')
    note w = put_frame_ok [OF p, of i f, simplified]
    have "pool_ok (rs_pool s') (line s')" "pool_capacity (rs_pool s') = pool_capacity ?p"
      using recycle_head [OF w(1)] recycle_ok(2) [OF w(1), of i] w(2) by (simp_all add: s')
    moreover have "order_of s' = order_of s" using s' dist by (simp add: order_of_def map_seq_of_other)
    ultimately show ?thesis using inv s' by (simp add: frames_inv_def)
  next
    case (Read i f)
    then have s': "line s' = line s @ [i]" "reading s = [i]" "reading s' = []" "rs_pool s' = put_frame i f ?p" "sequence f = rs_sequence s"
      "rs_sequence s' = rs_sequence s + 1" "rs_reads s' = rs_reads s + 1" "rs_delivered s' = rs_delivered s"
      using e by (auto simp: has_effect_def)
    note w = put_frame_ok [OF pool, of i f]
    have "order_of s' = order_of s @ [unat (rs_sequence s)]"
      using s' dist w(3) by (simp add: order_of_def map_seq_of_other) (simp add: seq_of_def)
    moreover have "unat (rs_sequence s) = rs_reads s" if "rs_reads s < 2 ^ 64"
      using that by (simp add: seq unat_of_nat_u64)
    ultimately show ?thesis
      using w(1,2) s' ord seq by (auto simp: frames_inv_def sorted_wrt_append less_Suc_eq)
  next
    case (Rewrite i g)
    then have s': "line s' = line s" "reading s' = reading s" "i \<in> set (line s)" "rs_pool s' = put_frame i g ?p"
      "sequence g = sequence (storage ?p ! i)"
      "rs_sequence s' = rs_sequence s" "rs_reads s' = rs_reads s" "rs_delivered s' = rs_delivered s"
      using e by (auto simp: has_effect_def)
    note w = put_frame_ok [OF pool, of i g]
    have "seq_of (rs_pool s') j = seq_of ?p j" for j
      using w(3) s' by (cases "j = i") (simp_all add: seq_of_def put_frame_def)
    then have "order_of s' = order_of s" using s' by (simp add: order_of_def)
    then show ?thesis using inv w(1,2) s' by (simp add: frames_inv_def)
  next
    case (Deliver i g)
    then have s': "line s = i # line s'" "reading s' = reading s" "rs_pool s' = recycle i (put_frame i g ?p)"
      "rs_sequence s' = rs_sequence s" "rs_reads s' = rs_reads s" "rs_delivered s' = rs_delivered s @ [storage ?p ! i]"
      using e by (auto simp: has_effect_def)
    have p: "pool_ok ?p (i # line s' @ reading s)" using pool s' by simp
    note w = put_frame_ok [OF p, of i g, simplified]
    have "pool_ok (rs_pool s') (line s' @ reading s')" "pool_capacity (rs_pool s') = pool_capacity ?p"
      using recycle_head [OF w(1)] recycle_ok(2) [OF w(1), of i] w(2) by (simp_all add: s')
    moreover have "order_of s' = order_of s" using s' dist by (simp add: order_of_def map_seq_of_other) (simp add: seq_of_def)
    ultimately show ?thesis using inv s' by (simp add: frames_inv_def)
  qed
  then show "frames_inv s'" "pool_capacity (rs_pool s') = pool_capacity ?p" by simp_all
qed

section \<open>Shutdown\<close>

text \<open>
  A stop or an abort closes the queues it must close; otherwise a queue is closed only by the end of
  the thread in front of it, and a worker ends only when its queue is closed and drained.
\<close>

definition ending :: "worker_pc \<Rightarrow> bool" where
  "ending w \<longleftrightarrow> w = W_close \<or> w = W_exit"

definition stop_closes :: "('b, 'k, 's) run_state \<Rightarrow> bool" where
  "stop_closes s \<longleftrightarrow> (pl_stop (rs_pipe s) \<longrightarrow> ho_closed (rs_queue s 0) \<or> 0 \<in> set (rs_closing s))"

definition abort_closes :: "('b, 'k, 's) run_state \<Rightarrow> bool" where
  "abort_closes s \<longleftrightarrow> (rs_aborted s \<longrightarrow> pl_stop (rs_pipe s) \<and> (\<forall>k < 4. ho_closed (rs_queue s k) \<or> k \<in> set (rs_closing s)))"

definition exits_close :: "('b, 'k, 's) run_state \<Rightarrow> bool" where
  "exits_close s \<longleftrightarrow> (rs_capture s = C_exit \<longrightarrow> ho_closed (rs_queue s 0)) \<and>
     (\<forall>k < 3. rs_worker s k = W_exit \<longrightarrow> ho_closed (rs_queue s (k + 1)))"

definition closed_by_exit :: "('b, 'k, 's) run_state \<Rightarrow> bool" where
  "closed_by_exit s \<longleftrightarrow> (\<not> rs_aborted s \<longrightarrow> set (rs_closing s) \<subseteq> {0} \<and>
     (\<forall>k < 3. ho_closed (rs_queue s (k + 1)) \<longrightarrow> rs_worker s k = W_exit))"

definition ends_drained :: "('b, 'k, 's) run_state \<Rightarrow> bool" where
  "ends_drained s \<longleftrightarrow> (\<not> rs_aborted s \<longrightarrow>
     (\<forall>k < 4. ending (rs_worker s k) \<longrightarrow> ho_closed (rs_queue s k) \<and> queued (rs_queue s k) = []))"

definition control_inv :: "('b, 'k, 's) run_state \<Rightarrow> bool" where
  "control_inv s \<longleftrightarrow> queues_ok s \<and> (\<forall>i. rs_worker s 3 \<noteq> W_push i) \<and> set (rs_closing s) \<subseteq> {..<4} \<and>
     (rs_aborted s \<longleftrightarrow> rs_error s \<noteq> None) \<and>
     stop_closes s \<and> abort_closes s \<and> exits_close s \<and> closed_by_exit s \<and> ends_drained s"

lemma control_invD:
  assumes "control_inv s"
  shows "queues_ok s" "rs_worker s 3 \<noteq> W_push i" "set (rs_closing s) \<subseteq> {..<4}" "rs_aborted s \<longleftrightarrow> rs_error s \<noteq> None"
    "pl_stop (rs_pipe s) \<Longrightarrow> ho_closed (rs_queue s 0) \<or> 0 \<in> set (rs_closing s)"
    "rs_aborted s \<Longrightarrow> pl_stop (rs_pipe s)"
    "rs_aborted s \<Longrightarrow> k < 4 \<Longrightarrow> ho_closed (rs_queue s k) \<or> k \<in> set (rs_closing s)"
    "rs_capture s = C_exit \<Longrightarrow> ho_closed (rs_queue s 0)"
    "k < 3 \<Longrightarrow> rs_worker s k = W_exit \<Longrightarrow> ho_closed (rs_queue s (k + 1))"
    "\<not> rs_aborted s \<Longrightarrow> set (rs_closing s) \<subseteq> {0}"
    "\<not> rs_aborted s \<Longrightarrow> k < 3 \<Longrightarrow> ho_closed (rs_queue s (k + 1)) \<Longrightarrow> rs_worker s k = W_exit"
    "\<not> rs_aborted s \<Longrightarrow> k < 4 \<Longrightarrow> ending (rs_worker s k) \<Longrightarrow> ho_closed (rs_queue s k) \<and> queued (rs_queue s k) = []"
proof -
  have all: "stop_closes s" "abort_closes s" "exits_close s" "closed_by_exit s" "ends_drained s"
    and "queues_ok s" "rs_worker s 3 \<noteq> W_push i" "set (rs_closing s) \<subseteq> {..<4}" "rs_aborted s \<longleftrightarrow> rs_error s \<noteq> None"
    using assms by (simp_all add: control_inv_def)
  then show "queues_ok s" "rs_worker s 3 \<noteq> W_push i" "set (rs_closing s) \<subseteq> {..<4}" "rs_aborted s \<longleftrightarrow> rs_error s \<noteq> None" by simp_all
  show "pl_stop (rs_pipe s) \<Longrightarrow> ho_closed (rs_queue s 0) \<or> 0 \<in> set (rs_closing s)"
    using all(1) by (simp add: stop_closes_def)
  show "rs_aborted s \<Longrightarrow> pl_stop (rs_pipe s)"
    "rs_aborted s \<Longrightarrow> k < 4 \<Longrightarrow> ho_closed (rs_queue s k) \<or> k \<in> set (rs_closing s)"
    using all(2) by (simp_all add: abort_closes_def)
  show "rs_capture s = C_exit \<Longrightarrow> ho_closed (rs_queue s 0)"
    "k < 3 \<Longrightarrow> rs_worker s k = W_exit \<Longrightarrow> ho_closed (rs_queue s (k + 1))"
    using all(3) by (simp_all add: exits_close_def)
  show "\<not> rs_aborted s \<Longrightarrow> set (rs_closing s) \<subseteq> {0}"
    "\<not> rs_aborted s \<Longrightarrow> k < 3 \<Longrightarrow> ho_closed (rs_queue s (k + 1)) \<Longrightarrow> rs_worker s k = W_exit"
    using all(4) by (simp_all add: closed_by_exit_def)
  show "\<not> rs_aborted s \<Longrightarrow> k < 4 \<Longrightarrow> ending (rs_worker s k) \<Longrightarrow> ho_closed (rs_queue s k) \<and> queued (rs_queue s k) = []"
    using all(5) by (simp add: ends_drained_def)
qed

text \<open>A call on queue \<open>k\<close> that does not close it, by a thread that goes on.\<close>

lemma control_call:
  assumes inv: "control_inv s" and k: "k < 4" and ho: "same_ho (rs_queue s k) ho"
    and s': "rs_queue s' = (rs_queue s)(k := ho)" "rs_closing s' = rs_closing s" "rs_aborted s' = rs_aborted s" "rs_error s' = rs_error s"
      "pl_stop (rs_pipe s') = pl_stop (rs_pipe s)"
    and w: "\<And>j. j < 4 \<Longrightarrow> rs_worker s' j = rs_worker s j \<or> \<not> ending (rs_worker s j) \<and> \<not> ending (rs_worker s' j) \<or>
      j = k \<and> rs_worker s' j = W_close \<and> ho_closed ho \<and> queued ho = [] \<and> rs_worker s j \<noteq> W_exit"
    and w3: "\<And>i. rs_worker s' 3 \<noteq> W_push i"
    and c: "rs_capture s' = C_exit \<Longrightarrow> rs_capture s = C_exit"
    and q: "ho_closed ho \<Longrightarrow> queued (rs_queue s k) = [] \<Longrightarrow> queued ho = []"
  shows "control_inv s'"
proof -
  note D = control_invD [OF inv]
  have closed: "ho_closed (rs_queue s' j) = ho_closed (rs_queue s j)" for j
    using ho s'(1) by (simp add: same_ho_def)
  have exit: "rs_worker s' j = W_exit \<longleftrightarrow> rs_worker s j = W_exit" if "j < 4" for j
    using w [OF that] by (auto simp: ending_def)
  have n: "\<not> rs_aborted s' \<Longrightarrow> \<not> rs_aborted s" using s' by simp
  show ?thesis
    unfolding control_inv_def
  proof (intro conjI allI)
    show "queues_ok s'" using D(1) ho s'(1) by (auto simp: queues_ok_def same_ho_def)
    show "rs_worker s' 3 \<noteq> W_push i" for i by (rule w3)
    show "set (rs_closing s') \<subseteq> {..<4}" "rs_aborted s' \<longleftrightarrow> rs_error s' \<noteq> None" using D(3,4) s' by simp_all
    show "stop_closes s'" unfolding stop_closes_def closed using D(5) s'(2-) by simp
    show "abort_closes s'" unfolding abort_closes_def closed using D(6,7) s'(2-) by simp
    show "exits_close s'" unfolding exits_close_def closed using D(8,9) c exit by simp
    show "closed_by_exit s'" unfolding closed_by_exit_def closed using D(10,11) exit s'(2-) by simp
    show "ends_drained s'" unfolding ends_drained_def
    proof (intro impI allI)
      fix j assume a: "\<not> rs_aborted s'" "j < 4" "ending (rs_worker s' j)"
      show "ho_closed (rs_queue s' j) \<and> queued (rs_queue s' j) = []"
      proof (cases "j = k")
        case True
        show ?thesis using w [OF a(2)] a(3) D(12) [OF n [OF a(1)] a(2)] q ho True s'(1)
          by (auto simp: same_ho_def)
      next
        case False
        show ?thesis using w [OF a(2)] a(3) D(12) [OF n [OF a(1)] a(2)] False s'(1) by auto
      qed
    qed
  qed
qed

lemma same_ho_refl: "hand_off_ok ho \<Longrightarrow> same_ho ho ho"
  by (simp add: same_ho_def)

text \<open>Closing queue \<open>k\<close> on the way out of the thread in front of it, or for a stop or an abort.\<close>

lemma control_close:
  assumes inv: "control_inv s" and k: "k < 4"
    and s': "rs_queue s' = (rs_queue s)(k := hand_off_close (rs_queue s k))" "rs_aborted s' = rs_aborted s" "rs_error s' = rs_error s"
      "pl_stop (rs_pipe s') = pl_stop (rs_pipe s)"
    and cl: "set (rs_closing s') \<subseteq> set (rs_closing s)" "set (rs_closing s) \<subseteq> insert k (set (rs_closing s'))"
    and w: "\<And>j. j < 4 \<Longrightarrow> rs_worker s' j = rs_worker s j \<or> k = j + 1 \<and> rs_worker s j = W_close \<and> rs_worker s' j = W_exit"
    and owner: "\<not> rs_aborted s \<Longrightarrow> k \<noteq> 0 \<Longrightarrow> rs_worker s' (k - 1) = W_exit"
    and c: "rs_capture s' = C_exit \<Longrightarrow> rs_capture s = C_exit \<or> k = 0"
  shows "control_inv s'"
proof -
  note D = control_invD [OF inv]
  note ce = close_effects [OF queues_okD [OF D(1) k]]
  have closed: "ho_closed (rs_queue s' j) \<longleftrightarrow> ho_closed (rs_queue s j) \<or> j = k" for j
    using ce s'(1) by simp
  have queue: "queued (rs_queue s' j) = queued (rs_queue s j)" for j using ce s'(1) by simp
  have cl': "j \<in> set (rs_closing s) \<Longrightarrow> j \<in> set (rs_closing s') \<or> j = k" for j using cl by auto
  have n: "\<not> rs_aborted s' \<Longrightarrow> \<not> rs_aborted s" using s' by simp
  show ?thesis
    unfolding control_inv_def
  proof (intro conjI allI)
    show "queues_ok s'" using D(1) ce s'(1) by (simp add: queues_ok_def)
    show "rs_worker s' 3 \<noteq> W_push i" for i using D(2) [of i] w [of 3] k by auto
    show "set (rs_closing s') \<subseteq> {..<4}" using D(3) cl(1) by blast
    show "rs_aborted s' \<longleftrightarrow> rs_error s' \<noteq> None" using D(4) s' by simp
    show "stop_closes s'" unfolding stop_closes_def closed using D(5) s'(2-) cl' [of 0] by auto
    show "abort_closes s'" unfolding abort_closes_def closed using D(6,7) s'(2-) cl' by auto
    show "exits_close s'" unfolding exits_close_def closed
    proof (intro conjI impI allI)
      show "rs_capture s' = C_exit \<Longrightarrow> ho_closed (rs_queue s 0) \<or> 0 = k" using c D(8) by auto
      show "ho_closed (rs_queue s (j + 1)) \<or> j + 1 = k" if "j < 3" "rs_worker s' j = W_exit" for j
        using that w [of j] D(9) [of j] by auto
    qed
    show "closed_by_exit s'" unfolding closed_by_exit_def closed
    proof (intro conjI impI allI)
      show "\<not> rs_aborted s' \<Longrightarrow> set (rs_closing s') \<subseteq> {0}" using D(10) cl(1) n by blast
      fix j assume a: "\<not> rs_aborted s'" "j < 3" "ho_closed (rs_queue s (j + 1)) \<or> j + 1 = k"
      show "rs_worker s' j = W_exit"
      proof (cases "j + 1 = k")
        case True
        then show ?thesis using owner [OF n [OF a(1)]] by auto
      next
        case False
        then show ?thesis using a D(11) [OF n [OF a(1)], of j] w [of j] by auto
      qed
    qed
    show "ends_drained s'" unfolding ends_drained_def queue closed
    proof (intro impI allI)
      fix j assume a: "\<not> rs_aborted s'" "j < 4" "ending (rs_worker s' j)"
      then have "ending (rs_worker s j)" using w [OF a(2)] by (auto simp: ending_def)
      then show "(ho_closed (rs_queue s j) \<or> j = k) \<and> queued (rs_queue s j) = []"
        using D(12) [OF n [OF a(1)] a(2)] by simp
    qed
  qed
qed

text \<open>Steps that leave the queues alone.\<close>

lemma control_local:
  assumes inv: "control_inv s"
    and s': "rs_queue s' = rs_queue s" "rs_closing s' = rs_closing s" "rs_aborted s' = rs_aborted s" "rs_error s' = rs_error s"
      "pl_stop (rs_pipe s') = pl_stop (rs_pipe s)"
    and w: "\<And>j. j < 4 \<Longrightarrow> rs_worker s' j = rs_worker s j \<or> \<not> ending (rs_worker s j) \<and> \<not> ending (rs_worker s' j)"
    and w3: "\<And>i. rs_worker s' 3 \<noteq> W_push i"
    and c: "rs_capture s' = C_exit \<Longrightarrow> rs_capture s = C_exit"
  shows "control_inv s'"
  by (rule control_call [OF inv, of 0 "rs_queue s 0"])
    (use control_invD(1) [OF inv] s' w w3 c in \<open>auto simp: queues_ok_def same_ho_refl\<close>)

text \<open>An abort: the failing thread goes to its close state.\<close>

lemma control_abort:
  assumes inv: "control_inv s"
    and s': "rs_queue s' = rs_queue s" "set (rs_closing s') = {0, 1, 2, 3}" "rs_aborted s'" "rs_error s' \<noteq> None" "pl_stop (rs_pipe s')"
    and w: "\<And>j. rs_worker s' j = W_exit \<Longrightarrow> rs_worker s j = W_exit" and w3: "\<And>i. rs_worker s' 3 \<noteq> W_push i"
    and c: "rs_capture s' = C_exit \<Longrightarrow> rs_capture s = C_exit"
  shows "control_inv s'"
proof -
  note D = control_invD [OF inv]
  show ?thesis
    unfolding control_inv_def
  proof (intro conjI allI)
    show "queues_ok s'" using D(1) s'(1) by (simp add: queues_ok_def)
    show "rs_worker s' 3 \<noteq> W_push i" for i by (rule w3)
    show "exits_close s'" unfolding exits_close_def s'(1) using D(8,9) c w by blast
  qed (use s' in \<open>auto simp: stop_closes_def abort_closes_def closed_by_exit_def ends_drained_def\<close>)
qed

section \<open>Work and counts\<close>

definition balanced :: "('b, 'k, 's) run_state \<Rightarrow> bool" where
  "balanced s \<longleftrightarrow> frames_captured (pl_metrics (rs_pipe s)) =
     frames_completed (pl_metrics (rs_pipe s)) + frames_dropped (pl_metrics (rs_pipe s)) + of_nat (length (flight s))"

definition pipe_inv :: "rounding \<Rightarrow> rounding \<Rightarrow> ('b, 'k) pipeline \<Rightarrow> ('b, 'k) pipeline \<Rightarrow> frame list \<Rightarrow> bool" where
  "pipe_inv r d p0 p gs \<longleftrightarrow> pl_ok r d p \<and> pl_config p = pl_config p0 \<and>
     decoder_layout (pl_decoder p) = decoder_layout (pl_decoder p0) \<and>
     frames_completed (pl_metrics p) = of_nat (length gs) \<and>
     consume_all gs (pl_sinks p0) = Inr (pl_sinks p) \<and> (\<forall>g \<in> set gs. frame_ok r p0 g g)"

text \<open>The frames that worker \<open>k\<close> has to process: in its queue, in its hands, or about to be pushed to it.\<close>

fun body_frames :: "worker_pc \<Rightarrow> nat list" where
  "body_frames (W_body i) = [i]"
| "body_frames _ = []"

fun push_frames :: "worker_pc \<Rightarrow> nat list" where
  "push_frames (W_push i) = [i]"
| "push_frames _ = []"

lemma worker_frames_split: "worker_frames w = body_frames w @ push_frames w"
  by (cases w) simp_all

definition due :: "nat \<Rightarrow> ('b, 'k, 's) run_state \<Rightarrow> nat list" where
  "due k s = queued (rs_queue s k) @ body_frames (rs_worker s k) @
     (if k = 0 then [] else push_frames (rs_worker s (k - 1)))"

definition facts_inv :: "rounding \<Rightarrow> ('b, 'k) pipeline \<Rightarrow> ('b, 'k, 's) run_state \<Rightarrow> bool" where
  "facts_inv r p0 s \<longleftrightarrow> (\<forall>k < 4. \<forall>i \<in> set (due k s). frame_facts r p0 k (storage (rs_pool s) ! i))"

lemma due_in_flight:
  assumes "k < 4" "i \<in> set (due k s)"
  shows "i \<in> set (flight s)"
proof -
  have "i \<in> set (segment k s) \<or> 0 < k \<and> i \<in> set (segment (k - 1) s)"
    using assms(2) by (auto simp: due_def segment_def worker_frames_split split: if_splits)
  moreover have "set (segment j s) \<subseteq> set (flight s)" if "j < 4" for j
    using that unfolding four by (auto simp: flight_def)
  ultimately show ?thesis using assms(1) by (meson less_imp_diff_less subsetD)
qed

lemma steady_storage:
  assumes "has_effect s s' e" "steady e" "distinct (line s @ reading s)" "j \<in> set (line s)" "j \<in> set (line s')"
  shows "storage (rs_pool s') ! j = storage (rs_pool s) ! j"
proof -
  have "storage (recycle i p) ! j = storage p ! j" "storage (put_frame i f p) ! j = storage p ! j"
    if "i \<notin> set (line s) \<or> i \<notin> set (line s')" for i f p
    using that assms(4,5) by (auto simp: recycle_def put_frame_def Let_def update_nth)
  moreover have "storage p' = storage p" if "take_locked p = (fp, p')" for fp p p'
    using that by (auto simp: take_locked_def)
  ultimately show ?thesis using assms by (cases e) (auto simp: has_effect_def)
qed

lemma facts_mono:
  assumes inv: "facts_inv r p0 s" and fr: "frames_inv s" and e: "has_effect s s' e" "steady e"
    and sub: "\<And>k. 0 < k \<Longrightarrow> k < 4 \<Longrightarrow> set (due k s') \<subseteq> set (due k s)"
  shows "facts_inv r p0 s'"
  unfolding facts_inv_def
proof (intro allI impI ballI)
  fix k i assume k: "k < 4" "i \<in> set (due k s')"
  show "frame_facts r p0 k (storage (rs_pool s') ! i)"
  proof (cases "k = 0")
    case True
    then show ?thesis by (simp add: frame_facts_def)
  next
    case False
    then have i: "i \<in> set (due k s)" using sub k by blast
    have "distinct (line s @ reading s)"
      using fr pool_ok_partition(1) [of "rs_pool s" "line s @ reading s"] by (simp add: frames_inv_def)
    moreover have "i \<in> set (line s)" "i \<in> set (line s')"
      using due_in_flight [OF k(1) i] due_in_flight [OF k] by (simp_all add: line_def)
    ultimately have "storage (rs_pool s') ! i = storage (rs_pool s) ! i" by (rule steady_storage [OF e])
    then show ?thesis using inv k(1) i by (simp add: facts_inv_def)
  qed
qed

lemma frame_facts_cong:
  "pl_config p = pl_config p0 \<Longrightarrow> decoder_layout (pl_decoder p) = decoder_layout (pl_decoder p0) \<Longrightarrow>
   frame_facts r p = frame_facts r p0"
  using frame_ok_cong [of p p0 r] by (intro ext) (simp add: frame_facts_def)

lemma consume_all_snoc:
  "consume_all (gs @ [g]) ks = bind_result (consume_all gs ks) (sinks_consume g)"
proof (induction gs arbitrary: ks)
  case (Cons a gs)
  then show ?case by (cases "sinks_consume a ks") simp_all
qed (simp add: bind_result_def split: sum.split)

lemma pipe_inv_metrics:
  "pipe_inv r d p0 (count_captured p) gs = pipe_inv r d p0 p gs"
  "pipe_inv r d p0 (count_dropped p) gs = pipe_inv r d p0 p gs"
  "pipe_inv r d p0 (request_stop p) gs = pipe_inv r d p0 p gs"
  "pipe_inv r d p0 (p\<lparr>clock_reads := c\<rparr>) gs = pipe_inv r d p0 p gs"
  by (simp_all add: pipe_inv_def pl_ok_def count_captured_def count_dropped_def request_stop_def metrics_ok_def)

lemma pipe_inv_kept:
  "pipe_inv r d p0 p gs \<Longrightarrow> kept p f p' f' \<Longrightarrow> counts_kept p p' \<Longrightarrow> pl_ok r d p' \<Longrightarrow> pipe_inv r d p0 p' gs"
  by (simp add: pipe_inv_def kept_def counts_kept_def)

lemma pipe_inv_deliver:
  assumes "pipe_inv r d p0 p gs" "kept p f p' f'" "pl_ok r d p'"
    "frames_completed (pl_metrics p') = frames_completed (pl_metrics p) + 1"
    "sinks_consume f (pl_sinks p) = Inr (pl_sinks p')" "frame_ok r p0 f f"
  shows "pipe_inv r d p0 p' (gs @ [f])"
  using assms by (auto simp: pipe_inv_def kept_def consume_all_snoc)

definition work_inv :: "rounding \<Rightarrow> rounding \<Rightarrow> ('b, 'k) pipeline \<Rightarrow> ('b, 'k, 's) run_state \<Rightarrow> bool" where
  "work_inv r d p0 s \<longleftrightarrow> pipe_inv r d p0 (rs_pipe s) (rs_delivered s) \<and> facts_inv r p0 s \<and> (\<not> rs_aborted s \<longrightarrow> balanced s)"

text \<open>Everything at once.\<close>

definition run_inv :: "rounding \<Rightarrow> rounding \<Rightarrow> ('b, 'k) pipeline \<Rightarrow> ('b, 'k, 's) run_state \<Rightarrow> bool" where
  "run_inv r d p0 s \<longleftrightarrow> frames_inv s \<and> control_inv s \<and> work_inv r d p0 s"

section \<open>Every step keeps the invariant\<close>

lemma count_sel [simp]:
  "frames_captured (pl_metrics (count_captured p)) = frames_captured (pl_metrics p) + 1"
  "frames_dropped (pl_metrics (count_captured p)) = frames_dropped (pl_metrics p)"
  "frames_completed (pl_metrics (count_captured p)) = frames_completed (pl_metrics p)"
  "frames_captured (pl_metrics (count_dropped p)) = frames_captured (pl_metrics p)"
  "frames_dropped (pl_metrics (count_dropped p)) = frames_dropped (pl_metrics p) + 1"
  "frames_completed (pl_metrics (count_dropped p)) = frames_completed (pl_metrics p)"
  "pl_stop (count_captured p) = pl_stop p" "pl_stop (count_dropped p) = pl_stop p" "pl_stop (request_stop p)"
  "pl_metrics (request_stop p) = pl_metrics p"
  by (simp_all add: count_captured_def count_dropped_def request_stop_def)

lemma balanced_cong:
  "flight s' = flight s \<Longrightarrow> pl_metrics (rs_pipe s') = pl_metrics (rs_pipe s) \<Longrightarrow> balanced s' = balanced s"
  by (simp add: balanced_def)

lemma capture_inv:
  assumes inv: "run_inv r d p0 s" and step: "capture_step s = Some s'"
  shows "control_inv s' \<and> work_inv r d p0 s'"
proof -
  have fr: "frames_inv s" and ctl: "control_inv s" and pipe: "pipe_inv r d p0 (rs_pipe s) (rs_delivered s)"
    and facts: "facts_inv r p0 s" and bal: "\<not> rs_aborted s \<Longrightarrow> balanced s"
    using inv by (simp_all add: run_inv_def work_inv_def)
  note D = control_invD [OF ctl]
  obtain e where e: "has_effect s s' e" "steady e" using capture_effect [OF D(1) step] by blast
  have work: "work_inv r d p0 s'"
    if "\<And>k. 0 < k \<Longrightarrow> rs_queue s' k = rs_queue s k" "rs_worker s' = rs_worker s" "rs_delivered s' = rs_delivered s"
      "pipe_inv r d p0 (rs_pipe s') (rs_delivered s)" "\<not> rs_aborted s' \<Longrightarrow> balanced s'"
    using facts_mono [OF facts fr e] that by (simp add: work_inv_def due_def)
  have quiet: ?thesis
    if "rs_queue s' = rs_queue s" "rs_worker s' = rs_worker s" "rs_delivered s' = rs_delivered s" "rs_closing s' = rs_closing s"
      "rs_aborted s' = rs_aborted s" "rs_error s' = rs_error s" "pl_stop (rs_pipe s') = pl_stop (rs_pipe s)"
      "pl_metrics (rs_pipe s') = pl_metrics (rs_pipe s)" "pipe_inv r d p0 (rs_pipe s') (rs_delivered s)"
      "rs_capture s' = C_exit \<Longrightarrow> rs_capture s = C_exit"
  proof
    show "control_inv s'" by (rule control_local [OF ctl]) (use that D(2) in simp_all)
    show "work_inv r d p0 s'"
      by (rule work) (use that bal balanced_cong [OF flight_same [OF that(1,2)] that(8)] in simp_all)
  qed
  show ?thesis
  proof (cases "rs_capture s")
    case C_test
    then show ?thesis using step pipe by (intro quiet) (auto simp: capture_step_def Let_def split: if_splits)
  next
    case C_acquire
    then show ?thesis using step pipe
      by (intro quiet) (auto simp: capture_step_def split: option.splits)
  next
    case (C_read i)
    show ?thesis
    proof (cases "source_read (rs_source s) (fr_image (storage (rs_pool s) ! i))")
      case (Inl err)
      then have s': "s' = abort_run err (s\<lparr>rs_pool := frame_recycler (Some i) (rs_pool s), rs_capture := C_close\<rparr>)"
        using C_read step by (simp add: capture_step_def capture_read_def)
      show ?thesis
      proof
        show "control_inv s'" by (rule control_abort [OF ctl]) (use s' D(2,3) in \<open>auto simp: abort_run_def split: option.splits\<close>)
        show "work_inv r d p0 s'" by (rule work) (use s' pipe in \<open>simp_all add: pipe_inv_metrics\<close>)
      qed
    next
      case (Inr res)
      then show ?thesis using C_read step pipe
        by (intro quiet) (auto simp: capture_step_def capture_read_def clock_now_def Let_def pipe_inv_metrics split: prod.splits if_splits)
    qed
  next
    case (C_push i)
    obtain res ho pool where p: "hand_off_push False (Some i) (rs_queue s 0) (rs_pool s) = (res, ho, pool)"
      by (metis prod_cases3)
    obtain ef where ef: "push_effect_of i (rs_queue s 0) (rs_pool s) res ho pool ef"
      using push_effects [OF queues_okD [OF D(1)] p] by auto
    have ho: "same_ho (rs_queue s 0) ho" using ef by (simp add: push_effect_of_def)
    obtain x where x: "res = Some x" using C_push step p by (cases res) (simp_all add: capture_step_def capture_push_def Let_def)
    have s': "rs_worker s' = rs_worker s" "rs_queue s' = (rs_queue s)(0 := ho)" "rs_delivered s' = rs_delivered s"
      "rs_closing s' = rs_closing s" "rs_aborted s' = rs_aborted s" "rs_error s' = rs_error s" "rs_capture s' \<noteq> C_exit"
      and res: "rs_pipe s' = (if x = kClosed then rs_pipe s else
        if x \<noteq> kAccepted then count_dropped (count_captured (rs_pipe s)) else count_captured (rs_pipe s))"
      using C_push step by (auto simp: capture_step_def capture_push_def p x Let_def split: if_splits)
    have pp: "pl_stop (rs_pipe s') = pl_stop (rs_pipe s)" "pipe_inv r d p0 (rs_pipe s') (rs_delivered s)"
      using res pipe by (auto simp: pipe_inv_metrics)
    have fl: "flight s = segment 3 s @ segment 2 s @ segment 1 s @ worker_frames (rs_worker s 0) @ queued (rs_queue s 0)"
      "flight s' = segment 3 s @ segment 2 s @ segment 1 s @ worker_frames (rs_worker s 0) @ queued ho"
      using s' by (simp_all add: flight_def segment_def)
    have "balanced s'" if "balanced s"
      using that res x ef fl unfolding push_effect_of_def balanced_def
      by (cases ef) (auto simp: algebra_simps)
    moreover have "queued ho = []" if "ho_closed ho" "queued (rs_queue s 0) = []"
      using ef that ho by (cases ef) (auto simp: push_effect_of_def same_ho_def)
    ultimately show ?thesis
      using s' pp bal D(2) by (intro conjI control_call [OF ctl _ ho] work) auto
  next
    case C_close
    then have s': "s' = (close_queue 0 s)\<lparr>rs_capture := C_exit\<rparr>" using step by (simp add: capture_step_def)
    have "queued (hand_off_close (rs_queue s 0)) = queued (rs_queue s 0)"
      using close_effects(5) [OF queues_okD [OF D(1)]] by simp
    then have "flight s' = flight s" by (simp add: s' flight_def segment_def)
    from balanced_cong [OF this] have "balanced s' = balanced s" by (simp add: s')
    then show ?thesis
      using s' pipe bal by (intro conjI control_close [OF ctl, of 0] work) (auto simp: close_queue_def)
  next
    case C_exit
    then show ?thesis using step by (simp add: capture_step_def)
  qed
qed


lemma one_place:
  assumes "distinct (flight s)" "k < 4" "i \<in> set (worker_frames (rs_worker s k))" "j < 4"
  shows "i \<notin> set (queued (rs_queue s j))" "i \<in> set (worker_frames (rs_worker s j)) \<Longrightarrow> j = k"
  using assms unfolding four by (auto simp: flight_def segment_def)

lemma rewrite_facts:
  assumes inv: "facts_inv r p0 s" and k: "k < 3" and w: "rs_worker s k = W_body i"
    and s': "rs_worker s' = (rs_worker s)(k := W_push i)" "rs_queue s' = rs_queue s" "rs_pool s' = put_frame i g (rs_pool s)"
    and dist: "distinct (flight s)" and size: "i < length (storage (rs_pool s))"
    and g: "frame_facts r p0 (k + 1) g"
  shows "facts_inv r p0 s'"
  unfolding facts_inv_def
proof (intro allI impI ballI)
  fix j x assume j: "j < 4" "x \<in> set (due j s')"
  have at: "storage (rs_pool s') ! x = (if x = i then g else storage (rs_pool s) ! x)"
    using size s'(3) by (simp add: put_frame_def)
  show "frame_facts r p0 j (storage (rs_pool s') ! x)"
  proof (cases "x = i")
    case True
    note only = one_place [OF dist, of k i, unfolded w, simplified]
    have k4: "k < 4" and iw: "i \<in> set (worker_frames (rs_worker s k))" using k w by simp_all
    have other: "m = k" if "m < 4" "i \<in> set (worker_frames (rs_worker s' m))" for m
      using one_place(2) [OF dist k4 iw that(1)] that(2) s'(1) by (cases "m = k") simp_all
    have "i \<in> set (body_frames (rs_worker s' j)) \<or> 0 < j \<and> i \<in> set (push_frames (rs_worker s' (j - 1)))"
      using j True one_place(1) [OF dist k4 iw j(1)] s'(2) by (auto simp: due_def split: if_splits)
    then have "j = k + 1"
    proof
      assume b: "i \<in> set (body_frames (rs_worker s' j))"
      then have "j = k" by (intro other j(1)) (simp add: worker_frames_split)
      then show ?thesis using b s'(1) by simp
    next
      assume b: "0 < j \<and> i \<in> set (push_frames (rs_worker s' (j - 1)))"
      then have "j - 1 = k" using j(1) by (intro other) (simp_all add: worker_frames_split)
      then show ?thesis using b by linarith
    qed
    then show ?thesis using g at True by simp
  next
    case False
    then have "x \<in> set (due j s)" using j(2) s'(1,2) by (auto simp: due_def split: if_splits)
    then show ?thesis using inv j(1) at False by (simp add: facts_inv_def)
  qed
qed

lemma control_last_exit:
  assumes inv: "control_inv s" and w: "rs_worker s 3 = W_close"
  shows "control_inv (set_worker 3 W_exit s)"
proof -
  note D = control_invD [OF inv]
  show ?thesis
    unfolding control_inv_def
  proof (intro conjI allI)
    show "queues_ok (set_worker 3 W_exit s)" using D(1) by (simp add: queues_ok_def)
    show "stop_closes (set_worker 3 W_exit s)" using D(5) by (simp add: stop_closes_def)
    show "abort_closes (set_worker 3 W_exit s)" using D(6,7) by (simp add: abort_closes_def)
    show "exits_close (set_worker 3 W_exit s)" using D(8,9) by (simp add: exits_close_def)
    show "closed_by_exit (set_worker 3 W_exit s)" using D(10,11) by (simp add: closed_by_exit_def)
    show "ends_drained (set_worker 3 W_exit s)"
      using D(12) [of 3] D(12) w by (auto simp: ends_drained_def ending_def)
  qed (use D(2-4) in \<open>simp_all add: set_worker_def\<close>)
qed

lemma mem_due_Suc: "set (due (Suc k) s) = set (queued (rs_queue s (Suc k))) \<union> set (body_frames (rs_worker s (Suc k))) \<union>
    set (push_frames (rs_worker s k))"
  by (auto simp: due_def)


lemma worker_effect_steady:
  assumes inv: "run_inv r d p0 s" and env: "environment_ok srt r" and k: "k < 4" and step: "worker_step srt r d k s = Some s'"
    and np: "\<And>i. rs_worker s' k \<noteq> W_push i"
  obtains e where "has_effect s s' e" "steady e"
proof -
  have ctl: "control_inv s" and pl: "pl_ok r d (rs_pipe s)"
    using inv by (simp_all add: run_inv_def work_inv_def pipe_inv_def)
  have "worker_frames (rs_worker s 3) = [] \<or> rs_worker s 3 = W_body (hd (worker_frames (rs_worker s 3)))"
  proof (cases "rs_worker s 3")
    case (W_push j)
    then show ?thesis using control_invD(2) [OF ctl, of j] by simp
  qed simp_all
  from worker_effect [OF control_invD(1) [OF ctl] env pl k step this] show thesis using np that by blast
qed

lemma steady_work:
  assumes inv: "run_inv r d p0 s" and e: "has_effect s s' e" "steady e"
    and p: "pipe_inv r d p0 (rs_pipe s') (rs_delivered s')" and b: "\<not> rs_aborted s' \<Longrightarrow> balanced s'"
    and due: "\<And>j. 0 < j \<Longrightarrow> j < 4 \<Longrightarrow> set (due j s') \<subseteq> set (due j s)"
  shows "work_inv r d p0 s'"
  using inv facts_mono [OF _ _ e due] p b by (simp add: work_inv_def run_inv_def)

lemma pop_inv:
  assumes inv: "run_inv r d p0 s" and env: "environment_ok srt r" and k: "k < 4" and w: "rs_worker s k = W_pop"
    and step: "worker_step srt r d k s = Some s'"
  shows "control_inv s' \<and> work_inv r d p0 s'"
proof -
  have ctl: "control_inv s" and pipe: "pipe_inv r d p0 (rs_pipe s) (rs_delivered s)" and bal: "\<not> rs_aborted s \<Longrightarrow> balanced s"
    using inv by (simp_all add: run_inv_def work_inv_def)
  note D = control_invD [OF ctl]
  obtain res ho where p: "hand_off_pop (rs_queue s k) = (res, ho)" by fastforce
  have go: ?thesis
    if s': "s' = set_worker k pc (s\<lparr>rs_queue := (rs_queue s)(k := ho)\<rparr>)" and ho: "same_ho (rs_queue s k) ho"
      and q: "queued (rs_queue s k) = body_frames pc @ queued ho" and pc: "push_frames pc = []" "pc \<noteq> W_exit" "\<And>i. pc \<noteq> W_push i"
      and drained: "pc = W_close \<Longrightarrow> ho_closed ho \<and> queued ho = []" for pc
  proof -
    obtain e where e: "has_effect s s' e" "steady e"
      by (rule worker_effect_steady [OF inv env k step]) (use s' pc in simp)
    have f: "rs_worker s' = (rs_worker s)(k := pc)" "rs_queue s' = (rs_queue s)(k := ho)" by (simp_all add: s')
    have fl: "flight s' = flight s"
      by (rule flight_local(1) [OF k f]) (simp add: w q pc segment_def worker_frames_split)
    have "work_inv r d p0 s'"
    proof (rule steady_work [OF inv e])
      show "pipe_inv r d p0 (rs_pipe s') (rs_delivered s')" using pipe by (simp add: s')
      show "\<not> rs_aborted s' \<Longrightarrow> balanced s'" using bal balanced_cong [OF fl] by (simp add: s')
      show "set (due j s') \<subseteq> set (due j s)" for j using f q pc(1) w by (auto simp: due_def)
    qed
    moreover have "control_inv s'"
    proof (rule control_call [OF ctl k ho f(2)])
      show "rs_worker s' j = rs_worker s j \<or> \<not> ending (rs_worker s j) \<and> \<not> ending (rs_worker s' j) \<or>
          j = k \<and> rs_worker s' j = W_close \<and> ho_closed ho \<and> queued ho = [] \<and> rs_worker s j \<noteq> W_exit" for j
        using f(1) w drained pc(2) by (auto simp: ending_def)
      show "rs_worker s' 3 \<noteq> W_push i" for i using f(1) pc(3) D(2) by simp
      show "queued (rs_queue s k) = [] \<Longrightarrow> queued ho = []" using q by simp
    qed (simp_all add: s' set_worker_def)
    ultimately show ?thesis by simp
  qed
  show ?thesis
  proof (rule pop_effects [OF queues_okD [OF D(1) k] p])
    assume "res = None"
    then show ?thesis using w step p by (simp add: worker_step_def worker_pop_def)
  next
    assume e: "res = Some None" "same_ho (rs_queue s k) ho" "queued (rs_queue s k) = []" "queued ho = []" "ho_closed (rs_queue s k)"
    then show ?thesis using w step p by (intro go [of W_close]) (auto simp: worker_step_def worker_pop_def same_ho_def)
  next
    fix i assume e: "res = Some (Some (Some i))" "same_ho (rs_queue s k) ho" "queued (rs_queue s k) = i # queued ho"
    then show ?thesis using w step p by (intro go [of "W_body i"]) (auto simp: worker_step_def worker_pop_def)
  qed
qed

lemma push_inv:
  assumes inv: "run_inv r d p0 s" and env: "environment_ok srt r" and k: "k < 4" and w: "rs_worker s k = W_push i"
    and step: "worker_step srt r d k s = Some s'"
  shows "control_inv s' \<and> work_inv r d p0 s'"
proof -
  have ctl: "control_inv s" and pipe: "pipe_inv r d p0 (rs_pipe s) (rs_delivered s)" and bal: "\<not> rs_aborted s \<Longrightarrow> balanced s"
    using inv by (simp_all add: run_inv_def work_inv_def)
  note D = control_invD [OF ctl]
  have "k \<noteq> 3" using D(2) [of i] w by auto
  then have k3: "k < 3" and k1: "k + 1 < 4" using k by simp_all
  obtain res ho pool where p: "hand_off_push False (Some i) (rs_queue s (k + 1)) (rs_pool s) = (res, ho, pool)"
    by (metis prod_cases3)
  obtain ef where ef: "push_effect_of i (rs_queue s (k + 1)) (rs_pool s) res ho pool ef"
    using push_effects [OF queues_okD [OF D(1) k1] p] by auto
  have ho: "same_ho (rs_queue s (k + 1)) ho" using ef by (simp add: push_effect_of_def)
  obtain x where x: "res = Some x" and s'_eq: "s' = set_worker k W_pop (s\<lparr>rs_queue := (rs_queue s)(k + 1 := ho), rs_pool := pool,
      rs_pipe := if is_drop x then count_dropped (rs_pipe s) else rs_pipe s\<rparr>)"
    by (rule worker_push_result [OF step w p])
  have s': "rs_worker s' = (rs_worker s)(k := W_pop)" "rs_queue s' = (rs_queue s)(k + 1 := ho)" "rs_delivered s' = rs_delivered s"
    "rs_closing s' = rs_closing s" "rs_aborted s' = rs_aborted s" "rs_error s' = rs_error s" "rs_capture s' = rs_capture s"
    and rp: "rs_pipe s' = (if is_drop x then count_dropped (rs_pipe s) else rs_pipe s)"
    by (simp_all add: s'_eq set_worker_def)
  note fl = flight_push [OF k3 w s'(1,2)]
  obtain e where e: "has_effect s s' e" "steady e"
    by (rule worker_effect_steady [OF inv env k step]) (use s' in simp)
  have open_end: "\<not> ho_closed (rs_queue s (k + 1))" if "\<not> rs_aborted s"
    using D(11) [OF that k3] w by auto
  have "work_inv r d p0 s'"
  proof (rule steady_work [OF inv e])
    show "pipe_inv r d p0 (rs_pipe s') (rs_delivered s')" using pipe s'(3) by (simp add: rp pipe_inv_metrics)
    show "balanced s'" if "\<not> rs_aborted s'"
    proof -
      have b: "balanced s" and o: "\<not> ho_closed (rs_queue s (k + 1))" using that s'(5) bal open_end by simp_all
      show ?thesis
      proof (cases ef)
        case Accepted
        then show ?thesis using ef b fl(1) x rp by (simp add: push_effect_of_def balanced_def is_drop_def)
      next
        case (Replaced j)
        then obtain xs ys where "flight s = xs @ j # ys" "flight s' = xs @ ys" using ef fl(3) by (auto simp: push_effect_of_def)
        then show ?thesis using Replaced ef b x rp by (simp add: push_effect_of_def balanced_def is_drop_def algebra_simps)
      next
        case Rejected
        then obtain xs ys where "flight s = xs @ i # ys" "flight s' = xs @ ys" using ef fl(2) by (auto simp: push_effect_of_def)
        then show ?thesis using Rejected ef b x rp by (simp add: push_effect_of_def balanced_def is_drop_def algebra_simps)
      qed (use ef o x in \<open>simp_all add: push_effect_of_def\<close>)
    qed
    fix j assume "0 < j" "j < (4 :: nat)"
    have "set (queued ho) \<subseteq> insert i (set (queued (rs_queue s (k + 1))))"
      using ef by (cases ef) (auto simp: push_effect_of_def)
    then show "set (due j s') \<subseteq> set (due j s)" using s'(1,2) w by (auto simp: due_def)
  qed
  moreover have "control_inv s'"
  proof (rule control_call [OF ctl k1 ho s'(2,4-6)])
    show "pl_stop (rs_pipe s') = pl_stop (rs_pipe s)" by (simp add: rp)
    show "rs_worker s' j = rs_worker s j \<or> \<not> ending (rs_worker s j) \<and> \<not> ending (rs_worker s' j) \<or>
        j = k + 1 \<and> rs_worker s' j = W_close \<and> ho_closed ho \<and> queued ho = [] \<and> rs_worker s j \<noteq> W_exit" for j
      using s'(1) w by (auto simp: ending_def)
    show "rs_worker s' 3 \<noteq> W_push j" for j using s'(1) D(2) k3 by simp
    show "queued ho = []" if "ho_closed ho" "queued (rs_queue s (k + 1)) = []"
      using ef that ho by (cases ef) (auto simp: push_effect_of_def same_ho_def)
  qed (simp add: s')
  ultimately show ?thesis by simp
qed


lemma control_worker:
  assumes inv: "control_inv s" and w: "\<not> ending (rs_worker s k)"
    and s': "rs_worker s' = (rs_worker s)(k := pc)" "rs_queue s' = rs_queue s" "rs_closing s' = rs_closing s"
      "rs_aborted s' = rs_aborted s" "rs_error s' = rs_error s" "rs_capture s' = rs_capture s" "pl_stop (rs_pipe s') = pl_stop (rs_pipe s)"
    and pc: "\<not> ending pc" "\<And>i. pc = W_push i \<Longrightarrow> k \<noteq> 3"
  shows "control_inv s'"
proof (rule control_local [OF inv s'(2-5,7)])
  show "rs_worker s' 3 \<noteq> W_push i" for i using s'(1) pc(2) control_invD(2) [OF inv, of i] by auto
qed (use s' w pc(1) in auto)

lemma body_inv:
  assumes inv: "run_inv r d p0 s" and env: "environment_ok srt r" and k: "k < 4" and w: "rs_worker s k = W_body i"
    and step: "worker_step srt r d k s = Some s'"
  shows "control_inv s' \<and> work_inv r d p0 s'"
proof -
  have fr: "frames_inv s" and ctl: "control_inv s" and pipe: "pipe_inv r d p0 (rs_pipe s) (rs_delivered s)"
    and facts: "facts_inv r p0 s" and bal: "\<not> rs_aborted s \<Longrightarrow> balanced s"
    using inv by (simp_all add: run_inv_def work_inv_def)
  note D = control_invD [OF ctl]
  let ?f = "storage (rs_pool s) ! i"
  have pl: "pl_ok r d (rs_pipe s)" and same: "frame_facts r (rs_pipe s) = frame_facts r p0"
    using pipe frame_facts_cong [of "rs_pipe s" p0 r] by (simp_all add: pipe_inv_def)
  have pool: "pool_ok (rs_pool s) (line s @ reading s)" using fr by (simp add: frames_inv_def)
  have seg: "i \<in> set (segment k s)" using w by (simp add: segment_def)
  then have i: "i \<in> set (flight s)" using k unfolding four by (auto simp: flight_def)
  have dist: "distinct (flight s)" and size: "i < length (storage (rs_pool s))"
    using pool_ok_partition(1,2) [OF pool] i by (auto simp: line_def pool_capacity_def)
  have fact: "frame_facts r p0 k ?f" using facts k w by (simp add: facts_inv_def due_def)
  have nend: "\<not> ending (rs_worker s k)" using w by (simp add: ending_def)
  show ?thesis
  proof (cases "rs_aborted s")
    case True
    then have s': "s' = set_worker k W_pop (s\<lparr>rs_pool := frame_recycler (Some i) (rs_pool s)\<rparr>)"
      using w step by (simp add: worker_step_def worker_body_def Let_def)
    obtain e where e: "has_effect s s' e" "steady e"
      by (rule worker_effect_steady [OF inv env k step]) (simp add: s')
    have "work_inv r d p0 s'"
      by (rule steady_work [OF inv e]) (use pipe True in \<open>auto simp: s' due_def\<close>)
    moreover have "control_inv s'" by (rule control_worker [OF ctl nend, of _ W_pop]) (simp_all add: s' set_worker_def ending_def)
    ultimately show ?thesis by simp
  next
    case False
    show ?thesis
    proof (rule stage_body_ok [OF env pl k, of ?f])
      fix err assume "stage_body srt r d k (rs_pipe s) ?f = Some (Inl err)"
      then have s': "s' = abort_run err (set_worker k W_close (s\<lparr>rs_pool := frame_recycler (Some i) (rs_pool s)\<rparr>))"
        using w step False by (simp add: worker_step_def worker_body_def Let_def)
      obtain e where e: "has_effect s s' e" "steady e"
        by (rule worker_effect_steady [OF inv env k step]) (simp add: s')
      have "work_inv r d p0 s'"
        by (rule steady_work [OF inv e]) (use pipe in \<open>auto simp: s' due_def pipe_inv_metrics\<close>)
      moreover have "control_inv s'"
      proof (rule control_abort [OF ctl])
        show "set (rs_closing s') = {0, 1, 2, 3}" using D(3) by (auto simp: s' lessThan_Suc numeral_eq_Suc)
        show "rs_worker s' j = W_exit \<Longrightarrow> rs_worker s j = W_exit" for j by (auto simp: s' split: if_splits)
        show "rs_worker s' 3 \<noteq> W_push j" for j using D(2) by (simp add: s')
      qed (auto simp: s' abort_run_def set_worker_def split: option.splits)
      ultimately show ?thesis by simp
    next
      fix p' g assume b: "stage_body srt r d k (rs_pipe s) ?f = Some (Inr (p', g))" "pl_ok r d p'" "kept (rs_pipe s) ?f p' g"
        "k < 3" "counts_kept (rs_pipe s) p'" "frame_facts r (rs_pipe s) k ?f \<Longrightarrow> frame_facts r (rs_pipe s) (k + 1) g"
      then have s': "s' = set_worker k (W_push i) (s\<lparr>rs_pipe := p', rs_pool := put_frame i g (rs_pool s)\<rparr>)"
        using w step False by (simp add: worker_step_def worker_body_def Let_def)
      have "flight s' = flight s"
        by (rule flight_local(1) [OF k, of s' s "W_push i" "rs_queue s k"]) (simp_all add: s' segment_def w)
      then have "balanced s'" using bal [OF False] b(3,5) by (simp add: balanced_def s' kept_def counts_kept_def)
      moreover have "facts_inv r p0 s'"
        by (rule rewrite_facts [OF facts b(4) w _ _ _ dist size]) (use b(6) fact same in \<open>simp_all add: s'\<close>)
      moreover have "pipe_inv r d p0 p' (rs_delivered s)" by (rule pipe_inv_kept [OF pipe b(3,5,2)])
      ultimately have "work_inv r d p0 s'" by (simp add: work_inv_def s')
      moreover have "control_inv s'"
        by (rule control_worker [OF ctl nend, of _ "W_push i"])
          (use b(3,4) in \<open>simp_all add: s' set_worker_def ending_def kept_def\<close>)
      ultimately show ?thesis by simp
    next
      fix p' g assume b: "stage_body srt r d k (rs_pipe s) ?f = Some (Inr (p', g))" "pl_ok r d p'" "kept (rs_pipe s) ?f p' g"
        "k = 3" "frames_completed (pl_metrics p') = frames_completed (pl_metrics (rs_pipe s)) + 1"
        "sinks_consume ?f (pl_sinks (rs_pipe s)) = Inr (pl_sinks p')"
      then have s': "s' = set_worker k W_pop (s\<lparr>rs_pipe := p',
          rs_pool := frame_recycler (Some i) (put_frame i g (rs_pool s)), rs_delivered := rs_delivered s @ [?f]\<rparr>)"
        using w step False by (simp add: worker_step_def worker_body_def Let_def)
      obtain e where e: "has_effect s s' e" "steady e"
        by (rule worker_effect_steady [OF inv env k step]) (simp add: s')
      have "flight s = i # flight s'"
        by (rule flight_local(3) [OF k, of s' s W_pop "rs_queue s k" "W_body i"]) (simp_all add: s' b(4) w [unfolded b(4)])
      then have "balanced s'" using bal [OF False] b(3,5) by (simp add: balanced_def s' kept_def algebra_simps)
      moreover have "frame_ok r p0 ?f ?f" using fact b(4) by (simp add: frame_facts_def)
      then have "pipe_inv r d p0 p' (rs_delivered s @ [?f])" by (rule pipe_inv_deliver [OF pipe b(3,2,5,6)])
      ultimately have "work_inv r d p0 s'"
        by (intro steady_work [OF inv e]) (auto simp: s' due_def)
      moreover have "control_inv s'"
        by (rule control_worker [OF ctl nend, of _ W_pop]) (use b(3) in \<open>simp_all add: s' set_worker_def ending_def kept_def\<close>)
      ultimately show ?thesis by simp
    qed
  qed
qed


lemma close_inv:
  assumes inv: "run_inv r d p0 s" and env: "environment_ok srt r" and k: "k < 4" and w: "rs_worker s k = W_close"
    and step: "worker_step srt r d k s = Some s'"
  shows "control_inv s' \<and> work_inv r d p0 s'"
proof -
  have ctl: "control_inv s" and pipe: "pipe_inv r d p0 (rs_pipe s) (rs_delivered s)" and bal: "\<not> rs_aborted s \<Longrightarrow> balanced s"
    using inv by (simp_all add: run_inv_def work_inv_def)
  note D = control_invD [OF ctl]
  have s': "s' = set_worker k W_exit (if k < 3 then close_queue (k + 1) s else s)"
    using w step by (simp add: worker_step_def)
  have q: "queued (rs_queue s' j) = queued (rs_queue s j)" for j
    using close_effects(5) [OF queues_okD [OF D(1)], of "k + 1"] by (simp add: s')
  have wf: "worker_frames (rs_worker s' j) = worker_frames (rs_worker s j)" for j using w by (simp add: s')
  have fl: "flight s' = flight s" by (simp add: flight_def segment_def q wf)
  obtain e where e: "has_effect s s' e" "steady e"
    by (rule worker_effect_steady [OF inv env k step]) (simp add: s')
  have "work_inv r d p0 s'"
  proof (rule steady_work [OF inv e])
    show "pipe_inv r d p0 (rs_pipe s') (rs_delivered s')" using pipe by (simp add: s')
    show "\<not> rs_aborted s' \<Longrightarrow> balanced s'" using bal balanced_cong [OF fl] by (simp add: s' split: if_splits)
    show "set (due j s') \<subseteq> set (due j s)" for j
      using w by (auto simp: due_def q) (auto simp: s' split: if_splits)
  qed
  moreover have "control_inv s'"
  proof (cases "k < 3")
    case True
    then have k1: "k + 1 < 4" by simp
    show ?thesis
      by (rule control_close [OF ctl k1]) (use True w in \<open>auto simp: s' set_worker_def close_queue_def\<close>)
  next
    case False
    then show ?thesis using control_last_exit [OF ctl] k w s' by (cases "k = 3") auto
  qed
  ultimately show ?thesis by simp
qed

lemma worker_inv:
  assumes "run_inv r d p0 s" "environment_ok srt r" "k < 4" "worker_step srt r d k s = Some s'"
  shows "control_inv s' \<and> work_inv r d p0 s'"
proof (cases "rs_worker s k")
  case W_exit
  then show ?thesis using assms(4) by (simp add: worker_step_def)
qed (use pop_inv [OF assms(1-3) _ assms(4)] body_inv [OF assms(1-3) _ assms(4)] push_inv [OF assms(1-3) _ assms(4)]
    close_inv [OF assms(1-3) _ assms(4)] in blast)+

lemma worker_frames_inv:
  assumes inv: "run_inv r d p0 s" and env: "environment_ok srt r" and k: "k < 4" and step: "worker_step srt r d k s = Some s'"
  shows "frames_inv s' \<and> pool_capacity (rs_pool s') = pool_capacity (rs_pool s)"
proof -
  have fr: "frames_inv s" and ctl: "control_inv s" and pl: "pl_ok r d (rs_pipe s)"
    using inv by (simp_all add: run_inv_def work_inv_def pipe_inv_def)
  have "worker_frames (rs_worker s 3) = [] \<or> rs_worker s 3 = W_body (hd (worker_frames (rs_worker s 3)))"
  proof (cases "rs_worker s 3")
    case (W_push j)
    then show ?thesis using control_invD(2) [OF ctl, of j] by simp
  qed simp_all
  then obtain e where "has_effect s s' e" using worker_effect [OF control_invD(1) [OF ctl] env pl k step] by blast
  then show ?thesis using effect_frames fr by blast
qed

text \<open>The closing thread and the stop request.\<close>

lemma keep_frames: "has_effect s s' Keep \<Longrightarrow> frames_inv s \<Longrightarrow> frames_inv s' \<and> pool_capacity (rs_pool s') = pool_capacity (rs_pool s)"
  using effect_frames by blast

lemma close_next_inv:
  assumes inv: "run_inv r d p0 s" and cl: "rs_closing s = k # ks"
  shows "run_inv r d p0 (close_queue k (s\<lparr>rs_closing := ks\<rparr>))" (is "run_inv _ _ _ ?s")
proof -
  have fr: "frames_inv s" and ctl: "control_inv s" and facts: "facts_inv r p0 s"
    and pipe: "pipe_inv r d p0 (rs_pipe s) (rs_delivered s)" and bal: "\<not> rs_aborted s \<Longrightarrow> balanced s"
    using inv by (simp_all add: run_inv_def work_inv_def)
  note D = control_invD [OF ctl]
  have k: "k < 4" using D(3) cl by simp
  have q: "queued (rs_queue ?s j) = queued (rs_queue s j)" for j
    using close_effects(5) [OF queues_okD [OF D(1) k]] by simp
  have fl: "flight ?s = flight s" by (simp add: flight_def segment_def q del: close_queue_sel(3))
  have e: "has_effect s ?s Keep"
    using lineI [OF fl] by (simp add: has_effect_def)
  have "frames_inv ?s" using keep_frames [OF e fr] by simp
  moreover have "control_inv ?s"
  proof (rule control_close [OF ctl k])
    show "rs_worker ?s (k - 1) = W_exit" if "\<not> rs_aborted s" "k \<noteq> 0"
      using D(10) [OF that(1)] cl that(2) by simp
  qed (use cl in \<open>auto simp: close_queue_def\<close>)
  moreover have "work_inv r d p0 ?s"
    by (rule steady_work [OF inv e])
      (use pipe bal balanced_cong [OF fl] in \<open>auto simp: due_def q simp del: close_queue_sel(3)\<close>)
  ultimately show ?thesis by (simp add: run_inv_def)
qed

lemma stop_request_inv:
  assumes inv: "run_inv r d p0 s"
  shows "run_inv r d p0 (s\<lparr>rs_pipe := request_stop (rs_pipe s), rs_closing := rs_closing s @ [0]\<rparr>)" (is "run_inv _ _ _ ?s")
proof -
  have fr: "frames_inv s" and ctl: "control_inv s" and facts: "facts_inv r p0 s"
    and pipe: "pipe_inv r d p0 (rs_pipe s) (rs_delivered s)" and bal: "\<not> rs_aborted s \<Longrightarrow> balanced s"
    using inv by (simp_all add: run_inv_def work_inv_def)
  note D = control_invD [OF ctl]
  have fl: "flight ?s = flight s" by (simp add: flight_def segment_def)
  have e: "has_effect s ?s Keep" using lineI [OF fl] by (simp add: has_effect_def)
  have "frames_inv ?s" using keep_frames [OF e fr] by simp
  moreover have "control_inv ?s"
    unfolding control_inv_def
  proof (intro conjI allI)
    show "queues_ok ?s" using D(1) by (simp add: queues_ok_def)
    show "stop_closes ?s" by (simp add: stop_closes_def)
    show "abort_closes ?s" using D(7) by (auto simp: abort_closes_def)
    show "exits_close ?s" using D(8,9) by (simp add: exits_close_def)
    show "closed_by_exit ?s" using D(10,11) by (simp add: closed_by_exit_def)
    show "ends_drained ?s" using D(12) by (simp add: ends_drained_def)
  qed (use D(2-4) in simp_all)
  moreover have "work_inv r d p0 ?s"
    by (rule steady_work [OF inv e])
      (use pipe bal balanced_cong [OF fl] in \<open>auto simp: due_def pipe_inv_metrics\<close>)
  ultimately show ?thesis by (simp add: run_inv_def)
qed

lemma run_step_inv:
  assumes "run_step srt r d s s'" "run_inv r d p0 s" "environment_ok srt r"
  shows "run_inv r d p0 s'"
proof -
  obtain a where 1: "run_act srt r d a s = Some s'" using assms(1) by (rule run_stepE)
  have fr: "frames_inv s" and ctl: "control_inv s" using assms(2) by (simp_all add: run_inv_def)
  show ?thesis
  proof (cases a)
    case Capture
    then have step: "capture_step s = Some s'" using 1 by simp
    then obtain e where "has_effect s s' e" using capture_effect [OF control_invD(1) [OF ctl]] by blast
    then show ?thesis using effect_frames(1) [OF _ fr] capture_inv [OF assms(2) step] by (simp add: run_inv_def)
  next
    case (Worker k)
    then have k: "k < 4" and step: "worker_step srt r d k s = Some s'" using 1 by (simp_all split: if_splits)
    show ?thesis
      using worker_inv [OF assms(2,3) k step] worker_frames_inv [OF assms(2,3) k step] by (simp add: run_inv_def)
  next
    case Close_next
    then show ?thesis using 1 close_next_inv [OF assms(2)] by (auto split: list.splits)
  next
    case Stop_request
    then show ?thesis using 1 stop_request_inv [OF assms(2)] by (auto split: if_splits)
  qed
qed


section \<open>The start\<close>

text \<open>The capacities a \<open>SpscRing\<close> can be made of: above \<open>2 ^ 63\<close> \<open>std::bit_ceil\<close> is undefined.\<close>

definition capacities_ok :: "pipeline_config \<Rightarrow> bool" where
  "capacities_ok cfg \<longleftrightarrow> unat (cfg_ingress_capacity cfg) \<le> 2 ^ 63 \<and> unat (cfg_stage_queue_capacity cfg) \<le> 2 ^ 63"

lemma make_queues_ok:
  assumes "capacities_ok cfg"
  shows "hand_off_ok (make_queues cfg k)" "queued (make_queues cfg k) = []" "\<not> ho_closed (make_queues cfg k)"
  using assms make_hand_off_ok by (auto simp: make_queues_def capacities_ok_def ho_closed_def)

lemma hand_off_room: "hand_off_ok ho \<Longrightarrow> 0 < ho_room ho"
  by (auto simp: hand_off_ok_def ho_room_def storage_room_def ring_ok_def indices_def unat_gt_0
      split: ho_storage.splits)

text \<open>The state the threads start from, in terms of the pipeline \<open>p\<close> that \<open>run\<close> is called on.\<close>

lemma enter_run_result:
  assumes "enter_run source p = Inr (started, s)" "pl_ok r d p" "capacities_ok (pl_config p)"
  shows "\<not> pl_running p" "run_inv r d (rs_pipe s) s" "pl_config (rs_pipe s) = pl_config p"
    "decoder_layout (pl_decoder (rs_pipe s)) = decoder_layout (pl_decoder p)"
    "\<exists>info. sinks_start info (pl_sinks p) = Inr (pl_sinks (rs_pipe s))"
    "rs_capture s = C_test" "rs_worker s = (\<lambda>_. W_pop)" "rs_reads s = 0" "rs_closing s = []" "\<not> rs_aborted s"
    "rs_delivered s = []" "rs_sequence s = 0" "rs_queue s = make_queues (pl_config p)"
    "pool_capacity (rs_pool s) = unat (pool_size (pl_config p))" "0 < pool_capacity (rs_pool s)"
proof -
  obtain p1 sizes pool where b: "\<not> pl_running p" "begin_run source ''pipelined'' (p\<lparr>pl_running := True\<rparr>) = Inr p1"
    "buffer_sizes p1 = Inr sizes" "make_pool (pool_size (pl_config p1)) sizes = Inr pool"
    and s: "s = \<lparr>rs_pipe = p1\<lparr>clock_reads := clock_reads p1 + 1\<rparr>, rs_source = source, rs_pool = pool,
      rs_queue = make_queues (pl_config p1), rs_capture = C_test, rs_worker = (\<lambda>_. W_pop), rs_sequence = 0,
      rs_error = None, rs_aborted = False, rs_closing = [], rs_delivered = [], rs_reads = 0\<rparr>"
    using assms(1) by (auto simp: enter_run_def start_run_def bind_result_Inr_iff clock_now_def Let_def split: if_splits)
  have "pl_ok r d (p\<lparr>pl_running := True\<rparr>)" using assms(2) by (simp add: pl_ok_def)
  note q = begin_run_result [OF b(2) this]
  have caps: "capacities_ok (pl_config p1)" using assms(3) q by simp
  note mq = make_queues_ok [OF caps]
  note pool = make_pool_ok [OF b(4)]
  show "\<not> pl_running p" "pl_config (rs_pipe s) = pl_config p"
    "decoder_layout (pl_decoder (rs_pipe s)) = decoder_layout (pl_decoder p)"
    "\<exists>info. sinks_start info (pl_sinks p) = Inr (pl_sinks (rs_pipe s))"
    "rs_capture s = C_test" "rs_worker s = (\<lambda>_. W_pop)" "rs_reads s = 0" "rs_closing s = []" "\<not> rs_aborted s"
    "rs_delivered s = []" "rs_sequence s = 0" "rs_queue s = make_queues (pl_config p)"
    "pool_capacity (rs_pool s) = unat (pool_size (pl_config p))" "0 < pool_capacity (rs_pool s)"
    using b(1) q pool by (simp_all add: s)
  have fl: "flight s = []" using mq(2) by (simp add: flight_def segment_def s)
  then have ln: "line s = []" "reading s = []" by (simp_all add: line_def pushing_def reading_def s)
  have "frames_inv s" using pool by (simp add: frames_inv_def order_of_def ln) (simp add: s)
  moreover have "control_inv s"
    unfolding control_inv_def
  proof (intro conjI allI)
    show "queues_ok s" using mq(1) hand_off_room by (simp add: queues_ok_def s)
    show "stop_closes s" using q by (simp add: stop_closes_def s)
    show "abort_closes s" "exits_close s" by (simp_all add: abort_closes_def exits_close_def s)
    show "closed_by_exit s" using mq(3) by (simp add: closed_by_exit_def s)
    show "ends_drained s" by (simp add: ends_drained_def ending_def s)
  qed (simp_all add: s)
  moreover have "work_inv r d (rs_pipe s) s"
    using q fl mq(2) by (auto simp: work_inv_def pipe_inv_def facts_inv_def due_def balanced_def s pl_ok_def)
  ultimately show "run_inv r d (rs_pipe s) s" by (simp add: run_inv_def)
qed

lemma run_reachable_inv:
  assumes "(run_step srt r d)\<^sup>*\<^sup>* s0 s" "run_inv r d p0 s0" "environment_ok srt r"
  shows "run_inv r d p0 s"
  using assms(1) by induction (use assms(2,3) run_step_inv in blast)+

end
