(* ===== verification/RunProgress.thy ===== *)
theory RunProgress
  imports PipelineRun
begin

text \<open>
  The pipelined run never gets stuck and, with a frame limit, always ends; what it has delivered when
  it ends.
\<close>

section \<open>No deadlock\<close>

lemma run_invD:
  assumes "run_inv r d p0 s"
  shows "frames_inv s" "control_inv s" "work_inv r d p0 s" "pl_ok r d (rs_pipe s)" "pl_config (rs_pipe s) = pl_config p0"
    "pool_ok (rs_pool s) (line s @ reading s)"
  using assms by (simp_all add: run_inv_def work_inv_def pipe_inv_def frames_inv_def)

text \<open>When the threads cannot move.\<close>

lemma capture_blocked:
  assumes "queues_ok s" "capture_step s = None"
  shows "rs_capture s = C_exit \<or> rs_capture s = C_acquire \<and> \<not> pl_stop (rs_pipe s) \<and> free_frames (rs_pool s) = [] \<or>
    (\<exists>i. rs_capture s = C_push i \<and> \<not> ho_closed (rs_queue s 0) \<and> queued (rs_queue s 0) \<noteq> [])"
proof (cases "rs_capture s")
  case C_acquire
  then show ?thesis using assms(2)
    by (auto simp: capture_step_def acquire_def take_locked_def split: option.splits if_splits)
next
  case (C_push i)
  obtain res ho pool where p: "hand_off_push False (Some i) (rs_queue s 0) (rs_pool s) = (res, ho, pool)"
    by (metis prod_cases3)
  obtain e where e: "push_effect_of i (rs_queue s 0) (rs_pool s) res ho pool e"
    using push_effects [OF queues_okD [OF assms(1)] p] by auto
  have room: "0 < ho_room (rs_queue s 0)" using assms(1) by (simp add: queues_ok_def)
  have "res = None" using C_push assms(2) p
    by (auto simp: capture_step_def capture_push_def Let_def split: option.splits if_splits)
  then show ?thesis using C_push e room by (cases e) (auto simp: push_effect_of_def)
qed (use assms(2) in \<open>simp_all add: capture_step_def Let_def\<close>)

lemma worker_blocked:
  assumes inv: "run_inv r d p0 s" and env: "environment_ok srt r" and k: "k < 4" and step: "worker_step srt r d k s = None"
  shows "rs_worker s k = W_exit \<or>
    rs_worker s k = W_pop \<and> \<not> ho_closed (rs_queue s k) \<and> queued (rs_queue s k) = [] \<or>
    k < 3 \<and> (\<exists>i. rs_worker s k = W_push i) \<and> \<not> ho_closed (rs_queue s (k + 1)) \<and> queued (rs_queue s (k + 1)) \<noteq> []"
proof (cases "rs_worker s k")
  case W_pop
  obtain res ho where p: "hand_off_pop (rs_queue s k) = (res, ho)" by fastforce
  have "res = None" using W_pop step p by (auto simp: worker_step_def worker_pop_def Let_def split: option.splits)
  note control = run_invD(2) [OF inv]
  show ?thesis
    by (rule pop_effects [OF queues_okD [OF control_invD(1) [OF control] k] p]) (use \<open>res = None\<close> W_pop in auto)
next
  case (W_body i)
  show ?thesis
    by (rule stage_body_ok [OF env run_invD(4) [OF inv] k, of "storage (rs_pool s) ! i"])
      (use W_body step in \<open>auto simp: worker_step_def worker_body_def Let_def split: if_splits\<close>)
next
  case (W_push i)
  note D = control_invD [OF run_invD(2) [OF inv]]
  have "k \<noteq> 3" using D(2) [of i] W_push by auto
  then have k3: "k < 3" and k1: "k + 1 < 4" using k by simp_all
  obtain res ho pool where p: "hand_off_push False (Some i) (rs_queue s (k + 1)) (rs_pool s) = (res, ho, pool)"
    by (metis prod_cases3)
  obtain e where e: "push_effect_of i (rs_queue s (k + 1)) (rs_pool s) res ho pool e"
    using push_effects [OF queues_okD [OF D(1) k1] p] by auto
  have room: "0 < ho_room (rs_queue s (k + 1))" using D(1) k1 by (simp add: queues_ok_def)
  have "res = None" using W_push step p
    by (auto simp: worker_step_def worker_push_def Let_def split: option.splits)
  then show ?thesis using W_push k3 e room by (cases e) (auto simp: push_effect_of_def)
qed (use step in \<open>simp_all add: worker_step_def\<close>)

text \<open>A worker that waits for frames: everything behind it waits or has ended.\<close>

definition starved :: "nat \<Rightarrow> ('b, 'k, 's) run_state \<Rightarrow> bool" where
  "starved k s \<longleftrightarrow> rs_worker s k = W_pop \<and> \<not> ho_closed (rs_queue s k) \<and> queued (rs_queue s k) = []"

lemma starved_back:
  assumes inv: "run_inv r d p0 s" and env: "environment_ok srt r"
    and stuck: "\<And>k. k < 4 \<Longrightarrow> worker_step srt r d k s = None" and k: "k < 3" and st: "starved (k + 1) s"
  shows "starved k s"
proof -
  note D = control_invD [OF run_invD(2) [OF inv]]
  have "rs_worker s k \<noteq> W_exit" using D(9) [OF k] st by (auto simp: starved_def)
  then show ?thesis using worker_blocked [OF inv env _ stuck, of k] k st by (auto simp: starved_def)
qed

lemma exited_back:
  assumes inv: "run_inv r d p0 s" and env: "environment_ok srt r" and idle: "rs_closing s = []"
    and stuck: "\<And>k. k < 4 \<Longrightarrow> worker_step srt r d k s = None" and k: "k < 3" and ex: "rs_worker s (k + 1) = W_exit"
  shows "rs_worker s k = W_exit"
proof (cases "rs_aborted s")
  case True
  note D = control_invD [OF run_invD(2) [OF inv]]
  have "ho_closed (rs_queue s k)" "ho_closed (rs_queue s (k + 1))" using D(7) [OF True] k idle by auto
  then show ?thesis using worker_blocked [OF inv env _ stuck, of k] k by auto
next
  case False
  note D = control_invD [OF run_invD(2) [OF inv]]
  show ?thesis using D(11) [OF False k] D(12) [OF False, of "k + 1"] k ex by (auto simp: ending_def)
qed

lemma no_deadlock:
  assumes inv: "run_inv r d p0 s" and env: "environment_ok srt r" and pool: "0 < pool_capacity (rs_pool s)"
    and idle: "rs_closing s = []" and cap: "capture_step s = None" and stuck: "\<And>k. k < 4 \<Longrightarrow> worker_step srt r d k s = None"
  shows "run_over s"
proof -
  note D = control_invD [OF run_invD(2) [OF inv]]
  note starve = starved_back [OF inv env stuck]
  note exits = exited_back [OF inv env idle stuck]
  have in_use: "free_frames (rs_pool s) \<noteq> []" if "line s = []" "reading s = []"
    using pool_ok_partition(3) [OF run_invD(6) [OF inv]] that pool by (auto simp: available_def)
  have w3: "rs_worker s 3 = W_exit \<or> starved 3 s"
    using worker_blocked [OF inv env _ stuck, of 3] by (auto simp: starved_def)
  show ?thesis
  proof (cases "starved 3 s")
    case True
    then have st: "starved 2 s" "starved 1 s" "starved 0 s"
      using starve [of 2] starve [of 1] starve [of 0] by (simp_all add: numeral_3_eq_3 numeral_2_eq_2)
    have fl: "flight s = []" using True st by (simp add: flight_def segment_def starved_def)
    have "rs_capture s \<noteq> C_exit" using D(8) st by (auto simp: starved_def)
    then have "rs_capture s = C_acquire" "free_frames (rs_pool s) = []"
      using capture_blocked [OF D(1) cap] st by (auto simp: starved_def)
    then show ?thesis using in_use fl by (simp add: line_def pushing_def reading_def)
  next
    case False
    then have w: "rs_worker s 3 = W_exit" using w3 by simp
    then have "rs_worker s 2 = W_exit" using exits [of 2] by (simp add: numeral_3_eq_3 numeral_2_eq_2)
    then have "rs_worker s 1 = W_exit" using exits [of 1] by (simp add: numeral_2_eq_2)
    then have "rs_worker s 0 = W_exit" using exits [of 0] by simp
    then have ex: "rs_worker s k = W_exit" if "k < 4" for k
      using w \<open>rs_worker s 2 = W_exit\<close> \<open>rs_worker s 1 = W_exit\<close> that unfolding four by auto
    have "rs_capture s = C_exit"
    proof (cases "rs_aborted s")
      case True
      then show ?thesis using capture_blocked [OF D(1) cap] D(6) [OF True] D(7) [OF True, of 0] idle by auto
    next
      case False
      then have q: "ho_closed (rs_queue s k) \<and> queued (rs_queue s k) = []" if "k < 4" for k
        using D(12) [OF False that] ex [OF that] by (simp add: ending_def)
      then have "flight s = []" using ex by (simp add: flight_def segment_def)
      then show ?thesis using capture_blocked [OF D(1) cap] q [of 0] in_use
        by (auto simp: line_def pushing_def reading_def)
    qed
    then show ?thesis using ex by (simp add: run_over_def)
  qed
qed

lemma some_action_enabled:
  assumes inv: "run_inv r d p0 s" and env: "environment_ok srt r" and pool: "0 < pool_capacity (rs_pool s)" and go: "\<not> run_over s"
  shows "\<exists>a. a \<noteq> Stop_request \<and> run_act srt r d a s \<noteq> None"
proof (rule ccontr)
  assume "\<not> ?thesis"
  then have none: "run_act srt r d a s = None" if "a \<noteq> Stop_request" for a using that by blast
  have "rs_closing s = []" using none [of Close_next] by (simp split: list.splits)
  moreover have "capture_step s = None" using none [of Capture] by simp
  moreover have "worker_step srt r d k s = None" if "k < 4" for k using none [of "Worker k"] that by simp
  ultimately show False using no_deadlock [OF inv env pool] go by blast
qed

lemma run_step_capacity:
  assumes "run_step srt r d s s'" "run_inv r d p0 s" "environment_ok srt r"
  shows "pool_capacity (rs_pool s') = pool_capacity (rs_pool s)"
proof -
  obtain a where 1: "run_act srt r d a s = Some s'" using assms(1) by (rule run_stepE)
  note fr = run_invD(1) [OF assms(2)] and ok = control_invD(1) [OF run_invD(2) [OF assms(2)]]
  show ?thesis
  proof (cases a)
    case Capture
    then obtain e where "has_effect s s' e" using 1 capture_effect [OF ok] by auto
    then show ?thesis using effect_frames(2) [OF _ fr] by blast
  next
    case (Worker k)
    then show ?thesis using 1 worker_frames_inv [OF assms(2,3)] by (auto split: if_splits)
  qed (use 1 in \<open>auto split: list.splits if_splits\<close>)
qed

section \<open>A bound on the number of steps\<close>

text \<open>The frame limit: the capture thread reads only while fewer frames than the limit were read.\<close>

definition about_to_read :: "capture_pc \<Rightarrow> bool" where
  "about_to_read c \<longleftrightarrow> c = C_acquire \<or> (\<exists>i. c = C_read i)"

definition limit_inv :: "nat \<Rightarrow> ('b, 'k, 's) run_state \<Rightarrow> bool" where
  "limit_inv n s \<longleftrightarrow> rs_reads s \<le> n \<and> (about_to_read (rs_capture s) \<longrightarrow> rs_reads s < n)"

fun capture_weight :: "capture_pc \<Rightarrow> nat" where
  "capture_weight C_test = 12"
| "capture_weight C_acquire = 11"
| "capture_weight (C_read i) = 10"
| "capture_weight (C_push i) = 25"
| "capture_weight C_close = 1"
| "capture_weight C_exit = 0"

fun worker_weight :: "nat \<Rightarrow> worker_pc \<Rightarrow> nat" where
  "worker_weight w W_pop = 7"
| "worker_weight w (W_body i) = 6 + w"
| "worker_weight w (W_push i) = 5 + w"
| "worker_weight w W_close = 1"
| "worker_weight w W_exit = 0"

definition thread_weight :: "nat \<Rightarrow> ('b, 'k, 's) run_state \<Rightarrow> nat" where
  "thread_weight k s = worker_weight (3 * (4 - k)) (rs_worker s k) + 3 * (4 - k) * length (queued (rs_queue s k))"

definition workers_weight :: "('b, 'k, 's) run_state \<Rightarrow> nat" where
  "workers_weight s = thread_weight 0 s + thread_weight 1 s + thread_weight 2 s + thread_weight 3 s"

definition signals_weight :: "('b, 'k, 's) run_state \<Rightarrow> nat" where
  "signals_weight s = length (rs_closing s) + (if pl_stop (rs_pipe s) then 0 else 2)"

text \<open>\<open>run_weight n s\<close>: an upper bound on the steps left from \<open>s\<close> when at most \<open>n\<close> frames are read.\<close>

definition run_weight :: "nat \<Rightarrow> ('b, 'k, 's) run_state \<Rightarrow> nat" where
  "run_weight n s = 16 * (n - rs_reads s) + capture_weight (rs_capture s) + workers_weight s + signals_weight s"

lemma workers_weight_local:
  assumes "k < 4" "\<And>j. j \<noteq> k \<Longrightarrow> thread_weight j s' = thread_weight j s"
  shows "workers_weight s' + thread_weight k s = workers_weight s + thread_weight k s'"
  using assms unfolding four by (auto simp: workers_weight_def)

lemma workers_weight_push:
  assumes "k < 3" "\<And>j. j \<noteq> k \<Longrightarrow> j \<noteq> k + 1 \<Longrightarrow> thread_weight j s' = thread_weight j s"
  shows "workers_weight s' + thread_weight k s + thread_weight (k + 1) s = workers_weight s + thread_weight k s' + thread_weight (k + 1) s'"
proof -
  consider "k = 0" | "k = 1" | "k = 2" using assms(1) by arith
  then show ?thesis using assms(2) by cases (simp_all add: workers_weight_def numeral_2_eq_2 numeral_3_eq_3)
qed

lemma workers_weight_same:
  "rs_worker s' = rs_worker s \<Longrightarrow> (\<And>k. queued (rs_queue s' k) = queued (rs_queue s k)) \<Longrightarrow> workers_weight s' = workers_weight s"
  by (simp add: workers_weight_def thread_weight_def)

lemma thread_weight_0:
  "rs_worker s' = rs_worker s \<Longrightarrow> rs_queue s' = (rs_queue s)(0 := ho) \<Longrightarrow>
   workers_weight s' + 12 * length (queued (rs_queue s 0)) = workers_weight s + 12 * length (queued ho)"
  using workers_weight_local [of 0 s' s] by (simp add: thread_weight_def)

lemma capture_weight_less:
  assumes ok: "queues_ok s" and lim: "limit_inv n s" and step: "capture_step s = Some s'"
    and bound: "rs_sequence s = of_nat (rs_reads s)" "n = unat (cfg_max_frames (pl_config (rs_pipe s)))" "0 < n"
  shows "limit_inv n s' \<and> run_weight n s' < run_weight n s"
proof (cases "rs_capture s")
  case C_test
  let ?L = "cfg_max_frames (pl_config (rs_pipe s))"
  have s': "s' = s\<lparr>rs_capture := if \<not> pl_stop (rs_pipe s) \<and> \<not> rs_aborted s \<and> (?L = 0 \<or> rs_sequence s < ?L)
      then C_acquire else C_close\<rparr>"
    using C_test step by (simp add: capture_step_def Let_def)
  have "rs_reads s < 2 ^ 64" using lim bound(2) unat_u64_less [of ?L] by (simp add: limit_inv_def)
  then have "unat (rs_sequence s) = rs_reads s" by (simp add: bound(1) unat_of_nat_u64)
  then have "rs_reads s < n" if "?L = 0 \<or> rs_sequence s < ?L" using that bound(2,3) by (auto simp: u64_less_unat)
  then show ?thesis using lim C_test
    by (auto simp: s' limit_inv_def about_to_read_def run_weight_def signals_weight_def workers_weight_def thread_weight_def)
next
  case C_acquire
  then obtain fp pool where "s' = s\<lparr>rs_pool := pool, rs_capture := (case fp of None \<Rightarrow> C_close | Some i \<Rightarrow> C_read i)\<rparr>"
    using step by (auto simp: capture_step_def split: option.splits)
  then show ?thesis using lim C_acquire
    by (cases fp) (auto simp: limit_inv_def about_to_read_def run_weight_def signals_weight_def workers_weight_def thread_weight_def)
next
  case (C_read i)
  have n: "rs_reads s < n" using lim C_read by (simp add: limit_inv_def about_to_read_def)
  have w: "workers_weight s' = workers_weight s"
    by (rule workers_weight_same) (use C_read step in \<open>auto simp: capture_step_def capture_read_def Let_def clock_now_def
      split: sum.splits if_splits\<close>)
  show ?thesis
  proof (cases "source_read (rs_source s) (fr_image (storage (rs_pool s) ! i))")
    case (Inl err)
    then have s': "s' = abort_run err (s\<lparr>rs_pool := frame_recycler (Some i) (rs_pool s), rs_capture := C_close\<rparr>)"
      using C_read step by (simp add: capture_step_def capture_read_def)
    then show ?thesis using w n C_read by (simp add: limit_inv_def about_to_read_def run_weight_def signals_weight_def)
  next
    case (Inr res)
    then show ?thesis using w n C_read step
      by (auto simp: limit_inv_def about_to_read_def run_weight_def signals_weight_def capture_step_def capture_read_def
          Let_def clock_now_def split: prod.splits if_splits)
  qed
next
  case (C_push i)
  obtain res ho pool where p: "hand_off_push False (Some i) (rs_queue s 0) (rs_pool s) = (res, ho, pool)"
    by (metis prod_cases3)
  obtain e where e: "push_effect_of i (rs_queue s 0) (rs_pool s) res ho pool e"
    using push_effects [OF queues_okD [OF ok] p] by auto
  have s': "rs_worker s' = rs_worker s" "rs_queue s' = (rs_queue s)(0 := ho)" "rs_reads s' = rs_reads s" "rs_closing s' = rs_closing s"
    "pl_stop (rs_pipe s') = pl_stop (rs_pipe s)" "rs_capture s' = C_test \<or> rs_capture s' = C_close"
    using C_push step p by (auto simp: capture_step_def capture_push_def Let_def split: option.splits if_splits)
  have "length (queued ho) \<le> Suc (length (queued (rs_queue s 0)))" using e by (cases e) (auto simp: push_effect_of_def)
  then have "workers_weight s' \<le> workers_weight s + 12" using thread_weight_0 [OF s'(1,2)] by linarith
  then show ?thesis using s'(3-6) lim C_push
    by (auto simp: limit_inv_def about_to_read_def run_weight_def signals_weight_def)
next
  case C_close
  then have s': "s' = (close_queue 0 s)\<lparr>rs_capture := C_exit\<rparr>" using step by (simp add: capture_step_def)
  have "workers_weight s' = workers_weight s"
    by (rule workers_weight_same) (use close_effects(5) [OF queues_okD [OF ok]] s' in simp_all)
  then show ?thesis using lim C_close by (simp add: s' limit_inv_def about_to_read_def run_weight_def signals_weight_def)
qed (use step in \<open>simp add: capture_step_def\<close>)

lemma worker_weight_less:
  assumes inv: "run_inv r d p0 s" and env: "environment_ok srt r" and k: "k < 4" and step: "worker_step srt r d k s = Some s'"
  shows "rs_reads s' = rs_reads s \<and> rs_capture s' = rs_capture s \<and>
    workers_weight s' + signals_weight s' < workers_weight s + signals_weight s"
proof -
  note D = control_invD [OF run_invD(2) [OF inv]]
  have own: "workers_weight s' + thread_weight k s = workers_weight s + thread_weight k s'"
    if "rs_worker s' = (rs_worker s)(k := pc)" "\<And>j. j \<noteq> k \<Longrightarrow> queued (rs_queue s' j) = queued (rs_queue s j)" for pc
    using workers_weight_local [OF k, of s' s] that by (simp add: thread_weight_def)
  show ?thesis
  proof (cases "rs_worker s k")
    case W_pop
    obtain res ho where p: "hand_off_pop (rs_queue s k) = (res, ho)" by fastforce
    have go: ?thesis
      if s': "s' = set_worker k pc (s\<lparr>rs_queue := (rs_queue s)(k := ho)\<rparr>)"
        and less: "worker_weight (3 * (4 - k)) pc + 3 * (4 - k) * length (queued ho) < thread_weight k s" for pc
      using own [of pc] less by (simp add: s' signals_weight_def) (simp add: thread_weight_def)
    show ?thesis
    proof (rule pop_effects [OF queues_okD [OF D(1) k] p])
      assume "res = None"
      then show ?thesis using W_pop step p by (simp add: worker_step_def worker_pop_def)
    next
      assume "res = Some None" "queued (rs_queue s k) = []" "queued ho = []"
      then show ?thesis using W_pop step p
        by (intro go [of W_close]) (simp_all add: worker_step_def worker_pop_def thread_weight_def)
    next
      fix i assume "res = Some (Some (Some i))" "queued (rs_queue s k) = i # queued ho"
      then show ?thesis using W_pop step p
        by (intro go [of "W_body i"]) (simp_all add: worker_step_def worker_pop_def thread_weight_def)
    qed
  next
    case (W_body i)
    let ?f = "storage (rs_pool s) ! i"
    have k3: "3 \<le> 3 * (4 - k)" using k by simp
    have go: ?thesis
      if s': "rs_worker s' = (rs_worker s)(k := pc)" "rs_queue s' = rs_queue s" "rs_reads s' = rs_reads s" "rs_capture s' = rs_capture s"
        and less: "worker_weight (3 * (4 - k)) pc + signals_weight s' < 6 + 3 * (4 - k) + signals_weight s" for pc
      using own [of pc] less by (simp add: s' thread_weight_def W_body)
    show ?thesis
    proof (cases "rs_aborted s")
      case True
      then have "s' = set_worker k W_pop (s\<lparr>rs_pool := frame_recycler (Some i) (rs_pool s)\<rparr>)"
        using W_body step by (simp add: worker_step_def worker_body_def Let_def)
      then show ?thesis using k3 by (intro go [of W_pop]) (simp_all add: signals_weight_def)
    next
      case False
      show ?thesis
      proof (rule stage_body_ok [OF env run_invD(4) [OF inv] k, of ?f])
        fix err assume "stage_body srt r d k (rs_pipe s) ?f = Some (Inl err)"
        then have "s' = abort_run err (set_worker k W_close (s\<lparr>rs_pool := frame_recycler (Some i) (rs_pool s)\<rparr>))"
          using W_body step False by (simp add: worker_step_def worker_body_def Let_def)
        then show ?thesis using k by (intro go [of W_close]) (simp_all add: signals_weight_def)
      next
        fix p' g assume "stage_body srt r d k (rs_pipe s) ?f = Some (Inr (p', g))" "kept (rs_pipe s) ?f p' g" "k < 3"
        then show ?thesis using W_body step False
          by (intro go [of "W_push i"]) (auto simp: worker_step_def worker_body_def signals_weight_def kept_def)
      next
        fix p' g assume "stage_body srt r d k (rs_pipe s) ?f = Some (Inr (p', g))" "kept (rs_pipe s) ?f p' g" "k = 3"
        then show ?thesis using W_body step False
          by (intro go [of W_pop]) (auto simp: worker_step_def worker_body_def signals_weight_def kept_def Let_def)
      qed
    qed
  next
    case (W_push i)
    have "k \<noteq> 3" using D(2) [of i] W_push by auto
    then have k3: "k < 3" and k1: "k + 1 < 4" using k by simp_all
    obtain res ho pool where p: "hand_off_push False (Some i) (rs_queue s (k + 1)) (rs_pool s) = (res, ho, pool)"
      by (metis prod_cases3)
    obtain e where e: "push_effect_of i (rs_queue s (k + 1)) (rs_pool s) res ho pool e"
      using push_effects [OF queues_okD [OF D(1) k1] p] by auto
    have s': "rs_worker s' = (rs_worker s)(k := W_pop)" "rs_queue s' = (rs_queue s)(k + 1 := ho)"
      "rs_reads s' = rs_reads s" "rs_capture s' = rs_capture s" "signals_weight s' = signals_weight s"
      by (rule worker_push_result [OF step W_push p], simp add: signals_weight_def)+
    have sum: "workers_weight s' + thread_weight k s + thread_weight (k + 1) s =
        workers_weight s + thread_weight k s' + thread_weight (k + 1) s'"
      by (rule workers_weight_push [OF k3]) (simp add: thread_weight_def s')
    have len: "length (queued ho) \<le> Suc (length (queued (rs_queue s (k + 1))))" using e by (cases e) (auto simp: push_effect_of_def)
    have w: "3 * (4 - k) = 3 * (4 - (k + 1)) + 3" using k3 by simp
    have "3 * (4 - (k + 1)) * length (queued ho) \<le> 3 * (4 - (k + 1)) * Suc (length (queued (rs_queue s (k + 1))))"
      using len by (rule mult_le_mono2)
    then have "thread_weight (k + 1) s' \<le> thread_weight (k + 1) s + 3 * (4 - (k + 1))"
      by (simp add: thread_weight_def s')
    moreover have "thread_weight k s = thread_weight k s' + 3 * (4 - (k + 1)) + 1"
      using w by (simp add: thread_weight_def s' W_push)
    ultimately show ?thesis using sum s'(3-5) by simp
  next
    case W_close
    then have s': "s' = set_worker k W_exit (if k < 3 then close_queue (k + 1) s else s)" using step by (simp add: worker_step_def)
    have q: "queued (rs_queue s' j) = queued (rs_queue s j)" for j
      using close_effects(5) [OF queues_okD [OF D(1)], of "k + 1"] by (simp add: s')
    have "workers_weight s' + thread_weight k s = workers_weight s + thread_weight k s'"
      by (rule own [of W_exit]) (simp_all add: q, simp add: s')
    moreover have "thread_weight k s' < thread_weight k s"
      using W_close by (simp add: thread_weight_def q) (simp add: s')
    moreover have "rs_reads s' = rs_reads s" "rs_capture s' = rs_capture s" "signals_weight s' = signals_weight s"
      by (simp_all add: s' signals_weight_def)
    ultimately show ?thesis by linarith
  qed (use step in \<open>simp add: worker_step_def\<close>)
qed

lemma run_step_weight:
  assumes step: "run_step srt r d s s'" and inv: "run_inv r d p0 s" and env: "environment_ok srt r" and lim: "limit_inv n s"
    and n: "n = unat (cfg_max_frames (pl_config p0))" "0 < n"
  shows "limit_inv n s' \<and> run_weight n s' < run_weight n s"
proof -
  obtain a where 1: "run_act srt r d a s = Some s'" using step by (rule run_stepE)
  note D = control_invD [OF run_invD(2) [OF inv]]
  show ?thesis
  proof (cases a)
    case Capture
    have "rs_sequence s = of_nat (rs_reads s)" using run_invD(1) [OF inv] by (simp add: frames_inv_def)
    then show ?thesis using capture_weight_less [OF D(1) lim] Capture 1 n run_invD(5) [OF inv] by simp
  next
    case (Worker k)
    then have "k < 4" and "worker_step srt r d k s = Some s'" using 1 by (simp_all split: if_splits)
    from worker_weight_less [OF inv env this] show ?thesis using lim by (simp add: limit_inv_def run_weight_def)
  next
    case Close_next
    then obtain k ks where c: "rs_closing s = k # ks" and s': "s' = close_queue k (s\<lparr>rs_closing := ks\<rparr>)"
      using 1 by (auto split: list.splits)
    have "k < 4" using D(3) c by simp
    then have "workers_weight s' = workers_weight s"
      by (intro workers_weight_same) (use close_effects(5) [OF queues_okD [OF D(1)]] s' in simp_all)
    then show ?thesis using lim c by (simp add: s' limit_inv_def run_weight_def signals_weight_def)
  next
    case Stop_request
    then show ?thesis using 1 lim
      by (auto simp: limit_inv_def run_weight_def signals_weight_def workers_weight_def thread_weight_def split: if_splits)
  qed
qed

lemma run_steps_weight:
  assumes "(run_step srt r d ^^ m) s s'" "run_inv r d p0 s" "environment_ok srt r" "limit_inv n s"
    "n = unat (cfg_max_frames (pl_config p0))" "0 < n"
  shows "run_inv r d p0 s' \<and> limit_inv n s' \<and> run_weight n s' + m \<le> run_weight n s"
  using assms(1)
proof (induction m arbitrary: s')
  case 0
  then show ?case using assms(2,4) by simp
next
  case (Suc m)
  then obtain t where t: "(run_step srt r d ^^ m) s t" "run_step srt r d t s'" by auto
  note IH = Suc.IH [OF t(1)]
  show ?case using IH run_step_inv [OF t(2) _ assms(3)] run_step_weight [OF t(2) _ assms(3) _ assms(5,6)] by fastforce
qed

text \<open>Every run that has not ended can be continued to its end.\<close>

lemma run_can_end:
  assumes "run_inv r d p0 s" "environment_ok srt r" "limit_inv n s" "n = unat (cfg_max_frames (pl_config p0))" "0 < n"
    "0 < pool_capacity (rs_pool s)"
  shows "\<exists>s'. (run_step srt r d)\<^sup>*\<^sup>* s s' \<and> run_over s'"
  using assms(1,3,6)
proof (induction "run_weight n s" arbitrary: s rule: less_induct)
  case less
  show ?case
  proof (cases "run_over s")
    case False
    then obtain a t where a: "run_act srt r d a s = Some t" using some_action_enabled [OF less.prems(1) assms(2) less.prems(3)] by blast
    then have st: "run_step srt r d s t" by (rule run_step.intros)
    note w = run_step_weight [OF st less.prems(1) assms(2) less.prems(2) assms(4,5)]
    note i = run_step_inv [OF st less.prems(1) assms(2)]
    have "pool_capacity (rs_pool t) = pool_capacity (rs_pool s)" by (rule run_step_capacity [OF st less.prems(1) assms(2)])
    then have "\<exists>s'. (run_step srt r d)\<^sup>*\<^sup>* t s' \<and> run_over s'" using less.hyps [of t] w i less.prems(3) by simp
    then show ?thesis using st by (blast intro: converse_rtranclp_into_rtranclp)
  qed blast
qed

section \<open>Rooms and policies\<close>

definition same_shape :: "('b, 'k, 's) run_state \<Rightarrow> ('b, 'k, 's) run_state \<Rightarrow> bool" where
  "same_shape s s' \<longleftrightarrow> (\<forall>k < 4. ho_room (rs_queue s' k) = ho_room (rs_queue s k) \<and> ho_policy (rs_queue s' k) = ho_policy (rs_queue s k))"

definition drops :: "('b, 'k, 's) run_state \<Rightarrow> u64" where
  "drops s = frames_dropped (pl_metrics (rs_pipe s))"

definition lossless :: "('b, 'k, 's) run_state \<Rightarrow> bool" where
  "lossless s \<longleftrightarrow> (\<forall>k < 4. ho_policy (rs_queue s k) = kBlock)"

lemma same_shape_update:
  "rs_queue s' = (rs_queue s)(k := ho) \<Longrightarrow> ho_room ho = ho_room (rs_queue s k) \<Longrightarrow> ho_policy ho = ho_policy (rs_queue s k) \<Longrightarrow>
   same_shape s s'"
  by (simp add: same_shape_def)

lemma same_shape_same: "rs_queue s' = rs_queue s \<Longrightarrow> same_shape s s'"
  by (simp add: same_shape_def)

text \<open>A push into a blocking queue drops nothing.\<close>

lemma push_effect_shape:
  assumes "push_effect_of i ho p (Some x) ho' p' e"
  shows "ho_room ho' = ho_room ho" "ho_policy ho' = ho_policy ho" "ho_policy ho = kBlock \<Longrightarrow> x = kAccepted \<or> x = kClosed"
  using assms by (cases e; auto simp: push_effect_of_def same_ho_def)+

lemma capture_shape:
  assumes ok: "queues_ok s" and step: "capture_step s = Some s'"
  shows "same_shape s s' \<and> (lossless s \<longrightarrow> drops s' = drops s)"
proof (cases "rs_capture s")
  case (C_read i)
  have "rs_queue s' = rs_queue s" "drops s' = drops s"
    using C_read step
    by (auto simp: capture_step_def capture_read_def Let_def clock_now_def drops_def split: sum.splits if_splits)
  then show ?thesis by (simp add: same_shape_same)
next
  case (C_push i)
  obtain res ho pool where p: "hand_off_push False (Some i) (rs_queue s 0) (rs_pool s) = (res, ho, pool)"
    by (metis prod_cases3)
  obtain x where x: "res = Some x" using C_push step p by (cases res) (simp_all add: capture_step_def capture_push_def Let_def)
  obtain e where e: "push_effect_of i (rs_queue s 0) (rs_pool s) (Some x) ho pool e"
    using push_effects [OF queues_okD [OF ok] p] x by auto
  note sh = push_effect_shape [OF e]
  have q: "rs_queue s' = (rs_queue s)(0 := ho)" and d: "x = kAccepted \<or> x = kClosed \<Longrightarrow> drops s' = drops s"
    using C_push step by (auto simp: capture_step_def capture_push_def p x Let_def drops_def split: if_splits)
  have "drops s' = drops s" if "lossless s" by (rule d, rule sh(3)) (use that in \<open>simp add: lossless_def\<close>)
  then show ?thesis using same_shape_update [OF q sh(1,2)] by simp
next
  case C_close
  then have s': "s' = (close_queue 0 s)\<lparr>rs_capture := C_exit\<rparr>" using step by (simp add: capture_step_def)
  note ce = close_effects [OF queues_okD [OF ok, of 0]]
  have "same_shape s s'" by (rule same_shape_update [of _ _ 0 "hand_off_close (rs_queue s 0)"]) (use ce s' in simp_all)
  then show ?thesis by (simp add: s' drops_def)
qed (use step in \<open>auto simp: capture_step_def Let_def drops_def same_shape_def split: option.splits\<close>)

lemma worker_shape:
  assumes inv: "run_inv r d p0 s" and env: "environment_ok srt r" and k: "k < 4" and step: "worker_step srt r d k s = Some s'"
  shows "same_shape s s' \<and> (lossless s \<longrightarrow> drops s' = drops s)"
proof -
  note D = control_invD [OF run_invD(2) [OF inv]]
  note ok = queues_okD [OF D(1)]
  show ?thesis
  proof (cases "rs_worker s k")
    case W_pop
    obtain res ho where p: "hand_off_pop (rs_queue s k) = (res, ho)" by fastforce
    have q: "rs_queue s' = (rs_queue s)(k := ho)" "rs_pipe s' = rs_pipe s"
      using W_pop step p by (auto simp: worker_step_def worker_pop_def Let_def split: option.splits)
    have "same_ho (rs_queue s k) ho" by (rule pop_effects [OF ok [OF k] p])
    then have "same_shape s s'" by (intro same_shape_update [OF q(1)]) (simp_all add: same_ho_def)
    then show ?thesis using q(2) by (simp add: drops_def)
  next
    case (W_body i)
    have "rs_queue s' = rs_queue s \<and> drops s' = drops s"
      by (rule stage_body_ok [OF env run_invD(4) [OF inv] k, of "storage (rs_pool s) ! i"])
        (use W_body step in \<open>auto simp: worker_step_def worker_body_def Let_def drops_def kept_def split: if_splits\<close>)
    then show ?thesis by (simp add: same_shape_same)
  next
    case (W_push i)
    have "k \<noteq> 3" using D(2) [of i] W_push by auto
    then have k1: "k + 1 < 4" using k by simp
    obtain res ho pool where p: "hand_off_push False (Some i) (rs_queue s (k + 1)) (rs_pool s) = (res, ho, pool)"
      by (metis prod_cases3)
    obtain x where x: "res = Some x" and s': "s' = set_worker k W_pop (s\<lparr>rs_queue := (rs_queue s)(k + 1 := ho), rs_pool := pool,
        rs_pipe := if is_drop x then count_dropped (rs_pipe s) else rs_pipe s\<rparr>)"
      by (rule worker_push_result [OF step W_push p])
    obtain e where e: "push_effect_of i (rs_queue s (k + 1)) (rs_pool s) (Some x) ho pool e"
      using push_effects [OF ok [OF k1] p] x by auto
    note sh = push_effect_shape [OF e]
    have "drops s' = drops s" if "lossless s"
      using sh(3) that k1 by (auto simp: s' drops_def lossless_def is_drop_def)
    moreover have "same_shape s s'" by (rule same_shape_update [OF _ sh(1,2)]) (simp add: s')
    ultimately show ?thesis by simp
  next
    case W_close
    then have s': "s' = set_worker k W_exit (if k < 3 then close_queue (k + 1) s else s)" using step by (simp add: worker_step_def)
    have "same_shape s s'"
      using close_effects [OF ok, of "k + 1"] by (simp add: s' same_shape_def)
    then show ?thesis by (simp add: s' drops_def)
  qed (use step in \<open>simp add: worker_step_def\<close>)
qed

lemma run_step_shape:
  assumes step: "run_step srt r d s s'" and inv: "run_inv r d p0 s" and env: "environment_ok srt r"
  shows "same_shape s s' \<and> (lossless s \<longrightarrow> drops s' = drops s)"
proof -
  obtain a where 1: "run_act srt r d a s = Some s'" using step by (rule run_stepE)
  note D = control_invD [OF run_invD(2) [OF inv]]
  show ?thesis
  proof (cases a)
    case Capture
    then show ?thesis using 1 capture_shape [OF D(1)] by simp
  next
    case (Worker k)
    then show ?thesis using 1 worker_shape [OF inv env] by (simp split: if_splits)
  next
    case Close_next
    then obtain k ks where c: "rs_closing s = k # ks" and s': "s' = close_queue k (s\<lparr>rs_closing := ks\<rparr>)"
      using 1 by (auto split: list.splits)
    have "k < 4" using D(3) c by simp
    then have "same_shape s s'" using close_effects [OF queues_okD [OF D(1)], of k] by (simp add: s' same_shape_def)
    then show ?thesis by (simp add: s' drops_def)
  next
    case Stop_request
    then show ?thesis using 1 by (auto simp: same_shape_def drops_def split: if_splits)
  qed
qed

text \<open>Along a whole run.\<close>

lemma run_steps_shape:
  assumes "(run_step srt r d)\<^sup>*\<^sup>* s s'" "run_inv r d p0 s" "environment_ok srt r"
  shows "same_shape s s' \<and> (lossless s \<longrightarrow> drops s' = drops s) \<and> pool_capacity (rs_pool s') = pool_capacity (rs_pool s)"
  using assms(1)
proof induction
  case base
  then show ?case by (simp add: same_shape_def)
next
  case (step t u)
  note i = run_reachable_inv [OF step.hyps(1) assms(2,3)]
  have "lossless t" if "lossless s" using that step.IH by (simp add: lossless_def same_shape_def)
  then show ?case
    using step.IH run_step_shape [OF step.hyps(2) i assms(3)] run_step_capacity [OF step.hyps(2) i assms(3)]
    by (simp add: same_shape_def)
qed

section \<open>The pool is large enough\<close>

lemma ring_fits:
  assumes "ring_ok ring"
  shows "length (ring_queue ring) \<le> unat (ring_capacity ring)"
proof -
  obtain k H T where i: "indices k H T ring" using assms by (auto simp: ring_ok_def)
  then have "T \<le> H + 2 ^ k" by (simp add: indices_def)
  then show ?thesis by (simp add: ring_queue_indices [OF i] ring_capacity_indices [OF i])
qed

lemma hand_off_fits: "hand_off_ok ho \<Longrightarrow> length (queued ho) \<le> ho_room ho"
  by (auto simp: hand_off_ok_def queued_def storage_queue_def ho_room_def storage_room_def ring_fits
      split: ho_storage.splits option.splits)

lemma flight_bound:
  assumes "queues_ok s"
  shows "length (flight s) \<le> 4 + (ho_room (rs_queue s 0) + ho_room (rs_queue s 1) + ho_room (rs_queue s 2) + ho_room (rs_queue s 3))"
proof -
  have "length (segment k s) \<le> 1 + ho_room (rs_queue s k)" if "k < 4" for k
    using hand_off_fits [OF queues_okD [OF assms that]] by (cases "rs_worker s k") (auto simp: segment_def)
  from this [of 0] this [of 1] this [of 2] this [of 3] show ?thesis by (simp add: flight_def)
qed

text \<open>The derived pool size covers every queue and every thread, with one frame to spare.\<close>

lemma queue_slots_room:
  assumes "unat cap \<le> 2 ^ 60"
  shows "(policy = kLatest \<longleftrightarrow> policy' = kLatest) \<Longrightarrow> ho_room (make_hand_off policy cap) \<le> unat (queue_slots policy' cap)"
    and "unat (queue_slots policy' cap) \<le> 2 ^ 60"
proof -
  have c: "bit_ceil (unat cap) \<le> 2 ^ 60" using assms by (rule bit_ceil_least)
  then have u: "unat (of_nat (bit_ceil (unat cap)) :: u64) = bit_ceil (unat cap)" by (intro unat_of_nat_u64) simp
  have z: "bit_ceil (unat (if cap = 0 then 1 else cap)) = bit_ceil (unat cap)" by (simp add: bit_ceil_def)
  show "ho_room (make_hand_off policy cap) \<le> unat (queue_slots policy' cap)" if "policy = kLatest \<longleftrightarrow> policy' = kLatest"
  proof (cases "policy = kLatest")
    case True
    then show ?thesis using that by (simp add: make_hand_off_def make_storage_def ho_room_def storage_room_def queue_slots_def)
  next
    case False
    then show ?thesis using that u z
      by (simp add: make_hand_off_def make_storage_def ho_room_def storage_room_def queue_slots_def make_ring_def Let_def)
  qed
  show "unat (queue_slots policy' cap) \<le> 2 ^ 60" using c u by (simp add: queue_slots_def)
qed

lemma derived_pool_size:
  assumes "cfg_pool_size cfg = 0" "unat (cfg_ingress_capacity cfg) \<le> 2 ^ 60" "unat (cfg_stage_queue_capacity cfg) \<le> 2 ^ 60"
  shows "ho_room (make_queues cfg 0) + ho_room (make_queues cfg 1) + ho_room (make_queues cfg 2) + ho_room (make_queues cfg 3) + 6
    \<le> unat (pool_size cfg)"
proof -
  let ?i = "queue_slots (cfg_ingress_policy cfg) (cfg_ingress_capacity cfg)"
  let ?t = "queue_slots (cfg_ingress_policy cfg) (cfg_stage_queue_capacity cfg)"
  have pol: "internal_policy cfg = kLatest \<longleftrightarrow> cfg_ingress_policy cfg = kLatest" by (simp add: internal_policy_def)
  have i: "ho_room (make_queues cfg 0) \<le> unat ?i" "unat ?i \<le> 2 ^ 60"
    using queue_slots_room [OF assms(2)] by (simp_all add: make_queues_def)
  have t: "ho_room (make_queues cfg k) \<le> unat ?t" "unat ?t \<le> 2 ^ 60" if "0 < k" for k
    using queue_slots_room [OF assms(3)] pol that by (simp_all add: make_queues_def)
  have "unat (3 * ?t) = 3 * unat ?t" using t(2) [of 1] by (simp add: unat_mult_u64)
  then have "unat (?i + 3 * ?t) = unat ?i + 3 * unat ?t" using i(2) t(2) [of 1] by (subst unat_plus_u64) simp_all
  then have "unat (?i + 3 * ?t + 6) = unat ?i + 3 * unat ?t + 6" using i(2) t(2) [of 1] by (subst unat_plus_u64) simp_all
  moreover have "pool_size cfg = ?i + 3 * ?t + 6" using assms(1) by (simp add: pool_size_def Let_def)
  ultimately show ?thesis using i(1) t(1) [of 1] t(1) [of 2] t(1) [of 3] by simp
qed

section \<open>What the run delivers\<close>

lemma enter_run_counts:
  assumes "enter_run source p = Inr (started, s)" "pl_ok r d p"
  shows "drops s = 0"
proof -
  obtain p1 where b: "begin_run source ''pipelined'' (p\<lparr>pl_running := True\<rparr>) = Inr p1"
    and s: "rs_pipe s = p1\<lparr>clock_reads := clock_reads p1 + 1\<rparr>"
    using assms(1) by (auto simp: enter_run_def start_run_def bind_result_Inr_iff clock_now_def Let_def split: if_splits)
  have "pl_ok r d (p\<lparr>pl_running := True\<rparr>)" using assms(2) by (simp add: pl_ok_def)
  from begin_run_result [OF b this] show ?thesis by (simp add: drops_def s)
qed

lemma enter_run_limit:
  "enter_run source p = Inr (started, s) \<Longrightarrow> pl_ok r d p \<Longrightarrow> capacities_ok (pl_config p) \<Longrightarrow> limit_inv n s"
  using enter_run_result(6,8) by (fastforce simp: limit_inv_def about_to_read_def)

lemma reads_bounded:
  assumes "(run_step srt r d)\<^sup>*\<^sup>* s0 s" "run_inv r d p0 s0" "environment_ok srt r" "\<And>n. limit_inv n s0"
    "cfg_max_frames (pl_config p0) \<noteq> 0"
  shows "rs_reads s \<le> unat (cfg_max_frames (pl_config p0))"
proof -
  obtain m where "(run_step srt r d ^^ m) s0 s" using assms(1) rtranclp_imp_relpowp by metis
  from run_steps_weight [OF this assms(2,3,4) refl] assms(5) show ?thesis
    by (simp add: limit_inv_def unat_gt_0)
qed

lemma delivered_in_order:
  assumes "frames_inv s" "rs_reads s < 2 ^ 64"
  shows "sorted_wrt (<) (map sequence (rs_delivered s))" "length (rs_delivered s) \<le> rs_reads s"
proof -
  let ?o = "map (\<lambda>f. unat (sequence f)) (rs_delivered s)"
  have o: "sorted_wrt (<) ?o" "\<forall>n \<in> set ?o. n < rs_reads s"
    using assms by (auto simp: frames_inv_def order_of_def sorted_wrt_append)
  show "sorted_wrt (<) (map sequence (rs_delivered s))"
    using o(1) by (simp add: sorted_wrt_map u64_less_unat)
  have "card (set ?o) \<le> card {..<rs_reads s}" using o(2) by (intro card_mono) auto
  moreover have "distinct ?o" using o(1) by (simp add: strict_sorted_iff)
  ultimately show "length (rs_delivered s) \<le> rs_reads s" by (simp only: distinct_card card_lessThan length_map)
qed

lemma leave_run_Inr:
  assumes "leave_run d started s = Inr (rep, p')" "control_inv s"
  shows "\<not> rs_aborted s" "sinks_finish (pl_sinks (rs_pipe s)) = Inr (pl_sinks p')" "\<not> pl_running p'"
    "rep_captured rep = frames_captured (pl_metrics (rs_pipe s))" "rep_dropped rep = frames_dropped (pl_metrics (rs_pipe s))"
    "rep_completed rep = frames_completed (pl_metrics (rs_pipe s))"
proof -
  obtain q where e: "rs_error s = None" and q: "finish_run d (rs_source s) ''pipelined'' started (rs_pipe s) = Inr (rep, q)"
    and p': "p' = q\<lparr>pl_running := False\<rparr>"
    using assms(1) by (auto simp: leave_run_def bind_result_Inr_iff split: option.splits)
  show "\<not> rs_aborted s" using control_invD(4) [OF assms(2)] e by simp
  from finish_run_result [OF q] p' show "sinks_finish (pl_sinks (rs_pipe s)) = Inr (pl_sinks p')" "\<not> pl_running p'"
    "rep_captured rep = frames_captured (pl_metrics (rs_pipe s))" "rep_dropped rep = frames_dropped (pl_metrics (rs_pipe s))"
    "rep_completed rep = frames_completed (pl_metrics (rs_pipe s))" by simp_all
qed

lemma over_empty:
  assumes "run_over s" "control_inv s" "\<not> rs_aborted s"
  shows "flight s = []"
  using control_invD(12) [OF assms(2,3)] assms(1) unfolding run_over_def four
  by (auto simp: flight_def segment_def ending_def)

lemma start_lossless:
  "rs_queue s = make_queues cfg \<Longrightarrow> cfg_ingress_policy cfg = kBlock \<Longrightarrow> lossless s"
  by (simp add: lossless_def make_queues_def internal_policy_def make_hand_off_def)

text \<open>A run that is stopped before its first frame.\<close>

fun run_acts ::
  "(detection list \<Rightarrow> detection list) \<Rightarrow> rounding \<Rightarrow> rounding \<Rightarrow> run_action list \<Rightarrow> ('b, 'k, 's) run_state \<Rightarrow>
   ('b, 'k, 's) run_state option"
where
  "run_acts srt r d [] s = Some s"
| "run_acts srt r d (a # as) s = (case run_act srt r d a s of None \<Rightarrow> None | Some s' \<Rightarrow> run_acts srt r d as s')"

lemma run_acts_steps: "run_acts srt r d as s = Some s' \<Longrightarrow> (run_step srt r d)\<^sup>*\<^sup>* s s'"
  by (induction as arbitrary: s)
    (auto split: option.splits intro: converse_rtranclp_into_rtranclp run_step.intros)

definition stop_early :: "run_action list" where
  "stop_early = [Stop_request, Capture, Capture, Worker 0, Worker 0, Worker 1, Worker 1, Worker 2, Worker 2, Worker 3, Worker 3]"

lemma take_closed_empty:
  "hand_off_pop (hand_off_close \<lparr>ho_policy = kLatest, ho_storage = Slot make_slot\<rparr>) =
     (Some None, hand_off_close \<lparr>ho_policy = kLatest, ho_storage = Slot make_slot\<rparr>)"
  by (simp add: hand_off_pop_def hand_off_close_def slot_take_def close_slot_def try_take_def make_slot_def kFresh_def)

lemma idle_run:
  assumes "rs_queue s = (\<lambda>_. \<lparr>ho_policy = kLatest, ho_storage = Slot make_slot\<rparr>)" "rs_capture s = C_test"
    "rs_worker s = (\<lambda>_. W_pop)" "\<not> pl_stop (rs_pipe s)"
  shows "\<exists>s'. run_acts srt r d stop_early s = Some s' \<and> run_over s' \<and> rs_error s' = rs_error s \<and>
    rs_pipe s' = request_stop (rs_pipe s)"
  using assms
  by (simp add: stop_early_def capture_step_def worker_step_def worker_pop_def take_closed_empty run_over_def
      four close_queue_def set_worker_def numeral_2_eq_2 numeral_3_eq_3)

text \<open>A pipeline over the fake engine without sinks, whose run starts.\<close>

lemma startable_pipeline:
  "\<exists>(p :: (fake_backend, unit) pipeline) started s0. pl_ok round32 round64 p \<and> capacities_ok (pl_config p) \<and>
    cfg_max_frames (pl_config p) = 2 \<and> cfg_pool_size (pl_config p) = 0 \<and> cfg_ingress_capacity (pl_config p) = 2 \<and>
    cfg_stage_queue_capacity (pl_config p) = 1 \<and> cfg_ingress_policy (pl_config p) = kLatest \<and>
    pl_sinks (rs_pipe s0) = [] \<and> rs_error s0 = None \<and>
    enter_run dark_source p = Inr (started, s0)"
proof -
  obtain fb and p :: "(fake_backend, unit) pipeline" where fb: "make_fake_backend tiny_fake_options = Inr fb"
    and p: "make_pipeline round32 (\<lambda>_. 0) (default_config round32\<lparr>cfg_max_frames := 2\<rparr>) (fake_as_backend round32 round64 fb) = Inr p"
    using tiny_pipeline by blast
  note P = make_pipeline_ok [OF p, of round64]
  let ?q = "p\<lparr>pl_config := (pl_config p)\<lparr>cfg_warmup_iterations := 0\<rparr>, pl_sinks := []\<rparr>"
  have spec: "spec_shape (fk_input_spec fb) = [1, 3, 8, 8]" "spec_shape (fk_output_spec fb) = [1, 6, 8]"
    using fb by (auto simp: make_fake_backend_def tiny_fake_options_def)
  obtain sizes where sizes: "buffer_sizes ?q = Inr sizes"
    using P by (simp add: buffer_sizes_def element_count_def fake_as_backend_def spec)
  let ?b = "?q\<lparr>pl_running := True, pl_metrics := metrics_reset (pl_metrics p), pl_tracker := reset_tracker (pl_tracker p),
    clock_reads := clock_reads p + 1, pl_stop := False\<rparr>"
  have "begin_run dark_source ''pipelined'' (?q\<lparr>pl_running := True\<rparr>) = Inr ?b"
    by (simp add: begin_run_def warm_up_backend_def clock_now_def sinks_start_def Let_def)
  moreover have "buffer_sizes ?b = Inr sizes" using sizes by (simp add: buffer_sizes_def)
  moreover have "pool_size (pl_config ?b) = 18" using P by (simp add: pool_size_def queue_slots_def default_config_def)
  ultimately obtain started s0 where "enter_run dark_source ?q = Inr (started, s0)" "pl_sinks (rs_pipe s0) = []" "rs_error s0 = None"
    using P by (simp add: enter_run_def start_run_def make_pool_def clock_now_def)
  moreover have "pl_ok round32 round64 ?q" using P by (simp add: pl_ok_def)
  ultimately show ?thesis
    using P by (intro exI [of _ ?q] exI [of _ started] exI [of _ s0]) (simp add: default_config_def capacities_ok_def)
qed

lemma fake_environment: "environment_ok sort_by_score round32"
  using insertion.score_sort_axioms rounds_nonneg_32 by (simp add: environment_ok_def)

section \<open>The properties\<close>

lemma run_result:
  assumes "environment_ok srt r" "pl_ok r d p" "capacities_ok (pl_config p)" "run srt r d source p (Inr (rep, p'))"
  shows "\<exists>gs info ks ks'. rep_completed rep = of_nat (length gs) \<and> rep_captured rep = rep_completed rep + rep_dropped rep \<and>
    (\<forall>g \<in> set gs. frame_ok r p g g) \<and>
    sinks_start info (pl_sinks p) = Inr ks \<and> consume_all gs ks = Inr ks' \<and> sinks_finish ks' = Inr (pl_sinks p') \<and>
    (cfg_max_frames (pl_config p) \<noteq> 0 \<longrightarrow>
       length gs \<le> unat (cfg_max_frames (pl_config p)) \<and> sorted_wrt (<) (map sequence gs)) \<and>
    (cfg_ingress_policy (pl_config p) = kBlock \<longrightarrow> rep_dropped rep = 0) \<and> \<not> pl_running p'"
  using assms(4)
proof (rule runE)
  fix e assume "Inr (rep, p') = Inl e"
  then show ?thesis by simp
next
  fix started s0 s
  assume r: "Inr (rep, p') = leave_run d started s" and enter: "enter_run source p = Inr (started, s0)"
    and steps: "(run_step srt r d)\<^sup>*\<^sup>* s0 s" and over: "run_over s"
  note E = enter_run_result [OF enter assms(2,3)]
  note inv = run_reachable_inv [OF steps E(2) assms(1)]
  note L = leave_run_Inr [OF r [symmetric] run_invD(2) [OF inv]]
  let ?gs = "rs_delivered s" and ?m = "cfg_max_frames (pl_config p)"
  have pipe: "pipe_inv r d (rs_pipe s0) (rs_pipe s) ?gs" and bal: "balanced s"
    using run_invD(3) [OF inv] L(1) by (simp_all add: work_inv_def)
  obtain info where info: "sinks_start info (pl_sinks p) = Inr (pl_sinks (rs_pipe s0))" using E(5) by blast
  have counts: "rep_completed rep = of_nat (length ?gs)" "rep_captured rep = rep_completed rep + rep_dropped rep"
    using pipe bal over_empty [OF over run_invD(2) [OF inv] L(1)] L(4-6) by (simp_all add: pipe_inv_def balanced_def)
  have frames: "\<forall>g \<in> set ?gs. frame_ok r p g g"
    using pipe frame_ok_cong [OF E(3,4), of r] by (simp add: pipe_inv_def)
  have order: "length ?gs \<le> unat ?m \<and> sorted_wrt (<) (map sequence ?gs)" if "?m \<noteq> 0"
  proof -
    have "rs_reads s \<le> unat ?m"
      using reads_bounded [OF steps E(2) assms(1) enter_run_limit [OF enter assms(2,3)]] that E(3) by simp
    then show ?thesis using delivered_in_order [OF run_invD(1) [OF inv]] unat_u64_less [of ?m] by auto
  qed
  have lossless: "rep_dropped rep = 0" if "cfg_ingress_policy (pl_config p) = kBlock"
    using run_steps_shape [OF steps E(2) assms(1)] start_lossless [OF E(13) that] enter_run_counts [OF enter assms(2)] L(5)
    by (simp add: drops_def)
  show ?thesis
    using counts frames info pipe L(2,3) order lossless
    by (intro exI [of _ ?gs] exI [of _ info] exI [of _ "pl_sinks (rs_pipe s0)"] exI [of _ "pl_sinks (rs_pipe s)"])
      (simp add: pipe_inv_def)
qed



text \<open>
  C3: no deadlock. In every reachable state in which some thread has not finished, the capture
  thread, a stage thread or a pending close can take its next step, without any further stop request.
\<close>

theorem run_progress:
  assumes "environment_ok srt r" "pl_ok r d p" "capacities_ok (pl_config p)" "enter_run source p = Inr (started, s0)"
    and "(run_step srt r d)\<^sup>*\<^sup>* s0 s" "\<not> run_over s"
  shows "\<exists>a. a \<noteq> Stop_request \<and> run_act srt r d a s \<noteq> None"
proof -
  note E = enter_run_result [OF assms(4,2,3)]
  have "0 < pool_capacity (rs_pool s)" using run_steps_shape [OF assms(5) E(2) assms(1)] E(15) by simp
  then show ?thesis by (rule some_action_enabled [OF run_reachable_inv [OF assms(5) E(2) assms(1)] assms(1) _ assms(6)])
qed

theorem run_progress_witness:
  "\<exists>(p :: (fake_backend, unit) pipeline) started s0 a. enter_run dark_source p = Inr (started, s0) \<and> a \<noteq> Stop_request \<and>
    run_act sort_by_score round32 round64 a s0 \<noteq> None"
proof -
  obtain p :: "(fake_backend, unit) pipeline" and started s0 where p: "pl_ok round32 round64 p" "capacities_ok (pl_config p)"
    "enter_run dark_source p = Inr (started, s0)"
    using startable_pipeline by blast
  have "\<not> run_over s0" using enter_run_result(6) [OF p(3,1,2)] by (simp add: run_over_def)
  then show ?thesis using run_progress [OF fake_environment p(1,2,3) rtranclp.rtrancl_refl] p(3) by blast
qed

text \<open>
  C4: with a frame limit \<open>n\<close> the threads take at most \<open>16 n + 42\<close> steps, whatever their interleaving, and
  every partial run can be continued until all of them have finished.
\<close>

theorem run_terminates:
  assumes "environment_ok srt r" "pl_ok r d p" "capacities_ok (pl_config p)" "enter_run source p = Inr (started, s0)"
    and "cfg_max_frames (pl_config p) \<noteq> 0" "(run_step srt r d ^^ m) s0 s"
  shows "m \<le> 16 * unat (cfg_max_frames (pl_config p)) + 42 \<and> (\<exists>s'. (run_step srt r d)\<^sup>*\<^sup>* s s' \<and> run_over s')"
proof -
  let ?n = "unat (cfg_max_frames (pl_config p))"
  note E = enter_run_result [OF assms(4,2,3)]
  have n: "?n = unat (cfg_max_frames (pl_config (rs_pipe s0)))" "0 < ?n" using assms(5) E(3) by (simp_all add: unat_gt_0)
  note w = run_steps_weight [OF assms(6) E(2) assms(1) enter_run_limit [OF assms(4,2,3)] n]
  have "run_weight ?n s0 \<le> 16 * ?n + 42"
    using E(6-9,13) make_queues_ok(2) [OF assms(3)]
    by (simp add: run_weight_def workers_weight_def thread_weight_def signals_weight_def)
  moreover have "pool_capacity (rs_pool s) = pool_capacity (rs_pool s0)"
    using run_steps_shape [OF relpowp_imp_rtranclp [OF assms(6)] E(2) assms(1)] by simp
  then have "\<exists>s'. (run_step srt r d)\<^sup>*\<^sup>* s s' \<and> run_over s'"
    using run_can_end [of r d "rs_pipe s0" s srt ?n] w assms(1) n E(15) by simp
  ultimately show ?thesis using w by auto
qed

theorem run_terminates_witness:
  "\<exists>(p :: (fake_backend, unit) pipeline) started s0 s'. enter_run dark_source p = Inr (started, s0) \<and>
    (run_step sort_by_score round32 round64)\<^sup>*\<^sup>* s0 s' \<and> run_over s'"
proof -
  obtain p :: "(fake_backend, unit) pipeline" and started s0 where p: "pl_ok round32 round64 p" "capacities_ok (pl_config p)"
    "cfg_max_frames (pl_config p) = 2" "enter_run dark_source p = Inr (started, s0)"
    using startable_pipeline by blast
  have "\<exists>s'. (run_step sort_by_score round32 round64)\<^sup>*\<^sup>* s0 s' \<and> run_over s'"
    using run_terminates [OF fake_environment p(1,2,4), of 0 s0] p(3) by simp
  then show ?thesis using p(4) by blast
qed

text \<open>
  C20: the pool size that the pipeline derives is enough: with \<open>pool_size = 0\<close> the capture thread never
  has to wait for a frame, whatever the policy, because the queues and the stage threads can hold at
  most that many minus one.
\<close>

theorem run_pool_suffices:
  assumes "environment_ok srt r" "pl_ok r d p" "enter_run source p = Inr (started, s0)" "(run_step srt r d)\<^sup>*\<^sup>* s0 s"
    and "cfg_pool_size (pl_config p) = 0" "unat (cfg_ingress_capacity (pl_config p)) \<le> 2 ^ 60"
    "unat (cfg_stage_queue_capacity (pl_config p)) \<le> 2 ^ 60"
    and "rs_capture s = C_acquire"
  shows "free_frames (rs_pool s) \<noteq> []"
proof -
  have caps: "capacities_ok (pl_config p)" using assms(6,7) by (simp add: capacities_ok_def)
  note E = enter_run_result [OF assms(3,2) caps]
  note inv = run_reachable_inv [OF assms(4) E(2) assms(1)]
  note shape = run_steps_shape [OF assms(4) E(2) assms(1)]
  have "length (flight s) + 2 \<le> unat (pool_size (pl_config p))"
    using flight_bound [OF control_invD(1) [OF run_invD(2) [OF inv]]] derived_pool_size [OF assms(5-7)] shape E(13)
    by (simp add: same_shape_def)
  moreover have "line s @ reading s = flight s" using assms(8) by (simp add: line_def pushing_def reading_def)
  ultimately have "0 < available (rs_pool s)"
    using pool_ok_partition(3) [OF run_invD(6) [OF inv]] shape E(14) by simp
  then show ?thesis by (auto simp: available_def)
qed

theorem run_pool_suffices_witness:
  "\<exists>(p :: (fake_backend, unit) pipeline) started s0 s. enter_run dark_source p = Inr (started, s0) \<and>
    run_acts sort_by_score round32 round64 [Capture] s0 = Some s \<and> rs_capture s = C_acquire \<and> free_frames (rs_pool s) \<noteq> []"
proof -
  obtain p :: "(fake_backend, unit) pipeline" and started s0 where p: "pl_ok round32 round64 p" "capacities_ok (pl_config p)"
    "cfg_max_frames (pl_config p) = 2" "cfg_pool_size (pl_config p) = 0" "cfg_ingress_capacity (pl_config p) = 2"
    "cfg_stage_queue_capacity (pl_config p) = 1" "enter_run dark_source p = Inr (started, s0)"
    using startable_pipeline by blast
  note E = enter_run_result [OF p(7,1,2)]
  have st: "\<not> pl_stop (rs_pipe s0)"
    using control_invD(5) [OF run_invD(2) [OF E(2)]] E(9,13) make_queues_ok(3) [OF p(2)] by auto
  obtain s where s: "run_acts sort_by_score round32 round64 [Capture] s0 = Some s" "rs_capture s = C_acquire"
    using E(3,6,10,12) p(3) st by (simp add: capture_step_def Let_def)
  have "free_frames (rs_pool s) \<noteq> []"
    by (rule run_pool_suffices [OF fake_environment p(1,7) run_acts_steps [OF s(1)]]) (use p s in simp_all)
  then show ?thesis using p(7) s by blast
qed

end
