(* ===== verification/TaktRun.thy ===== *)
theory TaktRun
  imports AppSupport RunProgress
begin

text \<open>
  \<open>apps/takt_run.cpp\<close>: the program that runs the pipeline. Its options, the pipeline it builds from them with
  its source and its sinks, the run in either mode, and what it writes at the end. The command line
  parser (CLI11) and the console are not in the model: an execution starts from the parsed options.
\<close>

section \<open>Options\<close>

record run_options =
  ro_backend :: backend_settings
  ro_source :: source_settings
  ro_policy :: string
  ro_ingress_capacity :: u64
  ro_stage_queue :: u64
  ro_conf :: real
  ro_iou :: real
  ro_max_det :: u64
  ro_agnostic :: bool
  ro_no_track :: bool
  ro_max_frames :: u64
  ro_sequential :: bool
  ro_warmup :: int
  ro_stats_ms :: int
  ro_out_video :: string
  ro_out_image :: string
  ro_show :: bool
  ro_names :: string
  ro_jsonl :: string
  ro_report :: string

definition default_run_options :: "rounding \<Rightarrow> run_options" where
  "default_run_options r = \<lparr>ro_backend = default_backend_settings, ro_source = default_source_settings, ro_policy = ''latest'',
     ro_ingress_capacity = 2, ro_stage_queue = 1, ro_conf = r (25 / 100), ro_iou = r (7 / 10), ro_max_det = 300,
     ro_agnostic = False, ro_no_track = False, ro_max_frames = 0, ro_sequential = False, ro_warmup = 3, ro_stats_ms = 1000,
     ro_out_video = [], ro_out_image = [], ro_show = False, ro_names = [], ro_jsonl = [], ro_report = []\<rparr>"

definition configure :: "rounding \<Rightarrow> run_options \<Rightarrow> takt_error + pipeline_config" where
  "configure r o' =
     (case parse_ingress_policy (ro_policy o') of
        None \<Rightarrow> Inl (Invalid_argument (''unknown --policy '' @ ro_policy o'))
      | Some policy \<Rightarrow>
          let cfg = default_config r
          in Inr (cfg\<lparr>cfg_ingress_policy := policy, cfg_ingress_capacity := ro_ingress_capacity o',
               cfg_stage_queue_capacity := ro_stage_queue o', cfg_score_threshold := ro_conf o',
               cfg_nms := (cfg_nms cfg)\<lparr>iou_threshold := ro_iou o', max_detections := unat (ro_max_det o'), class_agnostic := ro_agnostic o'\<rparr>,
               cfg_enable_tracking := \<not> ro_no_track o', cfg_max_frames := ro_max_frames o', cfg_warmup_iterations := ro_warmup o'\<rparr>))"

section \<open>The status line\<close>

record stats_printer =
  sp_last_count :: u64
  sp_last_time :: int

definition print_stats :: "rounding \<Rightarrow> int \<Rightarrow> pipeline_metrics \<Rightarrow> stats_printer \<Rightarrow> string \<times> stats_printer" where
  "print_stats d t m sp =
     (let count = frames_completed m;
          seconds = fdiv d (d (of_int (t - sp_last_time sp))) 1000000000;
          fps = (if 0 < seconds then fdiv d (d (real (unat (count - sp_last_count sp)))) seconds else 0)
      in ([CHR 0x0D] @ ''[takt] '' @ pad_left 6 (show_fixed 1 fps) @ '' fps | e2e p50 '' @
            pad_left 6 (show_fixed 1 (percentile_ms d (end_to_end m) (d (1 / 2)))) @ '' p99 '' @
            pad_left 6 (show_fixed 1 (percentile_ms d (end_to_end m) (d (99 / 100)))) @ '' ms | infer p50 '' @
            pad_left 6 (show_fixed 1 (percentile_ms d (stage kInference m) (d (1 / 2)))) @ '' ms | frames '' @
            show_nat (unat count) @ '' dropped '' @ show_nat (unat (frames_dropped m)) @ ''   '',
          sp\<lparr>sp_last_count := count, sp_last_time := t\<rparr>))"

text \<open>
  The reporter thread of \<open>Pipeline::start_reporter\<close>: it runs if the interval is positive, and each time it wakes
  up it ends if it was asked to stop and prints a line otherwise. A wake-up is the answer of the stop
  token, the time and the metrics at that moment.
\<close>

definition stats_interval :: "run_options \<Rightarrow> int option" where
  "stats_interval o' = (if 0 < ro_stats_ms o' then Some (1000000 * ro_stats_ms o') else None)"

fun reporter :: "rounding \<Rightarrow> (bool \<times> int \<times> pipeline_metrics) list \<Rightarrow> stats_printer \<Rightarrow> string list" where
  "reporter d [] sp = []"
| "reporter d ((stop, t, m) # wakes) sp =
     (if stop then [] else let (line, sp) = print_stats d t m sp in line # reporter d wakes sp)"

definition start_reporter :: "rounding \<Rightarrow> run_options \<Rightarrow> int \<Rightarrow> (bool \<times> int \<times> pipeline_metrics) list \<Rightarrow> string list" where
  "start_reporter d o' created wakes =
     (case stats_interval o' of None \<Rightarrow> []
      | Some interval \<Rightarrow> reporter d wakes \<lparr>sp_last_count = 0, sp_last_time = created\<rparr>)"

lemma start_reporter_lines:
  "length (start_reporter d o' created wakes) =
     (if 0 < ro_stats_ms o' then length (takeWhile (\<lambda>(stop, _). \<not> stop) wakes) else 0)"
proof -
  have "length (reporter d wakes sp) = length (takeWhile (\<lambda>(stop, _). \<not> stop) wakes)" for sp
    by (induction d wakes sp rule: reporter.induct) (auto split: prod.splits)
  then show ?thesis by (simp add: start_reporter_def stats_interval_def)
qed

text \<open>The frames of the rates the lines show add up to the frames completed at the last of them.\<close>

lemma printed_counts:
  "fold (\<lambda>(t, m) sp. snd (print_stats d t m sp)) wakes sp =
     (if wakes = [] then sp else \<lparr>sp_last_count = frames_completed (snd (last wakes)), sp_last_time = fst (last wakes)\<rparr>)"
  by (induction wakes arbitrary: sp) (auto simp: print_stats_def Let_def)

section \<open>Sinks\<close>

type_synonym any_sink = "(json_lines_sink \<times> nat) + (overlay_sink \<times> nat)"

definition any_frame_sink :: "rounding \<Rightarrow> rounding \<Rightarrow> ('o, 'c) machine \<Rightarrow> any_sink \<Rightarrow> any_sink frame_sink" where
  "any_frame_sink r d w st =
     \<lparr>sink_state = st,
      sink_on_start = (\<lambda>info st. case st of
          Inl (s, n) \<Rightarrow> Inr (Inl (json_lines_on_start info s, n))
        | Inr (s, n) \<Rightarrow> Inr (Inr (overlay_sink_on_start info s, n))),
      sink_consume = (\<lambda>f st. case st of
          Inl (s, n) \<Rightarrow> Inr (Inl (json_lines_consume d (m_sink_clock w n) f s, n + 1))
        | Inr (s, n) \<Rightarrow> map_sum id (\<lambda>s. Inr (s, n + 1))
            (overlay_sink_consume r d (m_drawing w) (m_trail_order w) (m_highgui w) (m_sink_clock w n) (m_live_metrics w n) (m_keys w n) f s)),
      sink_on_finish = (\<lambda>st. case st of
          Inl (s, n) \<Rightarrow> Inr (Inl (json_lines_on_finish s, n))
        | Inr (s, n) \<Rightarrow> Inr (Inr (overlay_sink_on_finish s, n)))\<rparr>"

definition wants_overlay :: "run_options \<Rightarrow> bool" where
  "wants_overlay o' \<longleftrightarrow> ro_out_video o' \<noteq> [] \<or> ro_out_image o' \<noteq> [] \<or> ro_show o'"

definition overlay_names :: "('o, 'c) machine \<Rightarrow> run_options \<Rightarrow> takt_error + string list" where
  "overlay_names w o' =
     (if ro_names o' \<noteq> [] then load_class_names (m_files w) (ro_names o')
      else if bs_kind (ro_backend o') \<noteq> ''fake'' then Inr coco_class_names else Inr [])"

section \<open>Building the pipeline\<close>

definition add_json_sink ::
  "rounding \<Rightarrow> rounding \<Rightarrow> ('o, 'c) machine \<Rightarrow> run_options \<Rightarrow> ('b, any_sink) pipeline \<Rightarrow> takt_error + ('b, any_sink) pipeline"
where
  "add_json_sink r d w o' p =
     (if ro_jsonl o' = [] then Inr p
      else bind_result (make_json_lines_sink (m_opens w) (ro_jsonl o')) (\<lambda>s. add_sink (Some (any_frame_sink r d w (Inl (s, 0)))) p))"

definition add_overlay_sink ::
  "rounding \<Rightarrow> rounding \<Rightarrow> ('o, 'c) machine \<Rightarrow> run_options \<Rightarrow> ('b, any_sink) pipeline \<Rightarrow> takt_error + ('b, any_sink) pipeline"
where
  "add_overlay_sink r d w o' p =
     (if \<not> wants_overlay o' then Inr p
      else if \<not> with_opencv w then Inl (Invalid_argument ''--out-video/--out-image/--show need a build with OpenCV'')
      else bind_result (overlay_names w o') (\<lambda>names.
           let opts = default_sink_options\<lparr>sk_video_path := ro_out_video o', sk_image_path := ro_out_image o',
                 sk_show_window := ro_show o', sk_overlay := default_overlay_options\<lparr>class_names := names\<rparr>, sk_on_quit := True\<rparr>
           in add_sink (Some (any_frame_sink r d w (Inr (make_overlay_sink opts, 0)))) p))"

definition prepare_run ::
  "rounding \<Rightarrow> rounding \<Rightarrow> ('o, 'c) machine \<Rightarrow> run_options \<Rightarrow>
   takt_error + 'c any_source frame_source \<times> ('o any_engine, any_sink) pipeline"
where
  "prepare_run r d w o' =
     bind_result (configure r o') (\<lambda>cfg.
     bind_result (make_source d w (ro_source o')) (\<lambda>source.
     bind_result (make_backend r d w (ro_backend o')) (\<lambda>b.
     bind_result (make_pipeline r (m_clock w) cfg b) (\<lambda>p.
     bind_result (add_json_sink r d w o' p) (\<lambda>p.
     bind_result (add_overlay_sink r d w o' p) (\<lambda>p. Inr (source, p)))))))"

definition run_banner :: "('o, 'c) machine \<Rightarrow> run_options \<Rightarrow> 's frame_source \<Rightarrow> ('b, 'k) pipeline \<Rightarrow> string" where
  "run_banner w o' source p =
     ''[takt] '' @ (if ro_sequential o' then ''sequential'' else ''pipelined'') @ '' | backend '' @ engine_name (pl_backend p) @
     '' | source '' @ src_describe source (src_state source) @ '' | model '' @ show_int (model_width p) @ ''x'' @
     show_int (model_height p) @ '' | features: '' @ build_features w @ [CHR 0x0A] @
     (if \<not> ss_realtime (ro_source o') \<and> \<not> ro_sequential o' \<and> ro_policy o' = ''latest''
      then ''[takt] note: --no-realtime with --policy latest drops every frame the pipeline '' @
        ''cannot keep up with; use --policy block for offline processing'' @ [CHR 0x0A]
      else [])"

section \<open>The run\<close>

text \<open>The watcher thread: its polls of the stop token and of the flag the signal handler sets.\<close>

fun interrupt_watcher :: "(bool \<times> bool) list \<Rightarrow> ('b, 'k) pipeline \<Rightarrow> ('b, 'k) pipeline" where
  "interrupt_watcher [] p = p"
| "interrupt_watcher ((stop, interrupted) # polls) p =
     (if stop then p else if interrupted then request_stop p else interrupt_watcher polls p)"

text \<open>
  The results an execution can have. \<open>stops k\<close> says whether a stop request is seen before the \<open>k\<close>-th
  frame of a sequential run; in a pipelined run the requests are among the steps of its threads.
\<close>

inductive takt_run ::
  "(detection list \<Rightarrow> detection list) \<Rightarrow> rounding \<Rightarrow> rounding \<Rightarrow> ('o, 'c) machine \<Rightarrow> (nat \<Rightarrow> bool) \<Rightarrow> run_options \<Rightarrow>
   takt_error + run_report \<times> ('o any_engine, any_sink) pipeline \<Rightarrow> bool"
  for srt r d w stops o' where
  refused: "prepare_run r d w o' = Inl e \<Longrightarrow> takt_run srt r d w stops o' (Inl e)"
| sequential: "prepare_run r d w o' = Inr (source, p) \<Longrightarrow> ro_sequential o' \<Longrightarrow>
    run_sequential srt r d stops source p = Some res \<Longrightarrow> takt_run srt r d w stops o' res"
| pipelined: "prepare_run r d w o' = Inr (source, p) \<Longrightarrow> \<not> ro_sequential o' \<Longrightarrow>
    run srt r d source p res \<Longrightarrow> takt_run srt r d w stops o' res"

inductive_cases takt_runE: "takt_run srt r d w stops o' res"

text \<open>The exit code, what goes to the standard output, and the report file.\<close>

definition exit_code :: "takt_error + 'a \<Rightarrow> int" where
  "exit_code res = (case res of Inl e \<Rightarrow> 1 | Inr x \<Rightarrow> 0)"

definition run_output :: "run_options \<Rightarrow> run_report \<Rightarrow> string \<times> (string \<times> string) option" where
  "run_output o' rep =
     (report_to_text rep, if ro_report o' = [] then None else Some (ro_report o', report_to_json rep @ [CHR 0x0A]))"

section \<open>What is prepared\<close>

lemma configure_result:
  assumes "configure r o' = Inr cfg"
  shows "ingress_to_string (cfg_ingress_policy cfg) = ro_policy o'" "cfg_ingress_capacity cfg = ro_ingress_capacity o'"
    "cfg_stage_queue_capacity cfg = ro_stage_queue o'" "cfg_score_threshold cfg = ro_conf o'"
    "max_detections (cfg_nms cfg) = unat (ro_max_det o')" "cfg_enable_tracking cfg = (\<not> ro_no_track o')"
    "cfg_max_frames cfg = ro_max_frames o'" "cfg_warmup_iterations cfg = ro_warmup o'"
proof -
  obtain policy where "parse_ingress_policy (ro_policy o') = Some policy" using assms by (auto simp: configure_def split: option.splits)
  then show "ingress_to_string (cfg_ingress_policy cfg) = ro_policy o'" "cfg_ingress_capacity cfg = ro_ingress_capacity o'"
    "cfg_stage_queue_capacity cfg = ro_stage_queue o'" "cfg_score_threshold cfg = ro_conf o'"
    "max_detections (cfg_nms cfg) = unat (ro_max_det o')" "cfg_enable_tracking cfg = (\<not> ro_no_track o')"
    "cfg_max_frames cfg = ro_max_frames o'" "cfg_warmup_iterations cfg = ro_warmup o'"
    using assms policy_roundtrip [of "ro_policy o'" policy] by (auto simp: configure_def Let_def)
qed

lemma add_sink_keeps:
  assumes "add_sink k p = Inr p'"
  shows "pl_ok r d p' = pl_ok r d p" "pl_config p' = pl_config p" "pl_running p' = pl_running p" "pl_backend p' = pl_backend p"
    "pl_sinks p' = pl_sinks p @ (case k of None \<Rightarrow> [] | Some k \<Rightarrow> [k])"
  using assms by (auto simp: add_sink_def pl_ok_def split: if_splits option.splits)

text \<open>The sinks of the options: the JSON lines first, then the overlay.\<close>

lemma add_json_sink_keeps:
  assumes "add_json_sink r d w o' p = Inr p'"
  shows "pl_ok r d' p' = pl_ok r d' p" "pl_config p' = pl_config p" "pl_running p' = pl_running p" "pl_backend p' = pl_backend p"
    "\<exists>ks. pl_sinks p' = pl_sinks p @ ks \<and> (ro_jsonl o' = [] \<longrightarrow> ks = []) \<and>
       (ro_jsonl o' \<noteq> [] \<longrightarrow> (\<exists>s. make_json_lines_sink (m_opens w) (ro_jsonl o') = Inr s \<and> ks = [any_frame_sink r d w (Inl (s, 0))]))"
proof -
  have "p' = p \<and> ro_jsonl o' = [] \<or> (\<exists>s. ro_jsonl o' \<noteq> [] \<and> make_json_lines_sink (m_opens w) (ro_jsonl o') = Inr s \<and>
      add_sink (Some (any_frame_sink r d w (Inl (s, 0)))) p = Inr p')"
    using assms by (auto simp: add_json_sink_def bind_result_Inr_iff split: if_splits)
  then show "pl_ok r d' p' = pl_ok r d' p" "pl_config p' = pl_config p" "pl_running p' = pl_running p" "pl_backend p' = pl_backend p"
    "\<exists>ks. pl_sinks p' = pl_sinks p @ ks \<and> (ro_jsonl o' = [] \<longrightarrow> ks = []) \<and>
       (ro_jsonl o' \<noteq> [] \<longrightarrow> (\<exists>s. make_json_lines_sink (m_opens w) (ro_jsonl o') = Inr s \<and> ks = [any_frame_sink r d w (Inl (s, 0))]))"
    using add_sink_keeps by fastforce+
qed

lemma add_overlay_sink_keeps:
  assumes "add_overlay_sink r d w o' p = Inr p'"
  shows "pl_ok r d' p' = pl_ok r d' p" "pl_config p' = pl_config p" "pl_running p' = pl_running p" "pl_backend p' = pl_backend p"
    "\<exists>ks. pl_sinks p' = pl_sinks p @ ks \<and> (length ks = (if wants_overlay o' then 1 else 0))"
proof -
  have "p' = p \<and> \<not> wants_overlay o' \<or> (\<exists>s. wants_overlay o' \<and> add_sink (Some (any_frame_sink r d w (Inr (s, 0)))) p = Inr p')"
    using assms by (auto simp: add_overlay_sink_def bind_result_Inr_iff Let_def split: if_splits)
  then show "pl_ok r d' p' = pl_ok r d' p" "pl_config p' = pl_config p" "pl_running p' = pl_running p" "pl_backend p' = pl_backend p"
    "\<exists>ks. pl_sinks p' = pl_sinks p @ ks \<and> (length ks = (if wants_overlay o' then 1 else 0))"
    using add_sink_keeps by fastforce+
qed

lemma prepare_run_result:
  assumes "prepare_run r d w o' = Inr (source, p)"
  obtains cfg b where "configure r o' = Inr cfg" "make_source d w (ro_source o') = Inr source" "make_backend r d w (ro_backend o') = Inr b"
    "pl_config p = cfg" "pl_backend p = b" "pl_ok r d p" "\<not> pl_running p"
    "ro_jsonl o' \<noteq> [] \<Longrightarrow> \<exists>s ks. make_json_lines_sink (m_opens w) (ro_jsonl o') = Inr s \<and>
       pl_sinks p = any_frame_sink r d w (Inl (s, 0)) # ks \<and> length ks = (if wants_overlay o' then 1 else 0)"
    "ro_jsonl o' = [] \<Longrightarrow> length (pl_sinks p) = (if wants_overlay o' then 1 else 0)"
proof -
  obtain cfg b p1 p2 where parts: "configure r o' = Inr cfg" "make_source d w (ro_source o') = Inr source"
    "make_backend r d w (ro_backend o') = Inr b" "make_pipeline r (m_clock w) cfg b = Inr p1"
    "add_json_sink r d w o' p1 = Inr p2" "add_overlay_sink r d w o' p2 = Inr p"
    using assms by (auto simp: prepare_run_def bind_result_Inr_iff)
  note P = make_pipeline_ok [OF parts(4), of d]
  have none: "pl_sinks p1 = []" using parts(4) by (auto simp: make_pipeline_def bind_result_Inr_iff split: if_splits)
  note J = add_json_sink_keeps [OF parts(5)] and V = add_overlay_sink_keeps [OF parts(6)]
  obtain js where js: "pl_sinks p2 = js" "ro_jsonl o' = [] \<Longrightarrow> js = []"
    "ro_jsonl o' \<noteq> [] \<Longrightarrow> \<exists>s. make_json_lines_sink (m_opens w) (ro_jsonl o') = Inr s \<and> js = [any_frame_sink r d w (Inl (s, 0))]"
    using J(5) none by auto
  obtain ks where ks: "pl_sinks p = js @ ks" "length ks = (if wants_overlay o' then 1 else 0)" using V(5) js(1) by blast
  have kept: "pl_config p = cfg" "pl_backend p = b" "pl_ok r d p" "\<not> pl_running p" using P J(1-4) V(1-4) by simp_all
  show thesis
  proof (rule that [OF parts(1-3) kept])
    assume "ro_jsonl o' \<noteq> []"
    then show "\<exists>s ks. make_json_lines_sink (m_opens w) (ro_jsonl o') = Inr s \<and>
       pl_sinks p = any_frame_sink r d w (Inl (s, 0)) # ks \<and> length ks = (if wants_overlay o' then 1 else 0)"
      using js(3) ks by auto
  next
    assume "ro_jsonl o' = []"
    then show "length (pl_sinks p) = (if wants_overlay o' then 1 else 0)" using js(2) ks by simp
  qed
qed

section \<open>The JSON lines of a run\<close>

lemma each_sink_Cons:
  "each_sink f (k # ks) = Inr ks' \<longleftrightarrow> (\<exists>st rest. f k = Inr st \<and> each_sink f ks = Inr rest \<and> ks' = k\<lparr>sink_state := st\<rparr> # rest)"
  by (auto simp: bind_result_Inr_iff)

lemma json_sink_consumes:
  assumes "consume_all gs (any_frame_sink r d w (Inl (s, n)) # ks) = Inr ks'"
  shows "\<exists>s' rest. ks' = any_frame_sink r d w (Inl (s', n + length gs)) # rest \<and> jl_started_at s' = jl_started_at s \<and>
    jl_out s' = jl_out s @ concat (map (\<lambda>j. render j @ [CHR 0x0A])
      (map (\<lambda>i. frame_value d (jl_started_at s) (m_sink_clock w (n + i)) (gs ! i)) [0..<length gs]))"
  using assms
proof (induction gs arbitrary: s n ks)
  case (Cons g gs)
  let ?s = "json_lines_consume d (m_sink_clock w n) g s"
  obtain rest where rest: "consume_all gs (any_frame_sink r d w (Inl (?s, Suc n)) # rest) = Inr ks'"
    using Cons.prems by (auto simp: bind_result_Inr_iff sinks_consume_def any_frame_sink_def)
  have s: "jl_started_at ?s = jl_started_at s" "jl_out ?s = jl_out s @ render (frame_value d (jl_started_at s) (m_sink_clock w n) g) @ [CHR 0x0A]"
    by (simp_all add: consume_appends Let_def)
  have "map (\<lambda>i. frame_value d (jl_started_at s) (m_sink_clock w (n + i)) ((g # gs) ! i)) [0..<length (g # gs)] =
      frame_value d (jl_started_at s) (m_sink_clock w n) g #
        map (\<lambda>i. frame_value d (jl_started_at s) (m_sink_clock w (Suc n + i)) (gs ! i)) [0..<length gs]"
    by (simp add: upt_conv_Cons map_Suc_upt [symmetric] comp_def del: upt_Suc map_Suc_upt)
  then show ?case using Cons.IH [OF rest] s by auto
qed auto

lemma json_sink_run:
  assumes "sinks_start info (any_frame_sink r d w (Inl (s, 0)) # ks) = Inr ks1" "consume_all gs ks1 = Inr ks2" "sinks_finish ks2 = Inr ks3"
    and "jl_out s = []"
  shows "\<exists>s' rest. ks3 = any_frame_sink r d w (Inl (s', length gs)) # rest \<and> jl_flushed s' = length (jl_out s') \<and>
    map read_json (text_lines (jl_out s')) =
      map (\<lambda>i. Some (frame_value d (info_started_at info) (m_sink_clock w i) (gs ! i))) [0..<length gs]"
proof -
  obtain rest1 where 1: "ks1 = any_frame_sink r d w (Inl (json_lines_on_start info s, 0)) # rest1"
    using assms(1) by (auto simp: sinks_start_def bind_result_Inr_iff any_frame_sink_def)
  from json_sink_consumes [OF assms(2) [unfolded 1]] obtain s2 rest2 where 2: "ks2 = any_frame_sink r d w (Inl (s2, length gs)) # rest2"
    "jl_out s2 = concat (map (\<lambda>j. render j @ [CHR 0x0A])
      (map (\<lambda>i. frame_value d (info_started_at info) (m_sink_clock w i) (gs ! i)) [0..<length gs]))"
    using assms(4) by (auto simp: json_lines_on_start_def)
  obtain rest3 where 3: "ks3 = any_frame_sink r d w (Inl (json_lines_on_finish s2, length gs)) # rest3"
    using assms(3) by (auto simp: 2(1) sinks_finish_def bind_result_Inr_iff any_frame_sink_def)
  have "map read_json (text_lines (jl_out s2)) =
      map Some (map (\<lambda>i. frame_value d (info_started_at info) (m_sink_clock w i) (gs ! i)) [0..<length gs])"
    unfolding 2(2) by (rule text_lines_documents) (simp add: list_all_iff frame_value_ok)
  then show ?thesis
    using 3 by (intro exI [of _ "json_lines_on_finish s2"] exI [of _ rest3]) (simp add: json_lines_on_finish_def comp_def)
qed


definition json_only :: run_options where
  "json_only = (default_run_options round32)\<lparr>ro_backend := default_backend_settings\<lparr>bs_fake_input := 64, bs_fake_classes := 2\<rparr>,
     ro_warmup := 0, ro_sequential := True, ro_jsonl := ''a.jsonl''\<rparr>"

lemma json_only_prepared:
  "\<exists>source p. prepare_run round32 round64 tiny_machine json_only = Inr (source, p)"
  by (simp add: prepare_run_def json_only_def default_run_options_def configure_def parse_ingress_policy_def make_source_def
      default_source_settings_def make_synthetic_def default_synthetic_options_def make_backend_def backend_kind_def
      default_backend_settings_def make_fake_backend_def fake_settings_def default_fake_options_def signed_divide_int_def
      make_pipeline_def input_dimension_def erase_backend_def any_input_spec_def any_output_spec_def to_int32_def make_letterboxer_def
      yolo_layout_from_shape_def make_decoder_def default_config_def add_json_sink_def make_json_lines_sink_def add_sink_def
      add_overlay_sink_def wants_overlay_def tiny_machine_def Let_def)


text \<open>
  A pipeline that \<open>takt_run\<close> has prepared is the one the options ask for: the policy is the one
  whose name was given, limits, thresholds and capacities are those of the options, the sinks are
  the JSON lines file and the overlay exactly if they were asked for (the overlay only in a build
  with OpenCV), and the pipeline is ready to run.
\<close>

theorem takt_run_prepared:
  assumes "prepare_run r d w o' = Inr (source, p)"
  shows "ingress_to_string (cfg_ingress_policy (pl_config p)) = ro_policy o' \<and>
    cfg_ingress_capacity (pl_config p) = ro_ingress_capacity o' \<and> cfg_stage_queue_capacity (pl_config p) = ro_stage_queue o' \<and>
    cfg_score_threshold (pl_config p) = ro_conf o' \<and> max_detections (cfg_nms (pl_config p)) = unat (ro_max_det o') \<and>
    cfg_enable_tracking (pl_config p) = (\<not> ro_no_track o') \<and> cfg_max_frames (pl_config p) = ro_max_frames o' \<and>
    length (pl_sinks p) = (if ro_jsonl o' = [] then 0 else 1) + (if wants_overlay o' then 1 else 0) \<and>
    (wants_overlay o' \<longrightarrow> with_opencv w) \<and> pl_ok r d p \<and> \<not> pl_running p"
proof -
  from prepare_run_result [OF assms] obtain cfg where P: "configure r o' = Inr cfg" "pl_config p = cfg" "pl_ok r d p" "\<not> pl_running p"
    and json: "ro_jsonl o' \<noteq> [] \<Longrightarrow> \<exists>s ks. make_json_lines_sink (m_opens w) (ro_jsonl o') = Inr s \<and>
       pl_sinks p = any_frame_sink r d w (Inl (s, 0)) # ks \<and> length ks = (if wants_overlay o' then 1 else 0)"
    and none: "ro_jsonl o' = [] \<Longrightarrow> length (pl_sinks p) = (if wants_overlay o' then 1 else 0)" by metis
  have "length (pl_sinks p) = (if ro_jsonl o' = [] then 0 else 1) + (if wants_overlay o' then 1 else 0)"
    using json none by (cases "ro_jsonl o' = []") auto
  moreover have "with_opencv w" if "wants_overlay o'"
    using assms that by (auto simp: prepare_run_def add_overlay_sink_def bind_result_Inr_iff split: if_splits)
  ultimately show ?thesis using P configure_result [OF P(1)] by simp
qed

theorem takt_run_prepared_witness:
  "\<exists>source p. prepare_run round32 round64 tiny_machine json_only = Inr (source, p) \<and>
     cfg_ingress_policy (pl_config p) = kLatest \<and> length (pl_sinks p) = 1"
proof -
  obtain source and p :: "(unit any_engine, any_sink) pipeline" where p: "prepare_run round32 round64 tiny_machine json_only = Inr (source, p)"
    using json_only_prepared by blast
  have "ro_policy json_only = ''latest''" "ro_jsonl json_only \<noteq> []" "\<not> wants_overlay json_only"
    by (simp_all add: json_only_def default_run_options_def wants_overlay_def)
  with takt_run_prepared [OF p] p show ?thesis
    by (cases "cfg_ingress_policy (pl_config p)") (auto simp: ingress_to_string_def)
qed

end
