(* ===== verification/TaktBench.thy ===== *)
theory TaktBench
  imports AppSupport
begin

text \<open>
  \<open>apps/takt_bench.cpp\<close>: the latency of each stage on one thread, with a text table and a JSON result. The clock is
  the stream \<open>m_clock\<close>; \<open>srt\<close> is \<open>std::sort\<close>, \<open>r\<close> rounds float, \<open>d\<close> double.
\<close>

section \<open>Setting up\<close>

record bench_options =
  bo_backend :: backend_settings
  bo_image :: string
  bo_iterations :: int
  bo_warmup :: int
  bo_conf :: real
  bo_iou :: real
  bo_json :: string

definition default_bench_options :: "rounding \<Rightarrow> bench_options" where
  "default_bench_options r = \<lparr>bo_backend = default_backend_settings, bo_image = [], bo_iterations = 500, bo_warmup = 50,
     bo_conf = r (25 / 100), bo_iou = r (7 / 10), bo_json = []\<rparr>"

text \<open>\<open>vector::at\<close> and the conversion to \<open>int\<close>.\<close>

definition shape_at :: "int list \<Rightarrow> nat \<Rightarrow> takt_error + int" where
  "shape_at shape i = (if i < length shape then Inr (to_int32 (shape ! i)) else Inl (Out_of_range ''vector::at''))"

definition bench_image :: "rounding \<Rightarrow> ('o, 'c) machine \<Rightarrow> bench_options \<Rightarrow> takt_error + image \<times> string" where
  "bench_image d w bo =
     (if bo_image bo \<noteq> []
      then bind_result (make_source d w (default_source_settings\<lparr>ss_uri := bo_image bo\<rparr>)) (\<lambda>source.
           bind_result (source_read source empty_image) (\<lambda>(got, img, source).
             if \<not> got then Inl (Runtime_error (''cannot read '' @ bo_image bo)) else Inr (img, bo_image bo)))
      else bind_result (make_synthetic \<lparr>syn_width = 1280, syn_height = 720, syn_fps = 0, syn_frame_count = 1, syn_num_objects = 4\<rparr>) (\<lambda>s.
           bind_result (synthetic_read d (m_libm w) (m_source_clock w 0) empty_image s) (\<lambda>(got, img, s, wake).
             Inr (img, ''synthetic 1280x720''))))"

record 'b bench =
  be_backend :: "'b backend"
  be_width :: int
  be_height :: int
  be_image :: image
  be_image_desc :: string
  be_letterboxer :: letterboxer
  be_decoder :: yolo_decoder
  be_nms :: nms_options
  be_input :: "real list"
  be_output :: "real list"
  be_detections :: "detection list"
  be_pre :: latency_histogram
  be_inference :: latency_histogram
  be_post :: latency_histogram
  be_total :: latency_histogram
  be_clock_reads :: nat

definition bench_setup :: "rounding \<Rightarrow> rounding \<Rightarrow> ('o, 'c) machine \<Rightarrow> bench_options \<Rightarrow> takt_error + 'o any_engine bench" where
  "bench_setup r d w bo =
     bind_result (make_backend r d w (bo_backend bo)) (\<lambda>b.
     bind_result (shape_at (spec_shape (input_spec b)) 3) (\<lambda>width.
     bind_result (shape_at (spec_shape (input_spec b)) 2) (\<lambda>height.
     bind_result (bench_image d w bo) (\<lambda>(img, desc).
     bind_result (make_letterboxer r width height 114) (\<lambda>lb.
     bind_result (yolo_layout_from_shape (spec_shape (output_spec b))) (\<lambda>layout.
     bind_result (make_decoder layout) (\<lambda>dec.
     bind_result (element_count (input_spec b)) (\<lambda>n_in.
     bind_result (element_count (output_spec b)) (\<lambda>n_out.
       Inr \<lparr>be_backend = b, be_width = width, be_height = height, be_image = img, be_image_desc = desc,
         be_letterboxer = lb, be_decoder = dec,
         be_nms = \<lparr>iou_threshold = bo_iou bo, max_detections = 300, max_candidates = 30000, class_agnostic = False\<rparr>,
         be_input = replicate (unat n_in) 0, be_output = replicate (unat n_out) 0, be_detections = [],
         be_pre = empty_histogram, be_inference = empty_histogram, be_post = empty_histogram, be_total = empty_histogram,
         be_clock_reads = 0\<rparr>)))))))))"

section \<open>The measured loop\<close>

definition bench_record :: "int \<Rightarrow> int \<Rightarrow> int \<Rightarrow> int \<Rightarrow> 'b bench \<Rightarrow> 'b bench" where
  "bench_record a b c e st =
     st\<lparr>be_pre := record_latency (be_pre st) a, be_inference := record_latency (be_inference st) b,
       be_post := record_latency (be_post st) c, be_total := record_latency (be_total st) e\<rparr>"

definition bench_iteration ::
  "(detection list \<Rightarrow> detection list) \<Rightarrow> rounding \<Rightarrow> rounding \<Rightarrow> (nat \<Rightarrow> int) \<Rightarrow> bench_options \<Rightarrow> int \<Rightarrow>
   'b bench \<Rightarrow> takt_error + 'b bench"
where
  "bench_iteration srt r d clk bo i st =
     (let recording = (bo_warmup bo \<le> i);
          c = be_clock_reads st;
          frame_start = clk c;
          t0 = clk (c + 1)
      in bind_result (letterbox_run r d (image_as_view (be_image st)) (be_input st) (be_letterboxer st)) (\<lambda>(lb, inp, t).
         let t1 = clk (c + 2)
         in bind_result (backend_infer (be_backend st) inp (be_output st)) (\<lambda>(b, out).
            let t2 = clk (c + 3)
            in bind_result (decode r (be_decoder st) out (bo_conf bo)) (\<lambda>(dec, dets).
               let dets = scale_to_source r t (nms_apply srt r (be_nms st) dets);
                   t3 = clk (c + 4);
                   st = st\<lparr>be_letterboxer := lb, be_input := inp, be_backend := b, be_output := out, be_decoder := dec,
                     be_detections := dets, be_clock_reads := c + 5\<rparr>
               in Inr (if recording then bench_record (t1 - t0) (t2 - t1) (t3 - t2) (t3 - frame_start) st else st)))))"

fun bench_loop ::
  "(detection list \<Rightarrow> detection list) \<Rightarrow> rounding \<Rightarrow> rounding \<Rightarrow> (nat \<Rightarrow> int) \<Rightarrow> bench_options \<Rightarrow> int list \<Rightarrow>
   'b bench \<Rightarrow> takt_error + 'b bench"
where
  "bench_loop srt r d clk bo [] st = Inr st"
| "bench_loop srt r d clk bo (i # is) st = bind_result (bench_iteration srt r d clk bo i st) (bench_loop srt r d clk bo is)"

section \<open>Results\<close>

definition bench_row :: "string \<Rightarrow> latency_summary \<Rightarrow> string" where
  "bench_row name s = ''  '' @ pad_right 12 name @ '' '' @ pad_left 9 (show_fixed 3 (mean_ms s)) @ '' '' @
     pad_left 9 (show_fixed 3 (p50_ms s)) @ '' '' @ pad_left 9 (show_fixed 3 (p95_ms s)) @ '' '' @
     pad_left 9 (show_fixed 3 (p99_ms s)) @ [CHR 0x0A]"

definition bench_text :: "rounding \<Rightarrow> bench_options \<Rightarrow> 'b bench \<Rightarrow> string" where
  "bench_text d bo st =
     ''takt_bench | '' @ engine_name (be_backend st) @ '' | '' @ be_image_desc st @ '' | '' @ show_int (be_width st) @ ''x'' @
     show_int (be_height st) @ '' | '' @ show_int (bo_iterations bo) @ '' iterations (+'' @ show_int (bo_warmup bo) @ '' warm-up)'' @ [CHR 0x0A] @
     ''  '' @ pad_right 12 ''stage (ms)'' @ '' '' @ pad_left 9 ''mean'' @ '' '' @ pad_left 9 ''p50'' @ '' '' @ pad_left 9 ''p95'' @ '' '' @
     pad_left 9 ''p99'' @ [CHR 0x0A] @
     bench_row ''preprocess'' (summarize d (be_pre st)) @ bench_row ''inference'' (summarize d (be_inference st)) @
     bench_row ''postprocess'' (summarize d (be_post st)) @ bench_row ''total'' (summarize d (be_total st)) @
     ''  detections on last frame: '' @ show_nat (length (be_detections st)) @ [CHR 0x0A]"

text \<open>The format string puts the names between quotes as they are.\<close>

definition bench_json :: "rounding \<Rightarrow> bench_options \<Rightarrow> 'b bench \<Rightarrow> string" where
  "bench_json d bo st =
     ''{'' @ json_key ''implementation'' @ [quote] @ ''cpp'' @ [quote] @
     '','' @ json_key ''backend'' @ [quote] @ engine_name (be_backend st) @ [quote] @
     '','' @ json_key ''image'' @ [quote] @ be_image_desc st @ [quote] @
     '','' @ json_key ''width'' @ show_int (be_width st) @ '','' @ json_key ''height'' @ show_int (be_height st) @
     '','' @ json_key ''iterations'' @ show_int (bo_iterations bo) @
     '','' @ json_key ''detections'' @ show_nat (length (be_detections st)) @
     '','' @ json_key ''stages'' @ ''{'' @ json_key ''preprocess'' @ summary_to_json (summarize d (be_pre st)) @
     '','' @ json_key ''inference'' @ summary_to_json (summarize d (be_inference st)) @
     '','' @ json_key ''postprocess'' @ summary_to_json (summarize d (be_post st)) @
     '','' @ json_key ''total'' @ summary_to_json (summarize d (be_total st)) @ ''}}''"

definition bench_run ::
  "(detection list \<Rightarrow> detection list) \<Rightarrow> rounding \<Rightarrow> rounding \<Rightarrow> ('o, 'c) machine \<Rightarrow> bench_options \<Rightarrow>
   takt_error + 'o any_engine bench \<times> string \<times> (string \<times> string) option"
where
  "bench_run srt r d w bo =
     bind_result (bench_setup r d w bo) (\<lambda>st.
     bind_result (bench_loop srt r d (m_clock w) bo [0..bo_warmup bo + bo_iterations bo - 1] st) (\<lambda>st.
       Inr (st, bench_text d bo st,
            if bo_json bo = [] then None else Some (bo_json bo, bench_json d bo st @ [CHR 0x0A]))))"

section \<open>What is measured\<close>

lemma record_latency_count: "hist_count (record_latency h ns) = hist_count h + 1"
  by (simp add: record_latency_def record_us_def Let_def)

definition bench_counts :: "'b bench \<Rightarrow> u64 list" where
  "bench_counts st = map hist_count [be_pre st, be_inference st, be_post st, be_total st]"

lemma bench_record_counts:
  "bench_counts (bench_record a b c e st) = map (\<lambda>n. n + 1) (bench_counts st)"
  "be_clock_reads (bench_record a b c e st) = be_clock_reads st"
  by (simp_all add: bench_counts_def bench_record_def record_latency_count)

lemma bench_iteration_counts:
  assumes "bench_iteration srt r d clk bo i st = Inr st'"
  shows "bench_counts st' = map (\<lambda>c. if bo_warmup bo \<le> i then c + 1 else c) (bench_counts st)"
    "be_clock_reads st' = be_clock_reads st + 5"
proof -
  obtain st1 a b c e where st': "st' = (if bo_warmup bo \<le> i then bench_record a b c e st1 else st1)"
    and st1: "bench_counts st1 = bench_counts st" "be_clock_reads st1 = be_clock_reads st + 5"
  proof -
    from assms obtain lb inp t b out dec dets where
      "st' = (let c = be_clock_reads st; st1 = st\<lparr>be_letterboxer := lb, be_input := inp, be_backend := b, be_output := out, be_decoder := dec,
             be_detections := scale_to_source r t (nms_apply srt r (be_nms st) dets), be_clock_reads := c + 5\<rparr>
         in if bo_warmup bo \<le> i then bench_record (clk (c + 2) - clk (c + 1)) (clk (c + 3) - clk (c + 2)) (clk (c + 4) - clk (c + 3))
              (clk (c + 4) - clk c) st1 else st1)"
      unfolding bench_iteration_def Let_def bind_result_Inr_iff by (force simp: bind_result_Inr_iff)
    then show thesis unfolding Let_def by (rule that) (simp_all add: bench_counts_def)
  qed
  show "bench_counts st' = map (\<lambda>c. if bo_warmup bo \<le> i then c + 1 else c) (bench_counts st)"
    "be_clock_reads st' = be_clock_reads st + 5"
    using st1 by (simp_all add: st' bench_record_counts)
qed

lemma bench_loop_counts:
  assumes "bench_loop srt r d clk bo is st = Inr st'"
  shows "bench_counts st' = map (\<lambda>c. c + of_nat (length (filter (\<lambda>i. bo_warmup bo \<le> i) is))) (bench_counts st) \<and>
    be_clock_reads st' = be_clock_reads st + 5 * length is"
  using assms
proof (induction "is" arbitrary: st)
  case (Cons i "is")
  obtain st1 where s: "bench_iteration srt r d clk bo i st = Inr st1" "bench_loop srt r d clk bo is st1 = Inr st'"
    using Cons.prems by (auto simp: bind_result_Inr_iff)
  show ?case using Cons.IH [OF s(2)] bench_iteration_counts [OF s(1)] by (simp add: comp_def add.assoc [symmetric])
qed simp

lemma count_measured:
  assumes "0 \<le> warm"
  shows "length (filter (\<lambda>i. warm \<le> i) [0..warm + n - 1]) = nat n"
proof -
  have "{i. warm \<le> i} \<inter> set [0..warm + n - 1] = {warm..warm + n - 1}" using assms by auto
  then show ?thesis by (simp add: distinct_length_filter)
qed

section \<open>The JSON result\<close>

text \<open>A name that JSON needs no escapes for.\<close>

definition plain_text :: "string \<Rightarrow> bool" where
  "plain_text s \<longleftrightarrow> list_all (\<lambda>c. json_escape c = [c]) s"

definition bench_value :: "rounding \<Rightarrow> bench_options \<Rightarrow> 'b bench \<Rightarrow> json" where
  "bench_value d bo st = Jobj
     [(''implementation'', Jstr ''cpp''), (''backend'', Jstr (engine_name (be_backend st))), (''image'', Jstr (be_image_desc st)),
      (''width'', Jnum (show_int (be_width st))), (''height'', Jnum (show_int (be_height st))),
      (''iterations'', Jnum (show_int (bo_iterations bo))), (''detections'', Jnum (show_nat (length (be_detections st)))),
      (''stages'', Jobj [(''preprocess'', summary_value (summarize d (be_pre st))), (''inference'', summary_value (summarize d (be_inference st))),
         (''postprocess'', summary_value (summarize d (be_post st))), (''total'', summary_value (summarize d (be_total st)))])]"

lemma plain_string: "plain_text s \<Longrightarrow> append_json_string [] s = [quote] @ s @ [quote]"
proof -
  assume "plain_text s"
  then have "concat (map json_escape s) = s" by (induction s) (simp_all add: plain_text_def)
  then show ?thesis by (simp add: append_json_string_def)
qed

lemma render_bench:
  assumes "plain_text (engine_name (be_backend st))" "plain_text (be_image_desc st)"
  shows "render (bench_value d bo st) = bench_json d bo st"
proof -
  have cpp: "append_json_string [] ''cpp'' = [quote] @ ''cpp'' @ [quote]"
    by (rule plain_string) (simp add: plain_text_def json_escape_def quote_def backslash_def)
  show ?thesis
    unfolding bench_value_def render_object bench_json_def
    by (simp add: render_plain json_escape_def quote_def backslash_def render_summary render_object
        plain_string [OF assms(1), unfolded quote_def] plain_string [OF assms(2), unfolded quote_def] cpp [unfolded quote_def])
qed

section \<open>A benchmark of the fake engine always ends\<close>

lemma length_letterbox_writes [simp]:
  "length (fill a b v out) = length out"
  "length (fill_padding_rows lb tw up rh out) = length out"
  "length (fill_row r source lb tw left up rw dy out) = length out"
proof -
  have upd: "length (fold (\<lambda>i out. out[f i := g i]) is out) = length out" for f g "is" and out :: "real list"
    by (induction "is" arbitrary: out) simp_all
  have fld: "length (fold h ks out) = length out" if "\<And>k out. length (h k out) = length out" for h ks and out :: "real list"
    using that by (induction ks arbitrary: out) simp_all
  show fill: "length (fill a b v out) = length out" for a b v out by (simp add: fill_def upd)
  show "length (fill_padding_rows lb tw up rh out) = length out"
    unfolding fill_padding_rows_def Let_def by (rule fld) (simp add: fill)
  show "length (fill_row r source lb tw left up rw dy out) = length out"
    unfolding fill_row_def Let_def by (subst fld, simp add: upd) (rule fld, simp add: fill)
qed

lemma letterbox_run_total:
  assumes "letterboxer_ok r d lb" "\<not> view_empty source" "tensor_size lb \<le> length out"
  obtains lb' out' t where "letterbox_run r d source out lb = Inr (lb', out', t)" "letterboxer_ok r d lb'"
    "tensor_size lb' = tensor_size lb" "length out' = length out"
proof -
  obtain lb' where lb': "prepare r d source lb = Inr lb'" "letterboxer_ok r d lb'"
    "target_width lb' = target_width lb" "target_height lb' = target_height lb"
    using prepare_ok [OF assms(1,2)] by blast
  have len: "length (fold (fill_row r source lb' a b c e) ks out1) = length out1" for a b c e ks out1
    by (induction ks arbitrary: out1) simp_all
  have "\<exists>out' t. letterbox_run r d source out lb = Inr (lb', out', t) \<and> length out' = length out"
    using assms(2,3) lb' by (simp add: letterbox_run_def Let_def len tensor_size_def)
  with lb'(2-4) show thesis using that [of lb'] by (auto simp: tensor_size_def)
qed

definition bench_ready :: "rounding \<Rightarrow> rounding \<Rightarrow> 'o ort \<Rightarrow> 'o any_engine bench \<Rightarrow> bool" where
  "bench_ready r d lib st \<longleftrightarrow> letterboxer_ok r d (be_letterboxer st) \<and> \<not> view_empty (image_as_view (be_image st)) \<and>
     tensor_size (be_letterboxer st) \<le> length (be_input st) \<and> 0 < num_classes (decoder_layout (be_decoder st)) \<and>
     num_anchors (decoder_layout (be_decoder st)) * (4 + num_classes (decoder_layout (be_decoder st))) \<le> length (be_output st) \<and>
     (\<exists>fb n m. be_backend st = erase_backend r d lib (Inl fb) \<and>
        element_count (fk_input_spec fb) = Inr n \<and> unat n \<le> length (be_input st) \<and>
        element_count (fk_output_spec fb) = Inr m \<and> unat m \<le> length (be_output st))"

lemma fake_infer_fits:
  assumes "element_count (fk_input_spec fb) = Inr n" "unat n \<le> length inp"
    and "element_count (fk_output_spec fb) = Inr m" "unat m \<le> length out"
  obtains fb' out' where "fake_infer r d fb inp out = Inr (fb', out')" "length out' = length out"
    "fk_input_spec fb' = fk_input_spec fb" "fk_output_spec fb' = fk_output_spec fb"
proof (cases "fake_infer r d fb inp out")
  case (Inl e)
  then show ?thesis using assms by (simp add: fake_infer_def Let_def not_less [symmetric])
next
  case (Inr res)
  then show ?thesis using fake_infer_keeps that by (metis surj_pair)
qed

lemma bench_iteration_ready:
  assumes "bench_ready r d lib st"
  shows "\<exists>st'. bench_iteration srt r d clk bo i st = Inr st' \<and> bench_ready r d lib st' \<and> be_image_desc st' = be_image_desc st"
proof -
  note R = assms [unfolded bench_ready_def]
  obtain lb inp t where l: "letterbox_run r d (image_as_view (be_image st)) (be_input st) (be_letterboxer st) = Inr (lb, inp, t)"
    "letterboxer_ok r d lb" "tensor_size lb = tensor_size (be_letterboxer st)" "length inp = length (be_input st)"
    using R by (elim conjE) (rule letterbox_run_total)
  obtain fb n m where b: "be_backend st = erase_backend r d lib (Inl fb)"
    "element_count (fk_input_spec fb) = Inr n" "unat n \<le> length (be_input st)"
    "element_count (fk_output_spec fb) = Inr m" "unat m \<le> length (be_output st)"
    using R by blast
  obtain fb' out where f: "fake_infer r d fb inp (be_output st) = Inr (fb', out)" "length out = length (be_output st)"
    "fk_input_spec fb' = fk_input_spec fb" "fk_output_spec fb' = fk_output_spec fb"
    using fake_infer_fits [OF b(2) _ b(4,5)] b(3) l(4) by metis
  have infer: "backend_infer (be_backend st) inp (be_output st) = Inr (erase_backend r d lib (Inl fb'), out)"
    using f by (simp add: b(1) backend_infer_def erase_backend_def any_infer_def any_input_spec_def any_output_spec_def)
  obtain dec dets where dc: "decode r (be_decoder st) out (bo_conf bo) = Inr (dec, dets)" "decoder_layout dec = decoder_layout (be_decoder st)"
    using decode_spec_gen [of "be_decoder st" out r "bo_conf bo"] R f(2) by auto
  let ?st = "st\<lparr>be_letterboxer := lb, be_input := inp, be_backend := erase_backend r d lib (Inl fb'), be_output := out, be_decoder := dec,
     be_detections := scale_to_source r t (nms_apply srt r (be_nms st) dets), be_clock_reads := be_clock_reads st + 5\<rparr>"
  have ready: "bench_ready r d lib ?st"
    using R l(2-4) f(2-4) dc(2) b(2-5) unfolding bench_ready_def by auto
  then have rec: "bench_ready r d lib (bench_record a b c e ?st) \<and> be_image_desc (bench_record a b c e ?st) = be_image_desc st" for a b c e
    by (simp add: bench_ready_def bench_record_def)
  show ?thesis using ready rec by (simp add: bench_iteration_def l(1) infer dc(1) Let_def)
qed

lemma bench_loop_ready:
  assumes "bench_ready r d lib st"
  shows "\<exists>st'. bench_loop srt r d clk bo is st = Inr st' \<and> bench_ready r d lib st' \<and> be_image_desc st' = be_image_desc st"
  using assms
proof (induction "is" arbitrary: st)
  case (Cons i "is")
  obtain st1 where 1: "bench_iteration srt r d clk bo i st = Inr st1" "bench_ready r d lib st1" "be_image_desc st1 = be_image_desc st"
    using bench_iteration_ready [OF Cons.prems] by blast
  from Cons.IH [OF 1(2)] 1 show ?case by simp
qed simp

text \<open>The set-up with the synthetic picture and an engine whose tensors can be counted.\<close>

definition fake_sizes_ok :: "rounding \<Rightarrow> backend_settings \<Rightarrow> bool" where
  "fake_sizes_ok d bs \<longleftrightarrow> backend_kind bs = ''fake'' \<and> 0 < bs_fake_input bs \<and> bs_fake_input bs < 2 ^ 31 \<and>
     0 < bs_fake_classes bs \<and> 4 + bs_fake_classes bs < 2 ^ 31 \<and>
     5 \<le> fk_num_anchors (fake_settings d bs) \<and> fk_num_anchors (fake_settings d bs) < 2 ^ 31"

lemma synthetic_bench_image:
  assumes "bo_image bo = []"
  obtains img where "bench_image d w bo = Inr (img, ''synthetic 1280x720'')" "image_width img = 1280" "image_height img = 720"
proof -
  let ?s = "\<lparr>syn_options = \<lparr>syn_width = 1280, syn_height = 720, syn_fps = 0, syn_frame_count = 1, syn_num_objects = 4\<rparr>,
    syn_produced = 0, syn_next_deadline = 0\<rparr>"
  obtain got img src wake where r: "synthetic_read d (m_libm w) (m_source_clock w 0) empty_image ?s = Inr (got, img, src, wake)"
    by (rule synthetic_read_ok [of ?s]) simp_all
  have "bench_image d w bo = Inr (img, ''synthetic 1280x720'')"
    using r assms by (simp add: bench_image_def make_synthetic_def)
  then show thesis by (rule that) (use synthetic_read_result(1,5) [OF r] in simp_all)
qed

lemma product_fits: "0 < a \<Longrightarrow> a < 2 ^ 31 \<Longrightarrow> 0 < b \<Longrightarrow> b < 2 ^ 31 \<Longrightarrow> 3 * (a * b) < (2 :: int) ^ 64"
proof -
  assume "0 < a" "a < 2 ^ 31" "0 < b" "b < 2 ^ 31"
  then have "a * b \<le> 2 ^ 31 * 2 ^ 31" by (intro mult_mono) simp_all
  then show ?thesis by simp
qed

lemma head_layout:
  assumes "5 \<le> a" "5 \<le> b"
  obtains layout where "yolo_layout_from_shape [1, a, b] = Inr layout" "0 < num_classes layout" "0 < num_anchors layout"
    "num_anchors layout * (4 + num_classes layout) = nat (a * b)"
proof -
  let ?l = "if a < b then \<lparr>num_anchors = nat b, num_classes = nat a - 4, channels_first = True\<rparr>
    else \<lparr>num_anchors = nat a, num_classes = nat b - 4, channels_first = False\<rparr>"
  have "4 + (nat a - 4) = nat a" "4 + (nat b - 4) = nat b" and ge: "\<not> nat a < 5" "\<not> nat b < 5" using assms by linarith+
  then have "num_anchors ?l * (4 + num_classes ?l) = nat (a * b)" using assms by (simp add: nat_mult_distrib)
  moreover have "yolo_layout_from_shape [1, a, b] = Inr ?l" using assms ge by (simp add: yolo_layout_from_shape_def Let_def)
  moreover have "0 < num_classes ?l" "0 < num_anchors ?l" using assms ge by auto
  ultimately show thesis using that [of ?l] by blast
qed

text \<open>The fake engine of the settings, its tensors and the layout of its head.\<close>

lemma fake_engine_parts:
  assumes "fake_sizes_ok d bs"
  obtains fb n m layout where "make_backend r d w bs = Inr (erase_backend r d (m_ort w) (Inl fb))"
    "spec_shape (fk_input_spec fb) = [1, 3, bs_fake_input bs, bs_fake_input bs]"
    "element_count (fk_input_spec fb) = Inr n" "unat n = 3 * nat (bs_fake_input bs) * nat (bs_fake_input bs)"
    "element_count (fk_output_spec fb) = Inr m" "yolo_layout_from_shape (spec_shape (fk_output_spec fb)) = Inr layout"
    "num_anchors layout * (4 + num_classes layout) = unat m" "0 < num_classes layout" "0 < num_anchors layout"
proof -
  let ?o = "fake_settings d bs"
  let ?s = "bs_fake_input bs" and ?C = "bs_fake_classes bs" and ?A = "fk_num_anchors ?o"
  have sizes: "backend_kind bs = ''fake''" "0 < ?s" "?s < 2 ^ 31" "0 < ?C" "4 + ?C < 2 ^ 31" "5 \<le> ?A" "?A < 2 ^ 31"
    using assms by (simp_all add: fake_sizes_ok_def)
  have opts: "fk_input_width ?o = ?s" "fk_input_height ?o = ?s" "fk_num_classes ?o = ?C" "fk_num_objects ?o = 3"
    by (simp_all add: fake_settings_def default_fake_options_def Let_def)
  obtain fb where fb: "make_fake_backend ?o = Inr fb" "spec_shape (fk_input_spec fb) = [1, 3, ?s, ?s]"
    "spec_shape (fk_output_spec fb) = [1, 4 + ?C, ?A]"
    using sizes opts by (auto simp: make_fake_backend_def)
  obtain n where n: "element_count (fk_input_spec fb) = Inr n" "unat n = nat (3 * (?s * ?s))"
    using element_count_small [of "fk_input_spec fb"] product_fits [OF sizes(2,3,2,3)] sizes(2) by (auto simp: fb(2))
  have "(4 + ?C) * ?A < 2 ^ 64" using product_fits [of "4 + ?C" ?A] sizes by simp
  then obtain m where m: "element_count (fk_output_spec fb) = Inr m" "unat m = nat ((4 + ?C) * ?A)"
    using element_count_small [of "fk_output_spec fb"] sizes by (auto simp: fb(3))
  obtain layout where layout: "yolo_layout_from_shape [1, 4 + ?C, ?A] = Inr layout" "0 < num_classes layout" "0 < num_anchors layout"
    "num_anchors layout * (4 + num_classes layout) = nat ((4 + ?C) * ?A)"
    by (rule head_layout [of "4 + ?C" ?A]) (use sizes in simp_all)
  have mb: "make_backend r d w bs = Inr (erase_backend r d (m_ort w) (Inl fb))"
    using sizes(1) fb(1) by (simp add: make_backend_def)
  have "unat n = 3 * nat ?s * nat ?s" using n(2) sizes(2) by (simp add: nat_mult_distrib)
  with mb fb(2,3) n(1) m layout show thesis using that [of fb n m layout] by simp
qed

lemma fake_side:
  assumes "fake_sizes_ok d bs"
  shows "0 < bs_fake_input bs" "to_int32 (bs_fake_input bs) = bs_fake_input bs"
  using assms by (simp_all add: fake_sizes_ok_def to_int32_def)

lemma bench_setup_ready:
  assumes "bo_image bo = []" "fake_sizes_ok d (bo_backend bo)"
  shows "\<exists>st. bench_setup r d w bo = Inr st \<and> bench_ready r d (m_ort w) st \<and> be_image_desc st = ''synthetic 1280x720''"
proof -
  let ?s = "bs_fake_input (bo_backend bo)"
  obtain fb n m layout where E: "make_backend r d w (bo_backend bo) = Inr (erase_backend r d (m_ort w) (Inl fb))"
    "spec_shape (fk_input_spec fb) = [1, 3, ?s, ?s]" "element_count (fk_input_spec fb) = Inr n" "unat n = 3 * nat ?s * nat ?s"
    "element_count (fk_output_spec fb) = Inr m" "yolo_layout_from_shape (spec_shape (fk_output_spec fb)) = Inr layout"
    "num_anchors layout * (4 + num_classes layout) = unat m" "0 < num_classes layout" "0 < num_anchors layout"
    by (rule fake_engine_parts [OF assms(2)])
  note side = fake_side [OF assms(2)]
  obtain img where img: "bench_image d w bo = Inr (img, ''synthetic 1280x720'')" "image_width img = 1280" "image_height img = 720"
    by (rule synthetic_bench_image [OF assms(1)])
  obtain lb where lb: "make_letterboxer r ?s ?s 114 = Inr lb" using side(1) by (simp add: make_letterboxer_def)
  note LB = make_letterboxer_ok [OF lb]
  obtain dec where dec: "make_decoder layout = Inr dec" "decoder_layout dec = layout" using E(8,9) by (simp add: make_decoder_def)
  have "tensor_size lb = unat n" using LB E(4) by (simp add: tensor_size_def)
  then show ?thesis
    using LB E(3,5,7,8) img(2,3)
    by (simp add: bench_setup_def E(1,2,6) erase_backend_def any_input_spec_def any_output_spec_def shape_at_def side(2) img(1) lb
        dec bench_ready_def view_empty_def image_as_view_def)
qed

lemma fake_bench_runs:
  assumes "bo_image bo = []" "fake_sizes_ok d (bo_backend bo)"
  obtains st tbl where "bench_run srt r d w bo =
      Inr (st, tbl, if bo_json bo = [] then None else Some (bo_json bo, bench_json d bo st @ [CHR 0x0A]))"
    "engine_name (be_backend st) = ''fake''" "be_image_desc st = ''synthetic 1280x720''"
proof -
  obtain st0 where st0: "bench_setup r d w bo = Inr st0" "bench_ready r d (m_ort w) st0" "be_image_desc st0 = ''synthetic 1280x720''"
    using bench_setup_ready [OF assms] by blast
  from bench_loop_ready [OF st0(2)] obtain st where st: "bench_ready r d (m_ort w) st"
    "bench_loop srt r d (m_clock w) bo [0..bo_warmup bo + bo_iterations bo - 1] st0 = Inr st" "be_image_desc st = be_image_desc st0" by blast
  show thesis
  proof (rule that [of st])
    show "engine_name (be_backend st) = ''fake''" using st(1) by (auto simp: bench_ready_def erase_backend_def)
  qed (simp_all add: bench_run_def st0 st)
qed

section \<open>The properties\<close>

text \<open>
  A benchmark of the fake engine on the synthetic picture always finishes and writes its result: no
  buffer is ever too small, whatever the side, the classes, the numbers of iterations, the thresholds
  and the times the clock shows.
\<close>

theorem bench_completes:
  assumes "bo_image bo = []" "fake_sizes_ok d (bo_backend bo)"
  shows "\<exists>st tbl. bench_run srt r d w bo =
    Inr (st, tbl, if bo_json bo = [] then None else Some (bo_json bo, bench_json d bo st @ [CHR 0x0A]))"
  by (rule fake_bench_runs [OF assms]) blast

text \<open>
  What a benchmark measures. Each of the four histograms of a finished benchmark has exactly one
  sample per iteration and none of the warm-up; the clock was read five times per pass.
\<close>

theorem bench_measures:
  assumes "bench_run srt r d w bo = Inr (st, tbl, file)" "0 \<le> bo_warmup bo"
  shows "bench_counts st = replicate 4 (of_nat (nat (bo_iterations bo))) \<and>
    be_clock_reads st = 5 * nat (bo_warmup bo + bo_iterations bo)"
proof -
  obtain st0 where s: "bench_setup r d w bo = Inr st0"
    "bench_loop srt r d (m_clock w) bo [0..bo_warmup bo + bo_iterations bo - 1] st0 = Inr st"
    using assms(1) by (auto simp: bench_run_def bind_result_Inr_iff)
  have "bench_counts st0 = replicate 4 0 \<and> be_clock_reads st0 = 0"
    using s(1) by (auto simp: bench_setup_def bind_result_Inr_iff bench_counts_def empty_histogram_def replicate_numeral)
  then show ?thesis
    using bench_loop_counts [OF s(2)] count_measured [OF assms(2), of "bo_iterations bo"] by (simp add: nat_diff_distrib)
qed

text \<open>
  The JSON result of a benchmark is a JSON document with the members of the schema, provided
  the names of the engine and of the image contain nothing that JSON has to escape.
\<close>

theorem bench_json_document:
  assumes "plain_text (engine_name (be_backend st))" "plain_text (be_image_desc st)"
  shows "read_json (bench_json d bo st) = Some (bench_value d bo st)"
proof -
  have "json_ok (bench_value d bo st)" by (simp add: bench_value_def summary_value_def)
  from read_json_render [OF this] show ?thesis by (simp add: render_bench [OF assms])
qed

text \<open>A head of two classes on a side of 64 pixels, one pass of warm-up and two that count.\<close>

definition small_bench :: bench_options where
  "small_bench = (default_bench_options round32)\<lparr>bo_backend := default_backend_settings\<lparr>bs_fake_input := 64, bs_fake_classes := 2\<rparr>,
     bo_iterations := 2, bo_warmup := 1\<rparr>"

lemma small_bench_ok: "bo_image small_bench = []" "fake_sizes_ok d (bo_backend small_bench)" "bo_json small_bench = []"
  by (simp_all add: small_bench_def default_bench_options_def fake_sizes_ok_def backend_kind_def default_backend_settings_def
      fake_settings_def default_fake_options_def signed_divide_int_def Let_def)

theorem bench_completes_witness:
  "\<exists>st tbl. bench_run sort_by_score round32 round64 tiny_machine small_bench = Inr (st, tbl, None)"
  using bench_completes [OF small_bench_ok(1,2), of sort_by_score round32 round64 tiny_machine] by (simp add: small_bench_ok(3))

theorem bench_measures_witness:
  "\<exists>st tbl. bench_run sort_by_score round32 round64 tiny_machine small_bench = Inr (st, tbl, None) \<and>
     bench_counts st = [2, 2, 2, 2] \<and> be_clock_reads st = 15"
proof -
  obtain st tbl where r: "bench_run sort_by_score round32 round64 tiny_machine small_bench = Inr (st, tbl, None)"
    by (rule fake_bench_runs [OF small_bench_ok(1,2), of sort_by_score round32 round64 tiny_machine]) (simp add: small_bench_ok(3))
  have "bo_iterations small_bench = 2" "bo_warmup small_bench = 1" by (simp_all add: small_bench_def)
  with bench_measures [OF r] r show ?thesis by (simp add: numeral_eq_Suc)
qed

theorem bench_json_document_witness:
  "\<exists>st tbl. bench_run sort_by_score round32 round64 tiny_machine small_bench = Inr (st, tbl, None) \<and>
     read_json (bench_json round64 small_bench st) = Some (bench_value round64 small_bench st)"
proof -
  obtain st tbl where r: "bench_run sort_by_score round32 round64 tiny_machine small_bench = Inr (st, tbl, None)"
    "engine_name (be_backend st) = ''fake''" "be_image_desc st = ''synthetic 1280x720''"
    by (rule fake_bench_runs [OF small_bench_ok(1,2), of sort_by_score round32 round64 tiny_machine]) (simp add: small_bench_ok(3))
  have "plain_text (engine_name (be_backend st))" "plain_text (be_image_desc st)"
    by (simp_all add: r(2,3) plain_text_def json_escape_def quote_def backslash_def)
  from bench_json_document [OF this] r(1) show ?thesis by blast
qed

text \<open>A member whose string holds an escape JSON does not have.\<close>

lemma bad_escape:
  "read_value (Suc (Suc (Suc (Suc (Suc n))))) (''{'' @ json_key ''implementation'' @ [quote] @ ''cpp'' @ [quote] @
     '','' @ json_key ''backend'' @ [quote] @ ''fake'' @ [quote] @ '','' @ json_key ''image'' @ [quote] @ ''C:'' @ [backslash] @ ''data.jpg'' @ rest) = None"
  by (simp add: json_key_def read_json_string_def read_string.simps(2) quote_def backslash_def)


end
