(* ===== verification/DemoRun.thy ===== *)
theory DemoRun
  imports TaktRun TaktBench
begin

text \<open>
  The whole program on its own parts: \<open>takt_run\<close> with the synthetic source, the fake engine and no overlay,
  as in the overload experiment of \<open>apps/takt_run.cpp\<close>. No stage, no buffer and no sink can fail, so the
  sequential run ends with a report that counts every frame of its limit.
\<close>

section \<open>What the stages need\<close>

definition json_sinks :: "rounding \<Rightarrow> rounding \<Rightarrow> ('o, 'c) machine \<Rightarrow> any_sink frame_sink list \<Rightarrow> bool" where
  "json_sinks r d w = list_all (\<lambda>k. \<exists>s n. k = any_frame_sink r d w (Inl (s, n)))"

definition buffers_fit :: "rounding \<Rightarrow> rounding \<Rightarrow> ('o, 'c) machine \<Rightarrow> ('o any_engine, any_sink) pipeline \<Rightarrow> nat \<Rightarrow> nat \<Rightarrow> bool" where
  "buffers_fit r d w p n_in n_out \<longleftrightarrow>
     (\<exists>fb n m. pl_backend p = erase_backend r d (m_ort w) (Inl fb) \<and>
        element_count (fk_input_spec fb) = Inr n \<and> unat n \<le> n_in \<and> element_count (fk_output_spec fb) = Inr m \<and> unat m \<le> n_out) \<and>
     tensor_size (pl_letterboxer p) \<le> n_in \<and>
     num_anchors (decoder_layout (pl_decoder p)) * (4 + num_classes (decoder_layout (pl_decoder p))) \<le> n_out"

definition demo_ok ::
  "rounding \<Rightarrow> rounding \<Rightarrow> ('o, 'c) machine \<Rightarrow> ('o any_engine, any_sink) pipeline \<Rightarrow> frame \<Rightarrow> bool"
where
  "demo_ok r d w p f \<longleftrightarrow> pl_ok r d p \<and> json_sinks r d w (pl_sinks p) \<and>
     buffers_fit r d w p (length (fr_input f)) (length (fr_output f)) \<and> \<not> view_empty (image_as_view (fr_image f))"

text \<open>A stage that never fails, and keeps what the next one needs, the buffers and the counters.\<close>

definition demo_keeps :: "('b, 'k) pipeline \<Rightarrow> frame \<Rightarrow> ('b, 'k) pipeline \<Rightarrow> frame \<Rightarrow> bool" where
  "demo_keeps p f p' f' \<longleftrightarrow> length (fr_input f') = length (fr_input f) \<and> length (fr_output f') = length (fr_output f) \<and>
     frames_captured (pl_metrics p') = frames_captured (pl_metrics p) \<and> pl_config p' = pl_config p"

definition never_fails ::
  "rounding \<Rightarrow> rounding \<Rightarrow> ('o, 'c) machine \<Rightarrow> ('o any_engine, any_sink) stage_fn \<Rightarrow> bool"
where
  "never_fails r d w fn \<longleftrightarrow> (\<forall>p f. demo_ok r d w p f \<longrightarrow>
     (\<exists>p' f'. fn p f = Some (Inr (p', f')) \<and> demo_ok r d w p' f' \<and> demo_keeps p f p' f'))"

lemma never_failsI:
  "(\<And>p f. demo_ok r d w p f \<Longrightarrow> \<exists>p' f'. fn p f = Some (Inr (p', f')) \<and> demo_ok r d w p' f' \<and> demo_keeps p f p' f') \<Longrightarrow>
   never_fails r d w fn"
  by (simp add: never_fails_def)

lemma never_failsD:
  assumes "never_fails r d w fn" "demo_ok r d w p f"
  obtains p' f' where "fn p f = Some (Inr (p', f'))" "demo_ok r d w p' f'" "demo_keeps p f p' f'"
  using assms unfolding never_fails_def by blast

lemma demo_keeps_trans: "demo_keeps p f p1 f1 \<Longrightarrow> demo_keeps p1 f1 p2 f2 \<Longrightarrow> demo_keeps p f p2 f2"
  by (simp add: demo_keeps_def)

lemma never_fails_seq:
  assumes "never_fails r d w fn" "never_fails r d w gn"
  shows "never_fails r d w (\<lambda>p f. then_run (fn p f) (\<lambda>(p, f). gn p f))"
proof (rule never_failsI)
  fix p f assume "demo_ok r d w p f"
  then obtain p1 f1 where 1: "fn p f = Some (Inr (p1, f1))" "demo_ok r d w p1 f1" "demo_keeps p f p1 f1"
    by (rule never_failsD [OF assms(1)])
  obtain p2 f2 where "gn p1 f1 = Some (Inr (p2, f2))" "demo_ok r d w p2 f2" "demo_keeps p1 f1 p2 f2"
    by (rule never_failsD [OF assms(2) 1(2)])
  with 1 show "\<exists>p' f'. then_run (fn p f) (\<lambda>(p, f). gn p f) = Some (Inr (p', f')) \<and> demo_ok r d w p' f' \<and> demo_keeps p f p' f'"
    using demo_keeps_trans by fastforce
qed

lemma demo_ok_clock [simp]:
  "demo_ok r d w (p\<lparr>clock_reads := c\<rparr>) f = demo_ok r d w p f"
  "demo_ok r d w (p\<lparr>clock_reads := c, pl_metrics := record_stage s ns (pl_metrics p)\<rparr>) (f\<lparr>service_time := t\<rparr>) = demo_ok r d w p f"
  by (simp_all add: demo_ok_def buffers_fit_def pl_ok_def metrics_ok_def record_stage_def)

lemma never_fails_timed:
  assumes "never_fails r d w fn"
  shows "never_fails r d w (timed s fn)"
proof (rule never_failsI)
  fix p f assume "demo_ok r d w p f"
  then have "demo_ok r d w (p\<lparr>clock_reads := clock_reads p + 1\<rparr>) f" by simp
  then obtain p1 f1 where 1: "fn (p\<lparr>clock_reads := clock_reads p + 1\<rparr>) f = Some (Inr (p1, f1))" "demo_ok r d w p1 f1"
    "demo_keeps (p\<lparr>clock_reads := clock_reads p + 1\<rparr>) f p1 f1"
    by (rule never_failsD [OF assms])
  have "\<exists>ns t. timed s fn p f = Some (Inr (p1\<lparr>clock_reads := clock_reads p1 + 1, pl_metrics := record_stage s ns (pl_metrics p1)\<rparr>,
      f1\<lparr>service_time := t\<rparr>))"
    using 1(1) by (simp add: timed_def clock_now_def Let_def) blast
  then obtain ns t where "timed s fn p f = Some (Inr (p1\<lparr>clock_reads := clock_reads p1 + 1, pl_metrics := record_stage s ns (pl_metrics p1)\<rparr>,
      f1\<lparr>service_time := t\<rparr>))" by blast
  moreover have "demo_keeps p f (p1\<lparr>clock_reads := clock_reads p1 + 1, pl_metrics := record_stage s ns (pl_metrics p1)\<rparr>) (f1\<lparr>service_time := t\<rparr>)"
    using 1(3) by (simp add: demo_keeps_def record_stage_def)
  ultimately show "\<exists>p' f'. timed s fn p f = Some (Inr (p', f')) \<and> demo_ok r d w p' f' \<and> demo_keeps p f p' f'"
    using 1(2) by simp
qed


section \<open>The stages\<close>

lemma preprocess_never_fails: "never_fails r d w (preprocess r d)"
  unfolding preprocess_def
proof (rule never_fails_timed, rule never_failsI)
  fix p f assume ok: "demo_ok r d w p f"
  note R = ok [unfolded demo_ok_def buffers_fit_def]
  have lb: "letterboxer_ok r d (pl_letterboxer p)" "tensor_size (pl_letterboxer p) \<le> length (fr_input f)"
    "\<not> view_empty (image_as_view (fr_image f))"
    using R by (simp_all add: pl_ok_def)
  obtain lb' inp t where l: "letterbox_run r d (image_as_view (fr_image f)) (fr_input f) (pl_letterboxer p) = Inr (lb', inp, t)"
    "letterboxer_ok r d lb'" "tensor_size lb' = tensor_size (pl_letterboxer p)" "length inp = length (fr_input f)"
    by (rule letterbox_run_total [OF lb(1,3,2)])
  show "\<exists>p' f'. preprocess_body r d p f = Some (Inr (p', f')) \<and> demo_ok r d w p' f' \<and> demo_keeps p f p' f'"
  proof (rule exI [of _ "p\<lparr>pl_letterboxer := lb'\<rparr>"], rule exI [of _ "f\<lparr>fr_input := inp, fr_letterbox := t\<rparr>"], intro conjI)
    show "demo_ok r d w (p\<lparr>pl_letterboxer := lb'\<rparr>) (f\<lparr>fr_input := inp, fr_letterbox := t\<rparr>)"
      using R l(2-4) by (simp add: demo_ok_def buffers_fit_def pl_ok_def)
  qed (simp_all add: preprocess_body_def l(1,4) demo_keeps_def)
qed

lemma fake_backend_infers:
  assumes "element_count (fk_input_spec fb) = Inr n" "unat n \<le> length inp"
    and "element_count (fk_output_spec fb) = Inr m" "unat m \<le> length out"
  obtains fb' out' where "backend_infer (erase_backend r d lib (Inl fb)) inp out = Inr (erase_backend r d lib (Inl fb'), out')"
    "length out' = length out" "fk_input_spec fb' = fk_input_spec fb" "fk_output_spec fb' = fk_output_spec fb"
proof -
  obtain fb' out' where f: "fake_infer r d fb inp out = Inr (fb', out')" "length out' = length out"
    "fk_input_spec fb' = fk_input_spec fb" "fk_output_spec fb' = fk_output_spec fb"
    by (rule fake_infer_fits [OF assms])
  show thesis
    by (rule that [OF _ f(2-4)])
      (use f in \<open>simp add: backend_infer_def erase_backend_def any_infer_def any_input_spec_def any_output_spec_def\<close>)
qed

lemma infer_never_fails: "never_fails r d w infer"
  unfolding infer_def
proof (rule never_fails_timed, rule never_failsI)
  fix p :: "('a any_engine, any_sink) pipeline" and f assume ok: "demo_ok r d w p f"
  note R = ok [unfolded demo_ok_def buffers_fit_def]
  obtain fb n m where b: "pl_backend p = erase_backend r d (m_ort w) (Inl fb)"
    "element_count (fk_input_spec fb) = Inr n" "unat n \<le> length (fr_input f)"
    "element_count (fk_output_spec fb) = Inr m" "unat m \<le> length (fr_output f)"
    using R by blast
  obtain fb' out where i: "backend_infer (pl_backend p) (fr_input f) (fr_output f) = Inr (erase_backend r d (m_ort w) (Inl fb'), out)"
    "length out = length (fr_output f)" "fk_input_spec fb' = fk_input_spec fb" "fk_output_spec fb' = fk_output_spec fb"
    unfolding b(1) by (rule fake_backend_infers [OF b(2-5)])
  let ?p = "p\<lparr>pl_backend := erase_backend r d (m_ort w) (Inl fb')\<rparr>" and ?f = "f\<lparr>fr_output := out\<rparr>"
  have "buffers_fit r d w ?p (length (fr_input ?f)) (length (fr_output ?f))"
    unfolding buffers_fit_def using R i(2-4) b(2-5) by (auto intro!: exI [of _ fb'])
  then have "demo_ok r d w ?p ?f" using R by (simp add: demo_ok_def pl_ok_def)
  then show "\<exists>p' f'. infer_body p f = Some (Inr (p', f')) \<and> demo_ok r d w p' f' \<and> demo_keeps p f p' f'"
    by (intro exI [of _ ?p], intro exI [of _ ?f]) (simp add: infer_body_def i(1,2) demo_keeps_def)
qed

lemma postprocess_never_fails: "never_fails r d w (postprocess srt r)"
  unfolding postprocess_def
proof (rule never_fails_timed, rule never_failsI)
  fix p :: "('a any_engine, any_sink) pipeline" and f assume ok: "demo_ok r d w p f"
  note R = ok [unfolded demo_ok_def buffers_fit_def]
  have "\<exists>dec dets. decode r (pl_decoder p) (fr_output f) (decode_threshold p) = Inr (dec, dets) \<and> decoder_layout dec = decoder_layout (pl_decoder p)"
    using decode_spec_gen [of "pl_decoder p" "fr_output f" r "decode_threshold p"] R by (auto simp: pl_ok_def)
  then obtain dec dets where dc: "decode r (pl_decoder p) (fr_output f) (decode_threshold p) = Inr (dec, dets)"
    "decoder_layout dec = decoder_layout (pl_decoder p)" by blast
  let ?p = "p\<lparr>pl_decoder := dec\<rparr>"
    and ?f = "f\<lparr>detections := scale_to_source r (fr_letterbox f) (nms_apply srt r (cfg_nms (pl_config p)) dets)\<rparr>"
  have "demo_ok r d w ?p ?f" using R dc(2) by (simp add: demo_ok_def buffers_fit_def pl_ok_def)
  then show "\<exists>p' f'. postprocess_body srt r p f = Some (Inr (p', f')) \<and> demo_ok r d w p' f' \<and> demo_keeps p f p' f'"
    by (intro exI [of _ ?p], intro exI [of _ ?f]) (simp add: postprocess_body_def dc(1) demo_keeps_def)
qed

lemma track_never_fails: "never_fails r d w (track_stage r d)"
  unfolding track_stage_def
proof (rule never_fails_timed, rule never_failsI)
  fix p :: "('a any_engine, any_sink) pipeline" and f assume ok: "demo_ok r d w p f"
  note R = ok [unfolded demo_ok_def buffers_fit_def]
  have "tracker_ok r (pl_tracker p)" using R by (simp add: pl_ok_def)
  from tracker_returns [OF this, of d "detections f"]
  obtain bt out where u: "tracker_update r d (detections f) (pl_tracker p) = Some (Inr (bt, out))" "tracker_ok r bt" by blast
  let ?p = "if cfg_enable_tracking (pl_config p) then p\<lparr>pl_tracker := bt\<rparr> else p"
    and ?g = "if cfg_enable_tracking (pl_config p) then f\<lparr>tracks := out\<rparr> else f"
  let ?f = "if decode_threshold p < cfg_score_threshold (pl_config p)
    then ?g\<lparr>detections := filter (\<lambda>x. \<not> det_score x \<le> cfg_score_threshold (pl_config p)) (detections ?g)\<rparr> else ?g"
  have "demo_ok r d w ?p ?f" using R u(2) by (simp add: demo_ok_def buffers_fit_def pl_ok_def)
  then show "\<exists>p' f'. track_body r d p f = Some (Inr (p', f')) \<and> demo_ok r d w p' f' \<and> demo_keeps p f p' f'"
    by (intro exI [of _ ?p], intro exI [of _ ?f]) (simp add: track_body_def u(1) demo_keeps_def)
qed

lemma json_sinks_consume: "json_sinks r d w ks \<Longrightarrow> \<exists>ks'. sinks_consume f ks = Inr ks' \<and> json_sinks r d w ks'"
  and json_sinks_start: "json_sinks r d w ks \<Longrightarrow> \<exists>ks'. sinks_start info ks = Inr ks' \<and> json_sinks r d w ks'"
  and json_sinks_finish: "json_sinks r d w ks \<Longrightarrow> \<exists>ks'. sinks_finish ks = Inr ks' \<and> json_sinks r d w ks'"
  unfolding sinks_consume_def sinks_start_def sinks_finish_def
  by (induction ks) (auto simp: json_sinks_def any_frame_sink_def)

lemma deliver_never_fails: "never_fails r d w deliver"
proof (rule never_failsI)
  fix p :: "('a any_engine, any_sink) pipeline" and f assume ok: "demo_ok r d w p f"
  have body: "never_fails r d w deliver_body"
  proof (rule never_failsI)
    fix p :: "('a any_engine, any_sink) pipeline" and f assume ok: "demo_ok r d w p f"
    then obtain ks where ks: "sinks_consume f (pl_sinks p) = Inr ks" "json_sinks r d w ks"
      using json_sinks_consume [of r d w "pl_sinks p" f] by (auto simp: demo_ok_def)
    then have "demo_ok r d w (p\<lparr>pl_sinks := ks\<rparr>) f" using ok by (simp add: demo_ok_def buffers_fit_def pl_ok_def)
    then show "\<exists>p' f'. deliver_body p f = Some (Inr (p', f')) \<and> demo_ok r d w p' f' \<and> demo_keeps p f p' f'"
      by (intro exI [of _ "p\<lparr>pl_sinks := ks\<rparr>"], intro exI [of _ f]) (simp add: deliver_body_def ks(1) demo_keeps_def)
  qed
  obtain p1 f1 where 1: "timed kSink deliver_body p f = Some (Inr (p1, f1))" "demo_ok r d w p1 f1" "demo_keeps p f p1 f1"
    by (rule never_failsD [OF never_fails_timed [OF body] ok])
  let ?p = "p1\<lparr>clock_reads := clock_reads p1 + 1, pl_metrics := (pl_metrics p1)\<lparr>end_to_end :=
    record_latency (end_to_end (pl_metrics p1)) (clock p1 (clock_reads p1) - captured_at f1), frames_completed := frames_completed (pl_metrics p1) + 1\<rparr>\<rparr>"
  have "demo_ok r d w ?p f1" using 1(2) by (simp add: demo_ok_def buffers_fit_def pl_ok_def metrics_ok_def)
  moreover have "demo_keeps p f ?p f1" using 1(3) by (simp add: demo_keeps_def)
  ultimately show "\<exists>p' f'. deliver p f = Some (Inr (p', f')) \<and> demo_ok r d w p' f' \<and> demo_keeps p f p' f'"
    by (intro exI [of _ ?p], intro exI [of _ f1]) (simp add: deliver_def 1(1) clock_now_def Let_def)
qed

lemma process_never_fails: "never_fails r d w (process_frame srt r d)"
  unfolding process_frame_def
  by (intro never_fails_seq preprocess_never_fails infer_never_fails postprocess_never_fails track_never_fails deliver_never_fails)


section \<open>The sequential loop\<close>

lemma demo_read:
  assumes "0 < syn_width (syn_options s)" "0 < syn_height (syn_options s)" "syn_frame_count (syn_options s) = 0"
  obtains img' s' where "source_read (any_frame_source d w (Inl (s, k))) img = Inr (True, img', any_frame_source d w (Inl (s', k + 1)))"
    "syn_options s' = syn_options s" "\<not> view_empty (image_as_view img')"
proof -
  obtain got img' s' wake where r: "synthetic_read d (m_libm w) (m_source_clock w k) img s = Inr (got, img', s', wake)"
    by (rule synthetic_read_ok [of s]) (use assms(1,2) in simp_all)
  note R = synthetic_read_result [OF r]
  have got: "got" using R(1) assms(3) by simp
  show thesis
    by (rule that [of img' s']) (use r got R(2) R(5) assms(1,2) in \<open>simp_all add: source_read_def any_frame_source_def view_empty_def image_as_view_def\<close>)
qed

text \<open>The pool of one frame: taken, written, recycled.\<close>

lemma one_frame_pool:
  "try_acquire \<lparr>storage = [f], free_frames = [0]\<rparr> = (Some 0, \<lparr>storage = [f], free_frames = []\<rparr>)"
  "frame_recycler (Some 0) \<lparr>storage = [g], free_frames = []\<rparr> = \<lparr>storage = [frame_reset g], free_frames = [0]\<rparr>"
  by (simp_all add: try_acquire_def take_locked_def frame_recycler_def recycle_def)

lemma demo_loop:
  assumes "0 < syn_width (syn_options s)" "0 < syn_height (syn_options s)" "syn_frame_count (syn_options s) = 0"
    and "pl_ok r d p" "json_sinks r d w (pl_sinks p)" "buffers_fit r d w p (length (fr_input f)) (length (fr_output f))"
    and "unat seq + n = unat (cfg_max_frames (pl_config p))" "cfg_max_frames (pl_config p) \<noteq> 0"
  shows "\<exists>source' p'. sequential_loop srt r d (\<lambda>_. False) k seq \<lparr>storage = [f], free_frames = [0]\<rparr>
      (any_frame_source d w (Inl (s, k'))) p = Some (Inr (source', p')) \<and>
    frames_captured (pl_metrics p') = frames_captured (pl_metrics p) + of_nat n \<and> json_sinks r d w (pl_sinks p')"
  using assms
proof (induction n arbitrary: s p f k seq k')
  case 0
  then show ?case by (subst sequential_loop.simps) (simp add: u64_less_unat)
next
  case (Suc n)
  obtain img' s' where rd: "source_read (any_frame_source d w (Inl (s, k'))) (fr_image f) = Inr (True, img', any_frame_source d w (Inl (s', k' + 1)))"
    "syn_options s' = syn_options s" "\<not> view_empty (image_as_view img')"
    by (rule demo_read [OF Suc.prems(1-3)])
  let ?p = "count_captured (p\<lparr>clock_reads := clock_reads p + 1\<rparr>)"
    and ?f = "f\<lparr>fr_image := img', captured_at := clock p (clock_reads p), sequence := seq\<rparr>"
  have "demo_ok r d w ?p ?f"
    using Suc.prems(4-6) rd(3) by (simp add: demo_ok_def buffers_fit_def count_captured_def pl_ok_def metrics_ok_def)
  then obtain p1 f1 where 1: "process_frame srt r d ?p ?f = Some (Inr (p1, f1))" "demo_ok r d w p1 f1" "demo_keeps ?p ?f p1 f1"
    by (rule never_failsD [OF process_never_fails])
  have cfg: "pl_config p1 = pl_config p" using 1(3) by (simp add: demo_keeps_def count_captured_def)
  have cap: "frames_captured (pl_metrics p1) = frames_captured (pl_metrics p) + 1"
    using 1(3) by (simp add: demo_keeps_def count_captured_def)
  have more: "seq < cfg_max_frames (pl_config p)" using Suc.prems(7) by (simp add: u64_less_unat)
  have "unat seq + 1 < 2 ^ 64" using Suc.prems(7) unat_u64_less [of "cfg_max_frames (pl_config p)"] by linarith
  then have seq: "unat (seq + 1) + n = unat (cfg_max_frames (pl_config p1))" using Suc.prems(7) cfg by (subst unat_plus_u64) simp_all
  have step: "sequential_loop srt r d (\<lambda>_. False) k seq \<lparr>storage = [f], free_frames = [0]\<rparr> (any_frame_source d w (Inl (s, k'))) p =
      sequential_loop srt r d (\<lambda>_. False) (k + 1) (seq + 1) \<lparr>storage = [frame_reset f1], free_frames = [0]\<rparr>
        (any_frame_source d w (Inl (s', k' + 1))) p1"
    using rd(1) 1(1) more by (subst sequential_loop.simps) (simp add: one_frame_pool clock_now_def)
  have fits: "pl_ok r d p1" "json_sinks r d w (pl_sinks p1)"
    "buffers_fit r d w p1 (length (fr_input (frame_reset f1))) (length (fr_output (frame_reset f1)))"
    using 1(2) by (simp_all add: demo_ok_def frame_reset_def)
  obtain source' p' where "sequential_loop srt r d (\<lambda>_. False) (k + 1) (seq + 1) \<lparr>storage = [frame_reset f1], free_frames = [0]\<rparr>
      (any_frame_source d w (Inl (s', k' + 1))) p1 = Some (Inr (source', p'))"
    "frames_captured (pl_metrics p') = frames_captured (pl_metrics p1) + of_nat n" "json_sinks r d w (pl_sinks p')"
    using Suc.IH [of s' p1 "frame_reset f1" "seq + 1" "k + 1" "k' + 1"] Suc.prems(1-3,8) rd(2) fits seq cfg by auto
  then show ?case using step cap by (simp add: add.assoc)
qed


section \<open>From the options to the report\<close>

definition demo_pipe ::
  "rounding \<Rightarrow> rounding \<Rightarrow> ('o, 'c) machine \<Rightarrow> ('o any_engine, any_sink) pipeline \<Rightarrow> u64 \<Rightarrow> u64 \<Rightarrow> bool"
where
  "demo_pipe r d w p n m \<longleftrightarrow> pl_ok r d p \<and> json_sinks r d w (pl_sinks p) \<and>
     (\<exists>fb. pl_backend p = erase_backend r d (m_ort w) (Inl fb) \<and>
        element_count (fk_input_spec fb) = Inr n \<and> element_count (fk_output_spec fb) = Inr m) \<and>
     tensor_size (pl_letterboxer p) \<le> unat n \<and>
     num_anchors (decoder_layout (pl_decoder p)) * (4 + num_classes (decoder_layout (pl_decoder p))) \<le> unat m"

lemma demo_pipe_fits: "demo_pipe r d w p n m \<Longrightarrow> buffers_fit r d w p (unat n) (unat m)"
  by (auto simp: demo_pipe_def buffers_fit_def)

lemma fake_warm_up:
  assumes "element_count (fk_input_spec fb) = Inr n" "unat n \<le> length inp"
    and "element_count (fk_output_spec fb) = Inr m" "unat m \<le> length out"
  shows "\<exists>fb'. warm_up k inp out (erase_backend r d lib (Inl fb)) = Inr (erase_backend r d lib (Inl fb')) \<and>
    fk_input_spec fb' = fk_input_spec fb \<and> fk_output_spec fb' = fk_output_spec fb"
  using assms
proof (induction k arbitrary: fb out)
  case (Suc k)
  obtain fb1 out1 where 1: "backend_infer (erase_backend r d lib (Inl fb)) inp out = Inr (erase_backend r d lib (Inl fb1), out1)"
    "length out1 = length out" "fk_input_spec fb1 = fk_input_spec fb" "fk_output_spec fb1 = fk_output_spec fb"
    by (rule fake_backend_infers [OF Suc.prems])
  have "\<exists>fb'. warm_up k inp out1 (erase_backend r d lib (Inl fb1)) = Inr (erase_backend r d lib (Inl fb')) \<and>
      fk_input_spec fb' = fk_input_spec fb1 \<and> fk_output_spec fb' = fk_output_spec fb1"
    by (rule Suc.IH) (use Suc.prems 1(2-4) in simp_all)
  then show ?case using 1 by auto
qed auto

lemma demo_begin:
  assumes "demo_pipe r d w p n m"
  shows "\<exists>p'. begin_run source mode p = Inr p' \<and> demo_pipe r d w p' n m \<and> pl_config p' = pl_config p \<and>
    pl_running p' = pl_running p \<and> frames_captured (pl_metrics p') = 0"
proof -
  note D = assms [unfolded demo_pipe_def]
  let ?p = "p\<lparr>pl_metrics := metrics_reset (pl_metrics p), pl_tracker := reset_tracker (pl_tracker p)\<rparr>"
  obtain fb where fb: "pl_backend p = erase_backend r d (m_ort w) (Inl fb)" "element_count (fk_input_spec fb) = Inr n"
    "element_count (fk_output_spec fb) = Inr m" using D by blast
  have specs: "input_spec (erase_backend r d (m_ort w) (Inl fb)) = fk_input_spec fb"
    "output_spec (erase_backend r d (m_ort w) (Inl fb)) = fk_output_spec fb"
    by (simp_all add: erase_backend_def any_input_spec_def any_output_spec_def)
  have "\<exists>fb'. warm_up_backend ?p = Inr (?p\<lparr>pl_backend := erase_backend r d (m_ort w) (Inl fb')\<rparr>) \<and>
      fk_input_spec fb' = fk_input_spec fb \<and> fk_output_spec fb' = fk_output_spec fb"
  proof (cases "0 < cfg_warmup_iterations (pl_config p)")
    case True
    obtain fb' where "warm_up (nat (cfg_warmup_iterations (pl_config p))) (replicate (unat n) (1 / 2)) (replicate (unat m) 0)
        (erase_backend r d (m_ort w) (Inl fb)) = Inr (erase_backend r d (m_ort w) (Inl fb'))"
      "fk_input_spec fb' = fk_input_spec fb" "fk_output_spec fb' = fk_output_spec fb"
      using fake_warm_up [OF fb(2) _ fb(3), of "replicate (unat n) (1 / 2)" "replicate (unat m) 0"
        "nat (cfg_warmup_iterations (pl_config p))" r d "m_ort w"] by auto
    then show ?thesis using True by (intro exI [of _ fb']) (simp add: warm_up_backend_def fb specs)
  next
    case False
    then show ?thesis by (intro exI [of _ fb]) (simp add: warm_up_backend_def fb(1) [symmetric])
  qed
  then obtain fb' where w: "warm_up_backend ?p = Inr (?p\<lparr>pl_backend := erase_backend r d (m_ort w) (Inl fb')\<rparr>)"
    "fk_input_spec fb' = fk_input_spec fb" "fk_output_spec fb' = fk_output_spec fb" by blast
  let ?q = "?p\<lparr>pl_backend := erase_backend r d (m_ort w) (Inl fb'), clock_reads := clock_reads p + 1\<rparr>"
  have "\<exists>info. begin_run source mode p =
      bind_result (sinks_start info (pl_sinks p)) (\<lambda>ks. Inr (?q\<lparr>pl_sinks := ks, pl_stop := False\<rparr>))"
    by (simp add: begin_run_def w(1) clock_now_def Let_def) blast
  then obtain info where b: "begin_run source mode p =
      bind_result (sinks_start info (pl_sinks p)) (\<lambda>ks. Inr (?q\<lparr>pl_sinks := ks, pl_stop := False\<rparr>))" by blast
  obtain ks where ks: "sinks_start info (pl_sinks p) = Inr ks" "json_sinks r d w ks"
    using json_sinks_start [of r d w "pl_sinks p" info] D by blast
  let ?r = "?q\<lparr>pl_sinks := ks, pl_stop := False\<rparr>"
  have run: "begin_run source mode p = Inr ?r" using b ks(1) by simp
  have "pl_ok r d ?r" using begin_run_result [OF run] D by blast
  then have "demo_pipe r d w ?r n m" using D ks(2) w(2,3) fb(2,3) by (auto simp: demo_pipe_def)
  then show ?thesis using run by (intro exI [of _ ?r]) simp
qed

text \<open>The options of a demonstration that writes at most the JSON lines file.\<close>

definition demo_options :: "rounding \<Rightarrow> ('o, 'c) machine \<Rightarrow> run_options \<Rightarrow> bool" where
  "demo_options d w o' \<longleftrightarrow> parse_ingress_policy (ro_policy o') \<noteq> None \<and> ro_ingress_capacity o' \<noteq> 0 \<and> ro_stage_queue o' \<noteq> 0 \<and>
     fake_sizes_ok d (ro_backend o') \<and> ss_uri (ro_source o') = ''synthetic'' \<and> 0 < ss_synthetic_width (ro_source o') \<and>
     0 < ss_synthetic_height (ro_source o') \<and> 0 \<le> ss_synthetic_fps (ro_source o') \<and> \<not> wants_overlay o' \<and>
     (ro_jsonl o' = [] \<or> m_opens w (ro_jsonl o'))"

lemma demo_prepared:
  assumes "demo_options d w o'"
  obtains p s n m where "prepare_run r d w o' = Inr (any_frame_source d w (Inl (s, 0)), p)" "demo_pipe r d w p n m" "\<not> pl_running p"
    "cfg_max_frames (pl_config p) = ro_max_frames o'" "0 < syn_width (syn_options s)" "0 < syn_height (syn_options s)"
    "syn_frame_count (syn_options s) = 0" "configure r o' = Inr (pl_config p)"
proof -
  note O = assms [unfolded demo_options_def]
  let ?s = "bs_fake_input (ro_backend o')"
  obtain cfg where cfg: "configure r o' = Inr cfg" using O by (auto simp: configure_def Let_def)
  note C = configure_result [OF cfg]
  obtain s where s: "make_source d w (ro_source o') = Inr (any_frame_source d w (Inl (s, 0)))" "0 < syn_width (syn_options s)"
    "0 < syn_height (syn_options s)" "syn_frame_count (syn_options s) = 0"
    using O by (cases "ss_realtime (ro_source o')") (simp_all add: make_source_def make_synthetic_def default_synthetic_options_def)
  obtain fb n m layout where E: "make_backend r d w (ro_backend o') = Inr (erase_backend r d (m_ort w) (Inl fb))"
    "spec_shape (fk_input_spec fb) = [1, 3, ?s, ?s]" "element_count (fk_input_spec fb) = Inr n" "unat n = 3 * nat ?s * nat ?s"
    "element_count (fk_output_spec fb) = Inr m" "yolo_layout_from_shape (spec_shape (fk_output_spec fb)) = Inr layout"
    "num_anchors layout * (4 + num_classes layout) = unat m" "0 < num_classes layout" "0 < num_anchors layout"
    using fake_engine_parts O by metis
  have side: "0 < ?s" "to_int32 ?s = ?s" using fake_side O by blast+
  obtain lb where lb: "make_letterboxer r ?s ?s 114 = Inr lb" using side(1) by (simp add: make_letterboxer_def)
  note LB = make_letterboxer_ok [OF lb, of d]
  obtain dec where dec: "make_decoder layout = Inr dec" "decoder_layout dec = layout" using E(8,9) by (simp add: make_decoder_def)
  have "\<exists>p. make_pipeline r (m_clock w) cfg (erase_backend r d (m_ort w) (Inl fb)) = Inr (p :: ('a any_engine, any_sink) pipeline) \<and>
      pl_letterboxer p = lb \<and> pl_decoder p = dec \<and> pl_sinks p = []"
    using O C(2,3) side
    by (simp add: make_pipeline_def input_dimension_def erase_backend_def any_input_spec_def any_output_spec_def E(2,6) lb dec(1))
  then obtain p1 :: "('a any_engine, any_sink) pipeline" where p1:
    "make_pipeline r (m_clock w) cfg (erase_backend r d (m_ort w) (Inl fb)) = Inr p1" "pl_letterboxer p1 = lb" "pl_decoder p1 = dec"
    "pl_sinks p1 = []" by blast
  note P = make_pipeline_ok [OF p1(1), of d]
  obtain ks where p2: "add_json_sink r d w o' p1 = Inr (p1\<lparr>pl_sinks := ks\<rparr>)" "json_sinks r d w ks"
  proof (cases "ro_jsonl o' = []")
    case True
    have "p1\<lparr>pl_sinks := []\<rparr> = p1" using p1(4) by (cases p1) simp
    with True show ?thesis using that [of "[]"] by (simp add: add_json_sink_def json_sinks_def)
  next
    case False
    obtain js where "make_json_lines_sink (m_opens w) (ro_jsonl o') = Inr js" using False O by (auto simp: make_json_lines_sink_def)
    then show ?thesis
      using False P by (intro that [of "[any_frame_sink r d w (Inl (js, 0))]"])
        (auto simp: add_json_sink_def add_sink_def p1(4) json_sinks_def)
  qed
  let ?p = "p1\<lparr>pl_sinks := ks\<rparr>"
  have prep: "prepare_run r d w o' = Inr (any_frame_source d w (Inl (s, 0)), ?p)"
    using O by (simp add: prepare_run_def cfg s(1) E(1) p1(1) p2(1) add_overlay_sink_def)
  have pipe: "demo_pipe r d w ?p n m"
    using P p1(2,3) p2(2) LB E(3-5,7) dec(2) by (auto simp: demo_pipe_def pl_ok_def tensor_size_def)
  have "\<not> pl_running ?p" "cfg_max_frames (pl_config ?p) = ro_max_frames o'" "configure r o' = Inr (pl_config ?p)"
    using P C(7) cfg by simp_all
  then show thesis using that [OF prep pipe _ _ s(2-4)] by blast
qed

text \<open>
  C10: a demonstration run completes. With a frame limit, the synthetic source, the fake engine and no
  overlay, the sequential run of \<open>takt_run\<close> has exactly one result: a report that counts every frame of the
  limit as captured and completed and none as dropped. Nothing throws, whatever the model size, the
  thresholds, the tracker does, the clock shows and the rounding is.
\<close>

theorem demo_run_completes:
  assumes "demo_options d w o'" "ro_sequential o'" "ro_max_frames o' \<noteq> 0" "score_sort srt" "rounds_nonneg r"
  shows "\<exists>rep p'. (\<forall>res. takt_run srt r d w (\<lambda>_. False) o' res \<longleftrightarrow> res = Inr (rep, p')) \<and>
    rep_captured rep = ro_max_frames o' \<and> rep_completed rep = ro_max_frames o' \<and> rep_dropped rep = 0"
proof -
  obtain p s n m where P: "prepare_run r d w o' = Inr (any_frame_source d w (Inl (s, 0)), p)" "demo_pipe r d w p n m" "\<not> pl_running p"
    "cfg_max_frames (pl_config p) = ro_max_frames o'" "0 < syn_width (syn_options s)" "0 < syn_height (syn_options s)"
    "syn_frame_count (syn_options s) = 0"
    by (rule demo_prepared [OF assms(1)])
  let ?src = "any_frame_source d w (Inl (s, 0))"
  have "demo_pipe r d w (p\<lparr>pl_running := True\<rparr>) n m" using P(2) by (simp add: demo_pipe_def pl_ok_def)
  from demo_begin [OF this] obtain p1 where p1: "begin_run ?src ''sequential'' (p\<lparr>pl_running := True\<rparr>) = Inr p1" "demo_pipe r d w p1 n m"
    "pl_config p1 = pl_config p" "frames_captured (pl_metrics p1) = 0" by auto
  obtain sizes where sz: "buffer_sizes p1 = Inr sizes" "input_elements sizes = n" "output_elements sizes = m"
    using p1(2) by (auto simp: demo_pipe_def buffer_sizes_def erase_backend_def any_input_spec_def any_output_spec_def)
  let ?f = "pool_frame sizes" and ?p = "p1\<lparr>clock_reads := clock_reads p1 + 1\<rparr>"
  have pool: "make_pool 1 sizes = Inr \<lparr>storage = [?f], free_frames = [0]\<rparr>" by (simp add: make_pool_eq)
  have ok: "pl_ok r d ?p" "json_sinks r d w (pl_sinks ?p)" using p1(2) by (simp_all add: demo_pipe_def pl_ok_def)
  have fit: "buffers_fit r d w ?p (length (fr_input ?f)) (length (fr_output ?f))"
    using demo_pipe_fits [OF p1(2)] sz(2,3) by (simp add: buffers_fit_def pool_frame_def)
  have lim: "unat (0 :: u64) + unat (ro_max_frames o') = unat (cfg_max_frames (pl_config ?p))" "cfg_max_frames (pl_config ?p) \<noteq> 0"
    using P(4) p1(3) assms(3) by simp_all
  obtain source' p2 where l: "sequential_loop srt r d (\<lambda>_. False) 0 0 \<lparr>storage = [?f], free_frames = [0]\<rparr> ?src ?p = Some (Inr (source', p2))"
    "frames_captured (pl_metrics p2) = ro_max_frames o'" "json_sinks r d w (pl_sinks p2)"
    using demo_loop [OF P(5-7) ok fit lim, of srt 0 0] p1(4) by auto
  obtain ks where ks: "sinks_finish (pl_sinks p2) = Inr ks" using json_sinks_finish l(3) by blast
  have "\<exists>rep p'. run_sequential srt r d (\<lambda>_. False) ?src p = Some (Inr (rep, p')) \<and> rep_captured rep = ro_max_frames o'"
    using P(3) l(1,2) p1(1) sz(1) pool by (simp add: run_sequential_def run_guard_def clock_now_def finish_run_def ks Let_def)
  then obtain rep p' where r: "run_sequential srt r d (\<lambda>_. False) ?src p = Some (Inr (rep, p'))" "rep_captured rep = ro_max_frames o'" by blast
  have pl: "pl_ok r d p" using P(2) by (simp add: demo_pipe_def)
  have "cfg_max_frames (pl_config p) \<noteq> 0 \<and> unat (ro_max_frames o') = unat (cfg_max_frames (pl_config p))" using P(4) assms(3) by simp
  from sequential_run_result [OF assms(4,5) pl P(3) disjI2 [OF this], where source = ?src and stops = "\<lambda>_. False"] r
  have "rep_completed rep = ro_max_frames o' \<and> rep_dropped rep = 0" by auto
  moreover have "takt_run srt r d w (\<lambda>_. False) o' res \<longleftrightarrow> res = Inr (rep, p')" for res
  proof
    show "res = Inr (rep, p')" if "takt_run srt r d w (\<lambda>_. False) o' res"
      using that by (rule takt_runE) (use P(1) r(1) assms(2) in auto)
    show "takt_run srt r d w (\<lambda>_. False) o' res" if "res = Inr (rep, p')"
      unfolding that by (rule takt_run.sequential [OF P(1) assms(2) r(1)])
  qed
  ultimately show ?thesis using r(2) by blast
qed

text \<open>Three frames on a side of 64 pixels, with a JSON lines file.\<close>

definition three_frames :: run_options where
  "three_frames = (default_run_options round32)\<lparr>ro_backend := default_backend_settings\<lparr>bs_fake_input := 64, bs_fake_classes := 2\<rparr>,
     ro_sequential := True, ro_max_frames := 3, ro_jsonl := ''a.jsonl''\<rparr>"

theorem demo_run_completes_witness:
  "\<exists>rep p'. takt_run sort_by_score round32 round64 tiny_machine (\<lambda>_. False) three_frames (Inr (rep, p')) \<and> rep_completed rep = 3"
proof -
  have "demo_options round64 tiny_machine three_frames"
    by (simp add: demo_options_def three_frames_def default_run_options_def default_source_settings_def parse_ingress_policy_def
        fake_sizes_ok_def backend_kind_def default_backend_settings_def fake_settings_def default_fake_options_def
        signed_divide_int_def wants_overlay_def tiny_machine_def Let_def)
  moreover have "ro_sequential three_frames" "ro_max_frames three_frames = 3" by (simp_all add: three_frames_def)
  ultimately show ?thesis
    using demo_run_completes [of round64 tiny_machine three_frames sort_by_score round32] insertion.score_sort_axioms rounds_nonneg_32 by auto
qed

end
