(* ===== verification/DemoThreads.thy ===== *)
theory DemoThreads
  imports DemoRun
begin

text \<open>
  The demonstration run with its threads: under every interleaving no stage fails, so a pipelined run of
  \<open>takt_run\<close> with the synthetic source and the fake engine ends with a report and never with an error.
\<close>

section \<open>What holds while the threads run\<close>

definition has_picture :: "frame \<Rightarrow> bool" where
  "has_picture f \<longleftrightarrow> \<not> view_empty (image_as_view (fr_image f))"

definition slot_fits :: "nat \<Rightarrow> nat \<Rightarrow> frame \<Rightarrow> bool" where
  "slot_fits N M f \<longleftrightarrow> length (fr_input f) = N \<and> length (fr_output f) = M"

definition demo_state ::
  "rounding \<Rightarrow> rounding \<Rightarrow> ('o, 'c) machine \<Rightarrow> nat \<Rightarrow> nat \<Rightarrow>
   ('o any_engine, any_sink, 'c any_source) run_state \<Rightarrow> bool"
where
  "demo_state r d w N M s \<longleftrightarrow> rs_error s = None \<and> \<not> rs_aborted s \<and>
     (\<exists>src k. rs_source s = any_frame_source d w (Inl (src, k)) \<and> 0 < syn_width (syn_options src) \<and>
        0 < syn_height (syn_options src) \<and> syn_frame_count (syn_options src) = 0) \<and>
     pl_ok r d (rs_pipe s) \<and> json_sinks r d w (pl_sinks (rs_pipe s)) \<and> buffers_fit r d w (rs_pipe s) N M \<and>
     (\<forall>i < pool_capacity (rs_pool s). slot_fits N M (storage (rs_pool s) ! i)) \<and>
     (\<forall>i \<in> set (line s). has_picture (storage (rs_pool s) ! i))"

text \<open>The pools differ in what \<open>reset\<close> clears.\<close>

definition same_slots :: "frame_pool \<Rightarrow> frame_pool \<Rightarrow> bool" where
  "same_slots p p' \<longleftrightarrow> pool_capacity p' = pool_capacity p \<and>
     (\<forall>i < pool_capacity p. \<forall>N M. slot_fits N M (storage p' ! i) = slot_fits N M (storage p ! i) \<and>
        has_picture (storage p' ! i) = has_picture (storage p ! i))"

lemma same_slots_refl [simp]: "same_slots p p"
  by (simp add: same_slots_def)

lemma reset_slot [simp]: "slot_fits N M (frame_reset f) = slot_fits N M f" "has_picture (frame_reset f) = has_picture f"
  by (simp_all add: slot_fits_def has_picture_def frame_reset_def)

lemma same_slots_recycle: "same_slots p (recycle i p)"
proof -
  have "slot_fits N M ((storage p)[i := frame_reset (storage p ! i)] ! j) = slot_fits N M (storage p ! j)"
    "has_picture ((storage p)[i := frame_reset (storage p ! i)] ! j) = has_picture (storage p ! j)" if "j < length (storage p)" for j N M
    using that by (cases "j = i"; simp)+
  then show ?thesis by (simp add: same_slots_def recycle_def pool_capacity_def Let_def)
qed

lemma same_slots_take: "take_locked p = (fp, p') \<Longrightarrow> same_slots p p'"
  by (auto simp: same_slots_def take_locked_def pool_capacity_def)

lemma same_slots_push:
  assumes "hand_off_ok ho" "hand_off_push False (Some i) ho p = (res, ho', p')"
  shows "same_slots p p'"
  by (rule push_effects [OF assms]) (auto simp: push_effect_of_def same_slots_recycle split: push_effect.splits)

lemma line_in_pool:
  assumes "run_inv r d p0 s" "i \<in> set (line s)"
  shows "i < pool_capacity (rs_pool s)"
  using pool_ok_partition(2) [of "rs_pool s" "line s @ reading s"] run_invD(1) [OF assms(1)] assms(2) by (auto simp: frames_inv_def)

text \<open>A step that computes nothing keeps the invariant.\<close>

definition pipe_same :: "('b, 'k) pipeline \<Rightarrow> ('b, 'k) pipeline \<Rightarrow> bool" where
  "pipe_same p p' \<longleftrightarrow> pl_backend p' = pl_backend p \<and> pl_letterboxer p' = pl_letterboxer p \<and> pl_decoder p' = pl_decoder p \<and>
     pl_tracker p' = pl_tracker p \<and> pl_sinks p' = pl_sinks p \<and> stages (pl_metrics p') = stages (pl_metrics p)"

lemma pipe_same_simps [simp]:
  "pipe_same p p" "pipe_same p (count_captured p)" "pipe_same p (count_dropped p)" "pipe_same p (request_stop p)"
  "pipe_same p (count_dropped (count_captured p))" "pipe_same p (p\<lparr>clock_reads := c\<rparr>)"
  by (simp_all add: pipe_same_def count_captured_def count_dropped_def request_stop_def)

lemma pipe_same_keeps:
  assumes "pipe_same p p'"
  shows "pl_ok r d p' = pl_ok r d p" "buffers_fit r d w p' N M = buffers_fit r d w p N M" "pl_sinks p' = pl_sinks p"
  using assms by (simp_all add: pipe_same_def pl_ok_def metrics_ok_def buffers_fit_def)

lemma demo_state_quiet:
  assumes "demo_state r d w N M s" "run_inv r d p0 s" "rs_error s' = rs_error s" "rs_aborted s' = rs_aborted s" "rs_source s' = rs_source s"
    and "pipe_same (rs_pipe s) (rs_pipe s')" "same_slots (rs_pool s) (rs_pool s')" "set (line s') \<subseteq> set (line s)"
  shows "demo_state r d w N M s'"
proof -
  note D = assms(1) [unfolded demo_state_def] and S = assms(7) [unfolded same_slots_def]
  have "has_picture (storage (rs_pool s') ! i)" if "i \<in> set (line s')" for i
    using that assms(8) line_in_pool [OF assms(2), of i] D S by blast
  moreover have "slot_fits N M (storage (rs_pool s') ! i)" if "i < pool_capacity (rs_pool s')" for i
    using that D S by metis
  ultimately show ?thesis
    using D by (simp add: demo_state_def assms(3-5) pipe_same_keeps [OF assms(6)])
qed

text \<open>Only a read puts a frame into the line.\<close>

lemma effect_line:
  assumes "has_effect s s' e" "reading s' = reading s \<or> reading s = []"
  shows "set (line s') \<subseteq> set (line s)"
  using assms by (cases e) (auto simp: has_effect_def)

lemma demo_read_step:
  assumes "demo_state r d w N M s" "run_inv r d p0 s" "rs_capture s = C_read i" "capture_step s = Some s'"
  shows "demo_state r d w N M s'"
proof -
  note D = assms(1) [unfolded demo_state_def]
  have i: "i < pool_capacity (rs_pool s)" "i \<notin> set (line s)"
    using pool_ok_partition(1,2) [of "rs_pool s" "line s @ reading s"] run_invD(1) [OF assms(2)] assms(3)
    by (auto simp: frames_inv_def reading_def)
  let ?f = "storage (rs_pool s) ! i"
  obtain src k where src: "rs_source s = any_frame_source d w (Inl (src, k))" "0 < syn_width (syn_options src)"
    "0 < syn_height (syn_options src)" "syn_frame_count (syn_options src) = 0" using D by blast
  obtain img src' where rd: "source_read (any_frame_source d w (Inl (src, k))) (fr_image ?f) = Inr (True, img, any_frame_source d w (Inl (src', k + 1)))"
    "syn_options src' = syn_options src" "\<not> view_empty (image_as_view img)"
    by (rule demo_read [OF src(2-4)])
  let ?g = "?f\<lparr>fr_image := img, captured_at := clock (rs_pipe s) (clock_reads (rs_pipe s)), sequence := rs_sequence s\<rparr>"
  have s': "s' = s\<lparr>rs_source := any_frame_source d w (Inl (src', k + 1)), rs_pipe := (rs_pipe s)\<lparr>clock_reads := clock_reads (rs_pipe s) + 1\<rparr>,
      rs_pool := put_frame i ?g (rs_pool s), rs_sequence := rs_sequence s + 1, rs_capture := C_push i, rs_reads := rs_reads s + 1\<rparr>"
    using assms(3,4) by (simp add: capture_step_def capture_read_def src(1) rd(1) clock_now_def Let_def)
  have "set (line s') = insert i (set (line s))"
    using assms(3) by (simp add: s' line_def pushing_def flight_def segment_def)
  moreover have "storage (rs_pool s') ! j = (if j = i then ?g else storage (rs_pool s) ! j)" for j
    using i(1) by (simp add: s' put_frame_def pool_capacity_def)
  moreover have "pool_capacity (rs_pool s') = pool_capacity (rs_pool s)" by (simp add: s' put_frame_def pool_capacity_def)
  moreover have "has_picture ?g" "slot_fits N M ?g" using rd(3) D i(1) by (simp_all add: has_picture_def slot_fits_def)
  ultimately have "(\<forall>j < pool_capacity (rs_pool s'). slot_fits N M (storage (rs_pool s') ! j)) \<and>
      (\<forall>j \<in> set (line s'). has_picture (storage (rs_pool s') ! j))"
    using D by auto
  moreover have "rs_error s' = None" "\<not> rs_aborted s'" using D by (simp_all add: s')
  moreover have "rs_source s' = any_frame_source d w (Inl (src', k + 1))" by (simp add: s')
  moreover have same: "pipe_same (rs_pipe s) (rs_pipe s')" by (simp add: s')
  moreover have "pl_ok r d (rs_pipe s')" "json_sinks r d w (pl_sinks (rs_pipe s'))" "buffers_fit r d w (rs_pipe s') N M"
    using D by (simp_all add: pipe_same_keeps [OF same])
  ultimately show ?thesis using src(2-4) rd(2) unfolding demo_state_def by metis
qed

lemma demo_capture_step:
  assumes "demo_state r d w N M s" "run_inv r d p0 s" "capture_step s = Some s'"
  shows "demo_state r d w N M s'"
proof (cases "\<exists>i. rs_capture s = C_read i")
  case True
  then show ?thesis using demo_read_step [OF assms(1,2) _ assms(3)] by blast
next
  case False
  then have nr: "reading s = []" by (auto simp: reading_def split: capture_pc.splits)
  note ok = control_invD(1) [OF run_invD(2) [OF assms(2)]]
  obtain e where "has_effect s s' e" using capture_effect [OF ok assms(3)] by blast
  from effect_line [OF this] nr have ln: "set (line s') \<subseteq> set (line s)" by simp
  have "rs_error s' = rs_error s \<and> rs_aborted s' = rs_aborted s \<and> rs_source s' = rs_source s \<and>
      pipe_same (rs_pipe s) (rs_pipe s') \<and> same_slots (rs_pool s) (rs_pool s')"
  proof (cases "rs_capture s")
    case (C_push i)
    obtain res ho pool where p: "hand_off_push False (Some i) (rs_queue s 0) (rs_pool s) = (res, ho, pool)" by (metis prod_cases3)
    have "same_slots (rs_pool s) pool" by (rule same_slots_push [OF queues_okD [OF ok] p]) simp
    then show ?thesis using assms(3) by (auto simp: capture_step_def C_push capture_push_def p Let_def split: option.splits if_splits)
  next
    case C_acquire
    then show ?thesis using assms(3)
      by (auto simp: capture_step_def acquire_def split: option.splits if_splits prod.splits intro: same_slots_take)
  qed (use assms(3) False in \<open>auto simp: capture_step_def close_queue_def Let_def\<close>)
  then show ?thesis using demo_state_quiet [OF assms(1,2)] ln by blast
qed


lemma stage_never_fails: "never_fails r d w (stage_body srt r d k)"
proof -
  have "never_fails r d w (\<lambda>p f. then_run (postprocess srt r p f) (\<lambda>(p, f). track_stage r d p f))"
    by (rule never_fails_seq [OF postprocess_never_fails track_never_fails])
  then show ?thesis
    by (simp add: stage_body_def preprocess_never_fails infer_never_fails deliver_never_fails)
qed

lemma demo_body_step:
  assumes "demo_state r d w N M s" "run_inv r d p0 s" "environment_ok srt r" "k < 4" "rs_worker s k = W_body i"
    "worker_step srt r d k s = Some s'" "set (line s') \<subseteq> set (line s)"
  shows "demo_state r d w N M s'"
proof -
  note D = assms(1) [unfolded demo_state_def]
  have "i \<in> set (flight s)" using assms(4,5) by (auto simp: flight_def segment_def four)
  then have i: "i \<in> set (line s)" by (simp add: line_def)
  note cap = line_in_pool [OF assms(2) i]
  let ?f = "storage (rs_pool s) ! i"
  have slot: "length (fr_input ?f) = N" "length (fr_output ?f) = M" using D cap by (auto simp: slot_fits_def)
  have "demo_ok r d w (rs_pipe s) ?f" using D i slot by (auto simp: demo_ok_def has_picture_def)
  then obtain p g where b: "stage_body srt r d k (rs_pipe s) ?f = Some (Inr (p, g))" "demo_ok r d w p g" "demo_keeps (rs_pipe s) ?f p g"
    by (rule never_failsD [OF stage_never_fails])
  have g: "slot_fits N M g" "has_picture g" using b(2,3) slot by (simp_all add: slot_fits_def has_picture_def demo_keeps_def demo_ok_def)
  have pipe: "pl_ok r d p" "json_sinks r d w (pl_sinks p)" "buffers_fit r d w p N M"
    using b(2,3) slot by (simp_all add: demo_ok_def demo_keeps_def)
  have s': "rs_pipe s' = p \<and> rs_error s' = rs_error s \<and> rs_aborted s' = rs_aborted s \<and> rs_source s' = rs_source s \<and>
      same_slots (put_frame i g (rs_pool s)) (rs_pool s')"
    using assms(6) D same_slots_recycle
    by (auto simp: worker_step_def assms(5) worker_body_def b(1) Let_def set_worker_def frame_recycler_def split: if_splits)
  have put: "storage (put_frame i g (rs_pool s)) ! j = (if j = i then g else storage (rs_pool s) ! j)"
    "pool_capacity (put_frame i g (rs_pool s)) = pool_capacity (rs_pool s)" for j
    using cap by (simp_all add: put_frame_def pool_capacity_def)
  have pool: "pool_capacity (rs_pool s') = pool_capacity (rs_pool s)"
    "\<And>j. j < pool_capacity (rs_pool s) \<Longrightarrow> slot_fits N M (storage (rs_pool s') ! j) = slot_fits N M (if j = i then g else storage (rs_pool s) ! j)"
    "\<And>j. j < pool_capacity (rs_pool s) \<Longrightarrow> has_picture (storage (rs_pool s') ! j) = has_picture (if j = i then g else storage (rs_pool s) ! j)"
    using s' put by (simp_all add: same_slots_def)
  have "has_picture (storage (rs_pool s') ! j)" if "j \<in> set (line s')" for j
    using that assms(7) line_in_pool [OF assms(2), of j] pool(3) [of j] D g(2) by auto
  moreover have "slot_fits N M (storage (rs_pool s') ! j)" if "j < pool_capacity (rs_pool s')" for j
    using that pool(1,2) D g(1) by auto
  ultimately show ?thesis using D s' pipe unfolding demo_state_def by simp
qed

lemma demo_worker_step:
  assumes "demo_state r d w N M s" "run_inv r d p0 s" "environment_ok srt r" "k < 4" "worker_step srt r d k s = Some s'"
  shows "demo_state r d w N M s'"
proof -
  have ctl: "control_inv s" and pl: "pl_ok r d (rs_pipe s)" using assms(2) by (simp_all add: run_inv_def work_inv_def pipe_inv_def)
  note ok = control_invD(1) [OF ctl]
  have "worker_frames (rs_worker s 3) = [] \<or> rs_worker s 3 = W_body (hd (worker_frames (rs_worker s 3)))"
    by (cases "rs_worker s 3") (use control_invD(2) [OF ctl] in auto)
  from worker_effect [OF ok assms(3) pl assms(4,5) this] obtain e where e: "has_effect s s' e" by blast
  have cap: "rs_capture s' = rs_capture s"
    using assms(5) by (auto simp: worker_step_def worker_pop_def worker_body_def worker_push_def set_worker_def close_queue_def
        abort_run_def Let_def split: worker_pc.splits option.splits if_splits prod.splits sum.splits)
  then have "reading s' = reading s" by (simp add: reading_def)
  with effect_line [OF e] have ln: "set (line s') \<subseteq> set (line s)" by blast
  show ?thesis
  proof (cases "\<exists>i. rs_worker s k = W_body i")
    case True
    then show ?thesis using demo_body_step [OF assms(1-4) _ assms(5) ln] by blast
  next
    case False
    have "rs_error s' = rs_error s \<and> rs_aborted s' = rs_aborted s \<and> rs_source s' = rs_source s \<and>
        pipe_same (rs_pipe s) (rs_pipe s') \<and> same_slots (rs_pool s) (rs_pool s')"
    proof (cases "rs_worker s k")
      case (W_push i)
      have "k \<noteq> 3" using W_push control_invD(2) [OF ctl, of i] by auto
      then have k: "k + 1 < 4" using assms(4) by simp
      obtain res ho pool where p: "hand_off_push False (Some i) (rs_queue s (k + 1)) (rs_pool s) = (res, ho, pool)" by (metis prod_cases3)
      have "same_slots (rs_pool s) pool" by (rule same_slots_push [OF queues_okD [OF ok k] p])
      then show ?thesis by (rule_tac worker_push_result [OF assms(5) W_push p]) (simp add: set_worker_def)
    qed (use assms(5) False in \<open>auto simp: worker_step_def worker_pop_def set_worker_def close_queue_def Let_def
        split: option.splits if_splits prod.splits\<close>)
    then show ?thesis using demo_state_quiet [OF assms(1,2)] ln by blast
  qed
qed


lemma demo_run_step:
  assumes "demo_state r d w N M s" "run_inv r d p0 s" "environment_ok srt r" "run_step srt r d s s'"
  shows "demo_state r d w N M s'"
proof -
  obtain a where a: "run_act srt r d a s = Some s'" using assms(4) by (rule run_stepE)
  show ?thesis
  proof (cases a)
    case Capture
    then show ?thesis using a demo_capture_step [OF assms(1,2)] by simp
  next
    case (Worker k)
    then show ?thesis using a demo_worker_step [OF assms(1-3)] by (simp split: if_splits)
  next
    case Close_next
    then obtain j js where c: "rs_closing s = j # js" "s' = close_queue j (s\<lparr>rs_closing := js\<rparr>)" using a by (auto split: list.splits)
    note ctl = run_invD(2) [OF assms(2)]
    have "j < 4" using control_invD(3) [OF ctl] c(1) by simp
    then have "queued (rs_queue s' i) = queued (rs_queue s i)" for i
      using close_effects(5) [OF queues_okD [OF control_invD(1) [OF ctl]]] c(2) by simp
    then have "line s' = line s" by (simp add: line_def pushing_def flight_def segment_def c(2) del: close_queue_sel(3))
    then show ?thesis by (intro demo_state_quiet [OF assms(1,2)]) (simp_all add: c(2) close_queue_def)
  next
    case Stop_request
    then have "s' = s\<lparr>rs_pipe := request_stop (rs_pipe s), rs_closing := rs_closing s @ [0]\<rparr>" using a by (simp split: if_splits)
    then show ?thesis by (intro demo_state_quiet [OF assms(1,2)]) (simp_all add: line_def pushing_def flight_def segment_def)
  qed
qed

lemma demo_reachable:
  assumes "(run_step srt r d)\<^sup>*\<^sup>* s0 s" "demo_state r d w N M s0" "run_inv r d p0 s0" "environment_ok srt r"
  shows "demo_state r d w N M s"
  using assms(1)
proof induction
  case (step s1 s2)
  then show ?case using demo_run_step [OF _ run_reachable_inv [OF step(1) assms(3,4)] assms(4)] by blast
qed (rule assms(2))

section \<open>From the options to the report\<close>

lemma demo_enters:
  assumes "demo_pipe r d w p n m" "\<not> pl_running p" "0 < syn_width (syn_options src)" "0 < syn_height (syn_options src)"
    and "syn_frame_count (syn_options src) = 0" "capacities_ok (pl_config p)" "pool_size (pl_config p) \<noteq> 0"
  obtains started s0 where "enter_run (any_frame_source d w (Inl (src, 0))) p = Inr (started, s0)" "demo_state r d w (unat n) (unat m) s0"
proof -
  let ?src = "any_frame_source d w (Inl (src, 0))"
  have "demo_pipe r d w (p\<lparr>pl_running := True\<rparr>) n m" using assms(1) by (simp add: demo_pipe_def pl_ok_def)
  from demo_begin [OF this] obtain p1 where p1: "begin_run ?src ''pipelined'' (p\<lparr>pl_running := True\<rparr>) = Inr p1" "demo_pipe r d w p1 n m"
    "pl_config p1 = pl_config p" by auto
  obtain sizes where sz: "buffer_sizes p1 = Inr sizes" "input_elements sizes = n" "output_elements sizes = m"
    using p1(2) by (auto simp: demo_pipe_def buffer_sizes_def erase_backend_def any_input_spec_def any_output_spec_def)
  let ?pool = "\<lparr>storage = replicate (unat (pool_size (pl_config p))) (pool_frame sizes), free_frames = [0..<unat (pool_size (pl_config p))]\<rparr>"
  let ?s = "\<lparr>rs_pipe = p1\<lparr>clock_reads := clock_reads p1 + 1\<rparr>, rs_source = ?src, rs_pool = ?pool, rs_queue = make_queues (pl_config p1),
    rs_capture = C_test, rs_worker = (\<lambda>_. W_pop), rs_sequence = 0, rs_error = None, rs_aborted = False, rs_closing = [],
    rs_delivered = [], rs_reads = 0\<rparr>"
  have "make_pool (pool_size (pl_config p1)) sizes = Inr ?pool" using assms(7) p1(3) by (simp add: make_pool_eq word_gt_0)
  then have enter: "enter_run ?src p = Inr (clock p1 (clock_reads p1), ?s)"
    using assms(2) p1(1) sz(1) by (simp add: enter_run_def start_run_def clock_now_def)
  have line: "line ?s = []"
    using make_queues_ok(2) [of "pl_config p1"] assms(6) p1(3) by (simp add: line_def pushing_def flight_def segment_def)
  have "pl_ok r d (rs_pipe ?s)" "json_sinks r d w (pl_sinks (rs_pipe ?s))" using p1(2) by (simp_all add: demo_pipe_def pl_ok_def)
  moreover have "buffers_fit r d w (rs_pipe ?s) (unat n) (unat m)" using demo_pipe_fits [OF p1(2)] by (simp add: buffers_fit_def)
  moreover have "slot_fits (unat n) (unat m) (pool_frame sizes)" by (simp add: slot_fits_def pool_frame_def sz(2,3))
  ultimately have "demo_state r d w (unat n) (unat m) ?s"
    using assms(3-5) line unfolding demo_state_def by (auto simp: pool_capacity_def)
  with enter show thesis by (rule that)
qed

lemma demo_leaves:
  assumes "demo_state r d w N M s"
  shows "\<exists>rep p'. leave_run d started s = Inr (rep, p')"
proof -
  obtain ks where "sinks_finish (pl_sinks (rs_pipe s)) = Inr ks" using json_sinks_finish [of r d w "pl_sinks (rs_pipe s)"] assms by (auto simp: demo_state_def)
  then show ?thesis using assms by (simp add: demo_state_def leave_run_def finish_run_def clock_now_def Let_def)
qed


text \<open>Three frames through the threads, the lossless policy.\<close>

definition three_piped :: run_options where
  "three_piped = three_frames\<lparr>ro_sequential := False, ro_policy := ''block''\<rparr>"


end
