(* ===== verification/Spec2Isabelle.thy ===== *)
theory Spec2Isabelle
  imports DemoThreads
begin

text \<open>
  A model of takt-vision, a real-time vision pipeline: a camera is captured, each picture is
  preprocessed into a tensor, an inference engine turns it into a raw detection head, the head is
  decoded and filtered, objects are tracked, and sinks consume the finished frames. Each stage has
  its own thread; the threads hand frames on through bounded lock-free queues.

  \<^bold>\<open>Theories and sources.\<close> Paths are relative to \<open>src\<close>; \<open>X.hpp\<close> is under \<open>include/takt\<close> and \<open>X.cpp\<close> under \<open>src\<close>.
  \<^item> \<open>Prelude\<close>: words, errors (\<open>takt_error\<close>, one constructor per exception type), error results, decimal
    texts, \<open>bit_width\<close> and \<open>bit_ceil\<close>. \<open>FloatModel\<close>: floating point as reals with a rounding function; locales
    \<open>float_rounding\<close>, \<open>precise_rounding\<close>, \<open>single_rounding\<close>, \<open>double_rounding\<close>, interpreted on IEEE round-to-nearest
    (\<open>round32\<close>, \<open>round64\<close>) and on exact arithmetic. \<open>Waiter\<close>: the parking protocol of \<open>std::atomic::wait\<close>.
  \<^item> \<open>SpscRing\<close> (\<open>core/spsc_ring.hpp\<close>), \<open>LatestSlot\<close> (\<open>core/latest_slot.hpp\<close>): the queue and the mailbox, as
    sequential operations and as step relations of their threads, one atomic access per step.
    \<open>SpscRing\<close> declares the locale \<open>bounded_fifo\<close> and interprets it on the ring.
  \<^item> \<open>LatencyHistogram\<close> (\<open>core/latency_histogram\<close>), \<open>ImageBuf\<close> (\<open>core/image\<close>), \<open>Detection\<close>, \<open>Nms\<close>, \<open>YoloDecoder\<close>, \<open>Letterbox\<close>
    (\<open>vision/\<close>): each operation as a function. \<open>Nms\<close> has the locale \<open>score_sort\<close> for what \<open>std::sort\<close> promises.
  \<^item> \<open>SmallMatrix\<close>, \<open>KalmanFilter\<close>, \<open>LinearAssignment\<close>, \<open>ByteTracker\<close> (\<open>track/\<close>): matrices, the filter, the
    Hungarian solver and the tracker. \<open>LinearAssignment\<close> has the locale \<open>assignment_solver\<close>, on which the tracker rests.
  \<^item> \<open>FramePool\<close>, \<open>HandOff\<close>, \<open>Metrics\<close>, \<open>Pipeline\<close>, \<open>PipelineRun\<close>, \<open>RunProgress\<close> (\<open>pipeline/\<close>): frames and their free
    list; the hand-off policies over ring and mailbox; counters and reports; the pipeline object with
    its stages, the beginning and the end of a run and the sequential run; the pipelined run as a
    step relation of capture thread, four stage threads, sink thread, pool and stop requests; its
    invariant, progress and termination.
  \<^item> \<open>InferBackend\<close> (\<open>infer/backend\<close>, \<open>infer/fake_backend\<close>), \<open>OnnxBackend\<close> (\<open>infer/onnx_backend\<close>): tensor
    specifications and the two engines; the locale \<open>inference_engine\<close> states what the pipeline needs of an
    engine and is interpreted on both, and in \<open>AppSupport\<close> on the type-erased choice between them.
  \<^item> \<open>Sources\<close> (\<open>io/synthetic_source\<close>), \<open>CameraSource\<close> (\<open>io/opencv_source\<close>): the two frame sources.
    \<open>JsonLinesSink\<close> (\<open>io/json_lines_sink\<close>), \<open>Overlay\<close> (\<open>io/overlay\<close>), \<open>OverlaySink\<close> (\<open>io/overlay_sink\<close>): the sinks.
    \<open>JsonText\<close>: a JSON reader written for the proofs, against which every JSON text is checked.
  \<^item> \<open>AppSupport\<close>, \<open>TaktRun\<close>, \<open>TaktBench\<close> (\<open>apps/\<close>): engine and source from the settings, the program that runs
    the pipeline, and the per-stage benchmark. All they run on is the record \<open>machine\<close>.
  \<^item> \<open>DemoRun\<close>, \<open>DemoThreads\<close>: the program on its own parts (synthetic source, fake engine, JSON lines), where
    nothing can fail: total correctness of the sequential and of the pipelined run.

  \<^bold>\<open>How state and effects are represented.\<close> A class is a record, a method a function that returns the
  updated record; a method that may throw returns \<open>takt_error + 'a\<close>. A buffer is a list of its size. A
  \<open>float\<close> operation is the real operation followed by the rounding \<open>r\<close>, a \<open>double\<close> operation by \<open>d\<close>;
  64-bit counters are words. Clocks, \<open>waitKey\<close> and reads of live metrics are streams of results. What
  OpenCV draws is the list of draw calls; what the overlay sink does outside is its list of effects.

  \<^bold>\<open>What is shown.\<close>
  \<^item> Concurrency: under every interleaving the ring loses, duplicates and reorders nothing and no two
    threads touch one slot; the mailbox conserves its publications and a take gets the last of them; no wakeup is lost. The whole pipeline
    delivers each completed frame once, is never stuck while a run lasts, and with a limit of \<open>n\<close> frames
    is over after at most \<open>16 n + 42\<close> steps of its threads; the derived pool never makes the capture wait.
  \<^item> Total correctness: on the synthetic source and the fake engine no stage, buffer or sink can fail, so
    the sequential run completes every frame of its limit, and every interleaving of the pipelined run
    ends with a report.
  \<^item> Functions: suppression is the greedy reference, the decoder reports exactly the confident anchors,
    the letterbox fills every cell, the solver is optimal, the tracker keeps its invariant and its
    identities, percentiles are within 1/64, the synthetic picture is the painted scene, an OpenCV
    source plays its pictures in order, trails do not depend on the order of the hash map.
  \<^item> Errors and bounds: shapes and element counts of both engines are static and fit the buffers.
  \<^item> Texts: run reports and the JSON lines read back as the documents they stand for; the file that
    \<open>takt_run\<close> leaves has one line for each completed frame of its report, in either mode.
  \<^item> Four flaws are proved as theorems: an element pushed while the ring is closed can be stranded, a
    stop request before the run begins is forgotten, the benchmark does not escape its strings, and a small fake head is read transposed.

  \<^bold>\<open>Bounds and fuel.\<close> Ring capacities are at most \<open>2 ^ 63\<close> (\<open>bit_ceil\<close> of a larger number does not exist); the
  theorem on the derived pool size takes capacities up to \<open>2 ^ 60\<close>, so that their sum does not wrap. The JSON
  reader has the length of the text as its fuel: each nesting level uses a character. The
  sequential run without a limit on a source without an end does not return: it is \<open>None\<close> unless a
  stop request comes. Every other loop is structural or has a measure.

  \<^bold>\<open>Parameters.\<close> OpenCV, ONNX Runtime, the mathematical library, the drawing functions, the file system and
  \<open>std::sort\<close> are arguments; a hypothesis on one of them (\<open>fills_tensors\<close>, \<open>plays\<close>, \<open>score_sort\<close>, \<open>permutes_keys\<close>,
  the rounding locales) states its documented behaviour and is met by a concrete instance in a witness.

  \<^bold>\<open>Not modelled.\<close> Infinities and NaN, and the overflow of signed counters in the tracker; memory orderings
  weaker than sequential consistency; allocation and capacities of vectors (\<open>reserve_image_bytes\<close>); the
  declaration of command line options; \<open>bench/microbench.cpp\<close>, which times operations that are modelled; tests, scripts and the build.
\<close>

end
